(* ===== verification/Wire.thy ===== *)
theory Wire
  imports Prelude
begin

text \<open>
  Byte-level encodings: \<open>to_be_bytes\<close> and \<open>from_be_bytes\<close> of Rust's integers, ASCII literals,
  and the well-formed UTF-8 sequences that \<open>String::from_utf8\<close> accepts. The two locales state
  what a component relies on when it concatenates encodings: a fixed-width codec is a
  bijection with the byte strings of its width, and a prefix-free encoder can be peeled off
  the front of a longer string.
\<close>

subsection \<open>Big-endian numbers\<close>

fun be_nat :: "nat \<Rightarrow> nat \<Rightarrow> bytes" where
  "be_nat 0 k = []"
| "be_nat (Suc n) k = word_of_nat (k div 256 ^ n) # be_nat n k"

fun nat_be :: "bytes \<Rightarrow> nat" where
  "nat_be [] = 0"
| "nat_be (b # bs) = unat b * 256 ^ length bs + nat_be bs"

lemma length_be_nat [simp]: "length (be_nat n k) = n"
  by (induction n) auto

lemma nat_be_less: "nat_be bs < 256 ^ length bs"
proof (induction bs)
  case (Cons b bs)
  have "unat b < 256" using unat_less_exp [of b] by simp
  then have "unat b * 256 ^ length bs \<le> 255 * 256 ^ length bs" by (intro mult_right_mono) auto
  with Cons.IH have "unat b * 256 ^ length bs + nat_be bs < 256 * 256 ^ length bs" by linarith
  then show ?case by simp
qed simp

lemma nat_be_be_nat: "nat_be (be_nat n k) = k mod 256 ^ n"
proof (induction n)
  case (Suc n)
  have "k mod 256 ^ Suc n = k div 256 ^ n mod 256 * 256 ^ n + k mod 256 ^ n"
    using mod_mult2_eq [of k "256 ^ n" 256] by (simp add: mult.commute)
  with Suc.IH show ?case by (simp add: unsigned_of_nat take_bit_eq_mod)
qed simp

lemma div_power_mod: "x div 256 ^ n mod 256 = x mod 256 ^ Suc n div 256 ^ n"
  for x :: nat
  using mod_mult2_eq [of x "256 ^ n" 256] by (simp add: mult.commute)

lemma mod_power_Suc: "x mod 256 ^ Suc n mod 256 ^ n = x mod 256 ^ n"
  for x :: nat
  by (simp add: mod_mod_cancel)

lemma be_nat_cong: "k mod 256 ^ n = l mod 256 ^ n \<Longrightarrow> be_nat n k = be_nat n l"
proof (induction n)
  case (Suc n)
  have "k mod 256 ^ n = l mod 256 ^ n"
    using arg_cong [OF Suc.prems, of "\<lambda>x. x mod 256 ^ n"] unfolding mod_power_Suc .
  moreover have "k div 256 ^ n mod 256 = l div 256 ^ n mod 256"
    unfolding div_power_mod Suc.prems ..
  then have "(word_of_nat (k div 256 ^ n) :: u8) = word_of_nat (l div 256 ^ n)"
    by (simp add: word_of_nat_eq_iff take_bit_eq_mod)
  ultimately show ?case using Suc.IH by simp
qed simp

lemma be_nat_nat_be [simp]: "be_nat (length bs) (nat_be bs) = bs"
proof (induction bs)
  case (Cons b bs)
  have "be_nat (length bs) (unat b * 256 ^ length bs + nat_be bs) = be_nat (length bs) (nat_be bs)"
    by (rule be_nat_cong) simp
  moreover have "(unat b * 256 ^ length bs + nat_be bs) div 256 ^ length bs = unat b"
    using nat_be_less [of bs] by simp
  ultimately show ?case using Cons.IH by simp
qed simp

definition to_be_bytes :: "'a::len word \<Rightarrow> bytes" where
  "to_be_bytes w = be_nat (LENGTH('a) div 8) (unat w)"

definition from_be_bytes :: "bytes \<Rightarrow> 'a::len word" where
  "from_be_bytes bs = word_of_nat (nat_be bs)"

definition from_le_bytes :: "bytes \<Rightarrow> 'a::len word" where
  "from_le_bytes bs = word_of_nat (nat_be (rev bs))"

lemma length_to_be_bytes [simp]: "length (to_be_bytes w) = LENGTH('a) div 8"
  for w :: "'a::len word"
  by (simp add: to_be_bytes_def)

lemma byte_power:
  assumes "8 dvd n"
  shows "256 ^ (n div 8) = (2 :: nat) ^ n"
proof -
  have "(256 :: nat) ^ (n div 8) = 2 ^ (8 * (n div 8))" by (simp add: power_mult)
  with assms show ?thesis by simp
qed

lemma from_be_to_be:
  assumes "8 dvd LENGTH('a::len)"
  shows "from_be_bytes (to_be_bytes w) = (w :: 'a word)"
  using unat_less_exp [of w]
  by (simp add: from_be_bytes_def to_be_bytes_def nat_be_be_nat byte_power [OF assms])

lemma to_be_from_be:
  assumes "8 dvd LENGTH('a::len)" and len: "length bs = LENGTH('a) div 8"
  shows "to_be_bytes (from_be_bytes bs :: 'a word) = bs"
proof -
  have "nat_be bs < 2 ^ LENGTH('a)"
    using nat_be_less [of bs] byte_power [OF assms(1)] len by simp
  then have "unat (word_of_nat (nat_be bs) :: 'a word) = nat_be bs"
    by (simp add: unsigned_of_nat take_bit_eq_mod)
  moreover have "be_nat (LENGTH('a) div 8) (nat_be bs) = bs"
    by (simp flip: len)
  ultimately show ?thesis by (simp add: from_be_bytes_def to_be_bytes_def)
qed

subsection \<open>Strings\<close>

definition str :: "string \<Rightarrow> rstring" where
  "str s = map of_char s"

lemma length_str [simp]: "length (str s) = length s"
  by (simp add: str_def)

definition utf8_cont :: "u8 \<Rightarrow> bool" where
  "utf8_cont b \<longleftrightarrow> 0x80 \<le> b \<and> b \<le> 0xBF"

definition utf8_lead3 :: "u8 \<Rightarrow> u8 \<Rightarrow> bool" where
  "utf8_lead3 b c \<longleftrightarrow>
     b = 0xE0 \<and> 0xA0 \<le> c \<and> c \<le> 0xBF \<or>
     (0xE1 \<le> b \<and> b \<le> 0xEC \<or> b = 0xEE \<or> b = 0xEF) \<and> utf8_cont c \<or>
     b = 0xED \<and> 0x80 \<le> c \<and> c \<le> 0x9F"

definition utf8_lead4 :: "u8 \<Rightarrow> u8 \<Rightarrow> bool" where
  "utf8_lead4 b c \<longleftrightarrow>
     b = 0xF0 \<and> 0x90 \<le> c \<and> c \<le> 0xBF \<or>
     0xF1 \<le> b \<and> b \<le> 0xF3 \<and> utf8_cont c \<or>
     b = 0xF4 \<and> 0x80 \<le> c \<and> c \<le> 0x8F"

text \<open>The byte strings \<open>String::from_utf8\<close> accepts: the well-formed UTF-8 sequences.\<close>

fun utf8_valid :: "bytes \<Rightarrow> bool" where
  "utf8_valid [] = True"
| "utf8_valid (b # bs) =
     (if b < 0x80 then utf8_valid bs
      else (case bs of
          [] \<Rightarrow> False
        | b1 # r1 \<Rightarrow>
            if 0xC2 \<le> b \<and> b \<le> 0xDF \<and> utf8_cont b1 then utf8_valid r1
            else (case r1 of
                [] \<Rightarrow> False
              | b2 # r2 \<Rightarrow>
                  if utf8_lead3 b b1 \<and> utf8_cont b2 then utf8_valid r2
                  else (case r2 of
                      [] \<Rightarrow> False
                    | b3 # r3 \<Rightarrow>
                        utf8_lead4 b b1 \<and> utf8_cont b2 \<and> utf8_cont b3 \<and> utf8_valid r3))))"

lemma utf8_valid_ascii: "(\<And>b. b \<in> set bs \<Longrightarrow> b < 0x80) \<Longrightarrow> utf8_valid bs"
  by (induction bs) auto

definition from_utf8 :: "bytes \<Rightarrow> rstring option" where
  "from_utf8 bs = (if utf8_valid bs then Some bs else None)"

definition is_ascii_alphanumeric :: "u8 \<Rightarrow> bool" where
  "is_ascii_alphanumeric b \<longleftrightarrow>
     48 \<le> b \<and> b \<le> 57 \<or> 65 \<le> b \<and> b \<le> 90 \<or> 97 \<le> b \<and> b \<le> 122"

text \<open>The bytes of an identifier: an ASCII letter or digit, a dot, an underscore or a dash.\<close>

definition identifier_byte :: "u8 \<Rightarrow> bool" where
  "identifier_byte b \<longleftrightarrow> is_ascii_alphanumeric b \<or> b = 46 \<or> b = 95 \<or> b = 45"

lemma identifier_byte_ascii: "identifier_byte b \<Longrightarrow> b < 0x80"
  unfolding identifier_byte_def is_ascii_alphanumeric_def by (auto simp: word_less_nat_alt word_le_nat_alt)

lemma utf8_valid_identifier: "list_all identifier_byte bs \<Longrightarrow> utf8_valid bs"
  by (rule utf8_valid_ascii) (auto simp: list_all_iff identifier_byte_ascii)

lemma identifier_no_colon: "list_all identifier_byte bs \<Longrightarrow> 58 \<notin> set bs"
  by (auto simp: list_all_iff identifier_byte_def is_ascii_alphanumeric_def)

subsection \<open>Interfaces of encoders\<close>

text \<open>
  What the canonical byte strings of the repository rely on: an encoder whose output can be
  read off the front of any longer byte string in one way only.
\<close>

locale prefix_codec =
  fixes enc :: "'a \<Rightarrow> bytes" and wf :: "'a \<Rightarrow> bool"
  assumes prefix_free: "wf x \<Longrightarrow> wf y \<Longrightarrow> enc x @ r = enc y @ s \<Longrightarrow> x = y \<and> r = s"
begin

lemma enc_append_iff: "wf x \<Longrightarrow> wf y \<Longrightarrow> enc x @ r = enc y @ s \<longleftrightarrow> x = y \<and> r = s"
  using prefix_free by blast

lemma enc_inj: "wf x \<Longrightarrow> wf y \<Longrightarrow> enc x = enc y \<Longrightarrow> x = y"
  using prefix_free [of x y "[]" "[]"] by simp

lemma enc_list_append:
  "length xs = length ys \<Longrightarrow> list_all wf xs \<Longrightarrow> list_all wf ys \<Longrightarrow>
   concat (map enc xs) @ r = concat (map enc ys) @ s \<longleftrightarrow> xs = ys \<and> r = s"
  by (induction xs ys arbitrary: r s rule: list_induct2) (auto simp: enc_append_iff)

end

text \<open>A codec of fixed width: a bijection with the byte strings of that width.\<close>

locale fixed_codec =
  fixes enc :: "'a \<Rightarrow> bytes" and dec :: "bytes \<Rightarrow> 'a" and width :: nat
  assumes enc_width: "length (enc x) = width"
    and dec_enc: "dec (enc x) = x"
    and enc_dec: "length bs = width \<Longrightarrow> enc (dec bs) = bs"
begin

lemma dec_take: "dec (take width (enc x @ r)) = x"
  by (simp add: enc_width dec_enc)

lemma split_enc:
  assumes "width \<le> length bs"
  obtains x r where "bs = enc x @ r" and "take width bs = enc x" and "drop width bs = r"
proof
  have "enc (dec (take width bs)) = take width bs" using assms by (intro enc_dec) simp
  then show "take width bs = enc (dec (take width bs))" and
    "bs = enc (dec (take width bs)) @ drop width bs" by simp_all
qed simp

end

sublocale fixed_codec \<subseteq> prefix_codec enc "\<lambda>_. True"
proof
  fix x y r s
  assume eq: "enc x @ r = enc y @ s"
  then have "enc x = enc y" and "r = s" by (simp_all add: enc_width)
  then show "x = y \<and> r = s" by (metis dec_enc)
qed

interpretation w16: fixed_codec "to_be_bytes :: u16 \<Rightarrow> bytes" from_be_bytes 2
  by unfold_locales (simp_all add: from_be_to_be to_be_from_be)

interpretation w32: fixed_codec "to_be_bytes :: u32 \<Rightarrow> bytes" from_be_bytes 4
  by unfold_locales (simp_all add: from_be_to_be to_be_from_be)

interpretation w64: fixed_codec "to_be_bytes :: u64 \<Rightarrow> bytes" from_be_bytes 8
  by unfold_locales (simp_all add: from_be_to_be to_be_from_be)

lemma to_be_bytes_eq_iff [simp]:
  "to_be_bytes (a :: u16) = to_be_bytes b \<longleftrightarrow> a = b"
  "to_be_bytes (c :: u32) = to_be_bytes d \<longleftrightarrow> c = d"
  "to_be_bytes (e :: u64) = to_be_bytes f \<longleftrightarrow> e = f"
  by (metis w16.dec_enc w32.dec_enc w64.dec_enc)+

lemmas be_codec_simps [codec_simps] =
  w16.dec_enc w32.dec_enc w64.dec_enc

text \<open>A byte string behind its length, as the hashed and signed transcripts write it.\<close>

definition field_bytes :: "bytes \<Rightarrow> bytes" where
  "field_bytes bs = to_be_bytes (word_of_nat (length bs) :: u64) @ bs"

interpretation fld: prefix_codec field_bytes "\<lambda>bs. length bs < 2 ^ 64"
proof
  fix x y r s :: bytes
  assume x: "length x < 2 ^ 64" and y: "length y < 2 ^ 64"
    and eq: "field_bytes x @ r = field_bytes y @ s"
  then have len: "(word_of_nat (length x) :: u64) = word_of_nat (length y)"
    and rest: "x @ r = y @ s"
    by (auto simp: field_bytes_def)
  from len have "unat (word_of_nat (length x) :: u64) = unat (word_of_nat (length y) :: u64)"
    by simp
  with x y have "length x = length y" by (simp add: unsigned_of_nat take_bit_eq_mod)
  with rest show "x = y \<and> r = s" by simp
qed

end
