(* ===== verification/Multihop.thy ===== *)
theory Multihop
  imports Wire
begin

text \<open>
  The multi-hop envelope of the relay backbone (\<open>crates/ipars-relay/src/multihop.rs\<close>): the
  validated envelope, its only wire representation, the offset-based frame reader, and the
  hop-by-hop consumption of the relay path. The lemmas show that encoder and decoder are
  inverse to each other on the accepted frames, that an accepted envelope is loop free, and
  that the path is consumed in its order and in no other.
\<close>

type_synonym node_id = rstring

subsection \<open>Constants and errors\<close>

definition MULTIHOP_FRAME_VERSION :: u8 where [simp]: "MULTIHOP_FRAME_VERSION = 2"
definition MULTIHOP_PATH_ID_BYTES :: nat where [simp]: "MULTIHOP_PATH_ID_BYTES = 16"
definition MAX_MULTIHOP_NODE_ID_BYTES :: nat where [simp]: "MAX_MULTIHOP_NODE_ID_BYTES = 128"
definition MAX_MULTIHOP_PATH_NODES :: nat where [simp]: "MAX_MULTIHOP_PATH_NODES = 512"
definition MAX_MULTIHOP_PAYLOAD_BYTES :: nat where [simp]: "MAX_MULTIHOP_PAYLOAD_BYTES = 65000"
definition MAX_MULTIHOP_FRAME_BYTES :: nat where [simp]: "MAX_MULTIHOP_FRAME_BYTES = 65507"
definition MULTIHOP_FRAME_MAGIC :: bytes where "MULTIHOP_FRAME_MAGIC = str ''IPARS-MH''"
definition FIXED_HEADER_BYTES :: nat where
  [simp]: "FIXED_HEADER_BYTES = 8 + 1 + 1 + 8 + 16 + 8 + 2 + 2 + 2 + 1 + 2 + 2 + 4"

lemma length_multihop_magic [simp]: "length MULTIHOP_FRAME_MAGIC = 8"
  by (simp add: MULTIHOP_FRAME_MAGIC_def)

datatype multihop_codec_error =
    MalformedFrame
  | UnsupportedVersion u8
  | NonCanonicalFrame
  | TrailingBytes
  | FrameTooLarge
  | InvalidNodeId
  | InvalidPath
  | PathTooLong
  | InvalidPathId
  | ExpiredFrame
  | StaleTopologyEpoch
  | LoopDetected
  | UnexpectedHop
  | RouteComplete
  | PayloadUnavailable

record multi_hop_envelope =
  mh_topology_epoch :: u64
  mh_path_id :: bytes
  mh_sequence :: u64
  mh_hop_index :: u16
  mh_hop_limit :: u16
  mh_source :: node_id
  mh_destination :: node_id
  mh_path :: "node_id list"
  mh_opaque_payload :: bytes

subsection \<open>Node identifiers\<close>

definition validate_declared_node_length :: "nat \<Rightarrow> multihop_codec_error + unit" where
  "validate_declared_node_length n =
     (if n = 0 then Inl InvalidNodeId
      else if n > MAX_MULTIHOP_NODE_ID_BYTES then Inl FrameTooLarge
      else Inr ())"

definition validate_node_id :: "node_id \<Rightarrow> multihop_codec_error + unit" where
  "validate_node_id node =
     and_then (validate_declared_node_length (length node)) (\<lambda>_.
       if node = str ''.'' \<or> node = str ''..'' \<or> take 1 node = str ''-'' \<or>
          \<not> list_all identifier_byte node
       then Inl InvalidNodeId else Inr ())"

definition decode_node_id :: "bytes \<Rightarrow> multihop_codec_error + node_id" where
  "decode_node_id bs =
     and_then (ok_or (from_utf8 bs) MalformedFrame) (\<lambda>node.
       and_then (validate_node_id node) (\<lambda>_. Inr node))"

text \<open>The identifiers the codec lets through, as a predicate.\<close>

definition good_node :: "node_id \<Rightarrow> bool" where
  "good_node node \<longleftrightarrow> 0 < length node \<and> length node \<le> 128 \<and>
     node \<noteq> str ''.'' \<and> node \<noteq> str ''..'' \<and> take 1 node \<noteq> str ''-'' \<and>
     list_all identifier_byte node"

lemma validate_declared_node_length_ok [result_simps]:
  "validate_declared_node_length n = Inr u \<longleftrightarrow> 0 < n \<and> n \<le> 128"
  by (simp add: validate_declared_node_length_def)

lemma validate_node_id_ok [result_simps]: "validate_node_id node = Inr u \<longleftrightarrow> good_node node"
  by (auto simp: validate_node_id_def good_node_def result_simps)

lemma decode_node_id_ok [result_simps]:
  "decode_node_id bs = Inr node \<longleftrightarrow> node = bs \<and> good_node bs"
  by (auto simp: decode_node_id_def from_utf8_def result_simps good_node_def utf8_valid_identifier)

subsection \<open>The frame reader\<close>

record frame_reader =
  fr_frame :: bytes
  fr_offset :: nat

definition fr_new :: "bytes \<Rightarrow> frame_reader" where
  "fr_new frame = \<lparr>fr_frame = frame, fr_offset = 0\<rparr>"

definition fr_take :: "nat \<Rightarrow> frame_reader \<Rightarrow> multihop_codec_error + bytes \<times> frame_reader" where
  "fr_take len r =
     (let end = fr_offset r + len in
      if end \<le> length (fr_frame r)
      then Inr (take len (drop (fr_offset r) (fr_frame r)), r\<lparr>fr_offset := end\<rparr>)
      else Inl MalformedFrame)"

definition read_u8 :: "frame_reader \<Rightarrow> multihop_codec_error + u8 \<times> frame_reader" where
  "read_u8 r = and_then (fr_take 1 r) (\<lambda>(bs, r'). case bs of [] \<Rightarrow> Inl MalformedFrame | b # _ \<Rightarrow> Inr (b, r'))"

definition read_u16 :: "frame_reader \<Rightarrow> multihop_codec_error + u16 \<times> frame_reader" where
  "read_u16 r = and_then (fr_take 2 r) (\<lambda>(bs, r'). Inr (from_be_bytes bs, r'))"

definition read_u32 :: "frame_reader \<Rightarrow> multihop_codec_error + u32 \<times> frame_reader" where
  "read_u32 r = and_then (fr_take 4 r) (\<lambda>(bs, r'). Inr (from_be_bytes bs, r'))"

definition read_u64 :: "frame_reader \<Rightarrow> multihop_codec_error + u64 \<times> frame_reader" where
  "read_u64 r = and_then (fr_take 8 r) (\<lambda>(bs, r'). Inr (from_be_bytes bs, r'))"

definition fr_is_complete :: "frame_reader \<Rightarrow> bool" where
  "fr_is_complete r \<longleftrightarrow> fr_offset r = length (fr_frame r)"

text \<open>
  A reader is what it has still to read. \<open>reads r bs\<close> says that the offset is in range and
  that \<open>bs\<close> is left; every operation of the reader is then an operation on \<open>bs\<close>.
\<close>

definition reads :: "frame_reader \<Rightarrow> bytes \<Rightarrow> bool" where
  "reads r bs \<longleftrightarrow> fr_offset r \<le> length (fr_frame r) \<and> drop (fr_offset r) (fr_frame r) = bs"

lemma reads_new [simp]: "reads (fr_new frame) bs \<longleftrightarrow> bs = frame"
  by (auto simp: reads_def fr_new_def)

lemma reads_unique: "reads r bs \<Longrightarrow> reads r cs \<Longrightarrow> bs = cs"
  by (simp add: reads_def)

lemma fr_take_ok:
  assumes "reads r (a @ bs)" and "length a = n"
  obtains r' where "fr_take n r = Inr (a, r')" and "reads r' bs"
proof
  let ?r' = "r\<lparr>fr_offset := fr_offset r + n\<rparr>"
  have "length (fr_frame r) - fr_offset r = n + length bs"
    using assms by (metis reads_def length_append length_drop)
  with assms show "fr_take n r = Inr (a, ?r')" by (auto simp: fr_take_def reads_def Let_def)
  have "drop (fr_offset r + n) (fr_frame r) = bs"
    using assms by (metis reads_def append_eq_conv_conj drop_drop add.commute)
  with \<open>length (fr_frame r) - fr_offset r = n + length bs\<close> assms
  show "reads ?r' bs" by (auto simp: reads_def)
qed

lemma fr_take_inv:
  assumes "fr_take n r = Inr (a, r')" and "reads r cs"
  obtains bs where "cs = a @ bs" and "length a = n" and "reads r' bs"
proof
  from assms have le: "fr_offset r + n \<le> length (fr_frame r)"
    and a: "a = take n (drop (fr_offset r) (fr_frame r))"
    and r': "r' = r\<lparr>fr_offset := fr_offset r + n\<rparr>"
    by (auto simp: fr_take_def Let_def split: if_splits)
  from assms(2) have cs: "cs = drop (fr_offset r) (fr_frame r)" by (simp add: reads_def)
  show "cs = a @ drop n cs" unfolding a cs by (rule append_take_drop_id [symmetric])
  show "length a = n" using le by (simp add: a)
  show "reads r' (drop n cs)" using le by (simp add: reads_def r' cs add.commute)
qed

lemma fr_is_complete_iff: "reads r bs \<Longrightarrow> fr_is_complete r \<longleftrightarrow> bs = []"
  by (auto simp: reads_def fr_is_complete_def)

text \<open>
  Stepping rules: a read succeeds on what the matching write produced (\<open>step\<close>), and a read that
  succeeded split its input there (\<open>readE\<close>).
\<close>

lemma take_step:
  assumes "reads r (a @ bs)" and "length a = n" and "\<And>r'. reads r' bs \<Longrightarrow> k (a, r') = v"
  shows "and_then (fr_take n r) k = v"
  using assms by (metis fr_take_ok and_then_Inr)

lemma take_readE:
  assumes "and_then (fr_take n r) k = Inr v" and "reads r cs"
  obtains a bs r' where "cs = a @ bs" and "length a = n" and "reads r' bs" and "k (a, r') = Inr v"
  using assms by (auto simp: and_then_eq_Inr elim: fr_take_inv)

lemma u8_step:
  assumes "reads r (b # bs)" and "\<And>r'. reads r' bs \<Longrightarrow> k (b, r') = v"
  shows "and_then (read_u8 r) k = v"
proof -
  from assms(1) obtain r' where "fr_take 1 r = Inr ([b], r')" and "reads r' bs"
    using fr_take_ok [of r "[b]" bs 1] by auto
  then show ?thesis using assms(2) by (simp add: read_u8_def)
qed

lemma u16_step:
  assumes "reads r (to_be_bytes w @ bs)" and "\<And>r'. reads r' bs \<Longrightarrow> k (w, r') = v"
  shows "and_then (read_u16 r) k = v"
proof -
  from assms(1) obtain r' where "fr_take 2 r = Inr (to_be_bytes w, r')" and "reads r' bs"
    by (auto elim: fr_take_ok)
  then show ?thesis using assms(2) by (simp add: read_u16_def codec_simps)
qed

lemma u32_step:
  assumes "reads r (to_be_bytes w @ bs)" and "\<And>r'. reads r' bs \<Longrightarrow> k (w, r') = v"
  shows "and_then (read_u32 r) k = v"
proof -
  from assms(1) obtain r' where "fr_take 4 r = Inr (to_be_bytes w, r')" and "reads r' bs"
    by (auto elim: fr_take_ok)
  then show ?thesis using assms(2) by (simp add: read_u32_def codec_simps)
qed

lemma u64_step:
  assumes "reads r (to_be_bytes w @ bs)" and "\<And>r'. reads r' bs \<Longrightarrow> k (w, r') = v"
  shows "and_then (read_u64 r) k = v"
proof -
  from assms(1) obtain r' where "fr_take 8 r = Inr (to_be_bytes w, r')" and "reads r' bs"
    by (auto elim: fr_take_ok)
  then show ?thesis using assms(2) by (simp add: read_u64_def codec_simps)
qed

lemma u8_readE:
  assumes "and_then (read_u8 r) k = Inr v" and "reads r cs"
  obtains b bs r' where "cs = b # bs" and "reads r' bs" and "k (b, r') = Inr v"
proof -
  from assms obtain a r' where a: "fr_take 1 r = Inr (a, r')"
    and v: "and_then (case a of [] \<Rightarrow> Inl MalformedFrame | b # _ \<Rightarrow> Inr (b, r')) k = Inr v"
    by (auto simp: read_u8_def result_simps split: prod.splits)
  from fr_take_inv [OF a assms(2)] obtain bs where "cs = a @ bs" "length a = 1" "reads r' bs" .
  with v that show ?thesis by (cases a) auto
qed

lemma u16_readE:
  assumes "and_then (read_u16 r) k = Inr v" and "reads r cs"
  obtains w bs r' where "cs = to_be_bytes w @ bs" and "reads r' bs" and "k (w, r') = Inr v"
proof -
  from assms obtain a r' where a: "fr_take 2 r = Inr (a, r')" and v: "k (from_be_bytes a, r') = Inr v"
    by (auto simp: read_u16_def result_simps)
  from fr_take_inv [OF a assms(2)] obtain bs where "cs = a @ bs" "length a = 2" "reads r' bs" .
  with v that [of "from_be_bytes a"] show ?thesis by (simp add: w16.enc_dec)
qed

lemma u32_readE:
  assumes "and_then (read_u32 r) k = Inr v" and "reads r cs"
  obtains w bs r' where "cs = to_be_bytes w @ bs" and "reads r' bs" and "k (w, r') = Inr v"
proof -
  from assms obtain a r' where a: "fr_take 4 r = Inr (a, r')" and v: "k (from_be_bytes a, r') = Inr v"
    by (auto simp: read_u32_def result_simps)
  from fr_take_inv [OF a assms(2)] obtain bs where "cs = a @ bs" "length a = 4" "reads r' bs" .
  with v that [of "from_be_bytes a"] show ?thesis by (simp add: w32.enc_dec)
qed

lemma u64_readE:
  assumes "and_then (read_u64 r) k = Inr v" and "reads r cs"
  obtains w bs r' where "cs = to_be_bytes w @ bs" and "reads r' bs" and "k (w, r') = Inr v"
proof -
  from assms obtain a r' where a: "fr_take 8 r = Inr (a, r')" and v: "k (from_be_bytes a, r') = Inr v"
    by (auto simp: read_u64_def result_simps)
  from fr_take_inv [OF a assms(2)] obtain bs where "cs = a @ bs" "length a = 8" "reads r' bs" .
  with v that [of "from_be_bytes a"] show ?thesis by (simp add: w64.enc_dec)
qed

subsection \<open>Validation\<close>

fun validate_path_nodes ::
  "node_id \<Rightarrow> node_id \<Rightarrow> node_id list \<Rightarrow> node_id list \<Rightarrow> multihop_codec_error + unit" where
  "validate_path_nodes src dst seen [] = Inr ()"
| "validate_path_nodes src dst seen (node # nodes) =
     and_then (validate_node_id node) (\<lambda>_.
       if node = src \<or> node = dst \<or> node \<in> set seen then Inl LoopDetected
       else validate_path_nodes src dst (seen @ [node]) nodes)"

text \<open>\<open>usize::checked_add\<close> on the 64-bit targets the daemon is built for.\<close>

definition checked_add_usize :: "nat \<Rightarrow> nat \<Rightarrow> nat option" where
  "checked_add_usize a b = (if a + b < 2 ^ 64 then Some (a + b) else None)"

fun checked_path_len :: "nat \<Rightarrow> node_id list \<Rightarrow> nat option" where
  "checked_path_len len [] = Some len"
| "checked_path_len len (node # nodes) =
     Option.bind (Option.bind (checked_add_usize len 2) (\<lambda>l. checked_add_usize l (length node)))
       (\<lambda>l. checked_path_len l nodes)"

definition envelope_validate :: "multi_hop_envelope \<Rightarrow> u64 \<Rightarrow> multihop_codec_error + nat" where
  "envelope_validate env minimum_topology_epoch =
     (if mh_topology_epoch env = 0 \<or> mh_topology_epoch env < minimum_topology_epoch
      then Inl StaleTopologyEpoch
      else if list_all (\<lambda>byte. byte = 0) (mh_path_id env) then Inl InvalidPathId
      else and_then (validate_node_id (mh_source env)) (\<lambda>_.
        and_then (validate_node_id (mh_destination env)) (\<lambda>_.
        if mh_source env = mh_destination env then Inl LoopDetected
        else if mh_path env = [] then Inl InvalidPath
        else if length (mh_path env) > MAX_MULTIHOP_PATH_NODES then Inl PathTooLong
        else if mh_hop_limit env = 0 \<or> unat (mh_hop_limit env) > MAX_MULTIHOP_PATH_NODES
        then Inl InvalidPath
        else if length (mh_path env) > unat (mh_hop_limit env) \<or> mh_hop_index env > mh_hop_limit env
        then Inl ExpiredFrame
        else if unat (mh_hop_index env) > length (mh_path env) then Inl MalformedFrame
        else and_then (validate_path_nodes (mh_source env) (mh_destination env) [] (mh_path env)) (\<lambda>_.
          if mh_opaque_payload env = [] then Inl MalformedFrame
          else if length (mh_opaque_payload env) > MAX_MULTIHOP_PAYLOAD_BYTES then Inl FrameTooLarge
          else and_then
            (ok_or (Option.bind (checked_add_usize FIXED_HEADER_BYTES (length (mh_source env)))
                     (\<lambda>len. checked_add_usize len (length (mh_destination env)))) FrameTooLarge)
            (\<lambda>len. and_then (ok_or (checked_path_len len (mh_path env)) FrameTooLarge)
            (\<lambda>len. and_then (ok_or (checked_add_usize len (length (mh_opaque_payload env))) FrameTooLarge)
            (\<lambda>encoded_len.
               if encoded_len > MAX_MULTIHOP_FRAME_BYTES then Inl FrameTooLarge
               else Inr encoded_len)))))))"

definition encoded_length :: "multi_hop_envelope \<Rightarrow> nat" where
  "encoded_length env =
     57 + length (mh_source env) + length (mh_destination env)
       + sum_list (map (\<lambda>node. 2 + length node) (mh_path env)) + length (mh_opaque_payload env)"

text \<open>The envelopes the codec accepts, stated without the order of the checks.\<close>

definition valid_envelope :: "u64 \<Rightarrow> multi_hop_envelope \<Rightarrow> bool" where
  "valid_envelope minimum env \<longleftrightarrow>
     mh_topology_epoch env \<noteq> 0 \<and> minimum \<le> mh_topology_epoch env \<and>
     \<not> list_all (\<lambda>byte. byte = 0) (mh_path_id env) \<and>
     good_node (mh_source env) \<and> good_node (mh_destination env) \<and>
     mh_source env \<noteq> mh_destination env \<and>
     mh_path env \<noteq> [] \<and> length (mh_path env) \<le> unat (mh_hop_limit env) \<and>
     unat (mh_hop_limit env) \<le> 512 \<and>
     unat (mh_hop_index env) \<le> length (mh_path env) \<and>
     list_all good_node (mh_path env) \<and> distinct (mh_path env) \<and>
     mh_source env \<notin> set (mh_path env) \<and> mh_destination env \<notin> set (mh_path env) \<and>
     mh_opaque_payload env \<noteq> [] \<and> length (mh_opaque_payload env) \<le> 65000 \<and>
     encoded_length env \<le> 65507"

lemma validate_path_nodes_ok:
  "validate_path_nodes src dst seen nodes = Inr u \<longleftrightarrow>
     list_all good_node nodes \<and> distinct nodes \<and> src \<notin> set nodes \<and> dst \<notin> set nodes \<and>
     set nodes \<inter> set seen = {}"
  by (induction nodes arbitrary: seen) (auto simp: result_simps)

lemma checked_path_len_eq:
  "checked_path_len len nodes = Some n \<longleftrightarrow>
     n = len + sum_list (map (\<lambda>node. 2 + length node) nodes) \<and> (nodes = [] \<or> n < 2 ^ 64)"
proof (induction nodes arbitrary: len)
  case (Cons node nodes)
  show ?case
    by (cases "nodes = []") (auto simp: checked_add_usize_def Cons.IH bind_eq_Some_conv)
qed auto

lemma envelope_validate_ok [result_simps]:
  "envelope_validate env minimum = Inr n \<longleftrightarrow> valid_envelope minimum env \<and> n = encoded_length env"
proof -
  have *: "mh_hop_limit env = 0 \<longleftrightarrow> unat (mh_hop_limit env) = 0" by (simp add: unat_eq_0)
  show ?thesis
    unfolding envelope_validate_def valid_envelope_def encoded_length_def
    by (cases "mh_path env") (auto simp: result_simps validate_path_nodes_ok checked_path_len_eq checked_add_usize_def
        bind_eq_Some_conv not_less word_le_nat_alt word_less_nat_alt *)
qed

subsection \<open>Encoding and decoding\<close>

definition envelope_new ::
  "u64 \<Rightarrow> bytes \<Rightarrow> u64 \<Rightarrow> u16 \<Rightarrow> node_id \<Rightarrow> node_id \<Rightarrow> node_id list \<Rightarrow> bytes
     \<Rightarrow> multihop_codec_error + multi_hop_envelope" where
  "envelope_new topology_epoch path_id sequence hop_limit source destination path opaque_payload =
     (let envelope = \<lparr>mh_topology_epoch = topology_epoch, mh_path_id = path_id, mh_sequence = sequence,
        mh_hop_index = 0, mh_hop_limit = hop_limit, mh_source = source,
        mh_destination = destination, mh_path = path, mh_opaque_payload = opaque_payload\<rparr>
      in and_then (envelope_validate envelope 1) (\<lambda>_. Inr envelope))"

definition node_field :: "node_id \<Rightarrow> bytes" where
  "node_field node = to_be_bytes (of_nat (length node) :: u16) @ node"

definition envelope_frame :: "multi_hop_envelope \<Rightarrow> bytes" where
  "envelope_frame env =
     MULTIHOP_FRAME_MAGIC @ MULTIHOP_FRAME_VERSION # 0 #
     to_be_bytes (mh_topology_epoch env) @ mh_path_id env @ to_be_bytes (mh_sequence env) @
     to_be_bytes (mh_hop_index env) @ to_be_bytes (mh_hop_limit env) @
     to_be_bytes (of_nat (length (mh_path env)) :: u16) @ 0 #
     to_be_bytes (of_nat (length (mh_source env)) :: u16) @
     to_be_bytes (of_nat (length (mh_destination env)) :: u16) @
     to_be_bytes (of_nat (length (mh_opaque_payload env)) :: u32) @
     mh_source env @ mh_destination env @ concat (map node_field (mh_path env)) @
     mh_opaque_payload env"

definition envelope_encode :: "multi_hop_envelope \<Rightarrow> multihop_codec_error + bytes" where
  "envelope_encode env = and_then (envelope_validate env 1) (\<lambda>_. Inr (envelope_frame env))"

fun decode_path :: "nat \<Rightarrow> frame_reader \<Rightarrow> multihop_codec_error + node_id list \<times> frame_reader" where
  "decode_path 0 r = Inr ([], r)"
| "decode_path (Suc n) r =
     and_then (read_u16 r) (\<lambda>(node_len, r).
     and_then (validate_declared_node_length (unat node_len)) (\<lambda>_.
     and_then (fr_take (unat node_len) r) (\<lambda>(bs, r).
     and_then (decode_node_id bs) (\<lambda>node.
     and_then (decode_path n r) (\<lambda>(nodes, r). Inr (node # nodes, r))))))"

definition envelope_decode :: "bytes \<Rightarrow> u64 \<Rightarrow> multihop_codec_error + multi_hop_envelope" where
  "envelope_decode frame minimum_topology_epoch =
     (if length frame > MAX_MULTIHOP_FRAME_BYTES then Inl FrameTooLarge
      else if length frame < FIXED_HEADER_BYTES then Inl MalformedFrame
      else
        and_then (fr_take (length MULTIHOP_FRAME_MAGIC) (fr_new frame)) (\<lambda>(magic, r).
        if magic \<noteq> MULTIHOP_FRAME_MAGIC then Inl MalformedFrame else
        and_then (read_u8 r) (\<lambda>(version, r).
        if version \<noteq> MULTIHOP_FRAME_VERSION then Inl (UnsupportedVersion version) else
        and_then (read_u8 r) (\<lambda>(flags, r).
        if flags \<noteq> 0 then Inl NonCanonicalFrame else
        and_then (read_u64 r) (\<lambda>(topology_epoch, r).
        and_then (fr_take MULTIHOP_PATH_ID_BYTES r) (\<lambda>(path_id, r).
        and_then (read_u64 r) (\<lambda>(sequence, r).
        and_then (read_u16 r) (\<lambda>(hop_index, r).
        and_then (read_u16 r) (\<lambda>(hop_limit, r).
        and_then (read_u16 r) (\<lambda>(path_count, r).
        and_then (read_u8 r) (\<lambda>(reserved, r).
        if reserved \<noteq> 0 then Inl NonCanonicalFrame else
        and_then (read_u16 r) (\<lambda>(source_len, r).
        and_then (read_u16 r) (\<lambda>(destination_len, r).
        and_then (read_u32 r) (\<lambda>(payload_len, r).
        and_then (validate_declared_node_length (unat source_len)) (\<lambda>_.
        and_then (validate_declared_node_length (unat destination_len)) (\<lambda>_.
        if unat path_count = 0 then Inl InvalidPath
        else if unat path_count > MAX_MULTIHOP_PATH_NODES then Inl PathTooLong
        else if unat payload_len = 0 then Inl MalformedFrame
        else if unat payload_len > MAX_MULTIHOP_PAYLOAD_BYTES then Inl FrameTooLarge else
        and_then (fr_take (unat source_len) r) (\<lambda>(source_bytes, r).
        and_then (decode_node_id source_bytes) (\<lambda>source.
        and_then (fr_take (unat destination_len) r) (\<lambda>(destination_bytes, r).
        and_then (decode_node_id destination_bytes) (\<lambda>destination.
        and_then (decode_path (unat path_count) r) (\<lambda>(path, r).
        and_then (fr_take (unat payload_len) r) (\<lambda>(opaque_payload, r).
        if \<not> fr_is_complete r then Inl TrailingBytes else
        let envelope = \<lparr>mh_topology_epoch = topology_epoch, mh_path_id = path_id,
          mh_sequence = sequence, mh_hop_index = hop_index, mh_hop_limit = hop_limit,
          mh_source = source, mh_destination = destination, mh_path = path,
          mh_opaque_payload = opaque_payload\<rparr>
        in and_then (envelope_validate envelope minimum_topology_epoch) (\<lambda>_. Inr envelope)
        ))))))))))))))))))))))"

lemma length_node_fields:
  "length (concat (map node_field nodes)) = sum_list (map (\<lambda>node. 2 + length node) nodes)"
  by (induction nodes) (simp_all add: node_field_def)

lemma length_envelope_frame:
  "length (mh_path_id env) = 16 \<Longrightarrow> length (envelope_frame env) = encoded_length env"
  by (simp add: envelope_frame_def encoded_length_def length_node_fields)

lemma unat_of_nat_16: "n < 65536 \<Longrightarrow> unat (of_nat n :: u16) = n"
  by (simp add: unsigned_of_nat take_bit_eq_mod)

lemma unat_of_nat_32: "n < 4294967296 \<Longrightarrow> unat (of_nat n :: u32) = n"
  by (simp add: unsigned_of_nat take_bit_eq_mod)

lemma decode_path_ok:
  assumes "list_all good_node nodes" and "reads r (concat (map node_field nodes) @ bs)"
  shows "\<exists>r'. decode_path (length nodes) r = Inr (nodes, r') \<and> reads r' bs"
  using assms
proof (induction nodes arbitrary: r)
  case (Cons node nodes)
  let ?tail = "concat (map node_field nodes) @ bs"
  from Cons.prems have len: "0 < length node" "length node \<le> 128" by (auto simp: good_node_def)
  have rd: "reads r (to_be_bytes (of_nat (length node) :: u16) @ node @ ?tail)"
    using Cons.prems(2) by (simp add: node_field_def [of node])
  from fr_take_ok [OF rd] obtain r1 where
    r1: "fr_take 2 r = Inr (to_be_bytes (of_nat (length node) :: u16), r1)" "reads r1 (node @ ?tail)"
    by auto
  from fr_take_ok [OF r1(2) refl] obtain r2 where
    r2: "fr_take (length node) r1 = Inr (node, r2)" "reads r2 ?tail" by auto
  from Cons.IH [OF _ r2(2)] Cons.prems(1) obtain r3 where
    r3: "decode_path (length nodes) r2 = Inr (nodes, r3)" "reads r3 bs" by auto
  have "validate_declared_node_length (length node) = Inr ()" "decode_node_id node = Inr node"
    using Cons.prems(1) len by (simp_all add: result_simps)
  with r1 r2 r3 len show ?case by (simp add: read_u16_def codec_simps unat_of_nat_16)
qed simp

lemma decode_path_inv:
  assumes "decode_path n r = Inr (nodes, r')" and "reads r cs"
  shows "\<exists>bs. cs = concat (map node_field nodes) @ bs \<and> reads r' bs \<and> length nodes = n"
  using assms
proof (induction n arbitrary: r cs nodes)
  case (Suc n)
  from Suc.prems show ?case
    apply (simp only: decode_path.simps)
    apply (elim u16_readE, assumption)
    apply (clarsimp simp: result_simps)
    subgoal for w bs r1 a r2 tail
      using fr_take_inv [of "unat w" r1 a r2 bs] Suc.IH [of r2 tail]
      by (fastforce simp: node_field_def)
    done
qed simp

lemma valid_envelope_mono: "valid_envelope m env \<Longrightarrow> valid_envelope 1 env"
  by (auto simp: valid_envelope_def word_le_nat_alt simp flip: unat_gt_0 [unfolded One_nat_def])

lemma valid_envelope_min: "valid_envelope 1 env \<Longrightarrow> m \<le> mh_topology_epoch env \<Longrightarrow> valid_envelope m env"
  by (simp add: valid_envelope_def)

lemma envelope_encode_ok [result_simps]:
  "envelope_encode env = Inr frame \<longleftrightarrow> valid_envelope 1 env \<and> frame = envelope_frame env"
  by (auto simp: envelope_encode_def result_simps)

lemma path_step:
  assumes "reads r (concat (map node_field nodes) @ bs)" and "list_all good_node nodes"
    and "n = length nodes" and "\<And>r'. reads r' bs \<Longrightarrow> k (nodes, r') = v"
  shows "and_then (decode_path n r) k = v"
  using decode_path_ok [OF assms(2,1)] assms(3,4) by auto

lemma path_readE:
  assumes "and_then (decode_path n r) k = Inr v" and "reads r cs"
  obtains nodes bs r' where "cs = concat (map node_field nodes) @ bs" and "length nodes = n"
    and "reads r' bs" and "k (nodes, r') = Inr v"
proof -
  from assms(1) obtain nodes r' where d: "decode_path n r = Inr (nodes, r')"
    and v: "k (nodes, r') = Inr v" by (auto simp: and_then_eq_Inr)
  from decode_path_inv [OF d assms(2)] v that show ?thesis by blast
qed

lemma envelope_decode_frame:
  assumes v: "valid_envelope m env" and l: "length (mh_path_id env) = 16"
  shows "envelope_decode (envelope_frame env) m = Inr env"
proof -
  have len: "57 \<le> length (envelope_frame env)" "length (envelope_frame env) \<le> 65507"
    using v l by (auto simp: length_envelope_frame valid_envelope_def encoded_length_def)
  have b: "length (mh_path env) < 65536" "length (mh_source env) < 65536"
    "length (mh_destination env) < 65536" "length (mh_opaque_payload env) < 4294967296"
    using v by (auto simp: valid_envelope_def good_node_def)
  have g: "validate_declared_node_length (length (mh_source env)) = Inr ()"
    "validate_declared_node_length (length (mh_destination env)) = Inr ()"
    "decode_node_id (mh_source env) = Inr (mh_source env)"
    "decode_node_id (mh_destination env) = Inr (mh_destination env)"
    "envelope_validate env m = Inr (encoded_length env)"
    using v by (auto simp: result_simps valid_envelope_def good_node_def)
  have p: "length (mh_path env) \<le> 512" "mh_path env \<noteq> []" "list_all good_node (mh_path env)"
    "mh_opaque_payload env \<noteq> []" "length (mh_opaque_payload env) \<le> 65000"
    using v by (auto simp: valid_envelope_def)
  have e: "\<lparr>mh_topology_epoch = mh_topology_epoch env, mh_path_id = mh_path_id env,
      mh_sequence = mh_sequence env, mh_hop_index = mh_hop_index env, mh_hop_limit = mh_hop_limit env,
      mh_source = mh_source env, mh_destination = mh_destination env, mh_path = mh_path env,
      mh_opaque_payload = mh_opaque_payload env\<rparr> = env" by simp
  have r0: "cs = envelope_frame env \<Longrightarrow> reads (fr_new (envelope_frame env)) cs" for cs by simp
  show ?thesis
    unfolding envelope_decode_def
    apply (simp add: len not_less)
    apply (rule take_step, rule r0, rule envelope_frame_def [symmetric], simp)
    apply (simp, rule u8_step, assumption)+
    apply (simp, rule u64_step, assumption)
    apply (simp, rule take_step, assumption, simp add: l)
    apply (simp, rule u64_step, assumption)
    apply (simp, rule u16_step, assumption)+
    apply (simp, rule u8_step, assumption)
    apply (simp, rule u16_step, assumption)+
    apply (simp, rule u32_step, assumption)
    apply (simp add: b g p unat_of_nat_16 unat_of_nat_32 not_less del: append_assoc)
    apply (rule take_step, assumption, simp, simp add: g)
    apply (rule take_step, assumption, simp, simp add: g)
    apply (rule path_step, assumption, rule p, simp, simp)
    apply (rule take_step [where bs = "[]"], simp, simp)
    apply (simp add: fr_is_complete_iff g e del: multi_hop_envelope.surjective)
    done
qed

lemma of_nat_unat_eq: "length xs = unat w \<Longrightarrow> of_nat (length xs) = w"
  by simp

lemma envelope_decode_inv:
  assumes "envelope_decode frame m = Inr env"
  shows "frame = envelope_frame env \<and> valid_envelope m env \<and> length (mh_path_id env) = 16"
proof -
  have r0: "reads (fr_new frame) frame" by simp
  from assms show ?thesis
    unfolding envelope_decode_def
    apply (clarsimp simp: if_Inl_eq_Inr simp del: FIXED_HEADER_BYTES_def)
    apply (erule take_readE, rule r0, clarsimp simp: if_Inl_eq_Inr)
    apply (erule u8_readE, assumption, clarsimp simp: if_Inl_eq_Inr)+
    apply (erule u64_readE, assumption, clarsimp)
    apply (erule take_readE, assumption, clarsimp)
    apply (erule u64_readE, assumption, clarsimp)
    apply (erule u16_readE, assumption, clarsimp)+
    apply (erule u8_readE, assumption, clarsimp simp: if_Inl_eq_Inr)
    apply (erule u16_readE, assumption, clarsimp)+
    apply (erule u32_readE, assumption, clarsimp)
    apply (clarsimp simp: and_then_eq_Inr [of "validate_declared_node_length _"] if_Inl_eq_Inr)
    apply (erule take_readE, assumption, clarsimp simp: and_then_eq_Inr [of "decode_node_id _"])
    apply (erule take_readE, assumption, clarsimp simp: and_then_eq_Inr [of "decode_node_id _"])
    apply (erule path_readE, assumption, clarsimp)
    apply (erule take_readE, assumption)
    apply (clarsimp simp: if_Inl_eq_Inr fr_is_complete_iff Let_def)
    apply (clarsimp simp: result_simps envelope_frame_def of_nat_unat_eq)
    done
qed

theorem envelope_decode_iff:
  "envelope_decode frame m = Inr env \<longleftrightarrow>
     frame = envelope_frame env \<and> valid_envelope m env \<and> length (mh_path_id env) = 16"
  using envelope_decode_inv envelope_decode_frame by blast

subsection \<open>Consuming the path\<close>

definition advance_hop ::
  "node_id \<Rightarrow> u64 \<Rightarrow> multi_hop_envelope \<Rightarrow> (multihop_codec_error + unit) \<times> multi_hop_envelope" where
  "advance_hop forwarding_node minimum_topology_epoch env =
     (case envelope_validate env minimum_topology_epoch of
        Inl e \<Rightarrow> (Inl e, env)
      | Inr _ \<Rightarrow>
          let current_index = unat (mh_hop_index env) in
          if current_index \<ge> length (mh_path env) then (Inl RouteComplete, env)
          else if mh_hop_index env \<ge> mh_hop_limit env then (Inl ExpiredFrame, env)
          else if mh_path env ! current_index \<noteq> forwarding_node then
            (if forwarding_node = mh_source env \<or> forwarding_node = mh_destination env \<or>
                forwarding_node \<in> set (take current_index (mh_path env))
             then (Inl LoopDetected, env) else (Inl UnexpectedHop, env))
          else case checked_add (mh_hop_index env) 1 of
              None \<Rightarrow> (Inl ExpiredFrame, env)
            | Some next_index \<Rightarrow>
                if next_index > mh_hop_limit env then (Inl ExpiredFrame, env)
                else (Inr (), env\<lparr>mh_hop_index := next_index\<rparr>))"

definition next_hop :: "multi_hop_envelope \<Rightarrow> node_id option" where
  "next_hop env =
     (let i = unat (mh_hop_index env) in
      if i < length (mh_path env) then Some (mh_path env ! i) else None)"

definition remaining_hops :: "multi_hop_envelope \<Rightarrow> nat" where
  "remaining_hops env = length (mh_path env) - unat (mh_hop_index env)"

definition is_route_complete :: "multi_hop_envelope \<Rightarrow> bool" where
  "is_route_complete env \<longleftrightarrow> unat (mh_hop_index env) = length (mh_path env)"

definition payload_for_destination ::
  "multi_hop_envelope \<Rightarrow> node_id \<Rightarrow> multihop_codec_error + bytes" where
  "payload_for_destination env local_node =
     (if local_node \<noteq> mh_destination env \<or> \<not> is_route_complete env then Inl PayloadUnavailable
      else Inr (mh_opaque_payload env))"

definition into_payload_for_destination ::
  "multi_hop_envelope \<Rightarrow> node_id \<Rightarrow> multihop_codec_error + bytes" where
  "into_payload_for_destination env local_node =
     (if local_node \<noteq> mh_destination env \<or> \<not> is_route_complete env then Inl PayloadUnavailable
      else Inr (mh_opaque_payload env))"

text \<open>Offering the envelope to a sequence of nodes, one after the other.\<close>

fun advance_hops ::
  "u64 \<Rightarrow> node_id list \<Rightarrow> multi_hop_envelope \<Rightarrow> (multihop_codec_error + unit) \<times> multi_hop_envelope" where
  "advance_hops m [] env = (Inr (), env)"
| "advance_hops m (node # nodes) env =
     (case advance_hop node m env of
        (Inl e, env') \<Rightarrow> (Inl e, env')
      | (Inr _, env') \<Rightarrow> advance_hops m nodes env')"

lemma next_hop_Some:
  "next_hop env = Some node \<longleftrightarrow>
     unat (mh_hop_index env) < length (mh_path env) \<and> mh_path env ! unat (mh_hop_index env) = node"
  by (simp add: next_hop_def Let_def)

lemma hop_index_Suc:
  assumes "valid_envelope m env" and "unat (mh_hop_index env) < length (mh_path env)"
  shows "unat (mh_hop_index env + 1) = unat (mh_hop_index env) + 1"
    and "mh_hop_index env < mh_hop_limit env"
    and "mh_hop_index env + 1 \<le> mh_hop_limit env"
    and "unat (mh_hop_index env) + 1 < 65536"
proof -
  from assms have *: "unat (mh_hop_index env) < 512"
    and le: "length (mh_path env) \<le> unat (mh_hop_limit env)"
    by (auto simp: valid_envelope_def)
  then show s: "unat (mh_hop_index env + 1) = unat (mh_hop_index env) + 1"
    by (simp add: unat_word_ariths)
  show "mh_hop_index env < mh_hop_limit env" "mh_hop_index env + 1 \<le> mh_hop_limit env"
    using assms(2) le s by (simp_all add: word_less_nat_alt word_le_nat_alt)
  show "unat (mh_hop_index env) + 1 < 65536" using * by simp
qed

lemma advance_hop_ok:
  "advance_hop node m env = (Inr (), env') \<longleftrightarrow>
     valid_envelope m env \<and> next_hop env = Some node \<and>
     env' = env\<lparr>mh_hop_index := mh_hop_index env + 1\<rparr>"
proof (cases "envelope_validate env m")
  case (Inl e)
  then have "\<not> valid_envelope m env" using envelope_validate_ok by (metis Inl_Inr_False)
  then show ?thesis using Inl by (simp add: advance_hop_def)
next
  case (Inr n)
  then have v: "valid_envelope m env" by (simp add: result_simps)
  show ?thesis
    using Inr v hop_index_Suc [OF v]
    by (auto simp: advance_hop_def Let_def next_hop_Some checked_add_def not_le not_less
        split: option.splits)
qed

lemma advance_hop_err: "advance_hop node m env = (Inl e, env') \<Longrightarrow> env' = env"
  by (auto simp: advance_hop_def Let_def split: sum.splits if_splits option.splits)

lemma valid_envelope_advance:
  assumes "valid_envelope m env" and "next_hop env = Some node"
  shows "valid_envelope m (env\<lparr>mh_hop_index := mh_hop_index env + 1\<rparr>)"
  using assms hop_index_Suc [OF assms(1)]
  by (simp add: valid_envelope_def encoded_length_def next_hop_Some)

lemma drop_eq_Cons_iff:
  "drop i xs = y # ys \<longleftrightarrow> i < length xs \<and> xs ! i = y \<and> drop (Suc i) xs = ys"
  by (cases "i < length xs") (auto simp flip: Cons_nth_drop_Suc)

lemma drop_index_Cons:
  assumes "next_hop env = Some node"
  shows "drop (unat (mh_hop_index env)) (mh_path env) =
    node # drop (Suc (unat (mh_hop_index env))) (mh_path env)"
  using assms by (auto simp: next_hop_Some Cons_nth_drop_Suc)

text \<open>
  The path is consumed in its order and in no other: offering a valid envelope to a sequence
  of nodes succeeds exactly when that sequence is the next part of the path, and then the hop
  index has moved by the number of nodes and nothing else has changed.
\<close>

lemma advance_hops_iff:
  assumes "valid_envelope m env"
  shows "advance_hops m nodes env = (Inr (), env') \<longleftrightarrow>
     (\<exists>rest. drop (unat (mh_hop_index env)) (mh_path env) = nodes @ rest) \<and>
     env' = env\<lparr>mh_hop_index := mh_hop_index env + of_nat (length nodes)\<rparr>"
  using assms
proof (induction nodes arbitrary: env)
  case (Cons node nodes)
  let ?next = "env\<lparr>mh_hop_index := mh_hop_index env + 1\<rparr>"
  show ?case
  proof (cases "next_hop env = Some node")
    case True
    then have "advance_hop node m env = (Inr (), ?next)"
      using Cons.prems by (simp add: advance_hop_ok)
    moreover have "valid_envelope m ?next" using Cons.prems True by (rule valid_envelope_advance)
    moreover have "unat (mh_hop_index env + 1) = Suc (unat (mh_hop_index env))"
      using hop_index_Suc(1) [OF Cons.prems] True by (simp add: next_hop_Some)
    ultimately show ?thesis
      using Cons.IH [of ?next] drop_index_Cons [OF True] by (simp add: algebra_simps)
  next
    case False
    then have "\<not> (\<exists>rest. drop (unat (mh_hop_index env)) (mh_path env) = (node # nodes) @ rest)"
      by (auto simp: drop_eq_Cons_iff next_hop_Some)
    moreover have "advance_hop node m env \<noteq> (Inr (), env'')" for env''
      using False by (simp add: advance_hop_ok)
    ultimately show ?thesis by (auto split: sum.splits prod.splits)
  qed
qed auto

lemma hop_index_plus:
  assumes "valid_envelope m env" and "drop (unat (mh_hop_index env)) (mh_path env) = nodes @ rest"
  shows "unat (mh_hop_index env + of_nat (length nodes)) = unat (mh_hop_index env) + length nodes"
proof -
  have "unat (mh_hop_index env) + length nodes \<le> 512"
    using assms(1) arg_cong [OF assms(2), of length] by (auto simp: valid_envelope_def)
  then show ?thesis by (simp add: unat_word_ariths unat_of_nat_16)
qed

lemma envelope_new_ok:
  "envelope_new epoch path_id sequence limit source destination path payload = Inr env \<longleftrightarrow>
     valid_envelope 1 env \<and>
     env = \<lparr>mh_topology_epoch = epoch, mh_path_id = path_id, mh_sequence = sequence,
        mh_hop_index = 0, mh_hop_limit = limit, mh_source = source,
        mh_destination = destination, mh_path = path, mh_opaque_payload = payload\<rparr>"
  unfolding envelope_new_def Let_def and_then_eq_Inr envelope_validate_ok sum.inject by blast

subsection \<open>Properties\<close>

definition sample_envelope :: multi_hop_envelope where
  "sample_envelope =
     \<lparr>mh_topology_epoch = 7, mh_path_id = replicate 16 3, mh_sequence = 9, mh_hop_index = 0,
      mh_hop_limit = 4, mh_source = str ''a'', mh_destination = str ''z'',
      mh_path = [str ''r1'', str ''r2''], mh_opaque_payload = [1, 2, 3]\<rparr>"

text \<open>
  C20. The wire format is canonical: a byte string decodes to an envelope exactly when encoding
  that envelope gives this very byte string, the envelope's topology epoch is not older than
  the receiver's minimum, and its path identifier has the fixed width.
\<close>

theorem envelope_codec_canonical:
  "envelope_decode frame minimum = Inr env \<longleftrightarrow>
     envelope_encode env = Inr frame \<and> minimum \<le> mh_topology_epoch env \<and>
     length (mh_path_id env) = MULTIHOP_PATH_ID_BYTES"
  unfolding envelope_decode_iff envelope_encode_ok
  using valid_envelope_mono valid_envelope_min by (auto simp: valid_envelope_def)

text \<open>
  C23. An envelope that decodes is loop free and bounded: source, relays and destination are
  pairwise different, the path is not empty and not longer than the hop limit, which is at most
  512, and the frame is as long as the validator computed, at most 65,507 bytes.
\<close>

theorem envelope_decode_loop_free:
  assumes "envelope_decode frame minimum = Inr env"
  shows "distinct (mh_source env # mh_path env @ [mh_destination env]) \<and>
    0 < length (mh_path env) \<and> length (mh_path env) \<le> unat (mh_hop_limit env) \<and>
    unat (mh_hop_limit env) \<le> MAX_MULTIHOP_PATH_NODES \<and>
    envelope_validate env minimum = Inr (length frame) \<and>
    length frame \<le> MAX_MULTIHOP_FRAME_BYTES"
  using assms length_envelope_frame [of env]
  by (auto simp: envelope_decode_iff envelope_validate_ok) (auto simp: valid_envelope_def)

theorem envelope_decode_loop_free_witness:
  "envelope_decode (envelope_frame sample_envelope) 5 = Inr sample_envelope \<and>
   distinct [str ''a'', str ''r1'', str ''r2'', str ''z'']"
proof -
  have d: "envelope_decode (envelope_frame sample_envelope) 5 = Inr sample_envelope" by code_simp
  from envelope_decode_loop_free [OF d] d show ?thesis by (simp add: sample_envelope_def)
qed

text \<open>
  C27. The opaque payload is handed out only at the end of the route: once a newly created
  envelope has been accepted by a sequence of nodes, a node obtains a payload from it exactly when
  the sequence was the complete path and the node is the destination, and then it obtains the
  payload the envelope was created with.
\<close>

theorem payload_only_at_destination:
  assumes "envelope_new epoch path_id sequence limit source destination path payload = Inr env"
    and "advance_hops 1 nodes env = (Inr (), env')"
  shows "payload_for_destination env' node = Inr data \<longleftrightarrow>
    nodes = path \<and> node = destination \<and> data = payload"
proof -
  from assms(1) have v: "valid_envelope 1 env" and env: "mh_path env = path" "mh_hop_index env = 0"
    "mh_destination env = destination" "mh_opaque_payload env = payload"
    by (auto simp: envelope_new_ok)
  from assms(2) obtain rest where rest: "path = nodes @ rest"
    and env': "env' = env\<lparr>mh_hop_index := of_nat (length nodes)\<rparr>"
    using env by (auto simp: advance_hops_iff [OF v])
  have "unat (of_nat (length nodes) :: u16) = length nodes"
    using hop_index_plus [OF v, of nodes rest] env rest by simp
  then show ?thesis
    using env rest by (auto simp: payload_for_destination_def is_route_complete_def env')
qed

theorem payload_only_at_destination_witness:
  "payload_for_destination (sample_envelope\<lparr>mh_hop_index := 2\<rparr>) (str ''z'') = Inr [1, 2, 3]"
proof -
  have n: "envelope_new 7 (replicate 16 3) 9 4 (str ''a'') (str ''z'') [str ''r1'', str ''r2''] [1, 2, 3]
      = Inr sample_envelope" by code_simp
  have a: "advance_hops 1 [str ''r1'', str ''r2''] sample_envelope =
      (Inr (), sample_envelope\<lparr>mh_hop_index := 2\<rparr>)" by code_simp
  show ?thesis using payload_only_at_destination [OF n a] by blast
qed

end
