(* ===== verification/Containers.thy ===== *)
theory Containers
  imports Prelude
begin

text \<open>
  The standard library's maps as association lists without duplicate keys: \<open>HashMap\<close> with
  insertion at the end (its iteration order is not observable in the modelled code) and
  \<open>BTreeMap\<close> with the entries in ascending key order, which iteration follows. Both are instances
  of one contract, \<open>map_contract\<close>, from which the laws of lookup, removal, \<open>retain\<close> and \<open>len\<close>
  are derived once.
\<close>

subsection \<open>Operations\<close>

type_synonym ('k, 'v) amap = "('k \<times> 'v) list"

abbreviation am_get :: "('k, 'v) amap \<Rightarrow> 'k \<Rightarrow> 'v option" where
  "am_get \<equiv> map_of"

definition am_retain :: "('k \<Rightarrow> 'v \<Rightarrow> bool) \<Rightarrow> ('k, 'v) amap \<Rightarrow> ('k, 'v) amap" where
  "am_retain P m = filter (\<lambda>(k, v). P k v) m"

definition am_remove :: "'k \<Rightarrow> ('k, 'v) amap \<Rightarrow> ('k, 'v) amap" where
  "am_remove k m = filter (\<lambda>e. fst e \<noteq> k) m"

fun hm_insert :: "'k \<Rightarrow> 'v \<Rightarrow> ('k, 'v) amap \<Rightarrow> ('k, 'v) amap" where
  "hm_insert k v [] = [(k, v)]"
| "hm_insert k v ((k', v') # m) = (if k = k' then (k, v) # m else (k', v') # hm_insert k v m)"

fun bm_insert :: "'k::linorder \<Rightarrow> 'v \<Rightarrow> ('k, 'v) amap \<Rightarrow> ('k, 'v) amap" where
  "bm_insert k v [] = [(k, v)]"
| "bm_insert k v ((k', v') # m) =
     (if k < k' then (k, v) # (k', v') # m
      else if k = k' then (k, v) # m
      else (k', v') # bm_insert k v m)"

definition hm_wf :: "('k, 'v) amap \<Rightarrow> bool" where
  "hm_wf m \<longleftrightarrow> distinct (map fst m)"

definition bm_wf :: "('k::linorder, 'v) amap \<Rightarrow> bool" where
  "bm_wf m \<longleftrightarrow> sorted_wrt (<) (map fst m)"

subsection \<open>The contract\<close>

lemma map_of_filter_entries:
  assumes "distinct (map fst m)"
  shows "map_of (filter P m) k = (case map_of m k of None \<Rightarrow> None | Some v \<Rightarrow> if P (k, v) then Some v else None)"
  using assms
proof (induction m)
  case (Cons e m)
  have "k \<notin> fst ` set m \<Longrightarrow> map_of m k = None" by (simp add: map_of_eq_None_iff)
  with Cons show ?case by (cases e) (auto split: option.splits)
qed simp

lemma card_dom_map_of: "distinct (map fst m) \<Longrightarrow> card (dom (map_of m)) = length m"
  by (metis card_image distinct_card distinct_map dom_map_of_conv_image_fst length_map)

locale map_contract =
  fixes wf :: "('k, 'v) amap \<Rightarrow> bool"
    and put :: "'k \<Rightarrow> 'v \<Rightarrow> ('k, 'v) amap \<Rightarrow> ('k, 'v) amap"
  assumes wf_empty: "wf []"
    and wf_keys: "wf m \<Longrightarrow> distinct (map fst m)"
    and wf_put: "wf m \<Longrightarrow> wf (put k v m)"
    and wf_filter: "wf m \<Longrightarrow> wf (filter P m)"
    and get_put: "wf m \<Longrightarrow> am_get (put k v m) = (am_get m)(k \<mapsto> v)"
begin

lemma get_remove: "wf m \<Longrightarrow> am_get (am_remove k m) = (am_get m)(k := None)"
  by (rule ext) (auto simp: am_remove_def map_of_filter_entries wf_keys split: option.splits)

lemma get_retain:
  "wf m \<Longrightarrow> am_get (am_retain P m) k = Option.bind (am_get m k) (\<lambda>v. if P k v then Some v else None)"
  by (auto simp: am_retain_def map_of_filter_entries wf_keys split: option.splits)

lemma wf_remove: "wf m \<Longrightarrow> wf (am_remove k m)"
  by (simp add: am_remove_def wf_filter)

lemma wf_retain: "wf m \<Longrightarrow> wf (am_retain P m)"
  by (simp add: am_retain_def wf_filter)

lemma length_dom: "wf m \<Longrightarrow> length m = card (dom (am_get m))"
  by (simp add: card_dom_map_of wf_keys)

lemma finite_dom: "finite (dom (am_get m))"
  by (rule finite_dom_map_of)

lemma length_put:
  "wf m \<Longrightarrow> length (put k v m) = (if am_get m k = None then Suc (length m) else length m)"
  by (auto simp: length_dom wf_put get_put card_insert_if finite_dom domIff insert_absorb)

lemma length_remove:
  "wf m \<Longrightarrow> length (am_remove k m) = (if am_get m k = None then length m else length m - 1)"
  by (auto simp: length_dom wf_remove get_remove domIff)

lemma in_entries: "wf m \<Longrightarrow> (k, v) \<in> set m \<longleftrightarrow> am_get m k = Some v"
  by (simp add: wf_keys)

lemma sum_entries: "wf m \<Longrightarrow> sum_list (map g m) = (\<Sum>e \<in> set m. g e)" for g :: "'k \<times> 'v \<Rightarrow> nat"
  by (rule sum_list_distinct_conv_sum_set) (metis distinct_map wf_keys)

lemma sum_remove:
  fixes g :: "'k \<times> 'v \<Rightarrow> nat"
  assumes "wf m" and "am_get m k = Some v"
  shows "sum_list (map g m) = g (k, v) + sum_list (map g (am_remove k m))"
proof -
  have "set (am_remove k m) = set m - {(k, v)}"
    using assms by (auto simp: am_remove_def in_entries)
  moreover have "(k, v) \<in> set m" using assms by (simp add: in_entries)
  ultimately show ?thesis by (simp add: sum_entries wf_remove assms(1) sum.remove)
qed

lemma set_put: "wf m \<Longrightarrow> set (put k v m) = insert (k, v) {e \<in> set m. fst e \<noteq> k}"
  by (auto simp: in_entries wf_put get_put split: if_splits)

lemma sum_put_new:
  fixes g :: "'k \<times> 'v \<Rightarrow> nat"
  assumes "wf m" and "am_get m k = None"
  shows "sum_list (map g (put k v m)) = g (k, v) + sum_list (map g m)"
proof -
  have "set (put k v m) = insert (k, v) (set m)" and "(k, v) \<notin> set m"
    using assms by (auto simp: set_put in_entries)
  then show ?thesis by (simp add: sum_entries wf_put assms(1))
qed

lemma sum_put_same:
  fixes g :: "'k \<times> 'v \<Rightarrow> nat"
  assumes "wf m" and "am_get m k = Some v" and "g (k, v') = g (k, v)"
  shows "sum_list (map g (put k v' m)) = sum_list (map g m)"
proof -
  have "am_get (put k v' m) k = Some v'" using assms(1) by (simp add: get_put)
  note sum_remove [OF wf_put [OF assms(1)] this, of g]
  moreover have "set (am_remove k (put k v' m)) = set (am_remove k m)"
    using assms(1) by (auto simp: am_remove_def set_put)
  then have "sum_list (map g (am_remove k (put k v' m))) = sum_list (map g (am_remove k m))"
    by (simp add: sum_entries wf_remove wf_put assms(1))
  ultimately show ?thesis using sum_remove [OF assms(1,2), of g] assms(3) by simp
qed

end

lemma hm_insert_keys: "fst ` set (hm_insert k v m) = insert k (fst ` set m)"
  by (induction k v m rule: hm_insert.induct) (simp_all add: insert_commute)

lemma hm_insert_remove: "am_remove k (hm_insert k v m) = am_remove k m"
  by (induction k v m rule: hm_insert.induct) (auto simp: am_remove_def)

lemma bm_insert_keys: "fst ` set (bm_insert k v m) = insert k (fst ` set m)"
  by (induction k v m rule: bm_insert.induct) (simp_all add: insert_commute)

lemma hm_wf_insert: "hm_wf m \<Longrightarrow> hm_wf (hm_insert k v m)"
  by (induction k v m rule: hm_insert.induct) (simp_all add: hm_wf_def hm_insert_keys)

lemma bm_wf_insert: "bm_wf m \<Longrightarrow> bm_wf (bm_insert k v m)"
  by (induction k v m rule: bm_insert.induct) (auto simp: bm_wf_def bm_insert_keys)

lemma hm_get_insert: "am_get (hm_insert k v m) = (am_get m)(k \<mapsto> v)"
  by (induction k v m rule: hm_insert.induct) (auto simp: fun_eq_iff)

lemma bm_get_insert: "am_get (bm_insert k v m) = (am_get m)(k \<mapsto> v)"
  by (induction k v m rule: bm_insert.induct) (auto simp: fun_eq_iff)

lemma bm_wf_filter: "bm_wf m \<Longrightarrow> bm_wf (filter P m)"
  unfolding bm_wf_def by (simp add: sorted_wrt_map sorted_wrt_filter)

interpretation hm: map_contract "hm_wf :: ('k, 'v) amap \<Rightarrow> bool" hm_insert
  by unfold_locales
    (simp_all add: hm_wf_insert hm_get_insert, simp_all add: hm_wf_def distinct_map_filter)

interpretation bm: map_contract "bm_wf :: ('k::linorder, 'v) amap \<Rightarrow> bool" bm_insert
  by unfold_locales
    (simp_all add: bm_wf_insert bm_get_insert bm_wf_filter,
     simp_all add: bm_wf_def strict_sorted_iff)

end
