(* ===== verification/SeqWindow.thy ===== *)
theory SeqWindow
  imports Containers Multihop
begin

text \<open>
  The sliding bitmap of one path, \<open>ReplaySequenceWindow\<close> of
  \<open>crates/ipars-agent/src/overlay_forwarder.rs\<close>: sixteen 64-bit words whose bit \<open>d\<close> says that the
  sequence number \<open>d\<close> below the highest has been seen. The bitmap is shown to implement a finite
  set of sequence numbers: shifting the words by an arbitrary distance moves every bit by that
  distance and drops those that leave the window.
\<close>

unbundle bit_operations_syntax

subsection \<open>Errors of the forwarder\<close>

datatype overlay_forwarder_error =
    InvalidConfig
  | InvalidNeighborMap
  | NeighborMapNodeMismatch node_id node_id
  | ZeroTopologyEpoch
  | NeighborMapClusterChanged rstring rstring
  | InvalidOverlayPath
  | PathSourceMismatch node_id node_id
  | PathClusterMismatch rstring rstring
  | PathTargetsSource node_id
  | SecondaryPathUnavailable
  | FwdStaleTopologyEpoch u64 u64
  | FutureTopologyEpoch u64 u64
  | RelayPathTooLong nat u16
  | FwdInvalidPathId
  | EmptyInnerDatagram
  | InnerDatagramTooLarge nat
  | FwdFrameTooLarge nat nat
  | InvalidHopLimit u16 u16
  | UnexpectedLocalHop node_id node_id
  | UnexpectedDestination node_id node_id
  | PreviousHopMismatch node_id node_id
  | PreviousHopNotNeighbor node_id
  | NextHopNotNeighbor node_id
  | ReplayRejected node_id u64 u64
  | Codec multihop_codec_error

subsection \<open>The sequence window of one path\<close>

definition OVERLAY_PEER_MAX_IN_FLIGHT_DATAGRAMS :: nat where
  [simp]: "OVERLAY_PEER_MAX_IN_FLIGHT_DATAGRAMS = 256"
definition OVERLAY_SEQUENCE_RESERVATIONS_PER_DATAGRAM :: nat where
  [simp]: "OVERLAY_SEQUENCE_RESERVATIONS_PER_DATAGRAM = 2"
definition OVERLAY_REPLAY_SEQUENCE_WINDOW_BITS :: nat where
  [simp]: "OVERLAY_REPLAY_SEQUENCE_WINDOW_BITS =
     OVERLAY_PEER_MAX_IN_FLIGHT_DATAGRAMS * OVERLAY_SEQUENCE_RESERVATIONS_PER_DATAGRAM * 2"
definition OVERLAY_REPLAY_SEQUENCE_WINDOW_WORDS :: nat where
  [simp]: "OVERLAY_REPLAY_SEQUENCE_WINDOW_WORDS = OVERLAY_REPLAY_SEQUENCE_WINDOW_BITS div 64"

record replay_sequence_window =
  rsw_highest :: u64
  rsw_seen :: "u64 list"

definition rsw_new :: "u64 \<Rightarrow> replay_sequence_window" where
  "rsw_new highest =
     \<lparr>rsw_highest = highest, rsw_seen = (replicate OVERLAY_REPLAY_SEQUENCE_WINDOW_WORDS 0)[0 := 1]\<rparr>"

fun shift_words :: "nat \<Rightarrow> nat \<Rightarrow> nat \<Rightarrow> u64 list \<Rightarrow> u64 list \<Rightarrow> u64 list" where
  "shift_words word_shift bit_shift source_index [] seen = seen"
| "shift_words word_shift bit_shift source_index (word # previous) seen =
     (let target_index = source_index + word_shift in
      if target_index \<ge> length seen then seen
      else
        let seen = seen[target_index := seen ! target_index OR push_bit bit_shift word];
            seen = (if bit_shift > 0 \<and> target_index + 1 < length seen
                    then seen[target_index + 1 :=
                           seen ! (target_index + 1) OR drop_bit (64 - bit_shift) word]
                    else seen)
        in shift_words word_shift bit_shift (source_index + 1) previous seen)"

definition shift_older :: "nat \<Rightarrow> replay_sequence_window \<Rightarrow> replay_sequence_window" where
  "shift_older distance w =
     w\<lparr>rsw_seen := shift_words (distance div 64) (distance mod 64) 0 (rsw_seen w)
         (map (\<lambda>_. 0) (rsw_seen w))\<rparr>"

definition advance_to :: "u64 \<Rightarrow> replay_sequence_window \<Rightarrow> replay_sequence_window" where
  "advance_to sequence w =
     (let advance = sequence - rsw_highest w;
          w = (if unat advance \<ge> OVERLAY_REPLAY_SEQUENCE_WINDOW_BITS
               then w\<lparr>rsw_seen := map (\<lambda>_. 0) (rsw_seen w)\<rparr>
               else shift_older (unat advance) w)
      in w\<lparr>rsw_highest := sequence, rsw_seen := (rsw_seen w)[0 := rsw_seen w ! 0 OR 1]\<rparr>)"

definition rsw_contains :: "nat \<Rightarrow> replay_sequence_window \<Rightarrow> bool" where
  "rsw_contains distance w \<longleftrightarrow>
     (rsw_seen w ! (distance div 64)) AND push_bit (distance mod 64) 1 \<noteq> 0"

definition rsw_insert :: "nat \<Rightarrow> replay_sequence_window \<Rightarrow> replay_sequence_window" where
  "rsw_insert distance w =
     w\<lparr>rsw_seen := (rsw_seen w)[distance div 64 :=
         rsw_seen w ! (distance div 64) OR push_bit (distance mod 64) 1]\<rparr>"

text \<open>
  The abstraction: the bit at a distance, the well-formed windows (sixteen words, and no bit for a
  sequence number below zero), and the set of sequence numbers a window remembers.
\<close>

definition seen_bit :: "u64 list \<Rightarrow> nat \<Rightarrow> bool" where
  "seen_bit seen d \<longleftrightarrow> d < 64 * length seen \<and> bit (seen ! (d div 64)) (d mod 64)"

definition rsw_wf :: "replay_sequence_window \<Rightarrow> bool" where
  "rsw_wf w \<longleftrightarrow> length (rsw_seen w) = 16 \<and> seen_bit (rsw_seen w) 0 \<and>
     (\<forall>d < 1024. seen_bit (rsw_seen w) d \<longrightarrow> d \<le> unat (rsw_highest w))"

definition rsw_set :: "replay_sequence_window \<Rightarrow> nat set" where
  "rsw_set w = {s. s \<le> unat (rsw_highest w) \<and> seen_bit (rsw_seen w) (unat (rsw_highest w) - s)}"

lemma rsw_contains_seen_bit:
  "length (rsw_seen w) = 16 \<Longrightarrow> d < 1024 \<Longrightarrow> rsw_contains d w \<longleftrightarrow> seen_bit (rsw_seen w) d"
  by (simp add: rsw_contains_def seen_bit_def and_exp_eq_0_iff_not_bit)

lemma seen_bit_set:
  assumes "i < length seen"
  shows "seen_bit (seen[i := seen ! i OR push_bit b 1]) d \<longleftrightarrow>
    seen_bit seen d \<or> (d div 64 = i \<and> d mod 64 = b)"
proof -
  have "d div 64 = i \<Longrightarrow> d < 64 * length seen" using assms by linarith
  moreover have "d mod 64 < 64" by simp
  ultimately show ?thesis
    using assms by (cases "d div 64 = i") (auto simp: seen_bit_def bit_simps bit_1_iff)
qed

lemma seen_bit_zeros: "\<not> seen_bit (map (\<lambda>_. 0) seen) d"
  by (auto simp: seen_bit_def)

lemma length_shift_words [simp]: "length (shift_words ws bs i words seen) = length seen"
  by (induction words arbitrary: i seen) (simp_all add: Let_def)

text \<open>The bits that word \<open>word\<close> at index \<open>j\<close> contributes to word \<open>q\<close> of the shifted bitmap.\<close>

definition contributes :: "nat \<Rightarrow> nat \<Rightarrow> nat \<Rightarrow> u64 \<Rightarrow> nat \<Rightarrow> nat \<Rightarrow> bool" where
  "contributes ws bs j word q r \<longleftrightarrow>
     (q = j + ws \<and> bs \<le> r \<and> bit word (r - bs)) \<or> (q = j + ws + 1 \<and> r < bs \<and> bit word (64 - bs + r))"

lemma shift_words_bit:
  assumes "q < length seen" and "r < 64" and "bs < 64"
  shows "bit (shift_words ws bs i words seen ! q) r \<longleftrightarrow>
    bit (seen ! q) r \<or> (\<exists>j < length words. contributes ws bs (i + j) (words ! j) q r)"
  using assms(1)
proof (induction words arbitrary: i seen)
  case (Cons word words)
  show ?case
  proof (cases "i + ws \<ge> length seen")
    case True
    then have "\<not> contributes ws bs (i + j) word' q r" for j word'
      using Cons.prems by (simp add: contributes_def)
    then show ?thesis using True by simp
  next
    case False
    let ?s1 = "seen[i + ws := seen ! (i + ws) OR push_bit bs word]"
    let ?s2 = "if 0 < bs \<and> i + ws + 1 < length seen
      then ?s1[i + ws + 1 := ?s1 ! (i + ws + 1) OR drop_bit (64 - bs) word] else ?s1"
    have "shift_words ws bs i (word # words) seen = shift_words ws bs (i + 1) words ?s2"
      using False by (simp add: Let_def)
    moreover have "bit (?s2 ! q) r \<longleftrightarrow> bit (seen ! q) r \<or> contributes ws bs i word q r"
      using False Cons.prems assms(2,3)
      by (auto simp: contributes_def nth_list_update bit_simps algebra_simps dest: bit_imp_le_length)
    moreover have "(\<exists>j < length (word # words). contributes ws bs (i + j) ((word # words) ! j) q r) \<longleftrightarrow>
      contributes ws bs i word q r \<or> (\<exists>j < length words. contributes ws bs (i + 1 + j) (words ! j) q r)"
      by (auto simp: less_Suc_eq_0_disj)
    ultimately show ?thesis using Cons.IH [of ?s2 "i + 1"] Cons.prems by auto
  qed
qed simp

lemma sub_div_mod:
  fixes d n :: nat
  shows "n mod 64 \<le> d mod 64 \<Longrightarrow> n div 64 \<le> d div 64 \<Longrightarrow>
      n \<le> d \<and> (d - n) div 64 = d div 64 - n div 64 \<and> (d - n) mod 64 = d mod 64 - n mod 64"
    and "d mod 64 < n mod 64 \<Longrightarrow> n div 64 < d div 64 \<Longrightarrow>
      n \<le> d \<and> (d - n) div 64 = d div 64 - n div 64 - 1 \<and> (d - n) mod 64 = 64 - n mod 64 + d mod 64"
proof -
  define q r q' r' where "q = d div 64" and "r = d mod 64" and "q' = n div 64" and "r' = n mod 64"
  have d: "d = 64 * q + r" "r < 64" and n: "n = 64 * q' + r'" "r' < 64"
    by (simp_all add: q_def r_def q'_def r'_def)
  have fold: "d div 64 = q" "d mod 64 = r" "n div 64 = q'" "n mod 64 = r'"
    by (simp_all add: q_def r_def q'_def r'_def)
  show "n mod 64 \<le> d mod 64 \<Longrightarrow> n div 64 \<le> d div 64 \<Longrightarrow>
      n \<le> d \<and> (d - n) div 64 = d div 64 - n div 64 \<and> (d - n) mod 64 = d mod 64 - n mod 64"
  proof -
    assume "n mod 64 \<le> d mod 64" "n div 64 \<le> d div 64"
    then obtain a b where a: "q = q' + a" and b: "r = r' + b"
      unfolding fold by (metis le_Suc_ex)
    then have "d = n + (64 * a + b)" "b < 64" using d n by simp_all
    then show ?thesis unfolding fold a b by simp
  qed
  show "d mod 64 < n mod 64 \<Longrightarrow> n div 64 < d div 64 \<Longrightarrow>
      n \<le> d \<and> (d - n) div 64 = d div 64 - n div 64 - 1 \<and> (d - n) mod 64 = 64 - n mod 64 + d mod 64"
  proof -
    assume *: "d mod 64 < n mod 64" "n div 64 < d div 64"
    then obtain a where a: "q = q' + a + 1" unfolding fold by (metis Suc_eq_plus1 add_Suc_right less_iff_Suc_add)
    have b: "64 - r' + r < 64" using * n(2) unfolding fold by linarith
    have "d = n + (64 * a + (64 - r' + r))" using d n a by simp
    then show ?thesis unfolding fold a using b by simp
  qed
qed

lemma div_mod_eqI: "e div 64 = d div 64 \<Longrightarrow> e mod 64 = d mod 64 \<Longrightarrow> e = d" for d e :: nat
proof -
  assume "e div 64 = d div 64" "e mod 64 = d mod 64"
  then have "e div 64 * 64 + e mod 64 = d div 64 * 64 + d mod 64" by (simp only:)
  then show ?thesis by (simp only: div_mult_mod_eq)
qed

lemma sub_div_less: "n \<le> d \<Longrightarrow> d mod 64 < n mod 64 \<Longrightarrow> n div 64 < d div 64" for d n :: nat
proof (rule ccontr)
  assume *: "n \<le> d" "d mod 64 < n mod 64" "\<not> n div 64 < d div 64"
  then have "d div 64 = n div 64" using div_le_mono [OF *(1), of 64] by linarith
  then show False using * div_mult_mod_eq [of d 64] div_mult_mod_eq [of n 64] by linarith
qed

lemma shift_older_bit:
  "seen_bit (rsw_seen (shift_older n w)) d \<longleftrightarrow>
     d < 64 * length (rsw_seen w) \<and> n \<le> d \<and> seen_bit (rsw_seen w) (d - n)"
proof (cases "d < 64 * length (rsw_seen w)")
  case True
  let ?seen = "rsw_seen w" let ?ws = "n div 64" let ?bs = "n mod 64" let ?q = "d div 64" let ?r = "d mod 64"
  have q: "?q < length ?seen" using True by (simp add: less_mult_imp_div_less mult.commute)
  have "seen_bit (rsw_seen (shift_older n w)) d \<longleftrightarrow>
      (\<exists>j < length ?seen. contributes ?ws ?bs j (?seen ! j) ?q ?r)"
    using True q by (simp add: seen_bit_def shift_older_def shift_words_bit)
  also have "\<dots> \<longleftrightarrow> n \<le> d \<and> bit (?seen ! ((d - n) div 64)) ((d - n) mod 64)" (is "?L \<longleftrightarrow> ?R")
  proof
    assume ?L
    then obtain j where "contributes ?ws ?bs j (?seen ! j) ?q ?r" by blast
    then show ?R
    proof (unfold contributes_def, elim disjE conjE)
      assume *: "?q = j + ?ws" "?bs \<le> ?r" and b: "bit (?seen ! j) (?r - ?bs)"
      then show ?R using b sub_div_mod(1) [of n d] by simp
    next
      assume *: "?q = j + ?ws + 1" "?r < ?bs" and b: "bit (?seen ! j) (64 - ?bs + ?r)"
      then show ?R using b sub_div_mod(2) [of d n] by simp
    qed
  next
    assume R: ?R
    let ?j = "(d - n) div 64"
    have "?j < length ?seen" using q R by (meson diff_le_self div_le_mono le_less_trans)
    moreover have "contributes ?ws ?bs ?j (?seen ! ?j) ?q ?r"
    proof (cases "?bs \<le> ?r")
      case True
      then show ?thesis
        using R sub_div_mod(1) [of n d] div_le_mono [of n d 64] by (simp add: contributes_def)
    next
      case False
      then show ?thesis
        using R sub_div_mod(2) [of d n] sub_div_less [of n d] by (simp add: contributes_def)
    qed
    ultimately show ?L by blast
  qed
  also have "\<dots> \<longleftrightarrow> d < 64 * length ?seen \<and> n \<le> d \<and> seen_bit ?seen (d - n)"
    using True by (auto simp: seen_bit_def)
  finally show ?thesis .
qed (simp add: seen_bit_def shift_older_def)

lemma length_shift_older [simp]: "length (rsw_seen (shift_older n w)) = length (rsw_seen w)"
  by (simp add: shift_older_def)

lemma rsw_setD:
  assumes "rsw_wf w" and "s \<in> rsw_set w"
  shows "s \<le> unat (rsw_highest w)" and "unat (rsw_highest w) - s < 1024"
  using assms by (auto simp: rsw_set_def rsw_wf_def seen_bit_def)

lemma highest_in_rsw_set: "rsw_wf w \<Longrightarrow> unat (rsw_highest w) \<in> rsw_set w"
  by (simp add: rsw_set_def rsw_wf_def)

lemma seen_bit_rsw_set:
  "rsw_wf w \<Longrightarrow> seen_bit (rsw_seen w) d \<longleftrightarrow> d \<le> unat (rsw_highest w) \<and> unat (rsw_highest w) - d \<in> rsw_set w"
  by (auto simp: rsw_set_def rsw_wf_def seen_bit_def)

lemma seen_bit_new: "seen_bit (rsw_seen (rsw_new h)) d \<longleftrightarrow> d = 0"
proof -
  have "seen_bit ((replicate 16 (0::u64))[0 := 1]) d \<longleftrightarrow> d div 64 = 0 \<and> d mod 64 = 0"
    using seen_bit_set [of 0 "replicate 16 0" 0 d] seen_bit_zeros [of "replicate 16 0"]
    by (simp add: map_replicate_const)
  also have "\<dots> \<longleftrightarrow> d = 0" using div_mult_mod_eq [of d 64] by auto
  finally show ?thesis by (simp add: rsw_new_def)
qed

lemma rsw_new_wf: "rsw_wf (rsw_new h)"
  by (simp add: rsw_wf_def seen_bit_new) (simp add: rsw_new_def)

lemma rsw_new_set: "rsw_set (rsw_new h) = {unat h}"
  by (auto simp: rsw_set_def seen_bit_new) (auto simp: rsw_new_def)

lemma rsw_highest_simps [simp]:
  "rsw_highest (rsw_new h) = h"
  "rsw_highest (advance_to s w) = s"
  "rsw_highest (rsw_insert d w) = rsw_highest w"
  by (simp_all add: rsw_new_def advance_to_def rsw_insert_def Let_def)

lemma seen_bit_advance:
  assumes "length (rsw_seen w) = 16" and "rsw_highest w < s"
  shows "length (rsw_seen (advance_to s w)) = 16"
    and "seen_bit (rsw_seen (advance_to s w)) d \<longleftrightarrow>
      d = 0 \<or> (let n = unat s - unat (rsw_highest w) in
        n \<le> d \<and> d < 1024 \<and> seen_bit (rsw_seen w) (d - n))"
proof -
  have n: "unat (s - rsw_highest w) = unat s - unat (rsw_highest w)"
    using assms(2) by (simp add: unat_sub)
  show "length (rsw_seen (advance_to s w)) = 16" using assms(1) by (simp add: advance_to_def Let_def)
  have z: "d div 64 = 0 \<and> d mod 64 = 0 \<longleftrightarrow> d = 0" using div_mult_mod_eq [of d 64] by auto
  show "seen_bit (rsw_seen (advance_to s w)) d \<longleftrightarrow>
      d = 0 \<or> (let n = unat s - unat (rsw_highest w) in
        n \<le> d \<and> d < 1024 \<and> seen_bit (rsw_seen w) (d - n))"
    using seen_bit_set [of 0 "map (\<lambda>_. 0) (rsw_seen w)" 0 d]
      seen_bit_set [of 0 "rsw_seen (shift_older (unat (s - rsw_highest w)) w)" 0 d] assms(1)
    by (auto simp: advance_to_def Let_def seen_bit_zeros shift_older_bit n z)
qed

lemma rsw_advance:
  assumes "rsw_wf w" and "rsw_highest w < s"
  shows "rsw_wf (advance_to s w)"
    and "rsw_set (advance_to s w) = insert (unat s) {x \<in> rsw_set w. unat s - x < 1024}"
proof -
  have lt: "unat (rsw_highest w) < unat s" using assms(2) by (simp add: word_less_nat_alt)
  have len: "length (rsw_seen w) = 16" using assms(1) by (simp add: rsw_wf_def)
  note bits = seen_bit_advance [OF len assms(2)]
  have le: "e \<le> unat (rsw_highest w)" if "seen_bit (rsw_seen w) e" for e
    using that by (simp add: seen_bit_rsw_set [OF assms(1)])
  have "d \<le> unat s" if "seen_bit (rsw_seen (advance_to s w)) d" for d
    using that lt le [of "d - (unat s - unat (rsw_highest w))"] unfolding bits(2) Let_def by linarith
  moreover have "seen_bit (rsw_seen (advance_to s w)) 0" by (simp add: bits(2))
  ultimately show "rsw_wf (advance_to s w)" by (simp add: rsw_wf_def bits(1))
  have "x \<in> rsw_set (advance_to s w) \<longleftrightarrow> x = unat s \<or> x \<in> rsw_set w \<and> unat s - x < 1024" for x
  proof (cases "x \<le> unat (rsw_highest w)")
    case True
    then have "unat s - x - (unat s - unat (rsw_highest w)) = unat (rsw_highest w) - x"
      "unat s - unat (rsw_highest w) \<le> unat s - x" "x < unat s" using lt by simp_all
    then show ?thesis using True by (auto simp: rsw_set_def bits(2) Let_def)
  next
    case False
    then have "x \<le> unat s \<Longrightarrow> \<not> unat s - unat (rsw_highest w) \<le> unat s - x" using lt by linarith
    then show ?thesis using False by (auto simp: rsw_set_def bits(2) Let_def)
  qed
  then show "rsw_set (advance_to s w) = insert (unat s) {x \<in> rsw_set w. unat s - x < 1024}" by blast
qed

lemma rsw_insert:
  assumes "rsw_wf w" and "d < 1024" and "d \<le> unat (rsw_highest w)"
  shows "rsw_wf (rsw_insert d w)"
    and "rsw_set (rsw_insert d w) = insert (unat (rsw_highest w) - d) (rsw_set w)"
proof -
  have len: "length (rsw_seen w) = 16" using assms(1) by (simp add: rsw_wf_def)
  have eq: "e div 64 = d div 64 \<and> e mod 64 = d mod 64 \<longleftrightarrow> e = d" for e
    by (auto intro: div_mod_eqI)
  have bit: "seen_bit (rsw_seen (rsw_insert d w)) e \<longleftrightarrow> seen_bit (rsw_seen w) e \<or> e = d" for e
    using seen_bit_set [of "d div 64" "rsw_seen w" "d mod 64" e] len assms(2)
    by (simp add: rsw_insert_def eq)
  show "rsw_wf (rsw_insert d w)"
    using assms by (auto simp: rsw_wf_def bit) (simp add: rsw_insert_def)
  show "rsw_set (rsw_insert d w) = insert (unat (rsw_highest w) - d) (rsw_set w)"
    using assms by (auto simp: rsw_set_def bit)
qed

subsection \<open>Properties\<close>

text \<open>
  C32. Shifting the sixteen-word bitmap by any distance, word by word with the carry between
  neighbouring words, moves every mark by exactly that distance: a distance is marked afterwards
  exactly when it is at least the shift and the distance before the shift was marked.
\<close>

theorem shift_older_moves_marks:
  assumes "length (rsw_seen w) = OVERLAY_REPLAY_SEQUENCE_WINDOW_WORDS"
    and "distance < OVERLAY_REPLAY_SEQUENCE_WINDOW_BITS"
  shows "rsw_contains distance (shift_older n w) \<longleftrightarrow> n \<le> distance \<and> rsw_contains (distance - n) w"
  using assms shift_older_bit [of n w distance]
    rsw_contains_seen_bit [of "shift_older n w" distance] rsw_contains_seen_bit [of w "distance - n"]
  by auto

theorem shift_older_moves_marks_witness:
  "rsw_contains 100 (shift_older 100 (rsw_new 5)) \<and> \<not> rsw_contains 99 (shift_older 100 (rsw_new 5))"
proof -
  have "length (rsw_seen (rsw_new 5)) = OVERLAY_REPLAY_SEQUENCE_WINDOW_WORDS" by (simp add: rsw_new_def)
  note shift = shift_older_moves_marks [OF this]
  have "rsw_contains 0 (rsw_new 5)" by code_simp
  then show ?thesis using shift [of 100 100] shift [of 99 100] by simp
qed

end
