(* ===== verification/Systems.thy ===== *)
theory Systems
  imports Prelude
begin

text \<open>
  Runs of components. A component is a function from an operation and a state to a result and a new
  state. \<open>invariant_system\<close> lifts an invariant from single operations to runs; \<open>single_use\<close> is
  the contract of everything that must accept a tag (a sequence number, a nonce, a sign-in
  challenge) at most once while it remembers the tag, and derives that no run accepts it twice;
  \<open>fixed_window\<close> is the contract of a limiter that counts in windows of a fixed width, and bounds
  what it lets through in any period.
\<close>

text \<open>Sequencing of fallible operations on a state: the \<open>?\<close> of a method with \<open>&mut self\<close>.\<close>

definition st_then :: "('e + 'a) \<times> 's \<Rightarrow> ('a \<Rightarrow> 's \<Rightarrow> ('e + 'b) \<times> 's) \<Rightarrow> ('e + 'b) \<times> 's" where
  "st_then m f = (case m of (Inl e, s) \<Rightarrow> (Inl e, s) | (Inr x, s) \<Rightarrow> f x s)"

lemma st_then_simps [simp]:
  "st_then (Inl e, s) f = (Inl e, s)"
  "st_then (Inr x, s) f = f x s"
  by (simp_all add: st_then_def)

lemma st_then_ok [result_simps]:
  "st_then m f = (Inr y, s') \<longleftrightarrow> (\<exists>x s. m = (Inr x, s) \<and> f x s = (Inr y, s'))"
  by (auto simp: st_then_def split: prod.splits sum.splits)

lemma st_then_inv:
  "P (snd m) \<Longrightarrow> (\<And>x s. m = (Inr x, s) \<Longrightarrow> P (snd (f x s))) \<Longrightarrow> P (snd (st_then m f))"
  by (auto simp: st_then_def split: prod.splits sum.splits)

lemma st_then_assoc: "st_then (st_then m g) f = st_then m (\<lambda>x s. st_then (g x s) f)"
  by (auto simp: st_then_def split: prod.splits sum.splits)

lemma st_then_pure:
  "P s \<Longrightarrow> (\<And>x. r = Inr x \<Longrightarrow> P (snd (f x s))) \<Longrightarrow> P (snd (st_then (r, s) f))"
  by (cases r) simp_all

fun run :: "('op \<Rightarrow> 's \<Rightarrow> 'r \<times> 's) \<Rightarrow> 'op list \<Rightarrow> 's \<Rightarrow> 's" where
  "run step [] s = s"
| "run step (op # ops) s = run step ops (snd (step op s))"

fun states :: "('op \<Rightarrow> 's \<Rightarrow> 'r \<times> 's) \<Rightarrow> 'op list \<Rightarrow> 's \<Rightarrow> 's list" where
  "states step [] s = [s]"
| "states step (op # ops) s = s # states step ops (snd (step op s))"

lemma run_append: "run step (ops @ ops') s = run step ops' (run step ops s)"
  by (induction ops arbitrary: s) simp_all

lemma run_in_states: "run step ops s \<in> set (states step ops s)"
  by (induction ops arbitrary: s) simp_all

locale invariant_system =
  fixes step :: "'op \<Rightarrow> 's \<Rightarrow> 'r \<times> 's"
    and inv :: "'s \<Rightarrow> bool"
  assumes inv_step: "inv s \<Longrightarrow> inv (snd (step op s))"
begin

lemma inv_run: "inv s \<Longrightarrow> inv (run step ops s)"
  by (induction ops arbitrary: s) (simp_all add: inv_step)

lemma inv_states: "inv s \<Longrightarrow> s' \<in> set (states step ops s) \<Longrightarrow> inv s'"
  by (induction ops arbitrary: s) (auto intro: inv_step)

end

locale single_use = invariant_system step inv
  for step :: "'op \<Rightarrow> 's \<Rightarrow> 'r \<times> 's" and inv :: "'s \<Rightarrow> bool" +
  fixes accepted :: "'r \<Rightarrow> bool"
    and tag :: "'op \<Rightarrow> 't option"
    and holds :: "'s \<Rightarrow> 't \<Rightarrow> bool"
    and barred :: "'s \<Rightarrow> 't \<Rightarrow> bool"
  assumes accept_bars:
      "inv s \<Longrightarrow> tag op = Some t \<Longrightarrow> accepted (fst (step op s)) \<Longrightarrow> barred (snd (step op s)) t"
    and barred_kept:
      "inv s \<Longrightarrow> barred s t \<Longrightarrow> holds (snd (step op s)) t \<Longrightarrow> barred (snd (step op s)) t"
    and barred_rejects:
      "inv s \<Longrightarrow> barred s t \<Longrightarrow> tag op = Some t \<Longrightarrow> \<not> accepted (fst (step op s))"
begin

lemma barred_run:
  "inv s \<Longrightarrow> barred s t \<Longrightarrow> \<forall>s' \<in> set (states step ops s). holds s' t \<Longrightarrow> barred (run step ops s) t"
proof (induction ops arbitrary: s)
  case (Cons op ops)
  then have "holds (snd (step op s)) t" by (cases ops) auto
  with Cons show ?case by (auto intro: barred_kept inv_step)
qed simp

lemma accepted_once:
  assumes "inv s" and "tag op = Some t" and "accepted (fst (step op s))"
    and "\<forall>s' \<in> set (states step ops (snd (step op s))). holds s' t"
    and "tag op' = Some t"
  shows "\<not> accepted (fst (step op' (run step ops (snd (step op s)))))"
  using assms by (meson accept_bars barred_rejects barred_run inv_run inv_step)

end

text \<open>What a limiter lets through: the sum of the sizes it accepts.\<close>

fun accepted_total :: "(nat \<Rightarrow> time \<Rightarrow> 's \<Rightarrow> ('e + unit) \<times> 's) \<Rightarrow> (nat \<times> time) list \<Rightarrow> 's \<Rightarrow> nat" where
  "accepted_total step [] s = 0"
| "accepted_total step ((n, now) # events) s =
     (case step n now s of (r, s') \<Rightarrow> (if is_ok r then n else 0) + accepted_total step events s')"

locale fixed_window =
  fixes step :: "nat \<Rightarrow> time \<Rightarrow> 's \<Rightarrow> ('e + unit) \<times> 's"
    and start :: "'s \<Rightarrow> time"
    and used :: "'s \<Rightarrow> nat"
    and cap :: nat
    and width :: time
    and fits :: "nat \<Rightarrow> bool"
    and good :: "'s \<Rightarrow> bool"
  assumes width_pos: "good s \<Longrightarrow> 0 < width"
    and good_step: "good s \<Longrightarrow> fits n \<Longrightarrow> good (snd (step n now s))"
    and start_step: "good s \<Longrightarrow> fits n \<Longrightarrow> step n now s = (r, s') \<Longrightarrow>
      start s' = (if width \<le> now - start s then now else start s)"
    and used_step: "good s \<Longrightarrow> fits n \<Longrightarrow> step n now s = (r, s') \<Longrightarrow>
      used s' = (if width \<le> now - start s then 0 else used s) + (if is_ok r then n else 0)"
    and cap_step: "good s \<Longrightarrow> fits n \<Longrightarrow> step n now s = (Inr u, s') \<Longrightarrow> used s' \<le> cap"
begin

lemma next_window:
  assumes "0 < width" and "width \<le> now - st" and "now \<le> T"
  shows "nat ((T - now) div width) + 1 \<le> nat ((T - st) div width)"
proof -
  have "(T - now) div width + 1 = (T - now + width) div width"
    using assms(1) div_add_self2 [of width "T - now"] by simp
  also have "\<dots> \<le> (T - st) div width" using assms by (intro zdiv_mono1) auto
  finally have "(T - now) div width + 1 \<le> (T - st) div width" .
  moreover have "0 \<le> (T - now) div width" using assms by (simp add: pos_imp_zdiv_nonneg_iff)
  ultimately show ?thesis by linarith
qed

lemma total_bounded:
  "good s \<Longrightarrow> used s \<le> cap \<Longrightarrow> \<forall>(n, now) \<in> set events. fits n \<and> now \<le> T \<Longrightarrow>
   used s + accepted_total step events s \<le> cap * (nat ((T - start s) div width) + 1)"
proof (induction events arbitrary: s)
  case (Cons e events)
  obtain n now where e: "e = (n, now)" by (cases e)
  obtain r s' where st: "step n now s = (r, s')" by (cases "step n now s")
  have fits: "fits n" "now \<le> T" using Cons.prems(3) by (auto simp: e)
  note step = start_step [OF Cons.prems(1) fits(1) st] used_step [OF Cons.prems(1) fits(1) st]
  have good: "good s'" using good_step [OF Cons.prems(1) fits(1), of now] by (simp add: st)
  have "used s' \<le> cap"
    using step(2) cap_step [OF Cons.prems(1) fits(1), of now] st Cons.prems(2) by (cases r) (auto split: if_splits)
  from Cons.IH [OF good this] Cons.prems(3)
  have IH: "used s' + accepted_total step events s' \<le> cap * (nat ((T - start s') div width) + 1)" by simp
  show ?case
  proof (cases "width \<le> now - start s")
    case True
    have "used s + accepted_total step (e # events) s \<le> cap + cap * (nat ((T - now) div width) + 1)"
      using IH Cons.prems(2) step True by (simp add: e st split: if_splits)
    also have "\<dots> = cap * (nat ((T - now) div width) + 1 + 1)" by (simp add: algebra_simps)
    also have "\<dots> \<le> cap * (nat ((T - start s) div width) + 1)"
      using next_window [OF width_pos [OF Cons.prems(1)] True fits(2)] by (intro mult_le_mono2) simp
    finally show ?thesis .
  next
    case False
    then show ?thesis using IH step by (simp add: e st)
  qed
qed simp

end

end
