(* ===== verification/Replay.thy ===== *)
theory Replay
  imports SeqWindow Systems
begin

text \<open>
  The bounded replay table of the overlay forwarder, \<open>ReplayWindow\<close> of
  \<open>crates/ipars-agent/src/overlay_forwarder.rs\<close>: a map from paths to sequence windows with a
  recency queue that decides which path is evicted. The table is shown to implement, path by path,
  a set of remembered sequence numbers, to keep its size bounds, and never to accept a sequence
  number twice for a path it still holds.
\<close>

subsection \<open>The table of windows\<close>

record replay_path_key =
  rpk_topology_epoch :: u64
  rpk_source :: node_id
  rpk_path_id :: bytes

record replay_window =
  rw_capacity :: nat
  rw_sequences :: "(replay_path_key, replay_sequence_window) amap"
  rw_recency :: "(replay_path_key \<times> u64) list"

definition rw_new :: "nat \<Rightarrow> replay_window" where
  "rw_new capacity = \<lparr>rw_capacity = capacity, rw_sequences = [], rw_recency = []\<rparr>"

definition rw_len :: "replay_window \<Rightarrow> nat" where
  "rw_len rw = length (rw_sequences rw)"

text \<open>Whether a queue entry is the latest of its path, the test of both \<open>evict\<close> and \<open>compact\<close>.\<close>

definition current_entry ::
  "(replay_path_key, replay_sequence_window) amap \<Rightarrow> replay_path_key \<times> u64 \<Rightarrow> bool" where
  "current_entry sequences entry =
     (case am_get sequences (fst entry) of
        None \<Rightarrow> False
      | Some window \<Rightarrow> rsw_highest window = snd entry)"

definition compact_recency :: "replay_window \<Rightarrow> replay_window" where
  "compact_recency rw = rw\<lparr>rw_recency := filter (current_entry (rw_sequences rw)) (rw_recency rw)\<rparr>"

fun evict_loop ::
  "nat \<Rightarrow> (replay_path_key, replay_sequence_window) amap \<Rightarrow> (replay_path_key \<times> u64) list
     \<Rightarrow> (replay_path_key, replay_sequence_window) amap \<times> (replay_path_key \<times> u64) list" where
  "evict_loop capacity sequences [] = (sequences, [])"
| "evict_loop capacity sequences (entry # recency) =
     (if length sequences > capacity
      then evict_loop capacity
        (if current_entry sequences entry then am_remove (fst entry) sequences else sequences) recency
      else (sequences, entry # recency))"

definition evict_to_capacity :: "replay_window \<Rightarrow> replay_window" where
  "evict_to_capacity rw =
     (let (sequences, recency) = evict_loop (rw_capacity rw) (rw_sequences rw) (rw_recency rw)
      in rw\<lparr>rw_sequences := sequences, rw_recency := recency\<rparr>)"

definition push_recency :: "replay_path_key \<Rightarrow> u64 option \<Rightarrow> replay_window \<Rightarrow> replay_window" where
  "push_recency key recency_sequence rw =
     (case recency_sequence of
        None \<Rightarrow> rw
      | Some s \<Rightarrow>
          let rw = (if length (rw_recency rw) \<ge> rw_capacity rw * 2 then compact_recency rw else rw)
          in rw\<lparr>rw_recency := rw_recency rw @ [(key, s)]\<rparr>)"

definition observe ::
  "u64 \<Rightarrow> node_id \<Rightarrow> bytes \<Rightarrow> u64 \<Rightarrow> replay_window
     \<Rightarrow> (overlay_forwarder_error + unit) \<times> replay_window" where
  "observe topology_epoch source path_id sequence rw =
     (let key = \<lparr>rpk_topology_epoch = topology_epoch, rpk_source = source, rpk_path_id = path_id\<rparr>;
          finish = (\<lambda>window recency_sequence.
            (Inr (), evict_to_capacity (push_recency key recency_sequence
               (rw\<lparr>rw_sequences := hm_insert key window (rw_sequences rw)\<rparr>))))
      in case am_get (rw_sequences rw) key of
           Some window \<Rightarrow>
             if sequence > rsw_highest window
             then finish (advance_to sequence window) (Some sequence)
             else
               let distance = rsw_highest window - sequence in
               if unat distance \<ge> OVERLAY_REPLAY_SEQUENCE_WINDOW_BITS
               then (Inl (ReplayRejected source sequence (rsw_highest window)), rw)
               else if rsw_contains (unat distance) window
               then (Inl (ReplayRejected source sequence (rsw_highest window)), rw)
               else finish (rsw_insert (unat distance) window) None
         | None \<Rightarrow> finish (rsw_new sequence) (Some sequence))"

definition retain_epochs :: "u64 list \<Rightarrow> replay_window \<Rightarrow> replay_window" where
  "retain_epochs retained_epochs rw =
     compact_recency (rw\<lparr>rw_sequences :=
       am_retain (\<lambda>key _. rpk_topology_epoch key \<in> set retained_epochs) (rw_sequences rw)\<rparr>)"

text \<open>
  The invariant of the table. The queue entries of one path are strictly increasing, the last of
  them is the highest sequence number of its window, and paths without a window have no entry.
\<close>

definition entries_of :: "replay_path_key \<Rightarrow> (replay_path_key \<times> u64) list \<Rightarrow> u64 list" where
  "entries_of key recency = map snd (filter (\<lambda>e. fst e = key) recency)"

definition recency_ok ::
  "(replay_path_key, replay_sequence_window) amap \<Rightarrow> (replay_path_key \<times> u64) list \<Rightarrow> bool" where
  "recency_ok sequences recency \<longleftrightarrow>
     hm_wf sequences \<and>
     (\<forall>key. case am_get sequences key of
        None \<Rightarrow> entries_of key recency = []
      | Some window \<Rightarrow> rsw_wf window \<and> entries_of key recency \<noteq> [] \<and>
          sorted_wrt (<) (entries_of key recency) \<and>
          last (entries_of key recency) = rsw_highest window)"

definition rw_inv :: "replay_window \<Rightarrow> bool" where
  "rw_inv rw \<longleftrightarrow> 0 < rw_capacity rw \<and> recency_ok (rw_sequences rw) (rw_recency rw) \<and>
     length (rw_sequences rw) \<le> rw_capacity rw \<and> length (rw_recency rw) \<le> 2 * rw_capacity rw"

lemma entries_of_simps [simp]:
  "entries_of key [] = []"
  "entries_of key (e # recency) = (if fst e = key then snd e # entries_of key recency else entries_of key recency)"
  "entries_of key (xs @ ys) = entries_of key xs @ entries_of key ys"
  by (simp_all add: entries_of_def)

lemma recency_okD:
  assumes "recency_ok seqs recency"
  shows "hm_wf seqs"
    and "am_get seqs key = None \<Longrightarrow> entries_of key recency = []"
    and "am_get seqs key = Some w \<Longrightarrow> rsw_wf w \<and> entries_of key recency \<noteq> [] \<and>
      sorted_wrt (<) (entries_of key recency) \<and> last (entries_of key recency) = rsw_highest w"
proof -
  have *: "hm_wf seqs \<and> (case am_get seqs key of
      None \<Rightarrow> entries_of key recency = []
    | Some window \<Rightarrow> rsw_wf window \<and> entries_of key recency \<noteq> [] \<and>
        sorted_wrt (<) (entries_of key recency) \<and>
        last (entries_of key recency) = rsw_highest window)"
    using assms unfolding recency_ok_def by blast
  then show "hm_wf seqs" ..
  show "am_get seqs key = None \<Longrightarrow> entries_of key recency = []" using * by simp
  show "am_get seqs key = Some w \<Longrightarrow> rsw_wf w \<and> entries_of key recency \<noteq> [] \<and>
      sorted_wrt (<) (entries_of key recency) \<and> last (entries_of key recency) = rsw_highest w"
    using * by simp
qed

lemma recency_okI:
  assumes "hm_wf seqs"
    and "\<And>key. am_get seqs key = None \<Longrightarrow> entries_of key recency = []"
    and "\<And>key w. am_get seqs key = Some w \<Longrightarrow> rsw_wf w \<and> entries_of key recency \<noteq> [] \<and>
      sorted_wrt (<) (entries_of key recency) \<and> last (entries_of key recency) = rsw_highest w"
  shows "recency_ok seqs recency"
  using assms by (simp add: recency_ok_def split: option.splits)

lemma recency_ok_Nil: "recency_ok seqs [] \<Longrightarrow> seqs = []"
  using recency_okD(3) [of seqs "[]" "fst (hd seqs)"] by (cases seqs) auto

lemma sorted_wrt_last_eq_hd: "sorted_wrt (<) (x # xs) \<Longrightarrow> last (x # xs) = x \<Longrightarrow> xs = []"
  for x :: "'a::order"
  using last_in_set [of xs] by (cases "xs = []") auto

lemma recency_ok_pop:
  assumes ok: "recency_ok seqs (entry # recency)"
  shows "recency_ok (if current_entry seqs entry then am_remove (fst entry) seqs else seqs) recency"
    (is "recency_ok ?seqs _")
proof -
  obtain k s where e: "entry = (k, s)" by (cases entry)
  note D = recency_okD [OF ok [unfolded e]]
  from D(2) [of k] obtain w where w: "am_get seqs k = Some w" by (cases "am_get seqs k") auto
  note Dk = D(3) [OF w, simplified]
  have current: "current_entry seqs entry \<longleftrightarrow> rsw_highest w = s" by (simp add: current_entry_def e w)
  have get: "am_get ?seqs key = (if key = k \<and> rsw_highest w = s then None else am_get seqs key)" for key
    using w by (auto simp: current hm.get_remove [OF D(1)] simp flip: e) (simp_all add: e)
  show ?thesis
  proof (rule recency_okI)
    show "hm_wf ?seqs" using D(1) by (simp add: hm.wf_remove)
    show "entries_of key recency = []" if "am_get ?seqs key = None" for key
    proof (cases "key = k")
      case True
      then have "rsw_highest w = s" using that w by (simp add: get split: if_splits)
      then show ?thesis using Dk sorted_wrt_last_eq_hd [of s "entries_of k recency"] True by auto
    next
      case False
      then show ?thesis using that D(2) [of key] by (simp add: get)
    qed
    show "rsw_wf w' \<and> entries_of key recency \<noteq> [] \<and> sorted_wrt (<) (entries_of key recency) \<and>
        last (entries_of key recency) = rsw_highest w'" if "am_get ?seqs key = Some w'" for key w'
    proof (cases "key = k")
      case True
      then have "rsw_highest w \<noteq> s" "w' = w" using that w by (auto simp: get split: if_splits)
      then show ?thesis using Dk True by (auto split: if_splits)
    next
      case False
      then show ?thesis using that D(3) [of key w'] by (simp add: get)
    qed
  qed
qed

lemma evict_loop_ok:
  assumes "recency_ok seqs recency" and "evict_loop cap seqs recency = (seqs', recency')"
  shows "recency_ok seqs' recency' \<and> length seqs' \<le> cap \<and> length recency' \<le> length recency \<and>
    (\<forall>key. am_get seqs' key = None \<or> am_get seqs' key = am_get seqs key)"
  using assms
proof (induction cap seqs recency rule: evict_loop.induct)
  case (1 cap seqs)
  then show ?case using recency_ok_Nil [of seqs] by auto
next
  case (2 cap seqs entry recency)
  show ?case
  proof (cases "cap < length seqs")
    case True
    let ?seqs = "if current_entry seqs entry then am_remove (fst entry) seqs else seqs"
    have "am_get ?seqs key = None \<or> am_get ?seqs key = am_get seqs key" for key
      using recency_okD(1) [OF 2(2)] by (simp add: hm.get_remove)
    moreover have "recency_ok seqs' recency' \<and> length seqs' \<le> cap \<and> length recency' \<le> length recency \<and>
        (\<forall>key. am_get seqs' key = None \<or> am_get seqs' key = am_get ?seqs key)"
      using 2(1) [OF True recency_ok_pop [OF 2(2)]] 2(3) True by simp
    ultimately show ?thesis by (metis le_SucI length_Cons)
  next
    case False
    then show ?thesis using 2 by auto
  qed
qed

lemma evict_loop_keeps_last:
  assumes "recency_ok seqs (recency @ [(key, s)])" and "0 < cap"
    and "evict_loop cap seqs (recency @ [(key, s)]) = (seqs', recency')"
  shows "am_get seqs' key = am_get seqs key"
  using assms
proof (induction recency arbitrary: seqs)
  case Nil
  have "entries_of key' [(key, s)] = []" if "key' \<noteq> key" for key' using that by simp
  then have "dom (am_get seqs) \<subseteq> {key}"
    using recency_okD(3) [OF Nil(1) [simplified]] by (metis domD insert_iff subsetI)
  then have "length seqs \<le> card {key}"
    unfolding hm.length_dom [OF recency_okD(1) [OF Nil(1)]] by (rule card_mono [rotated]) simp
  then show ?case using Nil by simp
next
  case (Cons entry recency)
  let ?seqs = "if current_entry seqs entry then am_remove (fst entry) seqs else seqs"
  note D = recency_okD [OF Cons.prems(1)]
  show ?case
  proof (cases "cap < length seqs")
    case True
    have "am_get ?seqs key = am_get seqs key"
    proof (cases "fst entry = key")
      case True
      with D(2) [of key] obtain w where w: "am_get seqs key = Some w" by (cases "am_get seqs key") auto
      then have "snd entry < s" "rsw_highest w = s" using D(3) [OF w] True by auto
      then have "\<not> current_entry seqs entry" using w True by (auto simp: current_entry_def)
      then show ?thesis by simp
    next
      case False
      then show ?thesis by (simp add: hm.get_remove [OF D(1)])
    qed
    moreover have "am_get seqs' key = am_get ?seqs key"
      using Cons.IH [OF recency_ok_pop [OF Cons.prems(1) [simplified]] Cons.prems(2)] Cons.prems(3) True
      by simp
    ultimately show ?thesis by simp
  next
    case False
    then show ?thesis using Cons.prems by auto
  qed
qed

lemma entries_of_compact:
  "am_get seqs key = Some w \<Longrightarrow>
     entries_of key (filter (current_entry seqs) recency) = filter (\<lambda>s. s = rsw_highest w) (entries_of key recency)"
  "am_get seqs key = None \<Longrightarrow> entries_of key (filter (current_entry seqs) recency) = []"
  by (induction recency) (auto simp: current_entry_def)

lemma filter_eq_last:
  fixes xs :: "'a::order list"
  assumes "sorted_wrt (<) xs" and "xs \<noteq> []"
  shows "filter (\<lambda>x. x = last xs) xs = [last xs]"
  using assms
proof (induction xs)
  case (Cons x xs)
  show ?case
  proof (cases "xs = []")
    case False
    then have "x < last xs" using Cons.prems by simp
    then show ?thesis using Cons False by auto
  qed simp
qed simp

lemma le_last_sorted_wrt: "sorted_wrt (<) xs \<Longrightarrow> x \<in> set xs \<Longrightarrow> x \<le> last xs" for x :: "'a::order"
  by (induction xs) (auto intro: less_imp_le)

text \<open>A new window for a path, with its queue entry, before and after compaction.\<close>

lemma recency_ok_push:
  assumes ok: "recency_ok seqs recency" and w: "rsw_wf w" "rsw_highest w = s"
    and newer: "\<And>w'. am_get seqs key = Some w' \<Longrightarrow> rsw_highest w' < s"
  shows "recency_ok (hm_insert key w seqs) (recency @ [(key, s)])"
proof (rule recency_okI)
  note D = recency_okD [OF ok]
  show "hm_wf (hm_insert key w seqs)" using D(1) by (rule hm_wf_insert)
  show "entries_of key' (recency @ [(key, s)]) = []" if "am_get (hm_insert key w seqs) key' = None" for key'
    using that D(2) [of key'] by (auto simp: hm_get_insert split: if_splits)
  show "rsw_wf v \<and> entries_of key' (recency @ [(key, s)]) \<noteq> [] \<and>
      sorted_wrt (<) (entries_of key' (recency @ [(key, s)])) \<and>
      last (entries_of key' (recency @ [(key, s)])) = rsw_highest v"
    if v: "am_get (hm_insert key w seqs) key' = Some v" for key' v
  proof (cases "key' = key")
    case True
    have "x < s" if x: "x \<in> set (entries_of key recency)" for x
    proof -
      obtain w' where w': "am_get seqs key = Some w'" using x D(2) [of key] by (cases "am_get seqs key") auto
      have "x \<le> last (entries_of key recency)"
        using D(3) [OF w'] x by (intro le_last_sorted_wrt) auto
      then show ?thesis using D(3) [OF w'] newer [OF w'] by simp
    qed
    moreover have "sorted_wrt (<) (entries_of key recency)"
      using D(2,3) [of key] by (cases "am_get seqs key") auto
    ultimately show ?thesis using True v w by (simp add: hm_get_insert sorted_wrt_append)
  next
    case False
    then show ?thesis using v D(3) [of key' v] by (simp add: hm_get_insert)
  qed
qed

lemma recency_ok_submap:
  assumes "recency_ok seqs recency" and "hm_wf seqs'"
    and sub: "\<And>key w. am_get seqs' key = Some w \<Longrightarrow> am_get seqs key = Some w"
  shows "recency_ok seqs' (filter (current_entry seqs') recency)"
proof (rule recency_okI)
  note D = recency_okD [OF assms(1)]
  show "hm_wf seqs'" by (rule assms(2))
  show "entries_of key (filter (current_entry seqs') recency) = []" if "am_get seqs' key = None" for key
    using that by (rule entries_of_compact(2))
  show "rsw_wf w \<and> entries_of key (filter (current_entry seqs') recency) \<noteq> [] \<and>
      sorted_wrt (<) (entries_of key (filter (current_entry seqs') recency)) \<and>
      last (entries_of key (filter (current_entry seqs') recency)) = rsw_highest w"
    if w: "am_get seqs' key = Some w" for key w
    using D(3) [OF sub [OF w]] filter_eq_last [of "entries_of key recency"]
    by (simp add: entries_of_compact(1) [OF w])
qed

lemmas recency_ok_compact = recency_ok_submap [OF _ recency_okD(1)]

lemma in_keys_iff: "key \<in> fst ` set recency \<longleftrightarrow> entries_of key recency \<noteq> []"
  by (induction recency) auto

lemma distinct_keys: "\<forall>key. length (entries_of key recency) \<le> 1 \<Longrightarrow> distinct (map fst recency)"
proof (induction recency)
  case (Cons e recency)
  have "length (entries_of key recency) \<le> 1" for key
    using Cons.prems [rule_format, of key] by (simp split: if_splits)
  moreover have "entries_of (fst e) recency = []" using Cons.prems [rule_format, of "fst e"] by simp
  ultimately show ?case using Cons.IH by (simp add: in_keys_iff)
qed simp

lemma length_compact:
  assumes "recency_ok seqs recency"
  shows "length (filter (current_entry seqs) recency) = length seqs"
proof -
  note D = recency_okD [OF assms]
  let ?F = "filter (current_entry seqs) recency"
  have e: "entries_of key ?F = (case am_get seqs key of None \<Rightarrow> [] | Some w \<Rightarrow> [rsw_highest w])" for key
  proof (cases "am_get seqs key")
    case None
    then show ?thesis by (simp add: entries_of_compact(2))
  next
    case (Some w)
    then show ?thesis
      using D(3) [OF Some] filter_eq_last [of "entries_of key recency"] by (simp add: entries_of_compact(1))
  qed
  have "distinct (map fst ?F)"
    by (rule distinct_keys) (simp only: e, simp split: option.split)
  then have "length ?F = card (fst ` set ?F)"
    by (metis distinct_card length_map list.set_map)
  also have "fst ` set ?F = dom (am_get seqs)"
    by (rule set_eqI) (simp only: in_keys_iff e, auto split: option.splits)
  finally show ?thesis by (simp add: hm.length_dom [OF D(1)])
qed

lemma recency_ok_same:
  assumes ok: "recency_ok seqs recency" and "am_get seqs key = Some w"
    and "rsw_wf w'" and "rsw_highest w' = rsw_highest w"
  shows "recency_ok (hm_insert key w' seqs) recency"
proof (rule recency_okI)
  note D = recency_okD [OF ok]
  show "hm_wf (hm_insert key w' seqs)" using D(1) by (rule hm_wf_insert)
  show "entries_of key' recency = []" if "am_get (hm_insert key w' seqs) key' = None" for key'
    using that D(2) [of key'] by (auto simp: hm_get_insert split: if_splits)
  show "rsw_wf v \<and> entries_of key' recency \<noteq> [] \<and> sorted_wrt (<) (entries_of key' recency) \<and>
      last (entries_of key' recency) = rsw_highest v"
    if "am_get (hm_insert key w' seqs) key' = Some v" for key' v
    using that assms(2-4) D(3) [of key'] by (auto simp: hm_get_insert split: if_splits)
qed

subsection \<open>What an observation does\<close>

text \<open>
  The specification of one path: a highest sequence number and the set of remembered numbers within
  1024 of it. \<open>None\<close> as a result is a rejection.
\<close>

fun spec_observe :: "nat \<Rightarrow> (nat \<times> nat set) option \<Rightarrow> (nat \<times> nat set) option" where
  "spec_observe s None = Some (s, {s})"
| "spec_observe s (Some (h, S)) =
     (if s > h then Some (s, insert s {x \<in> S. s - x < 1024})
      else if h - s \<ge> 1024 \<or> s \<in> S then None
      else Some (h, insert s S))"

definition window_abs :: "replay_sequence_window \<Rightarrow> nat \<times> nat set" where
  "window_abs w = (unat (rsw_highest w), rsw_set w)"

definition rw_abs :: "replay_window \<Rightarrow> replay_path_key \<Rightarrow> (nat \<times> nat set) option" where
  "rw_abs rw key = map_option window_abs (am_get (rw_sequences rw) key)"

text \<open>Recording a window for a path, as every accepting branch of \<open>observe\<close> does.\<close>

definition record_window ::
  "replay_path_key \<Rightarrow> replay_sequence_window \<Rightarrow> u64 option \<Rightarrow> replay_window \<Rightarrow> replay_window" where
  "record_window key w recency_sequence rw =
     evict_to_capacity (push_recency key recency_sequence
       (rw\<lparr>rw_sequences := hm_insert key w (rw_sequences rw)\<rparr>))"

lemma evict_to_capacity_within:
  "length (rw_sequences rw) \<le> rw_capacity rw \<Longrightarrow> evict_to_capacity rw = rw"
  by (cases "rw_recency rw") (simp_all add: evict_to_capacity_def)

lemma record_window_newer:
  assumes inv: "rw_inv rw" and w: "rsw_wf w" "rsw_highest w = s"
    and newer: "\<And>w'. am_get (rw_sequences rw) key = Some w' \<Longrightarrow> rsw_highest w' < s"
  defines "rw' \<equiv> record_window key w (Some s) rw"
  shows "rw_inv rw'" and "am_get (rw_sequences rw') key = Some w"
    and "am_get (rw_sequences rw') key' = None \<or> key' = key \<or>
      am_get (rw_sequences rw') key' = am_get (rw_sequences rw) key'"
    and "length (hm_insert key w (rw_sequences rw)) \<le> rw_capacity rw \<Longrightarrow>
      rw_sequences rw' = hm_insert key w (rw_sequences rw)"
    and "rw_capacity rw' = rw_capacity rw"
proof -
  let ?seqs = "hm_insert key w (rw_sequences rw)"
  let ?rec = "if length (rw_recency rw) \<ge> rw_capacity rw * 2
    then filter (current_entry ?seqs) (rw_recency rw) else rw_recency rw"
  from inv have ok: "recency_ok (rw_sequences rw) (rw_recency rw)" and cap: "0 < rw_capacity rw"
    and len: "length (rw_sequences rw) \<le> rw_capacity rw" "length (rw_recency rw) \<le> 2 * rw_capacity rw"
    by (simp_all add: rw_inv_def)
  have push: "recency_ok ?seqs (rw_recency rw @ [(key, s)])" by (rule recency_ok_push [OF ok w newer])
  have cur: "current_entry ?seqs (key, s)" using w by (simp add: current_entry_def hm_get_insert)
  have ok': "recency_ok ?seqs (?rec @ [(key, s)])"
    using push recency_ok_compact [OF push push] cur by simp
  have "length ?seqs \<le> rw_capacity rw + 1"
    using len(1) by (simp add: hm.length_put recency_okD(1) [OF ok])
  then have len': "length (?rec @ [(key, s)]) \<le> 2 * rw_capacity rw"
    using length_compact [OF push] cur len(2) cap by auto
  obtain seqs' rec' where ev: "evict_loop (rw_capacity rw) ?seqs (?rec @ [(key, s)]) = (seqs', rec')"
    by (metis surj_pair)
  have rw': "rw' = rw\<lparr>rw_sequences := seqs', rw_recency := rec'\<rparr>"
    using ev by (auto simp: rw'_def record_window_def push_recency_def compact_recency_def Let_def
        evict_to_capacity_def split: if_splits)
  note E = evict_loop_ok [OF ok' ev]
  show "rw_inv rw'" using E len' cap by (auto simp: rw_inv_def rw')
  show "am_get (rw_sequences rw') key = Some w"
    using evict_loop_keeps_last [OF ok' cap ev] by (simp add: rw' hm_get_insert)
  show "am_get (rw_sequences rw') key' = None \<or> key' = key \<or>
      am_get (rw_sequences rw') key' = am_get (rw_sequences rw) key'"
    using E by (simp add: rw') (metis hm_get_insert fun_upd_other)
  show "length ?seqs \<le> rw_capacity rw \<Longrightarrow> rw_sequences rw' = ?seqs"
    using ev by (cases "?rec @ [(key, s)]") (simp_all add: rw')
  show "rw_capacity rw' = rw_capacity rw" by (simp add: rw')
qed

lemma record_window_same:
  assumes inv: "rw_inv rw" and "am_get (rw_sequences rw) key = Some w"
    and w': "rsw_wf w'" "rsw_highest w' = rsw_highest w"
  defines "rw' \<equiv> record_window key w' None rw"
  shows "rw_inv rw'" and "rw_sequences rw' = hm_insert key w' (rw_sequences rw)"
    and "rw_capacity rw' = rw_capacity rw"
proof -
  from inv have ok: "recency_ok (rw_sequences rw) (rw_recency rw)"
    and len: "length (rw_sequences rw) \<le> rw_capacity rw" by (simp_all add: rw_inv_def)
  have l: "length (hm_insert key w' (rw_sequences rw)) = length (rw_sequences rw)"
    using assms(2) by (simp add: hm.length_put recency_okD(1) [OF ok])
  have "rw' = rw\<lparr>rw_sequences := hm_insert key w' (rw_sequences rw)\<rparr>"
    using len l by (simp add: rw'_def record_window_def push_recency_def evict_to_capacity_within)
  then show "rw_inv rw'" and "rw_sequences rw' = hm_insert key w' (rw_sequences rw)"
    and "rw_capacity rw' = rw_capacity rw"
    using inv recency_ok_same [OF ok assms(2) w'] l by (simp_all add: rw_inv_def)
qed

abbreviation path_key :: "u64 \<Rightarrow> node_id \<Rightarrow> bytes \<Rightarrow> replay_path_key" where
  "path_key epoch source path_id \<equiv>
     \<lparr>rpk_topology_epoch = epoch, rpk_source = source, rpk_path_id = path_id\<rparr>"

lemma observe_new:
  "am_get (rw_sequences rw) (path_key e src p) = None \<Longrightarrow>
     observe e src p s rw = (Inr (), record_window (path_key e src p) (rsw_new s) (Some s) rw)"
  by (simp add: observe_def record_window_def Let_def)

lemma observe_newer:
  "am_get (rw_sequences rw) (path_key e src p) = Some w \<Longrightarrow> rsw_highest w < s \<Longrightarrow>
     observe e src p s rw = (Inr (), record_window (path_key e src p) (advance_to s w) (Some s) rw)"
  by (simp add: observe_def record_window_def Let_def)

lemma observe_older:
  assumes "am_get (rw_sequences rw) (path_key e src p) = Some w" and "s \<le> rsw_highest w" and "rsw_wf w"
  shows "observe e src p s rw =
    (let d = unat (rsw_highest w) - unat s in
     if d \<ge> 1024 \<or> unat s \<in> rsw_set w then (Inl (ReplayRejected src s (rsw_highest w)), rw)
     else (Inr (), record_window (path_key e src p) (rsw_insert d w) None rw))"
proof -
  have d: "unat (rsw_highest w - s) = unat (rsw_highest w) - unat s" using assms(2) by (simp add: unat_sub)
  have le: "unat s \<le> unat (rsw_highest w)" using assms(2) by (simp add: word_le_nat_alt)
  have "rsw_contains (unat (rsw_highest w) - unat s) w \<longleftrightarrow> unat s \<in> rsw_set w"
    if "unat (rsw_highest w) - unat s < 1024"
    using that assms(3) le by (simp add: rsw_contains_seen_bit rsw_wf_def rsw_set_def)
  then show ?thesis
    using assms(1,2) by (auto simp: observe_def record_window_def Let_def d not_less not_le)
qed

text \<open>Every observation follows the specification of its path and can only evict other paths.\<close>

lemma observe_spec:
  fixes e src p
  defines "key \<equiv> path_key e src p"
  assumes inv: "rw_inv rw"
  shows "case spec_observe (unat s) (rw_abs rw key) of
      None \<Rightarrow> \<exists>h. observe e src p s rw = (Inl (ReplayRejected src s h), rw)
    | Some a \<Rightarrow> \<exists>rw'. observe e src p s rw = (Inr (), rw') \<and> rw_inv rw' \<and>
        rw_capacity rw' = rw_capacity rw \<and> rw_abs rw' key = Some a \<and>
        (\<forall>k. k \<noteq> key \<longrightarrow> rw_abs rw' k = None \<or> rw_abs rw' k = rw_abs rw k)"
proof (cases "am_get (rw_sequences rw) key")
  case None
  note W = record_window_newer [OF inv rsw_new_wf, of s s key]
  have "rw_abs (record_window key (rsw_new s) (Some s) rw) k = None \<or>
      rw_abs (record_window key (rsw_new s) (Some s) rw) k = rw_abs rw k" if "k \<noteq> key" for k
    using W(3) [of k] None that by (auto simp: rw_abs_def)
  then show ?thesis
    using W(1,2,5) None observe_new [of rw e src p s]
    by (auto simp: rw_abs_def key_def window_abs_def rsw_new_set)
next
  case (Some w)
  have wf: "rsw_wf w"
    using inv Some recency_okD(3) by (metis rw_inv_def)
  show ?thesis
  proof (cases "rsw_highest w < s")
    case True
    note W = record_window_newer [OF inv rsw_advance(1) [OF wf True], of s key]
    have "rw_abs (record_window key (advance_to s w) (Some s) rw) k = None \<or>
        rw_abs (record_window key (advance_to s w) (Some s) rw) k = rw_abs rw k" if "k \<noteq> key" for k
      using W(3) [of k] Some True that by (auto simp: rw_abs_def)
    then show ?thesis
      using W(1,2,5) Some True observe_newer [of rw e src p w s] rsw_advance(2) [OF wf True]
      by (auto simp: rw_abs_def key_def window_abs_def word_less_nat_alt)
  next
    case False
    then have le: "s \<le> rsw_highest w" "unat s \<le> unat (rsw_highest w)"
      by (simp_all add: not_less word_le_nat_alt)
    let ?d = "unat (rsw_highest w) - unat s"
    note O = observe_older [OF Some [unfolded key_def] le(1) wf]
    show ?thesis
    proof (cases "?d \<ge> 1024 \<or> unat s \<in> rsw_set w")
      case True
      then show ?thesis using O Some le by (auto simp: rw_abs_def window_abs_def Let_def)
    next
      case fresh: False
      then have i: "rsw_wf (rsw_insert ?d w)" "rsw_set (rsw_insert ?d w) = insert (unat s) (rsw_set w)"
        using rsw_insert [OF wf, of ?d] le by auto
      note W = record_window_same [OF inv Some i(1)]
      show ?thesis
        using fresh O Some le W i
        by (auto simp: rw_abs_def window_abs_def Let_def key_def hm_get_insert)
    qed
  qed
qed

lemma retain_epochs_spec:
  assumes "rw_inv rw"
  shows "rw_inv (retain_epochs epochs rw)"
    and "rw_abs (retain_epochs epochs rw) key =
      (if rpk_topology_epoch key \<in> set epochs then rw_abs rw key else None)"
    and "rw_capacity (retain_epochs epochs rw) = rw_capacity rw"
proof -
  from assms have ok: "recency_ok (rw_sequences rw) (rw_recency rw)" and cap: "0 < rw_capacity rw"
    and len: "length (rw_sequences rw) \<le> rw_capacity rw" "length (rw_recency rw) \<le> 2 * rw_capacity rw"
    by (simp_all add: rw_inv_def)
  let ?seqs = "am_retain (\<lambda>key _. rpk_topology_epoch key \<in> set epochs) (rw_sequences rw)"
  note wf = recency_okD(1) [OF ok]
  have "recency_ok ?seqs (filter (current_entry ?seqs) (rw_recency rw))"
    by (rule recency_ok_submap [OF ok])
      (simp_all add: hm.wf_retain [OF wf] hm.get_retain [OF wf] bind_eq_Some_conv split: if_splits)
  moreover have "length ?seqs \<le> rw_capacity rw"
    using len(1) unfolding am_retain_def by (meson length_filter_le le_trans)
  moreover have "length (filter (current_entry ?seqs) (rw_recency rw)) \<le> 2 * rw_capacity rw"
    using len(2) by (meson length_filter_le le_trans)
  ultimately show "rw_inv (retain_epochs epochs rw)"
    using cap by (simp add: rw_inv_def retain_epochs_def compact_recency_def)
  show "rw_abs (retain_epochs epochs rw) key =
      (if rpk_topology_epoch key \<in> set epochs then rw_abs rw key else None)"
    by (cases "am_get (rw_sequences rw) key")
      (simp_all add: rw_abs_def retain_epochs_def compact_recency_def hm.get_retain [OF wf])
  show "rw_capacity (retain_epochs epochs rw) = rw_capacity rw"
    by (simp add: retain_epochs_def compact_recency_def)
qed

lemma rw_new_inv: "0 < capacity \<Longrightarrow> rw_inv (rw_new capacity)"
  by (simp add: rw_inv_def rw_new_def recency_ok_def hm_wf_def)

subsection \<open>Runs of the table\<close>

datatype replay_op =
    Observe u64 node_id bytes u64
  | RetainEpochs "u64 list"

fun replay_step :: "replay_op \<Rightarrow> replay_window \<Rightarrow> (overlay_forwarder_error + unit) \<times> replay_window" where
  "replay_step (Observe epoch source path_id sequence) rw = observe epoch source path_id sequence rw"
| "replay_step (RetainEpochs epochs) rw = (Inr (), retain_epochs epochs rw)"

fun observed :: "replay_op \<Rightarrow> (replay_path_key \<times> u64) option" where
  "observed (Observe epoch source path_id sequence) = Some (path_key epoch source path_id, sequence)"
| "observed (RetainEpochs epochs) = None"

definition holds_path :: "replay_window \<Rightarrow> replay_path_key \<times> u64 \<Rightarrow> bool" where
  "holds_path rw t \<longleftrightarrow> am_get (rw_sequences rw) (fst t) \<noteq> None"

definition barred_seq :: "replay_window \<Rightarrow> replay_path_key \<times> u64 \<Rightarrow> bool" where
  "barred_seq rw t \<longleftrightarrow> (\<exists>h S. rw_abs rw (fst t) = Some (h, S) \<and> unat (snd t) \<le> h \<and>
     (h - unat (snd t) \<ge> 1024 \<or> unat (snd t) \<in> S))"

lemma holds_path_iff: "holds_path rw t \<longleftrightarrow> rw_abs rw (fst t) \<noteq> None"
  by (simp add: holds_path_def rw_abs_def)

lemma spec_observe_keeps:
  "spec_observe s (Some (h, S)) = Some (h', S') \<Longrightarrow> x \<le> h \<Longrightarrow> h - x \<ge> 1024 \<or> x \<in> S \<Longrightarrow>
     x \<le> h' \<and> (h' - x \<ge> 1024 \<or> x \<in> S')"
  by (auto split: if_splits)

lemma observe_cases:
  assumes "rw_inv rw"
  obtains (reject) h where "spec_observe (unat s) (rw_abs rw (path_key e src p)) = None"
      and "observe e src p s rw = (Inl (ReplayRejected src s h), rw)"
    | (accept) a rw' where "spec_observe (unat s) (rw_abs rw (path_key e src p)) = Some a"
      and "observe e src p s rw = (Inr (), rw')" and "rw_inv rw'" and "rw_capacity rw' = rw_capacity rw"
      and "rw_abs rw' (path_key e src p) = Some a"
      and "\<And>k. k \<noteq> path_key e src p \<Longrightarrow> rw_abs rw' k = None \<or> rw_abs rw' k = rw_abs rw k"
  using observe_spec [OF assms, of e src p s] that
  by (cases "spec_observe (unat s) (rw_abs rw (path_key e src p))") auto

lemma replay_step_inv: "rw_inv rw \<Longrightarrow> rw_inv (snd (replay_step op rw))"
proof (cases op)
  case (Observe e src p s)
  assume inv: "rw_inv rw"
  from inv Observe show ?thesis by (cases rule: observe_cases [OF inv, of s e src p]) auto
qed (simp add: retain_epochs_spec(1))

interpretation replay: single_use replay_step rw_inv is_ok observed holds_path barred_seq
proof
  fix rw :: replay_window and op :: replay_op and t :: "replay_path_key \<times> u64"
  assume inv: "rw_inv rw"
  then show "rw_inv (snd (replay_step op rw))" by (rule replay_step_inv)
  show "barred_seq (snd (replay_step op rw)) t" if "observed op = Some t" "is_ok (fst (replay_step op rw))"
  proof (cases op)
    case (Observe e src p s)
    show ?thesis
      using that Observe
      by (cases rule: observe_cases [OF inv, of s e src p])
        (auto simp: barred_seq_def elim!: spec_observe.elims split: if_splits)
  qed (use that in simp)
  show "barred_seq (snd (replay_step op rw)) t" if b: "barred_seq rw t" and h: "holds_path (snd (replay_step op rw)) t"
  proof (cases op)
    case (Observe e src p s)
    from b obtain h S where hS: "rw_abs rw (fst t) = Some (h, S)" "unat (snd t) \<le> h"
      "h - unat (snd t) \<ge> 1024 \<or> unat (snd t) \<in> S" by (auto simp: barred_seq_def)
    from inv show ?thesis
    proof (cases rule: observe_cases [of rw s e src p])
      case (accept a rw')
      show ?thesis
      proof (cases "fst t = path_key e src p")
        case True
        then show ?thesis
          using accept hS Observe spec_observe_keeps [of "unat s" h S "fst a" "snd a" "unat (snd t)"]
          by (cases a) (simp add: barred_seq_def)
      next
        case False
        then show ?thesis
          using accept(2) accept(6) [OF False] hS h Observe
          by (auto simp: barred_seq_def holds_path_iff)
      qed
    qed (use b Observe in simp)
  qed (use b h inv in \<open>auto simp: barred_seq_def holds_path_iff retain_epochs_spec split: if_splits\<close>)
  show "\<not> is_ok (fst (replay_step op rw))" if "barred_seq rw t" and "observed op = Some t"
  proof (cases op)
    case (Observe e src p s)
    show ?thesis
      using that Observe
      by (cases rule: observe_cases [OF inv, of s e src p]) (auto simp: barred_seq_def)
  qed (use that in simp)
qed

lemma replay_step_capacity: "rw_capacity (snd (replay_step op rw)) = rw_capacity rw"
  by (cases op)
    (auto simp: observe_def record_window_def evict_to_capacity_def push_recency_def compact_recency_def
      retain_epochs_def Let_def split: option.splits prod.splits)

lemma capacity_run: "rw_capacity (run replay_step ops (rw_new capacity)) = capacity"
proof -
  have "rw_capacity (run replay_step ops rw) = rw_capacity rw" for rw
    by (induction ops arbitrary: rw) (simp_all add: replay_step_capacity)
  then show ?thesis by (simp add: rw_new_def)
qed

subsection \<open>Properties\<close>

text \<open>
  C3. No sequence number is accepted twice: after the table, in any state it can reach, has accepted
  a sequence number for a path, the same number is rejected for this path after any further
  observations and epoch changes, as long as the table has not dropped the path in between.
\<close>

theorem replay_accepts_once:
  assumes "0 < capacity"
    and "observe epoch source path_id seq (run replay_step before (rw_new capacity)) = (Inr (), rw)"
    and "\<forall>rw' \<in> set (states replay_step later rw). holds_path rw' (path_key epoch source path_id, seq)"
  shows "\<not> is_ok (fst (observe epoch source path_id seq (run replay_step later rw)))"
  using replay.accepted_once [of "run replay_step before (rw_new capacity)"
      "Observe epoch source path_id seq" "(path_key epoch source path_id, seq)" later
      "Observe epoch source path_id seq"]
    replay.inv_run [OF rw_new_inv [OF assms(1)], of before] assms(2,3)
  by simp

theorem replay_accepts_once_witness:
  "\<exists>rw. observe 7 (str ''a'') [1] 20 (rw_new 2) = (Inr (), rw) \<and>
     \<not> is_ok (fst (observe 7 (str ''a'') [1] 20 (run replay_step [Observe 7 (str ''a'') [1] 18] rw)))"
proof -
  let ?rw = "snd (observe 7 (str ''a'') [1] 20 (rw_new 2))"
  have o: "observe 7 (str ''a'') [1] 20 (run replay_step [] (rw_new 2)) = (Inr (), ?rw)" by code_simp
  have h: "\<forall>rw' \<in> set (states replay_step [Observe 7 (str ''a'') [1] 18] ?rw).
      holds_path rw' (path_key 7 (str ''a'') [1], 20)" by code_simp
  have "\<not> is_ok (fst (observe 7 (str ''a'') [1] 20 (run replay_step [Observe 7 (str ''a'') [1] 18] ?rw)))"
    using replay_accepts_once [OF _ o h] by simp
  with o show ?thesis by (intro exI [of _ ?rw]) simp
qed

text \<open>
  C22. The table implements its specification: it accepts a sequence number exactly when the
  specification of the path does, that is, unless the number is 1024 or more below the highest one
  or among the remembered ones; it then remembers exactly the numbers the specification does, keeps
  its invariant, and changes other paths only by dropping them; a rejection changes nothing.
\<close>

theorem replay_observe_refines:
  assumes "rw_inv rw"
  shows "case spec_observe (unat seq) (rw_abs rw (path_key epoch source path_id)) of
      None \<Rightarrow> \<exists>h. observe epoch source path_id seq rw = (Inl (ReplayRejected source seq h), rw)
    | Some a \<Rightarrow> \<exists>rw'. observe epoch source path_id seq rw = (Inr (), rw') \<and> rw_inv rw' \<and>
        rw_capacity rw' = rw_capacity rw \<and> rw_abs rw' (path_key epoch source path_id) = Some a \<and>
        (\<forall>k. k \<noteq> path_key epoch source path_id \<longrightarrow> rw_abs rw' k = None \<or> rw_abs rw' k = rw_abs rw k)"
  using assms by (rule observe_spec)

theorem replay_observe_refines_witness:
  "\<exists>rw'. observe 7 (str ''a'') [1] 20 (rw_new 2) = (Inr (), rw') \<and>
     rw_abs rw' (path_key 7 (str ''a'') [1]) = Some (20, {20})"
proof -
  have "rw_inv (rw_new 2)" by (simp add: rw_new_inv)
  from replay_observe_refines [OF this, where seq = 20 and epoch = 7 and source = "str ''a''" and path_id = "[1]"] show ?thesis
    by (auto simp: rw_abs_def rw_new_def)
qed

text \<open>
  The replay table is bounded: in every state it can reach it holds at most \<open>capacity\<close> paths,
  and its recency queue has at most twice that many entries, whatever traffic arrives.
\<close>

theorem replay_table_bounded:
  assumes "0 < capacity"
  shows "rw_len (run replay_step ops (rw_new capacity)) \<le> capacity \<and>
    length (rw_recency (run replay_step ops (rw_new capacity))) \<le> 2 * capacity"
  using capacity_run [of ops capacity] replay.inv_run [OF rw_new_inv [OF assms], of ops]
  by (simp add: rw_inv_def rw_len_def)

end
