(* ===== verification/Net.thy ===== *)
theory Net
  imports Wire Containers
begin

text \<open>
  Internet addresses and endpoints (\<open>crates/ipars-types/src/lib.rs\<close>): the standard library's
  address types and predicates, the tests that decide whether an endpoint is usable, globally
  routable or on the same local network, and the URL based endpoint checks. The \<open>url\<close> crate and
  the \<open>ipnet\<close> crate are not part of the repository: their functions are the fields of
  \<open>net_libs\<close>, an argument of the definitions that call them.
\<close>

unbundle bit_operations_syntax

subsection \<open>Addresses of the standard library\<close>

type_synonym ipv4 = u32
type_synonym ipv6 = "128 word"

datatype ip_addr = V4 ipv4 | V6 ipv6

datatype socket_addr =
    SocketV4 ipv4 u16
  | SocketV6 ipv6 u16 u32 u32

fun sa_ip :: "socket_addr \<Rightarrow> ip_addr" where
  "sa_ip (SocketV4 ip _) = V4 ip"
| "sa_ip (SocketV6 ip _ _ _) = V6 ip"

fun sa_port :: "socket_addr \<Rightarrow> u16" where
  "sa_port (SocketV4 _ port) = port"
| "sa_port (SocketV6 _ port _ _) = port"

fun sa_new :: "ip_addr \<Rightarrow> u16 \<Rightarrow> socket_addr" where
  "sa_new (V4 ip) port = SocketV4 ip port"
| "sa_new (V6 ip) port = SocketV6 ip port 0 0"

definition octet :: "nat \<Rightarrow> ipv4 \<Rightarrow> nat" where
  "octet i ip = unat (drop_bit (8 * (3 - i)) ip AND 0xff)"

definition segment :: "nat \<Rightarrow> ipv6 \<Rightarrow> nat" where
  "segment i ip = unat (drop_bit (16 * (7 - i)) ip AND 0xffff)"

definition v4_is_private :: "ipv4 \<Rightarrow> bool" where
  "v4_is_private ip \<longleftrightarrow> octet 0 ip = 10 \<or> (octet 0 ip = 172 \<and> 16 \<le> octet 1 ip \<and> octet 1 ip \<le> 31) \<or>
     (octet 0 ip = 192 \<and> octet 1 ip = 168)"

definition v4_is_loopback :: "ipv4 \<Rightarrow> bool" where
  "v4_is_loopback ip \<longleftrightarrow> octet 0 ip = 127"

definition v4_is_link_local :: "ipv4 \<Rightarrow> bool" where
  "v4_is_link_local ip \<longleftrightarrow> octet 0 ip = 169 \<and> octet 1 ip = 254"

definition v4_is_multicast :: "ipv4 \<Rightarrow> bool" where
  "v4_is_multicast ip \<longleftrightarrow> 224 \<le> octet 0 ip \<and> octet 0 ip \<le> 239"

definition v4_is_broadcast :: "ipv4 \<Rightarrow> bool" where
  "v4_is_broadcast ip \<longleftrightarrow> ip = 0xffffffff"

definition v6_is_unique_local :: "ipv6 \<Rightarrow> bool" where
  "v6_is_unique_local ip \<longleftrightarrow> and (segment 0 ip) 0xfe00 = 0xfc00"

definition v6_is_unicast_link_local :: "ipv6 \<Rightarrow> bool" where
  "v6_is_unicast_link_local ip \<longleftrightarrow> and (segment 0 ip) 0xffc0 = 0xfe80"

definition v6_is_loopback :: "ipv6 \<Rightarrow> bool" where
  "v6_is_loopback ip \<longleftrightarrow> ip = 1"

definition v6_is_multicast :: "ipv6 \<Rightarrow> bool" where
  "v6_is_multicast ip \<longleftrightarrow> and (segment 0 ip) 0xff00 = 0xff00"

definition to_ipv4_mapped :: "ipv6 \<Rightarrow> ipv4 option" where
  "to_ipv4_mapped ip = (if drop_bit 32 ip = 0xffff then Some (ucast ip) else None)"

fun is_unspecified :: "ip_addr \<Rightarrow> bool" where
  "is_unspecified (V4 ip) = (ip = 0)"
| "is_unspecified (V6 ip) = (ip = 0)"

fun is_multicast :: "ip_addr \<Rightarrow> bool" where
  "is_multicast (V4 ip) = v4_is_multicast ip"
| "is_multicast (V6 ip) = v6_is_multicast ip"

subsection \<open>Endpoint addresses\<close>

definition endpoint_addr_is_usable :: "socket_addr \<Rightarrow> bool" where
  "endpoint_addr_is_usable addr =
     (if sa_port addr = 0 \<or> is_unspecified (sa_ip addr) \<or> is_multicast (sa_ip addr) then False
      else case sa_ip addr of V4 ip \<Rightarrow> \<not> v4_is_broadcast ip | V6 _ \<Rightarrow> True)"

definition ipv4_addr_is_globally_routable :: "ipv4 \<Rightarrow> bool" where
  "ipv4_addr_is_globally_routable ip =
     (let first = octet 0 ip; second = octet 1 ip; third = octet 2 ip in
      \<not> (first = 0 \<or> first = 10 \<or> (first = 100 \<and> 64 \<le> second \<and> second \<le> 127) \<or> first = 127 \<or>
         (first = 169 \<and> second = 254) \<or> (first = 172 \<and> 16 \<le> second \<and> second \<le> 31) \<or>
         (first = 192 \<and> second = 0 \<and> third = 0) \<or> (first = 192 \<and> second = 0 \<and> third = 2) \<or>
         (first = 192 \<and> second = 88 \<and> third = 99) \<or> (first = 192 \<and> second = 168) \<or>
         (first = 198 \<and> 18 \<le> second \<and> second \<le> 19) \<or> (first = 198 \<and> second = 51 \<and> third = 100) \<or>
         (first = 203 \<and> second = 0 \<and> third = 113) \<or> 224 \<le> first))"

definition ipv6_addr_is_globally_routable :: "ipv6 \<Rightarrow> bool" where
  "ipv6_addr_is_globally_routable ip =
     (case to_ipv4_mapped ip of
        Some mapped \<Rightarrow> ipv4_addr_is_globally_routable mapped
      | None \<Rightarrow>
          if and (segment 0 ip) 0xe000 \<noteq> 0x2000 then False
          else if segment 0 ip = 0x2001 \<and> segment 1 ip < 0x0200 then False
          else if segment 0 ip = 0x2001 \<and> segment 1 ip = 0x0db8 then False
          else if segment 0 ip = 0x2002 then False
          else if segment 0 ip = 0x3fff \<and> and (segment 1 ip) 0xf000 = 0 then False
          else True)"

fun ip_addr_is_globally_routable :: "ip_addr \<Rightarrow> bool" where
  "ip_addr_is_globally_routable (V4 ip) = ipv4_addr_is_globally_routable ip"
| "ip_addr_is_globally_routable (V6 ip) = ipv6_addr_is_globally_routable ip"

definition socket_addr_is_globally_routable :: "socket_addr \<Rightarrow> bool" where
  "socket_addr_is_globally_routable addr \<longleftrightarrow>
     sa_port addr \<noteq> 0 \<and> ip_addr_is_globally_routable (sa_ip addr)"

fun private_ip_addrs_share_subnet :: "ip_addr \<Rightarrow> ip_addr \<Rightarrow> bool" where
  "private_ip_addrs_share_subnet (V4 left) (V4 right) =
     ((v4_is_private left \<or> v4_is_link_local left) \<and> (v4_is_private right \<or> v4_is_link_local right) \<and>
      left AND 0xffffff00 = right AND 0xffffff00)"
| "private_ip_addrs_share_subnet (V6 left) (V6 right) =
     ((v6_is_unique_local left \<or> v6_is_unicast_link_local left) \<and>
      (v6_is_unique_local right \<or> v6_is_unicast_link_local right) \<and>
      drop_bit 64 left = drop_bit 64 right)"
| "private_ip_addrs_share_subnet _ _ = False"

subsection \<open>Parsing an address, as \<open>str::parse::<IpAddr>\<close> does\<close>

definition to_digit :: "nat \<Rightarrow> u8 \<Rightarrow> nat option" where
  "to_digit radix b =
     (let n = unat b;
          d = (if 48 \<le> n \<and> n \<le> 57 then Some (n - 48)
               else if 97 \<le> n \<and> n \<le> 122 then Some (n - 87)
               else if 65 \<le> n \<and> n \<le> 90 then Some (n - 55) else None)
      in case d of None \<Rightarrow> None | Some v \<Rightarrow> if v < radix then Some v else None)"

definition read_number :: "nat \<Rightarrow> nat \<Rightarrow> nat \<Rightarrow> bool \<Rightarrow> bytes \<Rightarrow> (nat \<times> bytes) option" where
  "read_number radix max_digits bound allow_zero_prefix bs =
     (let ds = takeWhile (\<lambda>b. to_digit radix b \<noteq> None) bs;
          value = fold (\<lambda>b acc. acc * radix + the (to_digit radix b)) ds 0
      in if ds = [] \<or> length ds > max_digits \<or> value \<ge> bound then None
         else if \<not> allow_zero_prefix \<and> hd ds = 48 \<and> length ds > 1 then None
         else Some (value, drop (length ds) bs))"

definition read_separator ::
  "u8 \<Rightarrow> nat \<Rightarrow> (bytes \<Rightarrow> ('a \<times> bytes) option) \<Rightarrow> bytes \<Rightarrow> ('a \<times> bytes) option" where
  "read_separator sep index inner bs =
     (if index > 0 then (case bs of b # bs' \<Rightarrow> if b = sep then inner bs' else None | [] \<Rightarrow> None)
      else inner bs)"

fun read_octets :: "nat \<Rightarrow> nat \<Rightarrow> bytes \<Rightarrow> (nat list \<times> bytes) option" where
  "read_octets 0 i bs = Some ([], bs)"
| "read_octets (Suc n) i bs =
     (case read_separator 46 i (read_number 10 3 256 False) bs of
        None \<Rightarrow> None
      | Some (v, bs) \<Rightarrow> map_option (\<lambda>(vs, bs). (v # vs, bs)) (read_octets n (i + 1) bs))"

definition read_ipv4_addr :: "bytes \<Rightarrow> (ipv4 \<times> bytes) option" where
  "read_ipv4_addr bs =
     map_option (\<lambda>(vs, bs). (of_nat (fold (\<lambda>v acc. acc * 256 + v) vs 0), bs)) (read_octets 4 0 bs)"

text \<open>The group reader: the groups, whether they ended in a dotted quad, and the rest.\<close>

fun read_groups :: "nat \<Rightarrow> nat \<Rightarrow> bytes \<Rightarrow> nat list \<times> bool \<times> bytes" where
  "read_groups 0 i bs = ([], False, bs)"
| "read_groups (Suc n) i bs =
     (case (if n > 0 then read_separator 58 i read_ipv4_addr bs else None) of
        Some (v4, bs) \<Rightarrow> ([unat v4 div 65536, unat v4 mod 65536], True, bs)
      | None \<Rightarrow>
          case read_separator 58 i (read_number 16 4 65536 True) bs of
            None \<Rightarrow> ([], False, bs)
          | Some (v, bs) \<Rightarrow>
              let (vs, dotted, bs) = read_groups n (i + 1) bs in (v # vs, dotted, bs))"

definition groups_addr :: "nat list \<Rightarrow> ipv6" where
  "groups_addr vs = of_nat (fold (\<lambda>v acc. acc * 65536 + v) vs 0)"

definition read_ipv6_addr :: "bytes \<Rightarrow> (ipv6 \<times> bytes) option" where
  "read_ipv6_addr bs =
     (let (head, dotted, bs) = read_groups 8 0 bs in
      if length head = 8 then Some (groups_addr head, bs)
      else if dotted then None
      else if take 2 bs \<noteq> [58, 58] then None
      else
        let (tail, _, bs) = read_groups (8 - (length head + 1)) 0 (drop 2 bs)
        in Some (groups_addr (head @ replicate (8 - length head - length tail) 0 @ tail), bs))"

definition parse_ip_addr :: "rstring \<Rightarrow> ip_addr option" where
  "parse_ip_addr s =
     (case read_ipv4_addr s of
        Some (ip, rest) \<Rightarrow> if rest = [] then Some (V4 ip) else None
      | None \<Rightarrow>
          case read_ipv6_addr s of
            Some (ip, rest) \<Rightarrow> if rest = [] then Some (V6 ip) else None
          | None \<Rightarrow> None)"

subsection \<open>External libraries\<close>

datatype url_host = Domain rstring | Ipv4Host ipv4 | Ipv6Host ipv6

text \<open>What the accessors of a parsed \<open>url::Url\<close> return.\<close>

record parsed_url =
  url_scheme :: rstring
  url_username :: rstring
  url_password :: "rstring option"
  url_query :: "rstring option"
  url_fragment :: "rstring option"
  url_host :: "url_host option"
  url_port :: "u16 option"
  url_port_or_known_default :: "u16 option"
  url_path :: rstring
  url_as_str :: rstring

text \<open>An \<open>ipnet::IpNet\<close>: an address and a prefix length.\<close>

record ip_net =
  net_addr :: ip_addr
  net_prefix_len :: nat

record net_libs =
  url_parse :: "rstring \<Rightarrow> parsed_url option"
  net_trunc :: "ip_net \<Rightarrow> ip_net"
  net_contains :: "ip_net \<Rightarrow> ip_addr \<Rightarrow> bool"
  net_network :: "ip_net \<Rightarrow> ip_addr"
  net_broadcast :: "ip_net \<Rightarrow> ip_addr"

subsection \<open>Endpoint URLs\<close>

definition SLASH :: rstring where "SLASH = str ''/''"

definition trim_end_slashes :: "rstring \<Rightarrow> rstring" where
  "trim_end_slashes s = rev (dropWhile (\<lambda>b. b = 47) (rev s))"

definition canonical_bootstrap_endpoint_url :: "net_libs \<Rightarrow> rstring \<Rightarrow> rstring option" where
  "canonical_bootstrap_endpoint_url libs u =
     map_option (\<lambda>parsed. trim_end_slashes (url_as_str parsed)) (url_parse libs u)"

fun has_control :: "rstring \<Rightarrow> bool" where
  "has_control [] = False"
| "has_control (b # bs) =
     (b < 0x20 \<or> b = 0x7f \<or> (b = 0xc2 \<and> bs \<noteq> [] \<and> hd bs < 0xa0) \<or> has_control bs)"

definition udp_bootstrap_url_is_usable :: "parsed_url \<Rightarrow> bool" where
  "udp_bootstrap_url_is_usable url =
     (if url_scheme url \<noteq> str ''udp'' \<or> url_port url = None \<or> \<not> (url_path url = [] \<or> url_path url = SLASH)
      then False
      else case (url_host url, url_port url) of
        (Some host, Some port) \<Rightarrow>
          (case host of
             Domain domain \<Rightarrow>
               (case parse_ip_addr domain of
                  Some ip \<Rightarrow> endpoint_addr_is_usable (sa_new ip port)
                | None \<Rightarrow> domain \<noteq> [])
           | Ipv4Host ip \<Rightarrow> endpoint_addr_is_usable (sa_new (V4 ip) port)
           | Ipv6Host ip \<Rightarrow> endpoint_addr_is_usable (sa_new (V6 ip) port))
      | _ \<Rightarrow> False)"

definition http_url_is_usable_endpoint :: "net_libs \<Rightarrow> rstring \<Rightarrow> bool" where
  "http_url_is_usable_endpoint libs value =
     (case url_parse libs value of
        None \<Rightarrow> False
      | Some url \<Rightarrow>
          if \<not> (url_scheme url = str ''http'' \<or> url_scheme url = str ''https'') then False
          else case (url_host url, url_port_or_known_default url) of
            (Some host, Some port) \<Rightarrow>
              if port = 0 then False
              else (case host of
                  Domain _ \<Rightarrow> True
                | Ipv4Host ip \<Rightarrow> endpoint_addr_is_usable (sa_new (V4 ip) port)
                | Ipv6Host ip \<Rightarrow> endpoint_addr_is_usable (sa_new (V6 ip) port))
          | _ \<Rightarrow> False)"

definition relay_admission_url_is_usable :: "net_libs \<Rightarrow> rstring \<Rightarrow> bool" where
  "relay_admission_url_is_usable libs value = http_url_is_usable_endpoint libs value"

definition plain_url :: "parsed_url \<Rightarrow> bool" where
  "plain_url url \<longleftrightarrow> url_username url = [] \<and> url_password url = None \<and> url_query url = None \<and>
     url_fragment url = None"

definition literal_host :: "url_host \<Rightarrow> ip_addr option" where
  "literal_host host =
     (case host of Domain domain \<Rightarrow> parse_ip_addr domain | Ipv4Host ip \<Rightarrow> Some (V4 ip) | Ipv6Host ip \<Rightarrow> Some (V6 ip))"

definition usable_addr :: "ip_addr \<Rightarrow> u16 \<Rightarrow> socket_addr option" where
  "usable_addr ip port =
     (let addr = sa_new ip port in if endpoint_addr_is_usable addr then Some addr else None)"

definition literal_udp_bootstrap_socket_addr :: "net_libs \<Rightarrow> rstring \<Rightarrow> socket_addr option" where
  "literal_udp_bootstrap_socket_addr libs value =
     Option.bind (url_parse libs value) (\<lambda>parsed.
       if url_scheme parsed \<noteq> str ''udp'' \<or> \<not> plain_url parsed \<or>
          \<not> (url_path parsed = [] \<or> url_path parsed = SLASH) then None
       else Option.bind (url_port parsed) (\<lambda>port.
         Option.bind (url_host parsed) (\<lambda>host.
         Option.bind (literal_host host) (\<lambda>ip. usable_addr ip port))))"

definition literal_http_bootstrap_socket_addr :: "net_libs \<Rightarrow> rstring \<Rightarrow> socket_addr option" where
  "literal_http_bootstrap_socket_addr libs value =
     Option.bind (url_parse libs value) (\<lambda>parsed.
       if \<not> (url_scheme parsed = str ''http'' \<or> url_scheme parsed = str ''https'') \<or>
          \<not> plain_url parsed \<or> \<not> (url_path parsed = [] \<or> url_path parsed = SLASH) then None
       else Option.bind (url_port_or_known_default parsed) (\<lambda>port.
         Option.bind (url_host parsed) (\<lambda>host.
         Option.bind (literal_host host) (\<lambda>ip. usable_addr ip port))))"

end
