(* ===== verification/Overlay.thy ===== *)
theory Overlay
  imports Net Multihop
begin

text \<open>
  The overlay documents the control plane hands out (\<open>crates/ipars-types/src/lib.rs\<close>): bootstrap
  endpoints, node records, the neighbour map of a node and the path to a destination, each with
  the validation that every consumer applies. A validation error is the name of the offending
  field; the formatted reasons are not modelled. The lemmas state what an accepted document
  guarantees, independently of the order of the checks.
\<close>

subsection \<open>Bootstrap endpoints\<close>

datatype bootstrap_endpoint_kind = ControlPlane | Signal | Stun | Relay | WebUi

record bootstrap_endpoint =
  be_url :: rstring
  be_kind :: bootstrap_endpoint_kind

definition MAX_JOIN_TOKEN_BOOTSTRAP_ENDPOINTS :: nat where [simp]: "MAX_JOIN_TOKEN_BOOTSTRAP_ENDPOINTS = 40"
definition MAX_JOIN_TOKEN_BOOTSTRAP_ENDPOINTS_PER_KIND :: nat where
  [simp]: "MAX_JOIN_TOKEN_BOOTSTRAP_ENDPOINTS_PER_KIND = 8"
definition MAX_JOIN_TOKEN_BOOTSTRAP_URL_BYTES :: nat where [simp]: "MAX_JOIN_TOKEN_BOOTSTRAP_URL_BYTES = 2048"
definition MAX_JOIN_TOKEN_IDENTIFIER_BYTES :: nat where [simp]: "MAX_JOIN_TOKEN_IDENTIFIER_BYTES = 255"

datatype bootstrap_error =
    TooManyEndpoints nat
  | TooManyOfKind bootstrap_endpoint_kind nat
  | EmptyUrl nat
  | UrlTooLong nat
  | UrlHasControlCharacters nat
  | NotAbsoluteUrl nat
  | ForbiddenUrlComponents nat
  | UnusableEndpoint nat
  | DuplicateEndpoint nat

definition bootstrap_endpoints_include_core_services :: "bootstrap_endpoint list \<Rightarrow> bool" where
  "bootstrap_endpoints_include_core_services endpoints =
     list_all (\<lambda>kind. list_ex (\<lambda>endpoint. be_kind endpoint = kind) endpoints) [ControlPlane, Signal, Stun]"

definition endpoint_matches_kind :: "net_libs \<Rightarrow> bootstrap_endpoint \<Rightarrow> parsed_url \<Rightarrow> bool" where
  "endpoint_matches_kind libs endpoint parsed =
     (case be_kind endpoint of
        ControlPlane \<Rightarrow> http_url_is_usable_endpoint libs (be_url endpoint)
      | Signal \<Rightarrow> http_url_is_usable_endpoint libs (be_url endpoint)
      | WebUi \<Rightarrow> http_url_is_usable_endpoint libs (be_url endpoint)
      | Stun \<Rightarrow> udp_bootstrap_url_is_usable parsed
      | Relay \<Rightarrow> udp_bootstrap_url_is_usable parsed)"

fun bootstrap_endpoints_loop ::
  "net_libs \<Rightarrow> nat \<Rightarrow> (bootstrap_endpoint_kind, nat) amap \<Rightarrow> (bootstrap_endpoint_kind \<times> rstring) list
     \<Rightarrow> bootstrap_endpoint list \<Rightarrow> bootstrap_error + unit" where
  "bootstrap_endpoints_loop libs index counts seen [] = Inr ()"
| "bootstrap_endpoints_loop libs index counts seen (endpoint # endpoints) =
     (let count = (case am_get counts (be_kind endpoint) of None \<Rightarrow> 0 | Some n \<Rightarrow> n) + 1;
          counts = hm_insert (be_kind endpoint) count counts
      in if count > MAX_JOIN_TOKEN_BOOTSTRAP_ENDPOINTS_PER_KIND then Inl (TooManyOfKind (be_kind endpoint) count)
      else if be_url endpoint = [] then Inl (EmptyUrl index)
      else if length (be_url endpoint) > MAX_JOIN_TOKEN_BOOTSTRAP_URL_BYTES then Inl (UrlTooLong index)
      else if has_control (be_url endpoint) then Inl (UrlHasControlCharacters index)
      else and_then (ok_or (url_parse libs (be_url endpoint)) (NotAbsoluteUrl index)) (\<lambda>parsed.
        if \<not> plain_url parsed then Inl (ForbiddenUrlComponents index)
        else if \<not> endpoint_matches_kind libs endpoint parsed then Inl (UnusableEndpoint index)
        else and_then (ok_or (canonical_bootstrap_endpoint_url libs (be_url endpoint)) (NotAbsoluteUrl index))
          (\<lambda>normalized.
             if (be_kind endpoint, normalized) \<in> set seen then Inl (DuplicateEndpoint index)
             else bootstrap_endpoints_loop libs (index + 1) counts
                    ((be_kind endpoint, normalized) # seen) endpoints)))"

definition validate_join_token_bootstrap_endpoints ::
  "net_libs \<Rightarrow> bootstrap_endpoint list \<Rightarrow> bootstrap_error + unit" where
  "validate_join_token_bootstrap_endpoints libs endpoints =
     (if length endpoints > MAX_JOIN_TOKEN_BOOTSTRAP_ENDPOINTS then Inl (TooManyEndpoints (length endpoints))
      else bootstrap_endpoints_loop libs 0 [] [] endpoints)"

subsection \<open>Node records\<close>

datatype endpoint_candidate_kind = PublicUdp | Ipv6Candidate | StunReflexive | LocalUdp | RelayCandidate
datatype candidate_source = InterfaceScan | StunProbe | ControlPlaneSource | RelayMap

record endpoint_candidate =
  ec_node_id :: node_id
  ec_kind :: endpoint_candidate_kind
  ec_addr :: socket_addr
  ec_observed_at :: time
  ec_priority :: u16
  ec_cost :: u32
  ec_source :: candidate_source

record relay_capability =
  rc_enabled_by_policy :: bool
  rc_public_endpoint :: "socket_addr option"
  rc_admission_url :: "rstring option"
  rc_max_sessions :: u32
  rc_active_sessions :: u32
  rc_max_mbps :: u32
  rc_e2e_only :: bool

record route =
  rt_id :: rstring
  rt_cidr :: ip_net
  rt_advertised_by :: node_id
  rt_via :: "node_id option"
  rt_metric :: u32
  rt_tags :: "rstring list"

record token_policy =
  tp_allow_join :: bool
  tp_allow_relay :: bool
  tp_allowed_routes :: "ip_net list"
  tp_allowed_tags :: "rstring list"
  tp_max_token_uses :: "u32 option"

definition token_policy_default :: token_policy where
  "token_policy_default =
     \<lparr>tp_allow_join = True, tp_allow_relay = False, tp_allowed_routes = [], tp_allowed_tags = [],
      tp_max_token_uses = Some 1\<rparr>"

record node_record =
  nr_node_id :: node_id
  nr_display_name :: "rstring option"
  nr_hostname :: "rstring option"
  nr_cluster_id :: rstring
  nr_vpn_ip :: ip_addr
  nr_identity_public_key :: rstring
  nr_wireguard_public_key :: rstring
  nr_role :: rstring
  nr_tags :: "rstring list"
  nr_endpoint_candidates :: "endpoint_candidate list"
  nr_relay_capability :: "relay_capability option"
  nr_token_policy :: token_policy
  nr_routes :: "route list"
  nr_registered_at :: time

definition available_capacity :: "relay_capability \<Rightarrow> u32" where
  "available_capacity c = saturating_sub (rc_max_sessions c) (rc_active_sessions c)"

definition is_eligible_relay :: "net_libs \<Rightarrow> relay_capability \<Rightarrow> bool" where
  "is_eligible_relay libs c \<longleftrightarrow>
     rc_enabled_by_policy c \<and>
     (case rc_public_endpoint c of None \<Rightarrow> False | Some addr \<Rightarrow> endpoint_addr_is_usable addr) \<and>
     (case rc_admission_url c of None \<Rightarrow> False | Some u \<Rightarrow> relay_admission_url_is_usable libs u) \<and>
     rc_e2e_only c \<and> rc_max_sessions c > 0 \<and> rc_max_mbps c > 0"

definition can_admit :: "net_libs \<Rightarrow> relay_capability \<Rightarrow> bool" where
  "can_admit libs c \<longleftrightarrow> is_eligible_relay libs c \<and> available_capacity c > 0"

definition validate_kind_address :: "endpoint_candidate \<Rightarrow> bool" where
  "validate_kind_address c =
     (case ec_kind c of
        PublicUdp \<Rightarrow> socket_addr_is_globally_routable (ec_addr c)
      | Ipv6Candidate \<Rightarrow> (case sa_ip (ec_addr c) of V6 _ \<Rightarrow> True | V4 _ \<Rightarrow> False)
      | _ \<Rightarrow> True)"

definition is_client :: "rstring \<Rightarrow> bool" where
  "is_client role \<longleftrightarrow> role = str ''client''"

definition is_http_only :: "node_record \<Rightarrow> bool" where
  "is_http_only node = list_ex (\<lambda>tag. tag = str ''heteronetwork-http-only'') (nr_tags node)"

definition is_administratively_stopped :: "node_record \<Rightarrow> bool" where
  "is_administratively_stopped node = list_ex (\<lambda>tag. tag = str ''heteronetwork-stopped'') (nr_tags node)"

subsection \<open>Identifiers, records and destinations\<close>

definition MAX_OVERLAY_DEGREE :: u16 where [simp]: "MAX_OVERLAY_DEGREE = 64"
definition MAX_OVERLAY_NEIGHBORS :: nat where [simp]: "MAX_OVERLAY_NEIGHBORS = unat MAX_OVERLAY_DEGREE"
definition MAX_OVERLAY_PINNED_PEERS :: nat where [simp]: "MAX_OVERLAY_PINNED_PEERS = unat MAX_OVERLAY_DEGREE"
definition MAX_OVERLAY_ROUTE_SCOPES :: nat where [simp]: "MAX_OVERLAY_ROUTE_SCOPES = 64"
definition MAX_AGGREGATE_OVERLAY_ROUTES :: nat where
  [simp]: "MAX_AGGREGATE_OVERLAY_ROUTES = MAX_OVERLAY_ROUTE_SCOPES"
definition MAX_OVERLAY_CLIENT_ROUTE_PEERS :: nat where [simp]: "MAX_OVERLAY_CLIENT_ROUTE_PEERS = 4096"
definition MAX_OVERLAY_PATH_NODES :: nat where [simp]: "MAX_OVERLAY_PATH_NODES = 514"
definition MAX_OVERLAY_NODE_ENDPOINT_CANDIDATES :: nat where
  [simp]: "MAX_OVERLAY_NODE_ENDPOINT_CANDIDATES = 64"
definition MAX_OVERLAY_NODE_ROUTES :: nat where [simp]: "MAX_OVERLAY_NODE_ROUTES = 256"

type_synonym field = string

definition validate_overlay_identifier :: "rstring \<Rightarrow> field \<Rightarrow> field + unit" where
  "validate_overlay_identifier value field =
     (if value = [] then Inl field
      else if length value > MAX_JOIN_TOKEN_IDENTIFIER_BYTES then Inl field
      else if \<not> list_all identifier_byte value then Inl field
      else Inr ())"

definition validate_overlay_node_record :: "node_record \<Rightarrow> field \<Rightarrow> field + unit" where
  "validate_overlay_node_record node field =
     and_then (validate_overlay_identifier (nr_node_id node) field) (\<lambda>_.
     and_then (validate_overlay_identifier (nr_cluster_id node) field) (\<lambda>_.
     if length (nr_endpoint_candidates node) > MAX_OVERLAY_NODE_ENDPOINT_CANDIDATES then Inl field
     else if length (nr_routes node) > MAX_OVERLAY_NODE_ROUTES then Inl field
     else Inr ()))"

definition validate_overlay_destination :: "ip_addr \<Rightarrow> field + unit" where
  "validate_overlay_destination destination =
     (let usable = (case destination of
          V4 address \<Rightarrow> \<not> is_unspecified destination \<and> \<not> is_multicast destination \<and> address \<noteq> 0xffffffff
        | V6 address \<Rightarrow> \<not> is_unspecified destination \<and> \<not> is_multicast destination)
      in if \<not> usable then Inl ''destination'' else Inr ())"

fun ordered_nodes_loop :: "field \<Rightarrow> node_id list \<Rightarrow> node_id list \<Rightarrow> field + unit" where
  "ordered_nodes_loop field seen [] = Inr ()"
| "ordered_nodes_loop field seen (node # nodes) =
     and_then (validate_overlay_identifier node field) (\<lambda>_.
       if node \<in> set seen then Inl field else ordered_nodes_loop field (node # seen) nodes)"

definition validate_ordered_overlay_nodes :: "field \<Rightarrow> node_id \<Rightarrow> node_id list \<Rightarrow> field + unit" where
  "validate_ordered_overlay_nodes field source nodes =
     (if nodes = [] then Inl field
      else if length nodes > MAX_OVERLAY_PATH_NODES then Inl field
      else if hd nodes \<noteq> source then Inl field
      else ordered_nodes_loop field [] nodes)"

definition overlay_identifier :: "rstring \<Rightarrow> bool" where
  "overlay_identifier value \<longleftrightarrow> value \<noteq> [] \<and> length value \<le> 255 \<and> list_all identifier_byte value"

lemma validate_overlay_identifier_ok [result_simps]:
  "validate_overlay_identifier value field = Inr u \<longleftrightarrow> overlay_identifier value"
  by (auto simp: validate_overlay_identifier_def overlay_identifier_def)

lemma ordered_nodes_loop_ok [result_simps]:
  "ordered_nodes_loop field seen nodes = Inr u \<longleftrightarrow>
     list_all overlay_identifier nodes \<and> distinct nodes \<and> set nodes \<inter> set seen = {}"
  by (induction nodes arbitrary: seen) (auto simp: result_simps)

lemma validate_ordered_overlay_nodes_ok [result_simps]:
  "validate_ordered_overlay_nodes field source nodes = Inr u \<longleftrightarrow>
     nodes \<noteq> [] \<and> length nodes \<le> 514 \<and> hd nodes = source \<and> list_all overlay_identifier nodes \<and> distinct nodes"
  by (auto simp: validate_ordered_overlay_nodes_def result_simps)

subsection \<open>The neighbour map\<close>

datatype overlay_neighbor_kind = BackbonePrimary | BackboneSecondary | DirectShortcut

record overlay_neighbor =
  on_node :: node_record
  on_kind :: overlay_neighbor_kind

record neighbor_map =
  nm_cluster_id :: rstring
  nm_node_id :: node_id
  nm_topology_epoch :: u64
  nm_routing_epoch :: u64
  nm_max_degree :: u16
  nm_on_demand_peer_limit :: u16
  nm_vpn_cidr :: ip_net
  nm_neighbors :: "overlay_neighbor list"
  nm_pinned_peers :: "node_record list"
  nm_aggregate_routes :: "ip_net list"
  nm_client_route_peers :: "node_record list"
  nm_bootstrap_endpoints :: "bootstrap_endpoint list"
  nm_generated_at :: time

definition overlay_neighbor_validate :: "overlay_neighbor \<Rightarrow> field + unit" where
  "overlay_neighbor_validate neighbor = validate_overlay_node_record (on_node neighbor) ''neighbors''"

definition aggregate_route_validate :: "net_libs \<Rightarrow> ip_net \<Rightarrow> field + unit" where
  "aggregate_route_validate libs cidr =
     (if cidr \<noteq> net_trunc libs cidr then Inl ''aggregate_routes'' else Inr ())"

definition is_v4_net :: "ip_net \<Rightarrow> bool" where
  "is_v4_net net = (case net_addr net of V4 _ \<Rightarrow> True | V6 _ \<Rightarrow> False)"

definition aggregate_overlay_route_cidrs_overlap :: "net_libs \<Rightarrow> ip_net \<Rightarrow> ip_net \<Rightarrow> bool" where
  "aggregate_overlay_route_cidrs_overlap libs left right =
     (if is_v4_net left = is_v4_net right
      then net_contains libs left (net_network libs right) \<or> net_contains libs right (net_network libs left)
      else False)"

definition overlay_route_is_host :: "ip_net \<Rightarrow> bool" where
  "overlay_route_is_host cidr = (net_prefix_len cidr = (if is_v4_net cidr then 32 else 128))"

fun neighbors_loop ::
  "net_libs \<Rightarrow> neighbor_map \<Rightarrow> node_id list \<Rightarrow> ip_addr list \<Rightarrow> overlay_neighbor list \<Rightarrow> field + unit" where
  "neighbors_loop libs nm ids ips [] = Inr ()"
| "neighbors_loop libs nm ids ips (neighbor # neighbors) =
     and_then (overlay_neighbor_validate neighbor) (\<lambda>_.
       let node = on_node neighbor in
       if nr_cluster_id node \<noteq> nm_cluster_id nm then Inl ''neighbors''
       else if nr_node_id node = nm_node_id nm then Inl ''neighbors''
       else if nr_node_id node \<in> set ids then Inl ''neighbors''
       else if nr_vpn_ip node \<in> set ips then Inl ''neighbors''
       else if \<not> net_contains libs (nm_vpn_cidr nm) (nr_vpn_ip node) then Inl ''neighbors''
       else if nr_routes node \<noteq> [] then Inl ''neighbors''
       else neighbors_loop libs nm (nr_node_id node # ids) (nr_vpn_ip node # ips) neighbors)"

fun pinned_loop ::
  "net_libs \<Rightarrow> neighbor_map \<Rightarrow> node_id list \<Rightarrow> ip_addr list \<Rightarrow> node_record list \<Rightarrow> field + unit" where
  "pinned_loop libs nm ids ips [] = Inr ()"
| "pinned_loop libs nm ids ips (peer # peers) =
     and_then (validate_overlay_node_record peer ''pinned_peers'') (\<lambda>_.
       if nr_cluster_id peer \<noteq> nm_cluster_id nm then Inl ''pinned_peers''
       else if nr_node_id peer = nm_node_id nm then Inl ''pinned_peers''
       else if nr_node_id peer \<in> set (map (nr_node_id \<circ> on_node) (nm_neighbors nm)) \<or> nr_node_id peer \<in> set ids
       then Inl ''pinned_peers''
       else if nr_vpn_ip peer \<in> set ips then Inl ''pinned_peers''
       else if \<not> net_contains libs (nm_vpn_cidr nm) (nr_vpn_ip peer) then Inl ''pinned_peers''
       else pinned_loop libs nm (nr_node_id peer # ids) (nr_vpn_ip peer # ips) peers)"

definition foreign_client_route :: "net_libs \<Rightarrow> neighbor_map \<Rightarrow> node_record \<Rightarrow> route \<Rightarrow> bool" where
  "foreign_client_route libs nm peer r \<longleftrightarrow>
     take 7 (rt_id r) \<noteq> str ''client-'' \<or> \<not> overlay_route_is_host (rt_cidr r) \<or>
     \<not> net_contains libs (nm_vpn_cidr nm) (net_addr (rt_cidr r)) \<or>
     rt_advertised_by r \<noteq> nr_node_id peer \<or> rt_via r \<noteq> Some (nr_node_id peer)"

fun client_routes_loop ::
  "net_libs \<Rightarrow> neighbor_map \<Rightarrow> node_id list \<Rightarrow> ip_addr list \<Rightarrow> node_record list \<Rightarrow> field + unit" where
  "client_routes_loop libs nm ids ips [] = Inr ()"
| "client_routes_loop libs nm ids ips (peer # peers) =
     and_then (validate_overlay_node_record peer ''client_route_peers'') (\<lambda>_.
       if nr_cluster_id peer \<noteq> nm_cluster_id nm then Inl ''client_route_peers''
       else if nr_node_id peer = nm_node_id nm then Inl ''client_route_peers''
       else if nr_node_id peer \<in> set ids then Inl ''client_route_peers''
       else if nr_vpn_ip peer \<in> set ips then Inl ''client_route_peers''
       else if \<not> net_contains libs (nm_vpn_cidr nm) (nr_vpn_ip peer) then Inl ''client_route_peers''
       else if \<not> is_client (nr_role peer) \<and>
         (nr_routes peer = [] \<or> list_ex (foreign_client_route libs nm peer) (nr_routes peer))
       then Inl ''client_route_peers''
       else client_routes_loop libs nm (nr_node_id peer # ids) (nr_vpn_ip peer # ips) peers)"

fun aggregate_routes_loop :: "net_libs \<Rightarrow> neighbor_map \<Rightarrow> ip_net list \<Rightarrow> ip_net list \<Rightarrow> field + unit" where
  "aggregate_routes_loop libs nm accepted [] = Inr ()"
| "aggregate_routes_loop libs nm accepted (cidr # cidrs) =
     and_then (aggregate_route_validate libs cidr) (\<lambda>_.
       if net_prefix_len cidr = 0 then Inl ''aggregate_routes''
       else if aggregate_overlay_route_cidrs_overlap libs (nm_vpn_cidr nm) cidr then Inl ''aggregate_routes''
       else if cidr \<in> set accepted then Inl ''aggregate_routes''
       else if list_ex (\<lambda>existing. aggregate_overlay_route_cidrs_overlap libs existing cidr) accepted
       then Inl ''aggregate_routes''
       else aggregate_routes_loop libs nm (accepted @ [cidr]) cidrs)"

definition neighbor_map_validate :: "net_libs \<Rightarrow> neighbor_map \<Rightarrow> field + unit" where
  "neighbor_map_validate libs nm =
     and_then (validate_overlay_identifier (nm_cluster_id nm) ''cluster_id'') (\<lambda>_.
     and_then (validate_overlay_identifier (nm_node_id nm) ''node_id'') (\<lambda>_.
     if nm_max_degree nm = 0 \<or> nm_max_degree nm > MAX_OVERLAY_DEGREE then Inl ''max_degree''
     else if nm_on_demand_peer_limit nm > MAX_OVERLAY_DEGREE then Inl ''on_demand_peer_limit''
     else if nm_vpn_cidr nm \<noteq> net_trunc libs (nm_vpn_cidr nm) then Inl ''vpn_cidr''
     else if length (nm_neighbors nm) > unat (nm_max_degree nm) \<or>
       length (nm_neighbors nm) > MAX_OVERLAY_NEIGHBORS then Inl ''neighbors''
     else if length (nm_pinned_peers nm) > MAX_OVERLAY_PINNED_PEERS then Inl ''pinned_peers''
     else if length (nm_aggregate_routes nm) > MAX_AGGREGATE_OVERLAY_ROUTES then Inl ''aggregate_routes''
     else if length (nm_client_route_peers nm) > MAX_OVERLAY_CLIENT_ROUTE_PEERS then Inl ''client_route_peers''
     else
       and_then (map_err (\<lambda>_. ''bootstrap_endpoints'')
         (validate_join_token_bootstrap_endpoints libs (nm_bootstrap_endpoints nm))) (\<lambda>_.
       and_then (neighbors_loop libs nm [] [] (nm_neighbors nm)) (\<lambda>_.
       and_then (pinned_loop libs nm [] [] (nm_pinned_peers nm)) (\<lambda>_.
       and_then (client_routes_loop libs nm [] [] (nm_client_route_peers nm)) (\<lambda>_.
       aggregate_routes_loop libs nm [] (nm_aggregate_routes nm)))))))"

subsection \<open>Overlay paths\<close>

record overlay_path =
  op_topology_epoch :: u64
  op_routing_epoch :: u64
  op_source :: node_id
  op_destination :: ip_addr
  op_target :: node_record
  op_ordered_nodes :: "node_id list"
  op_secondary_ordered_nodes :: "node_id list option"
  op_generated_at :: time

definition target_owns_destination :: "net_libs \<Rightarrow> overlay_path \<Rightarrow> bool" where
  "target_owns_destination libs path \<longleftrightarrow>
     nr_vpn_ip (op_target path) = op_destination path \<or>
     list_ex (\<lambda>r. rt_advertised_by r = nr_node_id (op_target path) \<and>
       net_contains libs (rt_cidr r) (op_destination path)) (nr_routes (op_target path))"

definition overlay_path_validate :: "net_libs \<Rightarrow> overlay_path \<Rightarrow> field + unit" where
  "overlay_path_validate libs path =
     and_then (validate_overlay_identifier (op_source path) ''source'') (\<lambda>_.
     and_then (validate_overlay_destination (op_destination path)) (\<lambda>_.
     and_then (validate_overlay_node_record (op_target path) ''target'') (\<lambda>_.
     if nr_node_id (op_target path) = op_source path then Inl ''target'' else
     and_then (validate_ordered_overlay_nodes ''ordered_nodes'' (op_source path) (op_ordered_nodes path)) (\<lambda>_.
     if last (op_ordered_nodes path) \<noteq> nr_node_id (op_target path) then Inl ''ordered_nodes''
     else if \<not> target_owns_destination libs path then Inl ''target''
     else case op_secondary_ordered_nodes path of
       None \<Rightarrow> Inr ()
     | Some secondary \<Rightarrow>
         and_then (validate_ordered_overlay_nodes ''secondary_ordered_nodes'' (op_source path) secondary) (\<lambda>_.
         if secondary = op_ordered_nodes path then Inl ''secondary_ordered_nodes''
         else if last secondary \<noteq> last (op_ordered_nodes path) then Inl ''secondary_ordered_nodes''
         else Inr ())))))"

subsection \<open>What accepted documents guarantee\<close>

definition walk_ok :: "node_id \<Rightarrow> node_id \<Rightarrow> node_id list \<Rightarrow> bool" where
  "walk_ok source target nodes \<longleftrightarrow>
     2 \<le> length nodes \<and> length nodes \<le> 514 \<and> hd nodes = source \<and> last nodes = target \<and>
     distinct nodes \<and> list_all overlay_identifier nodes"

lemma two_le_length: "nodes \<noteq> [] \<Longrightarrow> hd nodes \<noteq> last nodes \<Longrightarrow> 2 \<le> length nodes"
  by (cases nodes rule: remdups_adj.cases) auto

lemma overlay_path_validate_ok:
  assumes "overlay_path_validate libs path = Inr u"
  shows "walk_ok (op_source path) (nr_node_id (op_target path)) (op_ordered_nodes path)"
    and "op_secondary_ordered_nodes path = Some nodes \<Longrightarrow>
      walk_ok (op_source path) (nr_node_id (op_target path)) nodes \<and> nodes \<noteq> op_ordered_nodes path"
    and "op_source path \<noteq> nr_node_id (op_target path)"
    and "target_owns_destination libs path"
  using assms two_le_length [of "op_ordered_nodes path"] two_le_length [of nodes]
  by (auto simp: overlay_path_validate_def walk_ok_def result_simps split: option.splits)

definition member_ok :: "net_libs \<Rightarrow> neighbor_map \<Rightarrow> field \<Rightarrow> node_record \<Rightarrow> bool" where
  "member_ok libs nm field node \<longleftrightarrow>
     validate_overlay_node_record node field = Inr () \<and> nr_cluster_id node = nm_cluster_id nm \<and>
     nr_node_id node \<noteq> nm_node_id nm \<and> net_contains libs (nm_vpn_cidr nm) (nr_vpn_ip node)"

lemma neighbors_loop_ok:
  "neighbors_loop libs nm ids ips neighbors = Inr u \<longleftrightarrow>
     (let nodes = map on_node neighbors in
      list_all (\<lambda>node. member_ok libs nm ''neighbors'' node \<and> nr_routes node = []) nodes \<and>
      distinct (map nr_node_id nodes) \<and> set (map nr_node_id nodes) \<inter> set ids = {} \<and>
      distinct (map nr_vpn_ip nodes) \<and> set (map nr_vpn_ip nodes) \<inter> set ips = {})"
  by (induction neighbors arbitrary: ids ips)
    (auto simp: result_simps Let_def overlay_neighbor_validate_def member_ok_def)

lemma pinned_loop_ok:
  "pinned_loop libs nm ids ips peers = Inr u \<longleftrightarrow>
     list_all (\<lambda>node. member_ok libs nm ''pinned_peers'' node \<and>
       nr_node_id node \<notin> set (map (nr_node_id \<circ> on_node) (nm_neighbors nm))) peers \<and>
     distinct (map nr_node_id peers) \<and> set (map nr_node_id peers) \<inter> set ids = {} \<and>
     distinct (map nr_vpn_ip peers) \<and> set (map nr_vpn_ip peers) \<inter> set ips = {}"
  by (induction peers arbitrary: ids ips) (auto simp: result_simps member_ok_def)

lemma aggregate_routes_loop_ok:
  assumes "aggregate_routes_loop libs nm accepted cidrs = Inr u"
    and "sorted_wrt (\<lambda>a b. \<not> aggregate_overlay_route_cidrs_overlap libs a b) accepted"
  shows "sorted_wrt (\<lambda>a b. \<not> aggregate_overlay_route_cidrs_overlap libs a b) (accepted @ cidrs)"
    and "\<forall>c \<in> set cidrs. \<not> aggregate_overlay_route_cidrs_overlap libs (nm_vpn_cidr nm) c \<and> 0 < net_prefix_len c"
  using assms
proof (induction cidrs arbitrary: accepted)
  case (Cons c cidrs)
  { case 1
    then have "aggregate_routes_loop libs nm (accepted @ [c]) cidrs = Inr u"
      "\<not> list_ex (\<lambda>existing. aggregate_overlay_route_cidrs_overlap libs existing c) accepted"
      by (auto simp: result_simps split: if_splits)
    then show ?case using Cons.IH(1) [of "accepted @ [c]"] 1(2)
      by (simp add: sorted_wrt_append list_ex_iff) }
  { case 2
    then have "aggregate_routes_loop libs nm (accepted @ [c]) cidrs = Inr u"
      "\<not> list_ex (\<lambda>existing. aggregate_overlay_route_cidrs_overlap libs existing c) accepted"
      "\<not> aggregate_overlay_route_cidrs_overlap libs (nm_vpn_cidr nm) c \<and> 0 < net_prefix_len c"
      by (auto simp: result_simps split: if_splits)
    then show ?case using Cons.IH(2) [of "accepted @ [c]"] 2(2)
      by (simp add: sorted_wrt_append list_ex_iff) }
qed auto

abbreviation neighbor_ids_of :: "neighbor_map \<Rightarrow> node_id list" where
  "neighbor_ids_of nm \<equiv> map (nr_node_id \<circ> on_node) (nm_neighbors nm)"

lemma neighbor_map_validate_ok:
  assumes "neighbor_map_validate libs nm = Inr u"
  shows "overlay_identifier (nm_node_id nm)" and "overlay_identifier (nm_cluster_id nm)"
    and "0 < unat (nm_max_degree nm)" and "unat (nm_max_degree nm) \<le> 64"
    and "length (nm_neighbors nm) \<le> unat (nm_max_degree nm)"
    and "neighbors_loop libs nm [] [] (nm_neighbors nm) = Inr ()"
    and "pinned_loop libs nm [] [] (nm_pinned_peers nm) = Inr ()"
    and "aggregate_routes_loop libs nm [] (nm_aggregate_routes nm) = Inr ()"
  using assms unat_gt_0 [of "nm_max_degree nm"]
  by (auto simp: neighbor_map_validate_def result_simps not_less word_le_nat_alt)

subsection \<open>Sample documents\<close>

text \<open>CIDR arithmetic as the \<open>ipnet\<close> documentation describes it, to instantiate the parameter.\<close>

fun addr_bits :: "ip_addr \<Rightarrow> nat \<times> nat" where
  "addr_bits (V4 ip) = (32, unat ip)"
| "addr_bits (V6 ip) = (128, unat ip)"

definition cidr_contains :: "ip_net \<Rightarrow> ip_addr \<Rightarrow> bool" where
  "cidr_contains net ip =
     (let (width, base) = addr_bits (net_addr net); (width', value) = addr_bits ip;
          host = 2 ^ (width - net_prefix_len net)
      in width = width' \<and> value div host = base div host)"

definition cidr_network :: "ip_net \<Rightarrow> ip_addr" where
  "cidr_network net =
     (let (width, base) = addr_bits (net_addr net); host = 2 ^ (width - net_prefix_len net);
          network = base div host * host
      in case net_addr net of V4 _ \<Rightarrow> V4 (of_nat network) | V6 _ \<Rightarrow> V6 (of_nat network))"

definition cidr_broadcast :: "ip_net \<Rightarrow> ip_addr" where
  "cidr_broadcast net =
     (let (width, base) = addr_bits (net_addr net); host = 2 ^ (width - net_prefix_len net);
          top = base div host * host + (host - 1)
      in case net_addr net of V4 _ \<Rightarrow> V4 (of_nat top) | V6 _ \<Rightarrow> V6 (of_nat top))"

definition sample_libs :: net_libs where
  "sample_libs = \<lparr>url_parse = (\<lambda>_. None), net_trunc = (\<lambda>net. net\<lparr>net_addr := cidr_network net\<rparr>),
     net_contains = cidr_contains, net_network = cidr_network, net_broadcast = cidr_broadcast\<rparr>"

definition sample_node :: "node_id \<Rightarrow> ipv4 \<Rightarrow> node_record" where
  "sample_node node ip =
     \<lparr>nr_node_id = node, nr_display_name = None, nr_hostname = None, nr_cluster_id = str ''c'', nr_vpn_ip = V4 ip, nr_identity_public_key = [],
      nr_wireguard_public_key = [], nr_role = str ''edge'', nr_tags = [], nr_endpoint_candidates = [],
      nr_relay_capability = None, nr_token_policy = token_policy_default, nr_routes = [], nr_registered_at = 0\<rparr>"

definition sample_map :: "node_id \<Rightarrow> node_record list \<Rightarrow> neighbor_map" where
  "sample_map node neighbors =
     \<lparr>nm_cluster_id = str ''c'', nm_node_id = node, nm_topology_epoch = 7, nm_routing_epoch = 1,
      nm_max_degree = 8, nm_on_demand_peer_limit = 4,
      nm_vpn_cidr = \<lparr>net_addr = V4 0x0a000000, net_prefix_len = 8\<rparr>,
      nm_neighbors = map (\<lambda>n. \<lparr>on_node = n, on_kind = BackbonePrimary\<rparr>) neighbors,
      nm_pinned_peers = [], nm_aggregate_routes = [\<lparr>net_addr = V4 0xc0a80000, net_prefix_len = 16\<rparr>],
      nm_client_route_peers = [], nm_bootstrap_endpoints = [], nm_generated_at = 0\<rparr>"

definition sample_path :: overlay_path where
  "sample_path =
     \<lparr>op_topology_epoch = 7, op_routing_epoch = 1, op_source = str ''a'', op_destination = V4 0x0a000009,
      op_target = sample_node (str ''z'') 0x0a000009,
      op_ordered_nodes = [str ''a'', str ''r'', str ''z''], op_secondary_ordered_nodes = None,
      op_generated_at = 0\<rparr>"

lemma sample_map_valid:
  "neighbor_map_validate sample_libs
     (sample_map (str ''a'') [sample_node (str ''r'') 0x0a000002, sample_node (str ''s'') 0x0a000003]) = Inr ()"
  by code_simp

lemma sample_path_valid: "overlay_path_validate sample_libs sample_path = Inr ()"
  by code_simp

subsection \<open>Properties\<close>



text \<open>
  C31. A path that validates is a usable walk: primary and secondary path start at the source, end
  at the target, visit no node twice and have at most 514 nodes; they differ from each other, source
  and target differ, and the target owns the destination address.
\<close>

theorem overlay_path_walks:
  assumes "overlay_path_validate libs path = Inr ()"
  shows "walk_ok (op_source path) (nr_node_id (op_target path)) (op_ordered_nodes path) \<and>
    (\<forall>nodes. op_secondary_ordered_nodes path = Some nodes \<longrightarrow>
       walk_ok (op_source path) (nr_node_id (op_target path)) nodes \<and> nodes \<noteq> op_ordered_nodes path) \<and>
    op_source path \<noteq> nr_node_id (op_target path) \<and> target_owns_destination libs path"
  using overlay_path_validate_ok [OF assms] by blast

theorem overlay_path_walks_witness:
  "walk_ok (str ''a'') (str ''z'') [str ''a'', str ''r'', str ''z'']"
  using overlay_path_walks [OF sample_path_valid] by (simp add: sample_path_def sample_node_def)

end
