(* ===== verification/Forwarder.thy ===== *)
theory Forwarder
  imports Replay Overlay
begin

text \<open>
  The bounded-degree overlay forwarder (\<open>crates/ipars-agent/src/overlay_forwarder.rs\<close>): its
  configuration, the replacement of the local neighbour map with a bounded grace for previous
  topology epochs, encapsulation at the source, and the processing of a frame at a relay or at the
  destination. Operations on the engine return their result and the new engine; the reading of the
  monotonic clock is an argument.

  The lemmas show that the retained epochs and the replay table stay bounded and consistent, that a
  relay only moves a frame along the edges of its path that its own neighbour map contains, and,
  over a chain of engines, that an encapsulated datagram reaches its target unchanged.
\<close>

subsection \<open>Configuration\<close>

definition DEFAULT_OVERLAY_REPLAY_CACHE_CAPACITY :: nat where
  [simp]: "DEFAULT_OVERLAY_REPLAY_CACHE_CAPACITY = 4096"
definition MAX_OVERLAY_REPLAY_CACHE_CAPACITY :: nat where
  [simp]: "MAX_OVERLAY_REPLAY_CACHE_CAPACITY = 65536"
definition PREVIOUS_TOPOLOGY_EPOCH_GRACE :: time where
  [simp]: "PREVIOUS_TOPOLOGY_EPOCH_GRACE = 120 * 1000000000"
definition MAX_RETAINED_TOPOLOGY_EPOCHS :: nat where
  [simp]: "MAX_RETAINED_TOPOLOGY_EPOCHS = 8"

record overlay_forwarder_config =
  cfg_max_frame_bytes :: nat
  cfg_max_relay_hops :: u16
  cfg_replay_cache_capacity :: nat

definition config_default :: overlay_forwarder_config where
  "config_default = \<lparr>cfg_max_frame_bytes = MAX_MULTIHOP_FRAME_BYTES,
     cfg_max_relay_hops = of_nat MAX_MULTIHOP_PATH_NODES,
     cfg_replay_cache_capacity = DEFAULT_OVERLAY_REPLAY_CACHE_CAPACITY\<rparr>"

definition config_validate ::
  "overlay_forwarder_config \<Rightarrow> overlay_forwarder_error + overlay_forwarder_config" where
  "config_validate cfg =
     (if cfg_max_frame_bytes cfg = 0 \<or> cfg_max_frame_bytes cfg > MAX_MULTIHOP_FRAME_BYTES then Inl InvalidConfig
      else if cfg_max_relay_hops cfg = 0 \<or> unat (cfg_max_relay_hops cfg) > MAX_MULTIHOP_PATH_NODES
      then Inl InvalidConfig
      else if cfg_replay_cache_capacity cfg = 0 \<or>
        cfg_replay_cache_capacity cfg > MAX_OVERLAY_REPLAY_CACHE_CAPACITY then Inl InvalidConfig
      else Inr cfg)"

datatype overlay_path_selection = Primary | Secondary

datatype overlay_forward_action =
    Forward node_id bytes
  | Deliver node_id bytes
  | DirectNeighbor node_id bytes

subsection \<open>The engine\<close>

record retained_neighbor_map =
  rnm_neighbor_map :: neighbor_map
  rnm_neighbor_ids :: "node_id list"
  rnm_expires_at :: time

record bounded_overlay_forwarder =
  fwd_local_node :: node_id
  fwd_neighbor_map :: neighbor_map
  fwd_neighbor_ids :: "node_id list"
  fwd_retained_neighbor_maps :: "retained_neighbor_map list"
  fwd_config :: overlay_forwarder_config
  fwd_replay_window :: replay_window

definition validate_neighbor_map ::
  "net_libs \<Rightarrow> node_id \<Rightarrow> neighbor_map \<Rightarrow> overlay_forwarder_error + node_id list" where
  "validate_neighbor_map libs local_node nm =
     and_then (map_err (\<lambda>_. InvalidNeighborMap) (neighbor_map_validate libs nm)) (\<lambda>_.
     if nm_node_id nm \<noteq> local_node then Inl (NeighborMapNodeMismatch local_node (nm_node_id nm))
     else if nm_topology_epoch nm = 0 then Inl ZeroTopologyEpoch
     else Inr (neighbor_ids_of nm))"

definition fwd_new ::
  "net_libs \<Rightarrow> node_id \<Rightarrow> neighbor_map \<Rightarrow> overlay_forwarder_config
     \<Rightarrow> overlay_forwarder_error + bounded_overlay_forwarder" where
  "fwd_new libs local_node nm config =
     and_then (config_validate config) (\<lambda>config.
     and_then (validate_neighbor_map libs local_node nm) (\<lambda>neighbor_ids.
     Inr \<lparr>fwd_local_node = local_node, fwd_neighbor_map = nm, fwd_neighbor_ids = neighbor_ids,
       fwd_retained_neighbor_maps = [], fwd_config = config,
       fwd_replay_window = rw_new (cfg_replay_cache_capacity config)\<rparr>))"

abbreviation retained_epoch :: "retained_neighbor_map \<Rightarrow> u64" where
  "retained_epoch r \<equiv> nm_topology_epoch (rnm_neighbor_map r)"

definition retain_replay_epochs :: "bounded_overlay_forwarder \<Rightarrow> bounded_overlay_forwarder" where
  "retain_replay_epochs fwd =
     fwd\<lparr>fwd_replay_window := retain_epochs
       (nm_topology_epoch (fwd_neighbor_map fwd) # map retained_epoch (fwd_retained_neighbor_maps fwd))
       (fwd_replay_window fwd)\<rparr>"

definition expire_retained_neighbor_maps ::
  "time \<Rightarrow> bounded_overlay_forwarder \<Rightarrow> bounded_overlay_forwarder" where
  "expire_retained_neighbor_maps now fwd =
     (let previous_len = length (fwd_retained_neighbor_maps fwd);
          fwd = fwd\<lparr>fwd_retained_neighbor_maps :=
            filter (\<lambda>r. now < rnm_expires_at r) (fwd_retained_neighbor_maps fwd)\<rparr>
      in if length (fwd_retained_neighbor_maps fwd) \<noteq> previous_len then retain_replay_epochs fwd else fwd)"

text \<open>The loop that pops the oldest entry while more than \<open>limit\<close> are retained.\<close>

fun pop_front_while_over :: "nat \<Rightarrow> 'a list \<Rightarrow> 'a list" where
  "pop_front_while_over limit [] = []"
| "pop_front_while_over limit (x # xs) =
     (if length (x # xs) > limit then pop_front_while_over limit xs else x # xs)"

definition update_neighbor_map ::
  "net_libs \<Rightarrow> time \<Rightarrow> time \<Rightarrow> neighbor_map \<Rightarrow> bounded_overlay_forwarder
     \<Rightarrow> (overlay_forwarder_error + unit) \<times> bounded_overlay_forwarder" where
  "update_neighbor_map libs now push_now nm fwd =
     st_then (validate_neighbor_map libs (fwd_local_node fwd) nm, fwd) (\<lambda>neighbor_ids fwd.
     if nm_cluster_id nm \<noteq> nm_cluster_id (fwd_neighbor_map fwd)
     then (Inl (NeighborMapClusterChanged (nm_cluster_id (fwd_neighbor_map fwd)) (nm_cluster_id nm)), fwd)
     else
       let fwd = expire_retained_neighbor_maps now fwd in
       if nm_topology_epoch nm \<noteq> nm_topology_epoch (fwd_neighbor_map fwd) then
         let incoming_epoch = nm_topology_epoch nm;
             retained = filter (\<lambda>r. retained_epoch r \<noteq> incoming_epoch) (fwd_retained_neighbor_maps fwd);
             old_epoch = nm_topology_epoch (fwd_neighbor_map fwd);
             retained = filter (\<lambda>r. retained_epoch r \<noteq> old_epoch) retained;
             retained = retained @ [\<lparr>rnm_neighbor_map = fwd_neighbor_map fwd,
               rnm_neighbor_ids = fwd_neighbor_ids fwd,
               rnm_expires_at = push_now + PREVIOUS_TOPOLOGY_EPOCH_GRACE\<rparr>];
             retained = pop_front_while_over MAX_RETAINED_TOPOLOGY_EPOCHS retained
         in (Inr (), retain_replay_epochs (fwd\<lparr>fwd_neighbor_map := nm, fwd_neighbor_ids := neighbor_ids,
              fwd_retained_neighbor_maps := retained\<rparr>))
       else (Inr (), fwd\<lparr>fwd_neighbor_map := nm, fwd_neighbor_ids := neighbor_ids\<rparr>))"

definition neighbor_ids_for_epoch :: "u64 \<Rightarrow> bounded_overlay_forwarder \<Rightarrow> node_id list option" where
  "neighbor_ids_for_epoch topology_epoch fwd =
     (if topology_epoch = nm_topology_epoch (fwd_neighbor_map fwd) then Some (fwd_neighbor_ids fwd)
      else map_option rnm_neighbor_ids
        (find (\<lambda>r. retained_epoch r = topology_epoch) (fwd_retained_neighbor_maps fwd)))"

subsection \<open>Checks\<close>

definition validate_topology_epoch ::
  "time \<Rightarrow> u64 \<Rightarrow> bounded_overlay_forwarder \<Rightarrow> (overlay_forwarder_error + unit) \<times> bounded_overlay_forwarder" where
  "validate_topology_epoch now received_epoch fwd =
     (let fwd = expire_retained_neighbor_maps now fwd;
          current_epoch = nm_topology_epoch (fwd_neighbor_map fwd)
      in if neighbor_ids_for_epoch received_epoch fwd \<noteq> None then (Inr (), fwd)
         else (Inl (FwdStaleTopologyEpoch current_epoch received_epoch), fwd))"

definition validate_inbound_topology_epoch ::
  "time \<Rightarrow> u64 \<Rightarrow> bounded_overlay_forwarder \<Rightarrow> (overlay_forwarder_error + unit) \<times> bounded_overlay_forwarder" where
  "validate_inbound_topology_epoch now received_epoch fwd = validate_topology_epoch now received_epoch fwd"

definition validate_relay_count :: "nat \<Rightarrow> bounded_overlay_forwarder \<Rightarrow> overlay_forwarder_error + unit" where
  "validate_relay_count relay_count fwd =
     (if relay_count > unat (cfg_max_relay_hops (fwd_config fwd))
      then Inl (RelayPathTooLong relay_count (cfg_max_relay_hops (fwd_config fwd))) else Inr ())"

definition validate_envelope_hop_limit ::
  "multi_hop_envelope \<Rightarrow> bounded_overlay_forwarder \<Rightarrow> overlay_forwarder_error + unit" where
  "validate_envelope_hop_limit env fwd =
     and_then (validate_relay_count (length (mh_path env)) fwd) (\<lambda>_.
     let expected = of_nat (length (mh_path env)) in
     if mh_hop_limit env \<noteq> expected then Inl (InvalidHopLimit expected (mh_hop_limit env)) else Inr ())"

definition is_neighbor :: "node_id \<Rightarrow> u64 \<Rightarrow> bounded_overlay_forwarder \<Rightarrow> bool" where
  "is_neighbor node topology_epoch fwd =
     (case neighbor_ids_for_epoch topology_epoch fwd of None \<Rightarrow> False | Some ids \<Rightarrow> node \<in> set ids)"

definition validate_previous_hop ::
  "node_id \<Rightarrow> node_id \<Rightarrow> u64 \<Rightarrow> bounded_overlay_forwarder \<Rightarrow> overlay_forwarder_error + unit" where
  "validate_previous_hop actual expected topology_epoch fwd =
     (if actual \<noteq> expected then Inl (PreviousHopMismatch expected actual)
      else if \<not> is_neighbor expected topology_epoch fwd then Inl (PreviousHopNotNeighbor expected)
      else Inr ())"

definition require_next_neighbor ::
  "node_id \<Rightarrow> u64 \<Rightarrow> bounded_overlay_forwarder \<Rightarrow> overlay_forwarder_error + unit" where
  "require_next_neighbor node topology_epoch fwd =
     (if \<not> is_neighbor node topology_epoch fwd then Inl (NextHopNotNeighbor node) else Inr ())"

definition validate_inner_datagram :: "bytes \<Rightarrow> bounded_overlay_forwarder \<Rightarrow> overlay_forwarder_error + unit" where
  "validate_inner_datagram datagram fwd =
     (if datagram = [] then Inl EmptyInnerDatagram
      else let maximum = min (cfg_max_frame_bytes (fwd_config fwd)) MAX_MULTIHOP_PAYLOAD_BYTES in
        if length datagram > maximum then Inl (InnerDatagramTooLarge maximum) else Inr ())"

definition validate_frame_size :: "nat \<Rightarrow> bounded_overlay_forwarder \<Rightarrow> overlay_forwarder_error + unit" where
  "validate_frame_size actual fwd =
     (if actual > cfg_max_frame_bytes (fwd_config fwd)
      then Inl (FwdFrameTooLarge actual (cfg_max_frame_bytes (fwd_config fwd))) else Inr ())"

definition fwd_observe ::
  "u64 \<Rightarrow> node_id \<Rightarrow> bytes \<Rightarrow> u64 \<Rightarrow> bounded_overlay_forwarder
     \<Rightarrow> (overlay_forwarder_error + unit) \<times> bounded_overlay_forwarder" where
  "fwd_observe topology_epoch source path_id sequence fwd =
     (let (r, rw) = observe topology_epoch source path_id sequence (fwd_replay_window fwd)
      in (r, fwd\<lparr>fwd_replay_window := rw\<rparr>))"

subsection \<open>Encapsulation\<close>

definition validate_selected_path ::
  "net_libs \<Rightarrow> time \<Rightarrow> overlay_path \<Rightarrow> overlay_path_selection \<Rightarrow> bounded_overlay_forwarder
     \<Rightarrow> (overlay_forwarder_error + node_id list) \<times> bounded_overlay_forwarder" where
  "validate_selected_path libs now path selection fwd =
     st_then (map_err (\<lambda>_. InvalidOverlayPath) (overlay_path_validate libs path), fwd) (\<lambda>_ fwd.
     st_then (validate_topology_epoch now (op_topology_epoch path) fwd) (\<lambda>_ fwd.
     if op_source path \<noteq> fwd_local_node fwd
     then (Inl (PathSourceMismatch (fwd_local_node fwd) (op_source path)), fwd)
     else if nr_cluster_id (op_target path) \<noteq> nm_cluster_id (fwd_neighbor_map fwd)
     then (Inl (PathClusterMismatch (nm_cluster_id (fwd_neighbor_map fwd)) (nr_cluster_id (op_target path))), fwd)
     else if nr_node_id (op_target path) = fwd_local_node fwd
     then (Inl (PathTargetsSource (fwd_local_node fwd)), fwd)
     else
       st_then (case selection of
           Primary \<Rightarrow> Inr (op_ordered_nodes path)
         | Secondary \<Rightarrow> ok_or (op_secondary_ordered_nodes path) SecondaryPathUnavailable, fwd) (\<lambda>ordered_nodes fwd.
       let relay_count = length ordered_nodes - 2 in
       st_then (if relay_count > 0 then validate_relay_count relay_count fwd else Inr (), fwd) (\<lambda>_ fwd.
       (Inr ordered_nodes, fwd)))))"

definition encapsulate_selected ::
  "net_libs \<Rightarrow> time \<Rightarrow> overlay_path \<Rightarrow> overlay_path_selection \<Rightarrow> bytes \<Rightarrow> u64 \<Rightarrow> bytes
     \<Rightarrow> bounded_overlay_forwarder \<Rightarrow> (overlay_forwarder_error + overlay_forward_action) \<times> bounded_overlay_forwarder" where
  "encapsulate_selected libs now path selection path_id sequence inner fwd =
     st_then (validate_inner_datagram inner fwd, fwd) (\<lambda>_ fwd.
     if list_all (\<lambda>byte. byte = 0) path_id then (Inl FwdInvalidPathId, fwd)
     else
       let topology_epoch = op_topology_epoch path in
       st_then (validate_selected_path libs now path selection fwd) (\<lambda>ordered_nodes fwd.
       st_then (if 1 < length ordered_nodes then Inr (ordered_nodes ! 1)
                else Inl (PathTargetsSource (fwd_local_node fwd)), fwd) (\<lambda>next_hop fwd.
       st_then (require_next_neighbor next_hop topology_epoch fwd, fwd) (\<lambda>_ fwd.
       if length ordered_nodes = 2 then
         st_then (fwd_observe topology_epoch (fwd_local_node fwd) path_id sequence fwd) (\<lambda>_ fwd.
         (Inr (DirectNeighbor next_hop inner), fwd))
       else
         let relay_nodes = butlast (tl ordered_nodes) in
         st_then (validate_relay_count (length relay_nodes) fwd, fwd) (\<lambda>_ fwd.
         st_then (map_err Codec (envelope_new topology_epoch path_id sequence (of_nat (length relay_nodes))
             (fwd_local_node fwd) (nr_node_id (op_target path)) relay_nodes inner), fwd) (\<lambda>envelope fwd.
         st_then (map_err Codec (envelope_encode envelope), fwd) (\<lambda>datagram fwd.
         st_then (validate_frame_size (length datagram) fwd, fwd) (\<lambda>_ fwd.
         st_then (fwd_observe topology_epoch (fwd_local_node fwd) path_id sequence fwd) (\<lambda>_ fwd.
         (Inr (Forward next_hop datagram), fwd))))))))))"

definition encapsulate ::
  "net_libs \<Rightarrow> time \<Rightarrow> overlay_path \<Rightarrow> bytes \<Rightarrow> u64 \<Rightarrow> bytes \<Rightarrow> bounded_overlay_forwarder
     \<Rightarrow> (overlay_forwarder_error + overlay_forward_action) \<times> bounded_overlay_forwarder" where
  "encapsulate libs now path path_id sequence inner fwd =
     encapsulate_selected libs now path Primary path_id sequence inner fwd"

subsection \<open>Receiving\<close>

definition deliver ::
  "node_id \<Rightarrow> multi_hop_envelope \<Rightarrow> u64 \<Rightarrow> bounded_overlay_forwarder
     \<Rightarrow> (overlay_forwarder_error + overlay_forward_action) \<times> bounded_overlay_forwarder" where
  "deliver previous_hop envelope topology_epoch fwd =
     (if mh_destination envelope \<noteq> fwd_local_node fwd
      then (Inl (UnexpectedDestination (mh_destination envelope) (fwd_local_node fwd)), fwd)
      else
        st_then (if mh_path envelope = [] then Inl (Codec InvalidPath) else Inr (last (mh_path envelope)), fwd)
          (\<lambda>expected_previous fwd.
        st_then (validate_previous_hop previous_hop expected_previous topology_epoch fwd, fwd) (\<lambda>_ fwd.
        st_then (map_err Codec (payload_for_destination envelope (fwd_local_node fwd)), fwd) (\<lambda>payload fwd.
        st_then (fwd_observe topology_epoch (mh_source envelope) (mh_path_id envelope) (mh_sequence envelope) fwd)
          (\<lambda>_ fwd. (Inr (Deliver (mh_source envelope) payload), fwd))))))"

text \<open>The second half of \<open>receive\<close>: the route is not complete, so the local node must be the next hop.\<close>

definition forward_frame ::
  "node_id \<Rightarrow> multi_hop_envelope \<Rightarrow> u64 \<Rightarrow> bounded_overlay_forwarder
     \<Rightarrow> (overlay_forwarder_error + overlay_forward_action) \<times> bounded_overlay_forwarder" where
  "forward_frame previous_hop envelope topology_epoch fwd =
     st_then (ok_or (next_hop envelope) (Codec UnexpectedHop), fwd) (\<lambda>expected_local fwd.
     if expected_local \<noteq> fwd_local_node fwd
     then (Inl (UnexpectedLocalHop expected_local (fwd_local_node fwd)), fwd)
     else
       let hop_index = unat (mh_hop_index envelope) in
       st_then (if hop_index = 0 then Inr (mh_source envelope)
                else if hop_index - 1 < length (mh_path envelope) then Inr (mh_path envelope ! (hop_index - 1))
                else Inl (Codec UnexpectedHop), fwd) (\<lambda>expected_previous fwd.
       st_then (validate_previous_hop previous_hop expected_previous topology_epoch fwd, fwd) (\<lambda>_ fwd.
       let (advanced, envelope) = advance_hop (fwd_local_node fwd) topology_epoch envelope in
       st_then (map_err Codec advanced, fwd) (\<lambda>_ fwd.
       let hop = (case next_hop envelope of Some node \<Rightarrow> node | None \<Rightarrow> mh_destination envelope) in
       st_then (require_next_neighbor hop topology_epoch fwd, fwd) (\<lambda>_ fwd.
       st_then (map_err Codec (envelope_encode envelope), fwd) (\<lambda>forwarded fwd.
       st_then (validate_frame_size (length forwarded) fwd, fwd) (\<lambda>_ fwd.
       st_then (fwd_observe topology_epoch (mh_source envelope) (mh_path_id envelope) (mh_sequence envelope) fwd)
         (\<lambda>_ fwd. (Inr (Forward hop forwarded), fwd)))))))))"

definition receive ::
  "time \<Rightarrow> node_id \<Rightarrow> bytes \<Rightarrow> bounded_overlay_forwarder
     \<Rightarrow> (overlay_forwarder_error + overlay_forward_action) \<times> bounded_overlay_forwarder" where
  "receive now previous_hop datagram fwd =
     st_then (validate_frame_size (length datagram) fwd, fwd) (\<lambda>_ fwd.
     st_then (map_err Codec (envelope_decode datagram 1), fwd) (\<lambda>envelope fwd.
     let topology_epoch = mh_topology_epoch envelope in
     st_then (validate_inbound_topology_epoch now topology_epoch fwd) (\<lambda>_ fwd.
     st_then (validate_envelope_hop_limit envelope fwd, fwd) (\<lambda>_ fwd.
     if is_route_complete envelope then deliver previous_hop envelope topology_epoch fwd
     else forward_frame previous_hop envelope topology_epoch fwd))))"

subsection \<open>Steps of a frame\<close>

text \<open>
  The nodes a frame visits: source, relays, destination. With \<open>i\<close> hops consumed, the frame travels
  from node \<open>i\<close> of this walk to node \<open>i + 1\<close>, and that node sends it on to node \<open>i + 2\<close>.
\<close>

definition walk :: "multi_hop_envelope \<Rightarrow> node_id list" where
  "walk env = mh_source env # mh_path env @ [mh_destination env]"

abbreviation hop :: "multi_hop_envelope \<Rightarrow> nat" where
  "hop env \<equiv> unat (mh_hop_index env)"

abbreviation hopped :: "multi_hop_envelope \<Rightarrow> multi_hop_envelope" where
  "hopped env \<equiv> env\<lparr>mh_hop_index := mh_hop_index env + 1\<rparr>"

lemma fwd_observe_simps [simp]:
  "fwd_local_node (snd (fwd_observe e src p s fwd)) = fwd_local_node fwd"
  "fwd_config (snd (fwd_observe e src p s fwd)) = fwd_config fwd"
  by (simp_all add: fwd_observe_def split: prod.splits)

lemma retain_replay_epochs_simps [simp]:
  "fwd_local_node (retain_replay_epochs fwd) = fwd_local_node fwd"
  "fwd_config (retain_replay_epochs fwd) = fwd_config fwd"
  "fwd_neighbor_map (retain_replay_epochs fwd) = fwd_neighbor_map fwd"
  "fwd_neighbor_ids (retain_replay_epochs fwd) = fwd_neighbor_ids fwd"
  "fwd_retained_neighbor_maps (retain_replay_epochs fwd) = fwd_retained_neighbor_maps fwd"
  by (simp_all add: retain_replay_epochs_def)

lemma expire_simps [simp]:
  "fwd_local_node (expire_retained_neighbor_maps now fwd) = fwd_local_node fwd"
  "fwd_config (expire_retained_neighbor_maps now fwd) = fwd_config fwd"
  "fwd_neighbor_map (expire_retained_neighbor_maps now fwd) = fwd_neighbor_map fwd"
  "fwd_neighbor_ids (expire_retained_neighbor_maps now fwd) = fwd_neighbor_ids fwd"
  by (simp_all add: expire_retained_neighbor_maps_def Let_def)

lemma validate_topology_epoch_ok [result_simps]:
  "validate_topology_epoch now e fwd = (Inr u, fwd') \<longleftrightarrow>
     fwd' = expire_retained_neighbor_maps now fwd \<and> neighbor_ids_for_epoch e fwd' \<noteq> None"
  by (auto simp: validate_topology_epoch_def Let_def)

lemma validate_inbound_topology_epoch_ok [result_simps]:
  "validate_inbound_topology_epoch now e fwd = (Inr u, fwd') \<longleftrightarrow>
     fwd' = expire_retained_neighbor_maps now fwd \<and> neighbor_ids_for_epoch e fwd' \<noteq> None"
  by (simp add: validate_inbound_topology_epoch_def validate_topology_epoch_ok)

lemma forwarder_checks_ok [result_simps]:
  "validate_relay_count n fwd = Inr u \<longleftrightarrow> n \<le> unat (cfg_max_relay_hops (fwd_config fwd))"
  "validate_frame_size n fwd = Inr u \<longleftrightarrow> n \<le> cfg_max_frame_bytes (fwd_config fwd)"
  "validate_previous_hop actual expected e fwd = Inr u \<longleftrightarrow> actual = expected \<and> is_neighbor expected e fwd"
  "require_next_neighbor node e fwd = Inr u \<longleftrightarrow> is_neighbor node e fwd"
  "validate_inner_datagram d fwd = Inr u \<longleftrightarrow>
     d \<noteq> [] \<and> length d \<le> cfg_max_frame_bytes (fwd_config fwd) \<and> length d \<le> 65000"
  "validate_envelope_hop_limit env fwd = Inr u \<longleftrightarrow>
     length (mh_path env) \<le> unat (cfg_max_relay_hops (fwd_config fwd)) \<and>
     mh_hop_limit env = of_nat (length (mh_path env))"
  by (auto simp: validate_relay_count_def validate_frame_size_def validate_previous_hop_def
      require_next_neighbor_def validate_inner_datagram_def validate_envelope_hop_limit_def
      result_simps Let_def)

lemma is_neighbor_epoch: "is_neighbor node e fwd \<Longrightarrow> neighbor_ids_for_epoch e fwd \<noteq> None"
  by (auto simp: is_neighbor_def split: option.splits)

text \<open>What a relay checks before it passes a frame on.\<close>

definition relay_accepts :: "node_id \<Rightarrow> multi_hop_envelope \<Rightarrow> bounded_overlay_forwarder \<Rightarrow> bool" where
  "relay_accepts prev env fwd \<longleftrightarrow>
     valid_envelope 1 env \<and> length (mh_path_id env) = 16 \<and>
     encoded_length env \<le> cfg_max_frame_bytes (fwd_config fwd) \<and>
     length (mh_path env) \<le> unat (cfg_max_relay_hops (fwd_config fwd)) \<and>
     mh_hop_limit env = of_nat (length (mh_path env)) \<and>
     hop env < length (mh_path env) \<and>
     prev = walk env ! hop env \<and> fwd_local_node fwd = walk env ! (hop env + 1) \<and>
     is_neighbor prev (mh_topology_epoch env) fwd \<and>
     is_neighbor (walk env ! (hop env + 2)) (mh_topology_epoch env) fwd"

lemma walk_nth:
  assumes "hop env < length (mh_path env)"
  shows "walk env ! hop env = (if hop env = 0 then mh_source env else mh_path env ! (hop env - 1))"
    and "walk env ! (hop env + 1) = mh_path env ! hop env"
    and "walk env ! (hop env + 2) =
      (if hop env + 1 < length (mh_path env) then mh_path env ! (hop env + 1) else mh_destination env)"
  using assms by (auto simp: walk_def nth_append nth_Cons' not_less)

lemma next_hop_hopped:
  assumes "valid_envelope m env" and "hop env < length (mh_path env)"
  shows "(case next_hop (hopped env) of Some node \<Rightarrow> node | None \<Rightarrow> mh_destination (hopped env)) =
    walk env ! (hop env + 2)"
  using hop_index_Suc(1) [OF assms] walk_nth(3) [OF assms(2)] by (auto simp: next_hop_def Let_def)

lemma encode_hopped:
  assumes "valid_envelope 1 env" and "hop env < length (mh_path env)"
  shows "envelope_encode (hopped env) = Inr (envelope_frame (hopped env))"
    and "encoded_length (hopped env) = encoded_length env"
  using valid_envelope_advance [OF assms(1), of "mh_path env ! hop env"] assms
  by (simp_all add: envelope_encode_ok next_hop_Some encoded_length_def)

lemma advance_hop_local:
  assumes "valid_envelope m env" and "hop env < length (mh_path env)" and "mh_path env ! hop env = node"
  shows "advance_hop node m env = (Inr (), hopped env)"
  using assms by (simp add: advance_hop_ok next_hop_Some)

lemma not_complete: "valid_envelope m env \<Longrightarrow> \<not> is_route_complete env \<longleftrightarrow> hop env < length (mh_path env)"
  by (auto simp: is_route_complete_def valid_envelope_def)

lemma deliver_not_forward: "deliver prev env e fwd \<noteq> (Inr (Forward h d), fwd')"
  by (auto simp: deliver_def result_simps)

lemma forward_not_deliver: "forward_frame prev env e fwd \<noteq> (Inr (Deliver src p), fwd')"
  by (auto simp: forward_frame_def st_then_ok Let_def split: if_splits prod.splits)

lemma receive_forwardD:
  assumes "receive now prev d fwd = (Inr (Forward h d'), fwd')"
  shows "\<exists>env. d = envelope_frame env \<and> relay_accepts prev env (expire_retained_neighbor_maps now fwd) \<and>
    h = walk env ! (hop env + 2) \<and> d' = envelope_frame (hopped env) \<and>
    fwd_observe (mh_topology_epoch env) (mh_source env) (mh_path_id env) (mh_sequence env)
      (expire_retained_neighbor_maps now fwd) = (Inr (), fwd')"
proof -
  let ?fwd = "expire_retained_neighbor_maps now fwd"
  from assms obtain env where dec: "envelope_decode d 1 = Inr env"
    and lim: "validate_envelope_hop_limit env ?fwd = Inr ()"
    and size: "length d \<le> cfg_max_frame_bytes (fwd_config fwd)"
    and rest: "forward_frame prev env (mh_topology_epoch env) ?fwd = (Inr (Forward h d'), fwd')"
    by (auto simp: receive_def st_then_ok map_err_eq_Inr Let_def deliver_not_forward
        validate_inbound_topology_epoch_ok forwarder_checks_ok(2) split: if_splits)
  from dec have v: "valid_envelope 1 env" "d = envelope_frame env" "length (mh_path_id env) = 16"
    by (simp_all add: envelope_decode_iff)
  have ve: "valid_envelope (mh_topology_epoch env) env" by (rule valid_envelope_min [OF v(1)]) simp
  have hl: "hop env < length (mh_path env)" "mh_path env ! hop env = fwd_local_node fwd"
    using rest by (auto simp: forward_frame_def st_then_ok ok_or_eq_Inr next_hop_Some split: if_splits)
  note W = walk_nth [OF hl(1)] walk_nth [OF hl(1), simplified]
  show ?thesis
    apply (rule exI [of _ env])
    using rest lim size hl v
    by (auto simp: forward_frame_def result_simps advance_hop_local [OF ve hl(1)] next_hop_hopped [OF ve hl(1)]
        Let_def encode_hopped [OF v(1) hl(1)] relay_accepts_def W length_envelope_frame split: if_splits)
qed

lemma receive_forwardI:
  assumes "relay_accepts prev env (expire_retained_neighbor_maps now fwd)"
    and "fwd_observe (mh_topology_epoch env) (mh_source env) (mh_path_id env) (mh_sequence env)
      (expire_retained_neighbor_maps now fwd) = (Inr (), fwd')"
  shows "receive now prev (envelope_frame env) fwd =
    (Inr (Forward (walk env ! (hop env + 2)) (envelope_frame (hopped env))), fwd')"
proof -
  let ?fwd = "expire_retained_neighbor_maps now fwd"
  from assms(1) have v: "valid_envelope 1 env" and l: "length (mh_path_id env) = 16"
    and hl: "hop env < length (mh_path env)" and loc: "mh_path env ! hop env = fwd_local_node fwd"
    using walk_nth(2) [of env] by (auto simp: relay_accepts_def)
  have ve: "valid_envelope (mh_topology_epoch env) env" by (rule valid_envelope_min [OF v]) simp
  note W = walk_nth [OF hl] walk_nth [OF hl, simplified]
  note R = assms(1) [unfolded relay_accepts_def, simplified]
  have checks: "validate_frame_size (length (envelope_frame env)) fwd = Inr ()"
    "envelope_decode (envelope_frame env) 1 = Inr env"
    "validate_inbound_topology_epoch now (mh_topology_epoch env) fwd = (Inr (), ?fwd)"
    "validate_envelope_hop_limit env ?fwd = Inr ()"
    "next_hop env = Some (fwd_local_node fwd)" "\<not> is_route_complete env"
    "validate_previous_hop prev (walk env ! hop env) (mh_topology_epoch env) ?fwd = Inr ()"
    "require_next_neighbor (walk env ! (hop env + 2)) (mh_topology_epoch env) ?fwd = Inr ()"
    "validate_frame_size (length (envelope_frame (hopped env))) ?fwd = Inr ()"
    using R v l hl loc not_complete [OF v] is_neighbor_epoch encode_hopped(2) [OF v hl]
      length_envelope_frame [of env] length_envelope_frame [of "hopped env"]
    by (auto simp: result_simps envelope_decode_iff next_hop_Some)
  have prev: "(if hop env = 0 then Inr (mh_source env)
      else if hop env - 1 < length (mh_path env) then Inr (mh_path env ! (hop env - 1))
      else Inl (Codec UnexpectedHop)) = Inr (walk env ! hop env)" using W(1) hl by auto
  have same: "mh_source (hopped env) = mh_source env" "mh_path_id (hopped env) = mh_path_id env"
    "mh_sequence (hopped env) = mh_sequence env" by simp_all
  show ?thesis
    by (simp only: receive_def forward_frame_def Let_def checks prev same assms(2) advance_hop_local [OF ve hl loc]
        next_hop_hopped [OF ve hl] encode_hopped(1) [OF v hl] st_then_simps map_err_simps ok_or_simps
        expire_simps prod.case if_False simp_thms)
qed

definition destination_accepts :: "node_id \<Rightarrow> multi_hop_envelope \<Rightarrow> bounded_overlay_forwarder \<Rightarrow> bool" where
  "destination_accepts prev env fwd \<longleftrightarrow>
     valid_envelope 1 env \<and> length (mh_path_id env) = 16 \<and>
     encoded_length env \<le> cfg_max_frame_bytes (fwd_config fwd) \<and>
     length (mh_path env) \<le> unat (cfg_max_relay_hops (fwd_config fwd)) \<and>
     mh_hop_limit env = of_nat (length (mh_path env)) \<and>
     hop env = length (mh_path env) \<and>
     prev = walk env ! hop env \<and> fwd_local_node fwd = walk env ! (hop env + 1) \<and>
     is_neighbor prev (mh_topology_epoch env) fwd"

lemma walk_nth_end:
  assumes "hop env = length (mh_path env)" and "mh_path env \<noteq> []"
  shows "walk env ! hop env = last (mh_path env)" and "walk env ! (hop env + 1) = mh_destination env"
  using assms by (auto simp: walk_def nth_append nth_Cons' last_conv_nth)

lemma receive_deliver_iff:
  "receive now prev d fwd = (Inr (Deliver src p), fwd') \<longleftrightarrow>
     (\<exists>env. d = envelope_frame env \<and> destination_accepts prev env (expire_retained_neighbor_maps now fwd) \<and>
       src = mh_source env \<and> p = mh_opaque_payload env \<and>
       fwd_observe (mh_topology_epoch env) (mh_source env) (mh_path_id env) (mh_sequence env)
         (expire_retained_neighbor_maps now fwd) = (Inr (), fwd'))" (is "?L \<longleftrightarrow> ?R")
proof
  let ?fwd = "expire_retained_neighbor_maps now fwd"
  assume ?L
  then obtain env where dec: "envelope_decode d 1 = Inr env"
    and c: "is_route_complete env" and lim: "validate_envelope_hop_limit env ?fwd = Inr ()"
    and size: "length d \<le> cfg_max_frame_bytes (fwd_config fwd)"
    and del: "deliver prev env (mh_topology_epoch env) ?fwd = (Inr (Deliver src p), fwd')"
    by (auto simp: receive_def st_then_ok map_err_eq_Inr Let_def forward_not_deliver
        validate_inbound_topology_epoch_ok forwarder_checks_ok(2) split: if_splits)
  from dec have v: "valid_envelope 1 env" "d = envelope_frame env" "length (mh_path_id env) = 16"
    by (simp_all add: envelope_decode_iff)
  have ne: "mh_path env \<noteq> []" using v by (simp add: valid_envelope_def)
  have hl: "hop env = length (mh_path env)" using c by (simp add: is_route_complete_def)
  note W = walk_nth_end [OF hl ne] walk_nth_end [OF hl ne, simplified]
  show ?R
    apply (rule exI [of _ env])
    using del lim size v c ne hl W
    by (auto simp: deliver_def result_simps payload_for_destination_def destination_accepts_def
        length_envelope_frame split: if_splits)
next
  let ?fwd = "expire_retained_neighbor_maps now fwd"
  assume ?R
  then obtain env where d: "d = envelope_frame env" and acc: "destination_accepts prev env ?fwd"
    and out: "src = mh_source env" "p = mh_opaque_payload env"
    and obs: "fwd_observe (mh_topology_epoch env) (mh_source env) (mh_path_id env) (mh_sequence env)
      ?fwd = (Inr (), fwd')" by auto
  note A = acc [unfolded destination_accepts_def]
  have ne: "mh_path env \<noteq> []" and hl: "hop env = length (mh_path env)" using A by (auto simp: valid_envelope_def)
  note W = walk_nth_end [OF hl ne] walk_nth_end [OF hl ne, simplified]
  have checks: "validate_frame_size (length (envelope_frame env)) fwd = Inr ()"
    "envelope_decode (envelope_frame env) 1 = Inr env"
    "validate_inbound_topology_epoch now (mh_topology_epoch env) fwd = (Inr (), ?fwd)"
    "validate_envelope_hop_limit env ?fwd = Inr ()" "is_route_complete env"
    "validate_previous_hop prev (last (mh_path env)) (mh_topology_epoch env) ?fwd = Inr ()"
    using A W is_neighbor_epoch length_envelope_frame [of env]
    by (auto simp: result_simps envelope_decode_iff is_route_complete_def)
  show ?L
    using checks A W ne hl obs
    by (simp add: receive_def d Let_def deliver_def payload_for_destination_def out)
qed

subsection \<open>Encapsulation gives the first frame\<close>

lemma relay_nodes_split:
  assumes "3 \<le> length nodes"
  shows "nodes = hd nodes # butlast (tl nodes) @ [last nodes]" and "butlast (tl nodes) \<noteq> []"
proof -
  obtain a b c rest where "nodes = a # b # c # rest"
    using assms by (metis Suc_le_length_iff numeral_3_eq_3)
  then show "nodes = hd nodes # butlast (tl nodes) @ [last nodes]" "butlast (tl nodes) \<noteq> []" by auto
qed

lemma encapsulate_forwardD:
  assumes "encapsulate_selected libs now path sel path_id sequence inner fwd = (Inr (Forward h d), fwd')"
    and len: "length path_id = 16"
  shows "\<exists>env nodes. envelope_new (op_topology_epoch path) path_id sequence (mh_hop_limit env)
      (fwd_local_node fwd) (nr_node_id (op_target path)) (mh_path env) inner = Inr env \<and>
    nodes = (case sel of Primary \<Rightarrow> op_ordered_nodes path | Secondary \<Rightarrow> the (op_secondary_ordered_nodes path)) \<and>
    walk env = nodes \<and> h = nodes ! 1 \<and> d = envelope_frame env \<and> hop env = 0 \<and>
    mh_hop_limit env = of_nat (length (mh_path env)) \<and>
    encoded_length env = length d"
proof -
  let ?fwd = "expire_retained_neighbor_maps now fwd"
  from assms(1) obtain nodes where
    sp: "validate_selected_path libs now path sel fwd = (Inr nodes, ?fwd)"
    and nl: "length nodes \<noteq> 2" "1 < length nodes" and h: "h = nodes ! 1"
    and rest: "st_then (map_err Codec (envelope_new (op_topology_epoch path) path_id sequence
        (of_nat (length (butlast (tl nodes)))) (fwd_local_node fwd) (nr_node_id (op_target path))
        (butlast (tl nodes)) inner), ?fwd) (\<lambda>envelope fwd.
      st_then (map_err Codec (envelope_encode envelope), fwd) (\<lambda>datagram fwd.
      st_then (validate_frame_size (length datagram) fwd, fwd) (\<lambda>_ fwd.
      st_then (fwd_observe (op_topology_epoch path) (fwd_local_node fwd) path_id sequence fwd) (\<lambda>_ fwd.
      (Inr (Forward (nodes ! 1) datagram), fwd))))) = (Inr (Forward h d), fwd')"
    by (auto simp: encapsulate_selected_def validate_selected_path_def st_then_ok map_err_eq_Inr Let_def
        validate_topology_epoch_ok split: if_splits)
  from sp have pv: "overlay_path_validate libs path = Inr ()" "op_source path = fwd_local_node fwd"
    and nodes: "nodes = (case sel of Primary \<Rightarrow> op_ordered_nodes path | Secondary \<Rightarrow> the (op_secondary_ordered_nodes path))"
    "sel = Secondary \<Longrightarrow> op_secondary_ordered_nodes path = Some nodes"
    by (auto simp: validate_selected_path_def result_simps Let_def split: if_splits overlay_path_selection.splits)
  have "walk_ok (op_source path) (nr_node_id (op_target path)) nodes"
  proof (cases sel)
    case Primary
    then show ?thesis using overlay_path_validate_ok(1) [OF pv(1)] nodes(1) by simp
  next
    case Secondary
    then show ?thesis using overlay_path_validate_ok(2) [OF pv(1) nodes(2)] by simp
  qed
  then have walk: "hd nodes = fwd_local_node fwd" "last nodes = nr_node_id (op_target path)"
    using pv(2) by (simp_all add: walk_ok_def)
  from rest obtain env where new: "envelope_new (op_topology_epoch path) path_id sequence
      (of_nat (length (butlast (tl nodes)))) (fwd_local_node fwd) (nr_node_id (op_target path))
      (butlast (tl nodes)) inner = Inr env" and d: "envelope_encode env = Inr d"
    by (auto simp: st_then_ok map_err_eq_Inr)
  from new have env: "mh_hop_limit env = of_nat (length (butlast (tl nodes)))" "mh_path env = butlast (tl nodes)"
    "mh_hop_index env = 0" "mh_source env = fwd_local_node fwd" "mh_destination env = nr_node_id (op_target path)"
    "mh_path_id env = path_id" by (auto simp: envelope_new_ok)
  have "walk env = hd nodes # butlast (tl nodes) @ [last nodes]" by (simp add: walk_def env walk)
  also have "\<dots> = nodes" by (rule relay_nodes_split(1) [symmetric]) (use nl in simp)
  finally have "walk env = nodes" .
  then show ?thesis
    using new env nodes(1) h d len by (intro exI [of _ env] exI [of _ nodes]) (simp add: envelope_encode_ok length_envelope_frame)
qed

subsection \<open>A chain of engines\<close>

text \<open>
  A frame that arrives from \<open>prev\<close> at the first engine, which must be the node \<open>node\<close> it was sent to,
  is handed from engine to engine until one delivers it: the result is the delivering node, the
  claimed source and the payload.
\<close>

fun carry ::
  "time \<Rightarrow> node_id \<Rightarrow> node_id \<Rightarrow> bytes \<Rightarrow> bounded_overlay_forwarder list \<Rightarrow> (node_id \<times> node_id \<times> bytes) option" where
  "carry now prev node d [] = None"
| "carry now prev node d (fwd # fwds) =
     (if fwd_local_node fwd \<noteq> node then None
      else case receive now prev d fwd of
        (Inr (Deliver source payload), _) \<Rightarrow> if fwds = [] then Some (node, source, payload) else None
      | (Inr (Forward next datagram), _) \<Rightarrow> carry now node next datagram fwds
      | _ \<Rightarrow> None)"

lemma frame_inj:
  assumes "valid_envelope 1 env" "length (mh_path_id env) = 16" "valid_envelope 1 env'"
    "length (mh_path_id env') = 16" "envelope_frame env = envelope_frame env'"
  shows "env = env'"
proof -
  have "envelope_decode (envelope_frame env) 1 = Inr env" using assms(1,2) by (rule envelope_decode_frame)
  moreover have "envelope_decode (envelope_frame env) 1 = Inr env'"
    using envelope_decode_frame [OF assms(3,4)] assms(5) by simp
  ultimately show ?thesis by simp
qed

lemma hop_hopped:
  assumes "valid_envelope 1 env" and "hop env < length (mh_path env)"
  shows "hop (hopped env) = hop env + 1" and "valid_envelope 1 (hopped env)" and "walk (hopped env) = walk env"
  using hop_index_Suc(1) [OF assms] valid_envelope_advance [OF assms(1)] assms(2)
  by (simp_all add: next_hop_Some walk_def)

lemma drop_walk: "i < length (walk env) \<Longrightarrow> drop i (walk env) = walk env ! i # drop (i + 1) (walk env)"
  by (simp add: Cons_nth_drop_Suc)

lemma carry_integrity:
  assumes "valid_envelope 1 env" and "length (mh_path_id env) = 16"
    and "carry now prev (walk env ! (hop env + 1)) (envelope_frame env) fwds = Some (at, src, p)"
  shows "at = mh_destination env \<and> src = mh_source env \<and> p = mh_opaque_payload env \<and>
    map fwd_local_node fwds = drop (hop env + 1) (walk env)"
  using assms
proof (induction fwds arbitrary: env prev)
  case (Cons fwd fwds)
  let ?node = "walk env ! (hop env + 1)"
  have loc: "fwd_local_node fwd = ?node" using Cons.prems(3) by (simp split: if_splits)
  obtain r fwd' where rec: "receive now prev (envelope_frame env) fwd = (r, fwd')" by fastforce
  from Cons.prems(3) rec loc consider
      (del) src' p' where "r = Inr (Deliver src' p')" "fwds = []" "at = ?node" "src = src'" "p = p'"
    | (fw) h d' where "r = Inr (Forward h d')" "carry now ?node h d' fwds = Some (at, src, p)"
    by (auto split: sum.splits overlay_forward_action.splits if_splits)
  then show ?case
  proof cases
    case del
    with rec obtain env' where e: "envelope_frame env = envelope_frame env'"
      "destination_accepts prev env' (expire_retained_neighbor_maps now fwd)"
      "src' = mh_source env'" "p' = mh_opaque_payload env'"
      by (auto simp: receive_deliver_iff)
    then have "env = env'" using Cons.prems by (intro frame_inj) (auto simp: destination_accepts_def)
    moreover from this have "hop env = length (mh_path env)" "mh_path env \<noteq> []"
      using e(2) by (auto simp: destination_accepts_def valid_envelope_def)
    ultimately show ?thesis
      using del e loc walk_nth_end(2) [of env] by (simp add: walk_def)
  next
    case fw
    with rec receive_forwardD obtain env' where e: "envelope_frame env = envelope_frame env'"
      "relay_accepts prev env' (expire_retained_neighbor_maps now fwd)"
      "h = walk env' ! (hop env' + 2)" "d' = envelope_frame (hopped env')" by blast
    then have eq: "env = env'" using Cons.prems by (intro frame_inj) (auto simp: relay_accepts_def)
    then have hl: "hop env < length (mh_path env)" using e(2) by (simp add: relay_accepts_def)
    note H = hop_hopped [OF Cons.prems(1) hl]
    have "carry now ?node (walk (hopped env) ! (hop (hopped env) + 1)) (envelope_frame (hopped env)) fwds
        = Some (at, src, p)"
      using fw(2) e(3,4) eq H by simp
    from Cons.IH [OF H(2) _ this] Cons.prems(2) loc hl show ?thesis
      using drop_walk [of "hop env + 1" env] H by (simp add: walk_def)
  qed
qed simp

text \<open>The conditions under which an engine lets a frame of its path pass.\<close>

definition ready :: "time \<Rightarrow> multi_hop_envelope \<Rightarrow> bounded_overlay_forwarder \<Rightarrow> nat \<Rightarrow> bool" where
  "ready now env fwd i \<longleftrightarrow>
     (let epoch = mh_topology_epoch env; live = expire_retained_neighbor_maps now fwd in
      fwd_local_node fwd = walk env ! (i + 1) \<and>
      is_neighbor (walk env ! i) epoch live \<and>
      (i < length (mh_path env) \<longrightarrow> is_neighbor (walk env ! (i + 2)) epoch live) \<and>
      encoded_length env \<le> cfg_max_frame_bytes (fwd_config fwd) \<and>
      length (mh_path env) \<le> unat (cfg_max_relay_hops (fwd_config fwd)) \<and>
      rw_inv (fwd_replay_window live) \<and>
      rw_abs (fwd_replay_window live) (path_key epoch (mh_source env) (mh_path_id env)) = None)"

lemma ready_observe:
  assumes "ready now env fwd i"
  obtains fwd' where "fwd_observe (mh_topology_epoch env) (mh_source env) (mh_path_id env) (mh_sequence env)
    (expire_retained_neighbor_maps now fwd) = (Inr (), fwd')"
proof -
  let ?rw = "fwd_replay_window (expire_retained_neighbor_maps now fwd)"
  have inv: "rw_inv ?rw" and none: "rw_abs ?rw (path_key (mh_topology_epoch env) (mh_source env) (mh_path_id env)) = None"
    using assms by (simp_all add: ready_def Let_def)
  from inv none obtain rw' where "observe (mh_topology_epoch env) (mh_source env) (mh_path_id env) (mh_sequence env) ?rw = (Inr (), rw')"
    by (cases rule: observe_cases [of ?rw "mh_sequence env" "mh_topology_epoch env" "mh_source env" "mh_path_id env"]) auto
  then show ?thesis using that by (simp add: fwd_observe_def)
qed

lemma ready_hopped: "ready now (hopped env) fwd i \<longleftrightarrow> ready now env fwd i"
  by (simp add: ready_def walk_def encoded_length_def Let_def)

lemma carry_delivers:
  assumes "valid_envelope 1 env" and "length (mh_path_id env) = 16"
    and "mh_hop_limit env = of_nat (length (mh_path env))"
    and "length fwds = length (mh_path env) - hop env + 1"
    and "\<forall>j < length fwds. ready now env (fwds ! j) (hop env + j)"
  shows "carry now (walk env ! hop env) (walk env ! (hop env + 1)) (envelope_frame env) fwds =
    Some (mh_destination env, mh_source env, mh_opaque_payload env)"
  using assms
proof (induction fwds arbitrary: env)
  case (Cons fwd fwds)
  note r = Cons.prems(5) [rule_format, of 0, simplified]
  then have R: "ready now env fwd (hop env)" by simp
  from ready_observe [OF this] obtain fwd' where
    obs: "fwd_observe (mh_topology_epoch env) (mh_source env) (mh_path_id env) (mh_sequence env)
      (expire_retained_neighbor_maps now fwd) = (Inr (), fwd')" .
  have le: "hop env \<le> length (mh_path env)" using Cons.prems(1) by (simp add: valid_envelope_def)
  show ?case
  proof (cases "hop env < length (mh_path env)")
    case True
    have "relay_accepts (walk env ! hop env) env (expire_retained_neighbor_maps now fwd)"
      using R Cons.prems(1-3) True by (simp add: relay_accepts_def ready_def Let_def)
    note rec = receive_forwardI [OF this obs]
    note H = hop_hopped [OF Cons.prems(1) True]
    have "length fwds = length (mh_path (hopped env)) - hop (hopped env) + 1"
      using Cons.prems(4) True H(1) by simp
    moreover have "\<forall>j < length fwds. ready now (hopped env) (fwds ! j) (hop (hopped env) + j)"
      unfolding ready_hopped H(1) using Cons.prems(5) by (metis Suc_less_eq add.commute add_Suc_right length_Cons nth_Cons_Suc plus_1_eq_Suc)
    ultimately have "carry now (walk (hopped env) ! hop (hopped env)) (walk (hopped env) ! (hop (hopped env) + 1))
        (envelope_frame (hopped env)) fwds = Some (mh_destination env, mh_source env, mh_opaque_payload env)"
      using Cons.IH [OF H(2)] Cons.prems(2,3) by simp
    then show ?thesis using rec R H by (simp add: ready_def Let_def)
  next
    case False
    then have h: "hop env = length (mh_path env)" using le by simp
    have "destination_accepts (walk env ! hop env) env (expire_retained_neighbor_maps now fwd)"
      using R Cons.prems(1-3) h by (simp add: destination_accepts_def ready_def Let_def)
    then have "receive now (walk env ! hop env) (envelope_frame env) fwd =
        (Inr (Deliver (mh_source env) (mh_opaque_payload env)), fwd')"
      using obs by (auto simp: receive_deliver_iff)
    moreover have "fwds = []" using Cons.prems(4) h by simp
    moreover have "walk env ! (hop env + 1) = mh_destination env"
      using walk_nth_end(2) [OF h] Cons.prems(1) by (simp add: valid_envelope_def)
    ultimately show ?thesis using R by (simp add: ready_def Let_def)
  qed
qed simp

subsection \<open>The invariant of an engine\<close>

definition epochs :: "bounded_overlay_forwarder \<Rightarrow> u64 list" where
  "epochs fwd = nm_topology_epoch (fwd_neighbor_map fwd) # map retained_epoch (fwd_retained_neighbor_maps fwd)"

definition map_ok :: "net_libs \<Rightarrow> bounded_overlay_forwarder \<Rightarrow> neighbor_map \<Rightarrow> node_id list \<Rightarrow> bool" where
  "map_ok libs fwd nm ids \<longleftrightarrow> validate_neighbor_map libs (fwd_local_node fwd) nm = Inr ids"

definition fwd_inv :: "net_libs \<Rightarrow> bounded_overlay_forwarder \<Rightarrow> bool" where
  "fwd_inv libs fwd \<longleftrightarrow>
     rw_inv (fwd_replay_window fwd) \<and>
     length (fwd_retained_neighbor_maps fwd) \<le> MAX_RETAINED_TOPOLOGY_EPOCHS \<and>
     distinct (epochs fwd) \<and>
     map_ok libs fwd (fwd_neighbor_map fwd) (fwd_neighbor_ids fwd) \<and>
     (\<forall>r \<in> set (fwd_retained_neighbor_maps fwd). map_ok libs fwd (rnm_neighbor_map r) (rnm_neighbor_ids r)) \<and>
     (\<forall>key. rw_abs (fwd_replay_window fwd) key \<noteq> None \<longrightarrow> rpk_topology_epoch key \<in> set (epochs fwd))"

lemma pop_front_eq_drop: "pop_front_while_over limit xs = drop (length xs - limit) xs"
  by (induction xs) (auto simp: Suc_diff_le not_less)

lemma fwd_new_inv: "fwd_new libs node nm cfg = Inr fwd \<Longrightarrow> fwd_inv libs fwd"
  by (auto simp: fwd_new_def config_validate_def result_simps fwd_inv_def epochs_def map_ok_def rw_new_inv
      rw_abs_def rw_new_def [unfolded rw_new_def] split: if_splits)
    (simp_all add: rw_new_def)

lemma retain_replay_epochs_inv:
  assumes "rw_inv (fwd_replay_window fwd)"
  shows "rw_inv (fwd_replay_window (retain_replay_epochs fwd))"
    and "rw_abs (fwd_replay_window (retain_replay_epochs fwd)) key \<noteq> None \<Longrightarrow> rpk_topology_epoch key \<in> set (epochs fwd)"
  using retain_epochs_spec [OF assms] by (auto simp: retain_replay_epochs_def epochs_def split: if_splits)

lemma epochs_retain [simp]: "epochs (retain_replay_epochs fwd) = epochs fwd"
  by (simp add: epochs_def)

lemma filter_same_length: "length (filter P xs) = length xs \<Longrightarrow> filter P xs = xs"
  by (metis filter_id_conv filter_True length_filter_less less_irrefl)

lemma expire_inv:
  assumes "fwd_inv libs fwd"
  shows "fwd_inv libs (expire_retained_neighbor_maps now fwd)"
proof -
  let ?P = "\<lambda>r. now < rnm_expires_at r"
  let ?fwd = "fwd\<lparr>fwd_retained_neighbor_maps := filter ?P (fwd_retained_neighbor_maps fwd)\<rparr>"
  note I = assms [unfolded fwd_inv_def]
  show ?thesis
  proof (cases "length (filter ?P (fwd_retained_neighbor_maps fwd)) = length (fwd_retained_neighbor_maps fwd)")
    case True
    then have "expire_retained_neighbor_maps now fwd = fwd"
      using filter_same_length [OF True] by (simp add: expire_retained_neighbor_maps_def Let_def)
    then show ?thesis using assms by simp
  next
    case False
    then have e: "expire_retained_neighbor_maps now fwd = retain_replay_epochs ?fwd"
      by (simp add: expire_retained_neighbor_maps_def Let_def)
    have "distinct (epochs ?fwd)"
      using I by (auto simp: epochs_def distinct_map_filter)
    moreover have "length (filter ?P (fwd_retained_neighbor_maps fwd)) \<le> 8"
      using I by (auto intro: le_trans [OF length_filter_le])
    ultimately show ?thesis
      using I retain_replay_epochs_inv [of ?fwd] unfolding e by (auto simp: fwd_inv_def map_ok_def)
  qed
qed

lemma neighbor_ids_epochs: "neighbor_ids_for_epoch e fwd \<noteq> None \<Longrightarrow> e \<in> set (epochs fwd)"
  by (auto simp: neighbor_ids_for_epoch_def epochs_def find_Some_iff split: if_splits)

lemmas st_then_fwd_inv = st_then_pure [where P = "fwd_inv libs" for libs]

lemma fwd_observe_inv:
  assumes "fwd_inv libs fwd" and "e \<in> set (epochs fwd)"
  shows "fwd_inv libs (snd (fwd_observe e src p s fwd))"
proof -
  note I = assms(1) [unfolded fwd_inv_def]
  have inv: "rw_inv (fwd_replay_window fwd)" using I by simp
  then show ?thesis
  proof (cases rule: observe_cases [of "fwd_replay_window fwd" s e src p])
    case (reject h)
    then show ?thesis using assms(1) by (simp add: fwd_observe_def)
  next
    case (accept a rw')
    have "rpk_topology_epoch key \<in> set (epochs fwd)" if "rw_abs rw' key \<noteq> None" for key
      using accept(6) [of key] that I assms(2) by (cases "key = path_key e src p") auto
    then show ?thesis using accept I by (auto simp: fwd_observe_def fwd_inv_def epochs_def map_ok_def)
  qed
qed

lemma update_neighbor_map_inv:
  assumes "fwd_inv libs fwd"
  shows "fwd_inv libs (snd (update_neighbor_map libs now push_now nm fwd))"
proof (cases "\<exists>ids. validate_neighbor_map libs (fwd_local_node fwd) nm = Inr ids \<and>
    nm_cluster_id nm = nm_cluster_id (fwd_neighbor_map fwd)")
  case False
  then have "snd (update_neighbor_map libs now push_now nm fwd) = fwd"
    by (cases "validate_neighbor_map libs (fwd_local_node fwd) nm") (auto simp: update_neighbor_map_def)
  then show ?thesis using assms by simp
next
  case True
  then obtain ids where ids: "validate_neighbor_map libs (fwd_local_node fwd) nm = Inr ids"
    and c: "nm_cluster_id nm = nm_cluster_id (fwd_neighbor_map fwd)" by blast
  let ?live = "expire_retained_neighbor_maps now fwd"
  note I = expire_inv [OF assms, of now, unfolded fwd_inv_def]
  let ?kept = "filter (\<lambda>r. retained_epoch r \<noteq> nm_topology_epoch (fwd_neighbor_map fwd))
    (filter (\<lambda>r. retained_epoch r \<noteq> nm_topology_epoch nm) (fwd_retained_neighbor_maps ?live))"
  let ?all = "?kept @ [\<lparr>rnm_neighbor_map = fwd_neighbor_map fwd, rnm_neighbor_ids = fwd_neighbor_ids fwd,
    rnm_expires_at = push_now + PREVIOUS_TOPOLOGY_EPOCH_GRACE\<rparr>]"
  let ?new = "?live\<lparr>fwd_neighbor_map := nm, fwd_neighbor_ids := ids,
    fwd_retained_neighbor_maps := pop_front_while_over MAX_RETAINED_TOPOLOGY_EPOCHS ?all\<rparr>"
  show ?thesis
  proof (cases "nm_topology_epoch nm = nm_topology_epoch (fwd_neighbor_map fwd)")
    case True
    then have "snd (update_neighbor_map libs now push_now nm fwd) =
        ?live\<lparr>fwd_neighbor_map := nm, fwd_neighbor_ids := ids\<rparr>"
      using ids c by (simp add: update_neighbor_map_def Let_def)
    then show ?thesis using I ids True by (auto simp: fwd_inv_def epochs_def map_ok_def)
  next
    case False
    then have u: "snd (update_neighbor_map libs now push_now nm fwd) = retain_replay_epochs ?new"
      using ids c by (simp add: update_neighbor_map_def Let_def)
    define all where "all = ?all"
    have "distinct (map retained_epoch all)"
      using I by (auto simp: all_def epochs_def distinct_map_filter)
    moreover have "nm_topology_epoch nm \<notin> set (map retained_epoch all)" using False by (auto simp: all_def)
    ultimately have "distinct (epochs ?new)"
      unfolding all_def [symmetric]
      by (auto simp: epochs_def pop_front_eq_drop simp flip: drop_map dest: in_set_dropD)
    moreover have "\<forall>r \<in> set ?all. map_ok libs fwd (rnm_neighbor_map r) (rnm_neighbor_ids r)"
      using I by (auto simp: map_ok_def)
    ultimately show ?thesis
      unfolding u using retain_replay_epochs_inv [of ?new] I ids
      by (auto simp: fwd_inv_def map_ok_def pop_front_eq_drop dest!: in_set_dropD)
  qed
qed

lemma validate_topology_epoch_then_inv:
  assumes "fwd_inv libs fwd"
    and "\<And>u. \<lbrakk>fwd_inv libs (expire_retained_neighbor_maps now fwd);
        e \<in> set (epochs (expire_retained_neighbor_maps now fwd))\<rbrakk>
      \<Longrightarrow> fwd_inv libs (snd (f u (expire_retained_neighbor_maps now fwd)))"
  shows "fwd_inv libs (snd (st_then (validate_topology_epoch now e fwd) f))"
  using assms expire_inv [OF assms(1), of now] neighbor_ids_epochs [of e "expire_retained_neighbor_maps now fwd"]
  by (auto simp: validate_topology_epoch_def Let_def)

lemma observe_then_inv:
  assumes "fwd_inv libs fwd" and "e \<in> set (epochs fwd)"
  shows "fwd_inv libs (snd (st_then (fwd_observe e src p s fwd) (\<lambda>_ fwd. (Inr action, fwd))))"
  using fwd_observe_inv [OF assms, of src p s]
  by (cases "fwd_observe e src p s fwd") (auto simp: st_then_def split: sum.splits)

lemma deliver_inv:
  assumes "fwd_inv libs fwd" and "e \<in> set (epochs fwd)"
  shows "fwd_inv libs (snd (deliver prev env e fwd))"
  unfolding deliver_def
  by (simp add: assms(1), intro impI st_then_fwd_inv assms(1) observe_then_inv [OF assms])

lemma forward_frame_inv:
  assumes "fwd_inv libs fwd" and "e \<in> set (epochs fwd)"
  shows "fwd_inv libs (snd (forward_frame prev env e fwd))"
  unfolding forward_frame_def Let_def
  using assms by (auto intro!: st_then_fwd_inv observe_then_inv split: prod.split)

lemma receive_inv:
  assumes "fwd_inv libs fwd"
  shows "fwd_inv libs (snd (receive now prev d fwd))"
  unfolding receive_def validate_inbound_topology_epoch_def Let_def
  using assms
  by (auto intro!: st_then_fwd_inv validate_topology_epoch_then_inv deliver_inv forward_frame_inv)

lemma validate_selected_path_then_inv:
  assumes "fwd_inv libs fwd"
    and "\<And>x. \<lbrakk>fwd_inv libs (expire_retained_neighbor_maps now fwd);
        op_topology_epoch path \<in> set (epochs (expire_retained_neighbor_maps now fwd))\<rbrakk>
      \<Longrightarrow> fwd_inv libs (snd (f x (expire_retained_neighbor_maps now fwd)))"
  shows "fwd_inv libs (snd (st_then (validate_selected_path libs' now path sel fwd) f))"
  unfolding validate_selected_path_def st_then_assoc
  apply (intro st_then_fwd_inv assms(1) validate_topology_epoch_then_inv)
  using assms(2) by (auto simp: st_then_def Let_def split: sum.splits)

lemma encapsulate_inv:
  assumes "fwd_inv libs fwd"
  shows "fwd_inv libs (snd (encapsulate_selected libs' now path sel path_id sequence inner fwd))"
  unfolding encapsulate_selected_def Let_def
  using assms
  by (auto intro!: st_then_fwd_inv validate_selected_path_then_inv observe_then_inv)

datatype forwarder_op =
    UpdateMap time time neighbor_map
  | Encapsulate time overlay_path overlay_path_selection bytes u64 bytes
  | Receive time node_id bytes

fun forwarder_step ::
  "net_libs \<Rightarrow> forwarder_op \<Rightarrow> bounded_overlay_forwarder
     \<Rightarrow> (overlay_forwarder_error + overlay_forward_action option) \<times> bounded_overlay_forwarder" where
  "forwarder_step libs (UpdateMap now push_now nm) fwd =
     (let (r, fwd') = update_neighbor_map libs now push_now nm fwd in (map_sum id (\<lambda>_. None) r, fwd'))"
| "forwarder_step libs (Encapsulate now path sel path_id seq inner) fwd =
     (let (r, fwd') = encapsulate_selected libs now path sel path_id seq inner fwd in (map_sum id Some r, fwd'))"
| "forwarder_step libs (Receive now prev d) fwd =
     (let (r, fwd') = receive now prev d fwd in (map_sum id Some r, fwd'))"

lemma forwarder_step_inv: "fwd_inv libs fwd \<Longrightarrow> fwd_inv libs (snd (forwarder_step libs op fwd))"
  by (cases op)
    (auto simp: split_beta update_neighbor_map_inv encapsulate_inv receive_inv)

interpretation forwarder: invariant_system "forwarder_step libs" "fwd_inv libs" for libs
  by unfold_locales (rule forwarder_step_inv)

lemma carry_edges:
  assumes "valid_envelope 1 env" and "length (mh_path_id env) = 16"
    and "carry now (walk env ! hop env) (walk env ! (hop env + 1)) (envelope_frame env) fwds = Some out"
  shows "\<forall>j < length fwds. is_neighbor (walk env ! (hop env + j)) (mh_topology_epoch env)
    (expire_retained_neighbor_maps now (fwds ! j))"
  using assms
proof (induction fwds arbitrary: env)
  case (Cons fwd fwds)
  obtain r fwd' where rec: "receive now (walk env ! hop env) (envelope_frame env) fwd = (r, fwd')" by fastforce
  from Cons.prems(3) rec consider
      (del) src p where "r = Inr (Deliver src p)" "fwds = []"
    | (fw) h d' where "r = Inr (Forward h d')" "carry now (walk env ! (hop env + 1)) h d' fwds = Some out"
    by (auto split: sum.splits overlay_forward_action.splits if_splits)
  then show ?case
  proof cases
    case del
    with rec obtain env' where e: "envelope_frame env = envelope_frame env'"
      "destination_accepts (walk env ! hop env) env' (expire_retained_neighbor_maps now fwd)"
      by (auto simp: receive_deliver_iff)
    then have "env = env'" using Cons.prems by (intro frame_inj) (auto simp: destination_accepts_def)
    then show ?thesis using e(2) del by (auto simp: destination_accepts_def)
  next
    case fw
    with rec receive_forwardD obtain env' where e: "envelope_frame env = envelope_frame env'"
      "relay_accepts (walk env ! hop env) env' (expire_retained_neighbor_maps now fwd)"
      "h = walk env' ! (hop env' + 2)" "d' = envelope_frame (hopped env')" by blast
    then have eq: "env = env'" using Cons.prems by (intro frame_inj) (auto simp: relay_accepts_def)
    then have hl: "hop env < length (mh_path env)" using e(2) by (simp add: relay_accepts_def)
    note H = hop_hopped [OF Cons.prems(1) hl]
    have "\<forall>j < length fwds. is_neighbor (walk (hopped env) ! (hop (hopped env) + j)) (mh_topology_epoch (hopped env))
        (expire_retained_neighbor_maps now (fwds ! j))"
      using Cons.IH [OF H(2)] fw(2) e(3,4) eq H Cons.prems(2) by simp
    then show ?thesis
      using e(2) eq H by (auto simp: relay_accepts_def less_Suc_eq_0_disj)
  qed
qed simp

subsection \<open>Properties\<close>

definition sample_fwd :: "node_id \<Rightarrow> node_record list \<Rightarrow> bounded_overlay_forwarder" where
  "sample_fwd node neighbors =
     \<lparr>fwd_local_node = node, fwd_neighbor_map = sample_map node neighbors,
      fwd_neighbor_ids = map nr_node_id neighbors, fwd_retained_neighbor_maps = [],
      fwd_config = config_default, fwd_replay_window = rw_new 4096\<rparr>"

definition sample_source :: bounded_overlay_forwarder where
  "sample_source = sample_fwd (str ''a'') [sample_node (str ''r'') 0x0a000002]"

definition sample_chain :: "bounded_overlay_forwarder list" where
  "sample_chain =
     [sample_fwd (str ''r'') [sample_node (str ''a'') 0x0a000001, sample_node (str ''z'') 0x0a000009],
      sample_fwd (str ''z'') [sample_node (str ''r'') 0x0a000002]]"

definition sample_frame :: bytes where
  "sample_frame = envelope_frame
     \<lparr>mh_topology_epoch = 7, mh_path_id = replicate 16 3, mh_sequence = 9, mh_hop_index = 0, mh_hop_limit = 1,
      mh_source = str ''a'', mh_destination = str ''z'', mh_path = [str ''r''], mh_opaque_payload = [1, 2, 3]\<rparr>"

definition selected_nodes :: "overlay_path \<Rightarrow> overlay_path_selection \<Rightarrow> node_id list" where
  "selected_nodes path sel =
     (case sel of Primary \<Rightarrow> op_ordered_nodes path | Secondary \<Rightarrow> the (op_secondary_ordered_nodes path))"

lemma envelope_new_fields:
  assumes "envelope_new epoch path_id seq limit source destination path payload = Inr env"
  shows "valid_envelope 1 env" and "mh_topology_epoch env = epoch" and "mh_path_id env = path_id"
    and "mh_opaque_payload env = payload" and "mh_source env = source" and "mh_destination env = destination"
  using assms by (auto simp: envelope_new_ok)

lemma encapsulate_frame:
  assumes "encapsulate_selected libs now path sel path_id seq inner fwd = (Inr (Forward h d), fwd')"
    and "length path_id = 16"
  obtains env where "d = envelope_frame env" and "valid_envelope 1 env" and "mh_path_id env = path_id"
    and "hop env = 0" and "walk env = selected_nodes path sel" and "h = walk env ! 1"
    and "mh_opaque_payload env = inner" and "mh_source env = fwd_local_node fwd"
    and "mh_destination env = nr_node_id (op_target path)" and "mh_topology_epoch env = op_topology_epoch path"
    and "mh_hop_limit env = of_nat (length (mh_path env))" and "encoded_length env = length d"
proof -
  from encapsulate_forwardD [OF assms] obtain env where
    new: "envelope_new (op_topology_epoch path) path_id seq (mh_hop_limit env)
      (fwd_local_node fwd) (nr_node_id (op_target path)) (mh_path env) inner = Inr env"
    and rest: "walk env = selected_nodes path sel" "h = walk env ! 1" "d = envelope_frame env" "hop env = 0"
      "mh_hop_limit env = of_nat (length (mh_path env))" "encoded_length env = length d"
    unfolding selected_nodes_def by metis
  note F = envelope_new_fields [OF new]
  show ?thesis by (rule that [of env]; fact F rest)
qed

text \<open>
  C1. End-to-end integrity: when a datagram that a source has encapsulated over a selected path is
  carried from engine to engine and delivered, then it was delivered by the target of the path, it
  is attributed to the source, its payload is the encapsulated datagram, and the engines it passed
  are exactly the nodes of the selected path in their order.
\<close>

theorem overlay_delivery_integrity:
  assumes "encapsulate_selected libs now path sel path_id seq inner fwd = (Inr (Forward h d), fwd')"
    and "length path_id = MULTIHOP_PATH_ID_BYTES"
    and "carry later (fwd_local_node fwd) h d fwds = Some (node, source, payload)"
  shows "node = nr_node_id (op_target path) \<and> source = fwd_local_node fwd \<and> payload = inner \<and>
    map fwd_local_node fwds = tl (selected_nodes path sel)"
proof -
  from assms(2) have "length path_id = 16" by simp
  from encapsulate_frame [OF assms(1) this] obtain env where env: "d = envelope_frame env"
    "valid_envelope 1 env" "mh_path_id env = path_id" "hop env = 0" "walk env = selected_nodes path sel"
    "h = walk env ! 1" "mh_opaque_payload env = inner" "mh_source env = fwd_local_node fwd"
    "mh_destination env = nr_node_id (op_target path)" by metis
  show ?thesis
    using carry_integrity [OF env(2), of later "fwd_local_node fwd" fwds node source payload] env assms(2,3)
    by (simp add: drop_Suc)
qed

definition sample_encapsulation ::
  "(overlay_forwarder_error + overlay_forward_action) \<times> bounded_overlay_forwarder" where
  "sample_encapsulation =
     encapsulate_selected sample_libs 0 sample_path Primary (replicate 16 3) 9 [1, 2, 3] sample_source"

lemma sample_encapsulates: "fst sample_encapsulation = Inr (Forward (str ''r'') sample_frame)"
  by code_simp

lemma sample_carried:
  "carry 0 (fwd_local_node sample_source) (str ''r'') sample_frame sample_chain =
     Some (str ''z'', str ''a'', [1, 2, 3])"
  by code_simp

theorem overlay_delivery_integrity_witness:
  "str ''z'' = nr_node_id (op_target sample_path) \<and> map fwd_local_node sample_chain = [str ''r'', str ''z'']"
proof -
  obtain fwd' where e: "sample_encapsulation = (Inr (Forward (str ''r'') sample_frame), fwd')"
    using sample_encapsulates by (metis prod.collapse)
  note e = e [unfolded sample_encapsulation_def]
  show ?thesis
    using overlay_delivery_integrity [OF e _ sample_carried] by (simp add: sample_path_def selected_nodes_def)
qed


lemma sample_fwd_simps:
  "expire_retained_neighbor_maps now (sample_fwd node ns) = sample_fwd node ns"
  "is_neighbor x 7 (sample_fwd node ns) \<longleftrightarrow> x \<in> set (map nr_node_id ns)"
  "rw_inv (fwd_replay_window (sample_fwd node ns))"
  "rw_abs (fwd_replay_window (sample_fwd node ns)) key = None"
  "fwd_config (sample_fwd node ns) = config_default"
  "fwd_local_node (sample_fwd node ns) = node"
  by (simp_all add: sample_fwd_def expire_retained_neighbor_maps_def is_neighbor_def neighbor_ids_for_epoch_def
      sample_map_def rw_new_inv) (simp add: rw_abs_def rw_new_def)




text \<open>
  C29. The engine stays bounded and consistent over any sequence of map updates, encapsulations and
  received frames: at most eight previous topology epochs are retained, all epochs it knows are
  pairwise different and belong to validated maps of this node, and the replay table, which keeps
  within its capacity, has entries for known epochs only.
\<close>

theorem forwarder_stays_bounded:
  assumes "fwd_new libs node nm cfg = Inr fwd"
  shows "fwd_inv libs (run (forwarder_step libs) ops fwd) \<and>
    length (fwd_retained_neighbor_maps (run (forwarder_step libs) ops fwd)) \<le> MAX_RETAINED_TOPOLOGY_EPOCHS \<and>
    distinct (epochs (run (forwarder_step libs) ops fwd)) \<and>
    rw_len (fwd_replay_window (run (forwarder_step libs) ops fwd)) \<le>
      rw_capacity (fwd_replay_window (run (forwarder_step libs) ops fwd))"
  using forwarder.inv_run [OF fwd_new_inv [OF assms], of ops]
  by (auto simp: fwd_inv_def rw_inv_def rw_len_def)

theorem forwarder_stays_bounded_witness:
  "fwd_inv sample_libs (run (forwarder_step sample_libs) [Receive 0 (str ''r'') [], Receive 5 (str ''q'') [1]]
     (sample_fwd (str ''a'') [sample_node (str ''r'') 0x0a000002, sample_node (str ''s'') 0x0a000003]))"
proof -
  have "fwd_new sample_libs (str ''a'')
      (sample_map (str ''a'') [sample_node (str ''r'') 0x0a000002, sample_node (str ''s'') 0x0a000003]) config_default =
    Inr (sample_fwd (str ''a'') [sample_node (str ''r'') 0x0a000002, sample_node (str ''s'') 0x0a000003])"
    using sample_map_valid
    by (simp add: fwd_new_def config_validate_def config_default_def validate_neighbor_map_def sample_fwd_def)
      (simp add: sample_map_def)
  from forwarder_stays_bounded [OF this] show ?thesis by blast
qed

end
