(* ===== verification/Fragments.thy ===== *)
theory Fragments
  imports Containers Systems Net Multihop
begin

text \<open>
  Hop transport of overlay frames (\<open>crates/ipars-agent/src/overlay_transit.rs\<close>): the directory of
  neighbour endpoints, the splitting of a frame that exceeds the transit datagram size, and the
  reassembler with its bounds on pending frames and reserved bytes. The digest function of the
  \<open>sha2\<close> crate is a parameter of the definitions that use it; the socket itself is not modelled.

  \<open>push\<close> computes the expected length of the last fragment before it has compared the fragment count
  with the one the frame length requires. The subtraction can be negative there. What happens then
  depends on the build: the parameter \<open>overflow_checks\<close> selects between a panic and wrap-around.
\<close>

subsection \<open>Constants\<close>

definition MAX_OVERLAY_TRANSIT_DATAGRAM_BYTES :: nat where [simp]: "MAX_OVERLAY_TRANSIT_DATAGRAM_BYTES = 1024"
definition OVERLAY_FRAGMENT_MAGIC :: bytes where "OVERLAY_FRAGMENT_MAGIC = str ''IPARS-FG''"
definition OVERLAY_FRAGMENT_VERSION :: u8 where [simp]: "OVERLAY_FRAGMENT_VERSION = 1"
definition OVERLAY_FRAGMENT_DIGEST_BYTES :: nat where [simp]: "OVERLAY_FRAGMENT_DIGEST_BYTES = 16"
definition OVERLAY_FRAGMENT_HEADER_BYTES :: nat where
  [simp]: "OVERLAY_FRAGMENT_HEADER_BYTES = 8 + 1 + 1 + 2 + 2 + 4 + 16"
definition OVERLAY_FRAGMENT_PAYLOAD_BYTES :: nat where
  [simp]: "OVERLAY_FRAGMENT_PAYLOAD_BYTES = MAX_OVERLAY_TRANSIT_DATAGRAM_BYTES - OVERLAY_FRAGMENT_HEADER_BYTES"
definition MAX_PENDING_FRAGMENTED_FRAMES :: nat where [simp]: "MAX_PENDING_FRAGMENTED_FRAMES = 256"
definition MAX_PENDING_FRAGMENTED_FRAME_BYTES :: nat where
  [simp]: "MAX_PENDING_FRAGMENTED_FRAME_BYTES = MAX_PENDING_FRAGMENTED_FRAMES * MAX_MULTIHOP_FRAME_BYTES"
definition OVERLAY_FRAGMENT_REASSEMBLY_TIMEOUT :: time where
  [simp]: "OVERLAY_FRAGMENT_REASSEMBLY_TIMEOUT = 5 * 1000000000"

lemma length_fragment_magic [simp]: "length OVERLAY_FRAGMENT_MAGIC = 8"
  by (simp add: OVERLAY_FRAGMENT_MAGIC_def)

subsection \<open>The endpoint directory\<close>

record overlay_neighbor_endpoint =
  one_node_id :: node_id
  one_vpn_ip :: ip_addr
  one_udp_endpoint :: socket_addr

record endpoint_indexes =
  ei_by_node :: "(node_id, socket_addr) amap"
  ei_by_endpoint :: "(socket_addr, node_id) amap"

datatype overlay_transit_error =
    InvalidEndpoint node_id
  | DuplicateNeighbor node_id
  | DuplicateEndpointError socket_addr node_id node_id

definition validate_endpoint :: "overlay_neighbor_endpoint \<Rightarrow> overlay_transit_error + unit" where
  "validate_endpoint endpoint =
     (if sa_port (one_udp_endpoint endpoint) = 0 then Inl (InvalidEndpoint (one_node_id endpoint))
      else if sa_ip (one_udp_endpoint endpoint) \<noteq> one_vpn_ip endpoint then Inl (InvalidEndpoint (one_node_id endpoint))
      else if is_unspecified (one_vpn_ip endpoint) \<or> is_multicast (one_vpn_ip endpoint)
      then Inl (InvalidEndpoint (one_node_id endpoint))
      else Inr ())"

fun build_indexes ::
  "endpoint_indexes \<Rightarrow> overlay_neighbor_endpoint list \<Rightarrow> overlay_transit_error + endpoint_indexes" where
  "build_indexes replacement [] = Inr replacement"
| "build_indexes replacement (endpoint # endpoints) =
     and_then (validate_endpoint endpoint) (\<lambda>_.
       if am_get (ei_by_node replacement) (one_node_id endpoint) \<noteq> None
       then Inl (DuplicateNeighbor (one_node_id endpoint))
       else case am_get (ei_by_endpoint replacement) (one_udp_endpoint endpoint) of
           Some existing \<Rightarrow>
             Inl (DuplicateEndpointError (one_udp_endpoint endpoint) existing (one_node_id endpoint))
         | None \<Rightarrow>
             build_indexes
               \<lparr>ei_by_node = bm_insert (one_node_id endpoint) (one_udp_endpoint endpoint) (ei_by_node replacement),
                ei_by_endpoint = hm_insert (one_udp_endpoint endpoint) (one_node_id endpoint) (ei_by_endpoint replacement)\<rparr>
               endpoints)"

definition empty_indexes :: endpoint_indexes where
  "empty_indexes = \<lparr>ei_by_node = [], ei_by_endpoint = []\<rparr>"

definition directory_replace ::
  "overlay_neighbor_endpoint list \<Rightarrow> endpoint_indexes \<Rightarrow> (overlay_transit_error + unit) \<times> endpoint_indexes" where
  "directory_replace endpoints indexes =
     (case build_indexes empty_indexes endpoints of
        Inl e \<Rightarrow> (Inl e, indexes)
      | Inr replacement \<Rightarrow> (Inr (), replacement))"

definition directory_new :: "overlay_neighbor_endpoint list \<Rightarrow> overlay_transit_error + endpoint_indexes" where
  "directory_new endpoints =
     (let (r, directory) = directory_replace endpoints empty_indexes in and_then r (\<lambda>_. Inr directory))"

definition endpoint_for :: "endpoint_indexes \<Rightarrow> node_id \<Rightarrow> socket_addr option" where
  "endpoint_for indexes neighbor = am_get (ei_by_node indexes) neighbor"

definition neighbor_for_endpoint :: "endpoint_indexes \<Rightarrow> socket_addr \<Rightarrow> node_id option" where
  "neighbor_for_endpoint indexes endpoint = am_get (ei_by_endpoint indexes) endpoint"

definition indexes_ok :: "endpoint_indexes \<Rightarrow> bool" where
  "indexes_ok indexes \<longleftrightarrow>
     bm_wf (ei_by_node indexes) \<and> hm_wf (ei_by_endpoint indexes) \<and>
     (\<forall>node endpoint. am_get (ei_by_node indexes) node = Some endpoint \<longleftrightarrow>
        am_get (ei_by_endpoint indexes) endpoint = Some node)"

lemma build_indexes_ok:
  "indexes_ok indexes \<Longrightarrow> build_indexes indexes endpoints = Inr indexes' \<Longrightarrow> indexes_ok indexes'"
proof (induction endpoints arbitrary: indexes)
  case (Cons e es)
  let ?next = "\<lparr>ei_by_node = bm_insert (one_node_id e) (one_udp_endpoint e) (ei_by_node indexes),
    ei_by_endpoint = hm_insert (one_udp_endpoint e) (one_node_id e) (ei_by_endpoint indexes)\<rparr>"
  from Cons.prems(2) have fresh: "am_get (ei_by_node indexes) (one_node_id e) = None"
    "am_get (ei_by_endpoint indexes) (one_udp_endpoint e) = None"
    and rest: "build_indexes ?next es = Inr indexes'"
    by (auto simp: result_simps split: if_splits option.splits)
  have "indexes_ok ?next"
    using Cons.prems(1) fresh
    by (auto simp: indexes_ok_def bm_wf_insert hm_wf_insert bm_get_insert hm_get_insert)
      (metis option.distinct(1))
  then show ?case using Cons.IH rest by blast
qed simp

lemma empty_indexes_ok: "indexes_ok empty_indexes"
  by (simp add: indexes_ok_def empty_indexes_def bm_wf_def hm_wf_def)

lemma directory_replace_ok: "indexes_ok indexes \<Longrightarrow> indexes_ok (snd (directory_replace endpoints indexes))"
  using build_indexes_ok [OF empty_indexes_ok, of endpoints]
  by (auto simp: directory_replace_def split: sum.splits)

interpretation directory: invariant_system directory_replace indexes_ok
  by unfold_locales (rule directory_replace_ok)

subsection \<open>Splitting a frame\<close>

text \<open>\<open>slice::chunks\<close>, for a positive chunk size.\<close>

function chunks :: "nat \<Rightarrow> 'a list \<Rightarrow> 'a list list" where
  "chunks n xs = (if xs = [] \<or> n = 0 then [] else take n xs # chunks n (drop n xs))"
  by pat_completeness auto

termination chunks
  by (relation "measure (\<lambda>(n, xs). length xs)") auto

declare chunks.simps [simp del]

definition div_ceil :: "nat \<Rightarrow> nat \<Rightarrow> nat" where
  "div_ceil a b = (a + b - 1) div b"

definition overlay_fragment_digest :: "(bytes \<Rightarrow> bytes) \<Rightarrow> bytes \<Rightarrow> bytes" where
  "overlay_fragment_digest sha256 frame = take OVERLAY_FRAGMENT_DIGEST_BYTES (sha256 frame)"

definition encode_overlay_fragment :: "u16 \<Rightarrow> u16 \<Rightarrow> u32 \<Rightarrow> bytes \<Rightarrow> bytes \<Rightarrow> bytes" where
  "encode_overlay_fragment index count frame_len digest payload =
     OVERLAY_FRAGMENT_MAGIC @ OVERLAY_FRAGMENT_VERSION # 0 #
     to_be_bytes index @ to_be_bytes count @ to_be_bytes frame_len @ digest @ payload"

text \<open>The datagrams that \<open>send_frame\<close> hands to the socket, or \<open>None\<close> for an unrepresentable frame.\<close>

definition send_frame_datagrams :: "(bytes \<Rightarrow> bytes) \<Rightarrow> bytes \<Rightarrow> bytes list option" where
  "send_frame_datagrams sha256 frame =
     (if length frame \<le> MAX_OVERLAY_TRANSIT_DATAGRAM_BYTES then Some [frame]
      else
        let fragment_count = div_ceil (length frame) OVERLAY_FRAGMENT_PAYLOAD_BYTES in
        if fragment_count \<ge> 2 ^ 16 \<or> length frame \<ge> 2 ^ 32 then None
        else
          let digest = overlay_fragment_digest sha256 frame in
          Some (map (\<lambda>(index, chunk).
              encode_overlay_fragment (of_nat index) (of_nat fragment_count) (of_nat (length frame)) digest chunk)
            (enumerate 0 (chunks OVERLAY_FRAGMENT_PAYLOAD_BYTES frame))))"

subsection \<open>The reassembler\<close>

record overlay_fragment_key =
  ofk_source :: socket_addr
  ofk_digest :: bytes

record pending_overlay_frame =
  pof_expires_at :: time
  pof_frame_len :: nat
  pof_fragment_count :: nat
  pof_received_count :: nat
  pof_fragments :: "bytes option list"

record overlay_fragment_reassembler =
  ofr_pending :: "(overlay_fragment_key, pending_overlay_frame) amap"
  ofr_reserved_bytes :: nat

datatype push_error = Rejected | ArithmeticPanic

definition ofr_default :: overlay_fragment_reassembler where
  "ofr_default = \<lparr>ofr_pending = [], ofr_reserved_bytes = 0\<rparr>"

definition ofr_remove ::
  "overlay_fragment_key \<Rightarrow> overlay_fragment_reassembler \<Rightarrow> overlay_fragment_reassembler" where
  "ofr_remove key ra =
     (case am_get (ofr_pending ra) key of
        None \<Rightarrow> ra
      | Some frame \<Rightarrow>
          \<lparr>ofr_pending = am_remove key (ofr_pending ra),
           ofr_reserved_bytes = ofr_reserved_bytes ra - pof_frame_len frame\<rparr>)"

definition prune_expired :: "time \<Rightarrow> overlay_fragment_reassembler \<Rightarrow> overlay_fragment_reassembler" where
  "prune_expired now ra =
     (let expired = map fst (filter (\<lambda>(key, frame). pof_expires_at frame \<le> now) (ofr_pending ra))
      in fold ofr_remove expired ra)"

text \<open>A fragment header as \<open>push\<close> reads it: index, count, frame length, digest, payload.\<close>

definition parse_fragment :: "bytes \<Rightarrow> (nat \<times> nat \<times> nat \<times> bytes \<times> bytes) option" where
  "parse_fragment datagram =
     (if length datagram \<le> OVERLAY_FRAGMENT_HEADER_BYTES \<or>
         length datagram > MAX_OVERLAY_TRANSIT_DATAGRAM_BYTES \<or>
         take (length OVERLAY_FRAGMENT_MAGIC) datagram \<noteq> OVERLAY_FRAGMENT_MAGIC \<or>
         datagram ! 8 \<noteq> OVERLAY_FRAGMENT_VERSION \<or> datagram ! 9 \<noteq> 0
      then None
      else Some
        (unat (from_be_bytes (take 2 (drop 10 datagram)) :: u16),
         unat (from_be_bytes (take 2 (drop 12 datagram)) :: u16),
         unat (from_be_bytes (take 4 (drop 14 datagram)) :: u32),
         take 16 (drop 18 datagram), drop 34 datagram))"

text \<open>
  \<open>frame_len - PAYLOAD * (count - 1)\<close> on 64-bit unsigned integers: the second operand may exceed the
  first.
\<close>

definition usize_sub :: "bool \<Rightarrow> nat \<Rightarrow> nat \<Rightarrow> push_error + nat" where
  "usize_sub overflow_checks a b =
     (if b \<le> a then Inr (a - b)
      else if overflow_checks then Inl ArithmeticPanic
      else Inr (2 ^ 64 + a - b))"

definition fresh_frame :: "time \<Rightarrow> nat \<Rightarrow> nat \<Rightarrow> pending_overlay_frame" where
  "fresh_frame now frame_len fragment_count =
     \<lparr>pof_expires_at = now + OVERLAY_FRAGMENT_REASSEMBLY_TIMEOUT, pof_frame_len = frame_len,
      pof_fragment_count = fragment_count, pof_received_count = 0,
      pof_fragments = replicate fragment_count None\<rparr>"

text \<open>The part of \<open>push\<close> after the pending frame of the key has been found or created.\<close>

definition store_fragment ::
  "(bytes \<Rightarrow> bytes) \<Rightarrow> overlay_fragment_key \<Rightarrow> nat \<Rightarrow> nat \<Rightarrow> nat \<Rightarrow> bytes \<Rightarrow> overlay_fragment_reassembler
     \<Rightarrow> (push_error + bytes option) \<times> overlay_fragment_reassembler" where
  "store_fragment sha256 key index fragment_count frame_len payload ra =
     (case am_get (ofr_pending ra) key of
        None \<Rightarrow> (Inl Rejected, ra)
      | Some frame \<Rightarrow>
          if pof_frame_len frame \<noteq> frame_len \<or> pof_fragment_count frame \<noteq> fragment_count
          then (Inl Rejected, ofr_remove key ra)
          else case pof_fragments frame ! index of
              Some existing \<Rightarrow> if existing = payload then (Inr None, ra) else (Inl Rejected, ofr_remove key ra)
            | None \<Rightarrow>
                let frame = frame\<lparr>pof_fragments := (pof_fragments frame)[index := Some payload],
                      pof_received_count := pof_received_count frame + 1\<rparr>;
                    ra = ra\<lparr>ofr_pending := hm_insert key frame (ofr_pending ra)\<rparr>
                in if pof_received_count frame \<noteq> fragment_count then (Inr None, ra)
                   else
                     let ra = ofr_remove key ra in
                     if list_ex (\<lambda>f. f = None) (pof_fragments frame) then (Inl Rejected, ra)
                     else
                       let reassembled = concat (map the (pof_fragments frame)) in
                       if length reassembled \<noteq> pof_frame_len frame \<or>
                          overlay_fragment_digest sha256 reassembled \<noteq> ofk_digest key
                       then (Inl Rejected, ra) else (Inr (Some reassembled), ra))"

definition push ::
  "bool \<Rightarrow> (bytes \<Rightarrow> bytes) \<Rightarrow> socket_addr \<Rightarrow> bytes \<Rightarrow> time \<Rightarrow> overlay_fragment_reassembler
     \<Rightarrow> (push_error + bytes option) \<times> overlay_fragment_reassembler" where
  "push overflow_checks sha256 source datagram now ra =
     (let ra = prune_expired now ra in
      case parse_fragment datagram of
        None \<Rightarrow> (Inl Rejected, ra)
      | Some (index, fragment_count, frame_len, digest, payload) \<Rightarrow>
          if frame_len \<le> MAX_OVERLAY_TRANSIT_DATAGRAM_BYTES \<or> frame_len > MAX_MULTIHOP_FRAME_BYTES \<or>
             fragment_count < 2 \<or> index \<ge> fragment_count
          then (Inl Rejected, ra)
          else
            let expected_count = div_ceil frame_len OVERLAY_FRAGMENT_PAYLOAD_BYTES in
            st_then (if index + 1 = fragment_count
                then usize_sub overflow_checks frame_len (OVERLAY_FRAGMENT_PAYLOAD_BYTES * (fragment_count - 1))
                else Inr OVERLAY_FRAGMENT_PAYLOAD_BYTES, ra) (\<lambda>expected_payload_len ra.
            if fragment_count \<noteq> expected_count \<or> length payload \<noteq> expected_payload_len
            then (Inl Rejected, ra)
            else
              let key = \<lparr>ofk_source = source, ofk_digest = digest\<rparr> in
              if am_get (ofr_pending ra) key = None \<and>
                 (length (ofr_pending ra) \<ge> MAX_PENDING_FRAGMENTED_FRAMES \<or>
                  ofr_reserved_bytes ra + frame_len > MAX_PENDING_FRAGMENTED_FRAME_BYTES)
              then (Inl Rejected, ra)
              else
                let ra = (if am_get (ofr_pending ra) key = None
                    then \<lparr>ofr_pending = hm_insert key (fresh_frame now frame_len fragment_count) (ofr_pending ra),
                          ofr_reserved_bytes = ofr_reserved_bytes ra + frame_len\<rparr>
                    else ra)
                in store_fragment sha256 key index fragment_count frame_len payload ra))"

subsection \<open>The invariant of the reassembler\<close>

definition fragment_len :: "nat \<Rightarrow> nat \<Rightarrow> nat" where
  "fragment_len frame_len i =
     (if i + 1 = div_ceil frame_len 990 then frame_len - 990 * (div_ceil frame_len 990 - 1) else 990)"

definition frame_ok :: "pending_overlay_frame \<Rightarrow> bool" where
  "frame_ok frame \<longleftrightarrow>
     1024 < pof_frame_len frame \<and> pof_frame_len frame \<le> 65507 \<and>
     pof_fragment_count frame = div_ceil (pof_frame_len frame) 990 \<and>
     length (pof_fragments frame) = pof_fragment_count frame \<and>
     pof_received_count frame = length (filter (\<lambda>f. f \<noteq> None) (pof_fragments frame)) \<and>
     pof_received_count frame < pof_fragment_count frame \<and>
     (\<forall>i < pof_fragment_count frame. \<forall>p. pof_fragments frame ! i = Some p \<longrightarrow>
        length p = fragment_len (pof_frame_len frame) i)"

definition pending_bytes :: "(overlay_fragment_key, pending_overlay_frame) amap \<Rightarrow> nat" where
  "pending_bytes pending = sum_list (map (\<lambda>e. pof_frame_len (snd e)) pending)"

definition ofr_inv :: "overlay_fragment_reassembler \<Rightarrow> bool" where
  "ofr_inv ra \<longleftrightarrow>
     hm_wf (ofr_pending ra) \<and> length (ofr_pending ra) \<le> MAX_PENDING_FRAGMENTED_FRAMES \<and>
     ofr_reserved_bytes ra = pending_bytes (ofr_pending ra) \<and>
     (\<forall>key frame. am_get (ofr_pending ra) key = Some frame \<longrightarrow> frame_ok frame)"

lemma ofr_inv_wf: "ofr_inv ra \<Longrightarrow> hm_wf (ofr_pending ra)"
  by (simp add: ofr_inv_def)

lemma ofr_default_inv: "ofr_inv ofr_default"
  by (simp add: ofr_inv_def ofr_default_def hm_wf_def pending_bytes_def)

lemma ofr_remove_pending: "hm_wf (ofr_pending ra) \<Longrightarrow> am_get (ofr_pending (ofr_remove key ra)) = (am_get (ofr_pending ra))(key := None)"
  by (auto simp: ofr_remove_def hm.get_remove split: option.splits)

lemma ofr_remove_inv: "ofr_inv ra \<Longrightarrow> ofr_inv (ofr_remove key ra)"
proof (cases "am_get (ofr_pending ra) key")
  case (Some frame)
  assume inv: "ofr_inv ra"
  then have wf: "hm_wf (ofr_pending ra)" by (simp add: ofr_inv_def)
  have "pending_bytes (ofr_pending ra) = pof_frame_len frame + pending_bytes (am_remove key (ofr_pending ra))"
    using hm.sum_remove [OF wf Some, of "\<lambda>e. pof_frame_len (snd e)"] by (simp add: pending_bytes_def)
  then show ?thesis
    using inv Some by (auto simp: ofr_remove_def ofr_inv_def hm.wf_remove hm.length_remove hm.get_remove)
qed (simp add: ofr_remove_def)

lemma fold_remove_inv: "ofr_inv ra \<Longrightarrow> ofr_inv (fold ofr_remove keys ra)"
  by (induction keys arbitrary: ra) (simp_all add: ofr_remove_inv)

lemma fold_remove_pending:
  "ofr_inv ra \<Longrightarrow> am_get (ofr_pending (fold ofr_remove keys ra)) key =
     (if key \<in> set keys then None else am_get (ofr_pending ra) key)"
  by (induction keys arbitrary: ra) (auto simp: ofr_remove_inv ofr_remove_pending [OF ofr_inv_wf])

lemma prune_expired_inv: "ofr_inv ra \<Longrightarrow> ofr_inv (prune_expired now ra)"
  by (simp add: prune_expired_def fold_remove_inv)

lemma prune_expired_pending:
  assumes "ofr_inv ra"
  shows "am_get (ofr_pending (prune_expired now ra)) key =
    Option.bind (am_get (ofr_pending ra) key) (\<lambda>frame. if pof_expires_at frame \<le> now then None else Some frame)"
proof -
  have wf: "hm_wf (ofr_pending ra)" using assms by (simp add: ofr_inv_def)
  let ?expired = "map fst (filter (\<lambda>(key, frame). pof_expires_at frame \<le> now) (ofr_pending ra))"
  have "key \<in> set ?expired \<longleftrightarrow> (\<exists>frame. am_get (ofr_pending ra) key = Some frame \<and> pof_expires_at frame \<le> now)"
    by (force simp: hm.in_entries [OF wf, symmetric])
  then show ?thesis
    unfolding prune_expired_def Let_def fold_remove_pending [OF assms]
    by (auto simp: bind_eq_None_conv split: option.splits) (cases "am_get (ofr_pending ra) key"; auto)
qed

lemma ofr_insert_inv:
  assumes "ofr_inv ra" and "am_get (ofr_pending ra) key = Some frame" and "frame_ok frame'"
    and "pof_frame_len frame' = pof_frame_len frame"
  shows "ofr_inv (ra\<lparr>ofr_pending := hm_insert key frame' (ofr_pending ra)\<rparr>)"
proof -
  have wf: "hm_wf (ofr_pending ra)" using assms(1) by (simp add: ofr_inv_def)
  have "pending_bytes (hm_insert key frame' (ofr_pending ra)) = pending_bytes (ofr_pending ra)"
    using hm.sum_put_same [OF wf assms(2), of "\<lambda>e. pof_frame_len (snd e)" frame'] assms(4)
    by (simp add: pending_bytes_def)
  then show ?thesis
    using assms by (auto simp: ofr_inv_def hm_wf_insert hm.length_put hm_get_insert)
qed

lemma div_ceil_ge2: "1024 < n \<Longrightarrow> 2 \<le> div_ceil n 990"
proof -
  assume "1024 < n"
  then have "1980 div 990 \<le> (n + 989) div 990" by (intro div_le_mono) simp
  then show ?thesis by (simp add: div_ceil_def)
qed

lemma fresh_frame_ok: "1024 < n \<Longrightarrow> n \<le> 65507 \<Longrightarrow> frame_ok (fresh_frame now n (div_ceil n 990))"
  using div_ceil_ge2 [of n] by (simp add: frame_ok_def fresh_frame_def filter_replicate)

lemma ofr_open_inv:
  assumes "ofr_inv ra" and "am_get (ofr_pending ra) key = None" and "length (ofr_pending ra) < 256"
    and "1024 < n" "n \<le> 65507"
  shows "ofr_inv \<lparr>ofr_pending = hm_insert key (fresh_frame now n (div_ceil n 990)) (ofr_pending ra),
    ofr_reserved_bytes = ofr_reserved_bytes ra + n\<rparr>"
proof -
  have wf: "hm_wf (ofr_pending ra)" using assms(1) by (simp add: ofr_inv_def)
  have "pending_bytes (hm_insert key (fresh_frame now n (div_ceil n 990)) (ofr_pending ra)) =
      n + pending_bytes (ofr_pending ra)"
    using hm.sum_put_new [OF wf assms(2), of "\<lambda>e. pof_frame_len (snd e)"]
    by (simp add: pending_bytes_def fresh_frame_def)
  then show ?thesis
    using assms by (auto simp: ofr_inv_def hm_wf_insert hm.length_put hm_get_insert fresh_frame_ok)
qed

lemma count_some_update:
  "i < length xs \<Longrightarrow> xs ! i = None \<Longrightarrow>
     length (filter (\<lambda>f. f \<noteq> None) (xs[i := Some p])) = Suc (length (filter (\<lambda>f. f \<noteq> None) xs))"
  by (induction xs arbitrary: i) (auto split: nat.splits)

lemma count_some_full: "length (filter (\<lambda>f. f \<noteq> None) xs) = length xs \<longleftrightarrow> \<not> list_ex (\<lambda>f. f = None) xs"
proof (cases "None \<in> set xs")
  case True
  then show ?thesis using length_filter_less [of None xs "\<lambda>f. f \<noteq> None"] by (auto simp: list_ex_iff)
next
  case False
  then have "filter (\<lambda>f. f \<noteq> None) xs = xs" by (intro filter_True ballI) metis
  then show ?thesis using False by (auto simp: list_ex_iff simp del: not_None_eq)
qed

text \<open>The frame after one more fragment.\<close>

abbreviation add_fragment :: "nat \<Rightarrow> bytes \<Rightarrow> pending_overlay_frame \<Rightarrow> pending_overlay_frame" where
  "add_fragment index payload frame \<equiv>
     frame\<lparr>pof_fragments := (pof_fragments frame)[index := Some payload],
       pof_received_count := pof_received_count frame + 1\<rparr>"

lemma add_fragment_ok:
  assumes "frame_ok frame" and "index < pof_fragment_count frame" and "pof_fragments frame ! index = None"
    and "length payload = fragment_len (pof_frame_len frame) index"
    and "pof_received_count frame + 1 \<noteq> pof_fragment_count frame"
  shows "frame_ok (add_fragment index payload frame)"
  using assms count_some_update [of index "pof_fragments frame" payload]
  by (auto simp: frame_ok_def nth_list_update split: if_splits)

lemma store_fragment_inv:
  assumes inv: "ofr_inv ra" and "index < fragment_count"
    and "fragment_count = div_ceil frame_len 990" and "length payload = fragment_len frame_len index"
  shows "ofr_inv (snd (store_fragment sha256 key index fragment_count frame_len payload ra))"
proof (cases "am_get (ofr_pending ra) key")
  case (Some frame)
  have ok: "frame_ok frame" using inv Some by (simp add: ofr_inv_def)
  show ?thesis
  proof (cases "pof_frame_len frame = frame_len \<and> pof_fragment_count frame = fragment_count \<and>
      pof_fragments frame ! index = None")
    case False
    then show ?thesis
      using inv Some ofr_remove_inv [OF inv, of key]
      by (auto simp: store_fragment_def split: option.splits)
  next
    case True
    let ?frame = "add_fragment index payload frame"
    let ?ra = "ra\<lparr>ofr_pending := hm_insert key ?frame (ofr_pending ra)\<rparr>"
    have get: "am_get (ofr_pending ?ra) key = Some ?frame" by (simp add: hm_get_insert)
    show ?thesis
    proof (cases "pof_received_count frame + 1 = fragment_count")
      case full: True
      have "ofr_remove key ?ra = ofr_remove key ra"
        using Some hm_insert_remove [of key ?frame "ofr_pending ra"] get
        by (simp add: ofr_remove_def)
      then show ?thesis
        using Some True full ofr_remove_inv [OF inv, of key]
        by (simp add: store_fragment_def Let_def)
    next
      case part: False
      have "frame_ok ?frame" using add_fragment_ok [OF ok] True part assms by simp
      then have "ofr_inv ?ra" using ofr_insert_inv [OF inv Some, of ?frame] by simp
      then show ?thesis using Some True part by (simp add: store_fragment_def Let_def)
    qed
  qed
qed (use inv in \<open>simp add: store_fragment_def\<close>)

lemma div_ceil_bounds:
  assumes "0 < n"
  shows "990 * (div_ceil n 990 - 1) < n" and "n \<le> 990 * div_ceil n 990" and "0 < div_ceil n 990"
proof -
  define q where "q = div_ceil n 990"
  have "q * 990 \<le> n + 989" "n + 989 < (q + 1) * 990"
    unfolding q_def div_ceil_def by (simp_all add: dividend_less_times_div mult.commute)
  then show "990 * (div_ceil n 990 - 1) < n" "n \<le> 990 * div_ceil n 990" "0 < div_ceil n 990"
    using assms unfolding q_def [symmetric] by (simp_all add: algebra_simps)
qed

lemma expected_len:
  assumes "1024 < frame_len" and "index < div_ceil frame_len 990"
  shows "(if index + 1 = div_ceil frame_len 990
      then usize_sub oc frame_len (990 * (div_ceil frame_len 990 - 1)) else Inr 990) =
    Inr (fragment_len frame_len index)"
  using div_ceil_bounds(1) [of frame_len] assms by (simp add: usize_sub_def fragment_len_def)

text \<open>What \<open>push\<close> does with a well-formed fragment: it stores it in the frame of its key.\<close>

definition open_frame ::
  "overlay_fragment_key \<Rightarrow> time \<Rightarrow> nat \<Rightarrow> overlay_fragment_reassembler \<Rightarrow> overlay_fragment_reassembler" where
  "open_frame key now frame_len ra =
     (if am_get (ofr_pending ra) key = None
      then \<lparr>ofr_pending = hm_insert key (fresh_frame now frame_len (div_ceil frame_len 990)) (ofr_pending ra),
            ofr_reserved_bytes = ofr_reserved_bytes ra + frame_len\<rparr>
      else ra)"

definition no_room :: "overlay_fragment_key \<Rightarrow> nat \<Rightarrow> overlay_fragment_reassembler \<Rightarrow> bool" where
  "no_room key frame_len ra \<longleftrightarrow>
     am_get (ofr_pending ra) key = None \<and>
     (256 \<le> length (ofr_pending ra) \<or> 256 * 65507 < ofr_reserved_bytes ra + frame_len)"

definition good_header :: "nat \<Rightarrow> nat \<Rightarrow> nat \<Rightarrow> nat \<Rightarrow> bool" where
  "good_header index count frame_len payload_len \<longleftrightarrow>
     1024 < frame_len \<and> frame_len \<le> 65507 \<and> count = div_ceil frame_len 990 \<and> index < count \<and>
     payload_len = fragment_len frame_len index"

lemma push_good:
  assumes "parse_fragment d = Some (index, count, frame_len, digest, payload)"
    and "good_header index count frame_len (length payload)"
  shows "push oc sha256 source d now ra =
    (let ra = prune_expired now ra; key = \<lparr>ofk_source = source, ofk_digest = digest\<rparr> in
     if no_room key frame_len ra then (Inl Rejected, ra)
     else store_fragment sha256 key index count frame_len payload (open_frame key now frame_len ra))"
proof -
  from assms(2) have g: "1024 < frame_len" "frame_len \<le> 65507" and c2: "count = div_ceil frame_len 990"
    and i: "index < div_ceil frame_len 990" and l: "length payload = fragment_len frame_len index"
    by (auto simp: good_header_def)
  have c: "\<not> (frame_len \<le> 1024 \<or> 65507 < frame_len \<or> count < 2 \<or> count \<le> index)" "count = div_ceil frame_len 990"
    using g i c2 div_ceil_ge2 [of frame_len] by auto
  have e: "(if index + 1 = count then usize_sub oc frame_len (990 * (count - 1)) else Inr 990) = Inr (length payload)"
    unfolding l c2 by (rule expected_len [OF g(1) i])
  have n: "OVERLAY_FRAGMENT_PAYLOAD_BYTES = 990" "MAX_OVERLAY_TRANSIT_DATAGRAM_BYTES = 1024"
    "MAX_MULTIHOP_FRAME_BYTES = 65507" "MAX_PENDING_FRAGMENTED_FRAMES = 256"
    "MAX_PENDING_FRAGMENTED_FRAME_BYTES = 256 * 65507" by simp_all
  show ?thesis
    unfolding push_def Let_def assms(1) option.case prod.case n e no_room_def open_frame_def
    by (simp only: c(1) if_False st_then_simps simp_thms c(2) [symmetric])
qed

lemma push_bad:
  assumes "parse_fragment d = None \<or>
    (\<exists>index count frame_len digest payload. parse_fragment d = Some (index, count, frame_len, digest, payload) \<and>
       \<not> good_header index count frame_len (length payload))"
  shows "(\<exists>e. push oc sha256 source d now ra = (Inl e, prune_expired now ra) \<and> (oc = False \<longrightarrow> e = Rejected))"
proof (cases "parse_fragment d")
  case (Some f)
  then obtain index count frame_len digest payload where f: "f = (index, count, frame_len, digest, payload)"
    and bad: "\<not> good_header index count frame_len (length payload)" using assms by (cases f) auto
  define E where "E = (if index + 1 = count then usize_sub oc frame_len (990 * (count - 1)) else Inr 990)"
  let ?H = "frame_len \<le> 1024 \<or> 65507 < frame_len \<or> count < 2 \<or> count \<le> index"
  have n: "OVERLAY_FRAGMENT_PAYLOAD_BYTES = 990" "MAX_OVERLAY_TRANSIT_DATAGRAM_BYTES = 1024"
    "MAX_MULTIHOP_FRAME_BYTES = 65507" by simp_all
  show ?thesis
  proof (cases ?H)
    case True
    then show ?thesis unfolding push_def Let_def Some f option.case prod.case n by simp
  next
    case H: False
    show ?thesis
    proof (cases E)
      case (Inl e)
      then have "e = ArithmeticPanic" "oc" by (auto simp: E_def usize_sub_def split: if_splits)
      then show ?thesis
        using H Inl unfolding push_def Let_def Some f option.case prod.case n E_def [symmetric] by simp
    next
      case (Inr len)
      have "count \<noteq> div_ceil frame_len 990 \<or> length payload \<noteq> len"
        using bad H Inr expected_len [of frame_len index oc] by (auto simp: good_header_def E_def)
      then show ?thesis
        using H Inr unfolding push_def Let_def Some f option.case prod.case n E_def [symmetric] by simp
    qed
  qed
qed (simp add: push_def)

lemma open_frame_inv:
  "ofr_inv ra \<Longrightarrow> \<not> no_room key n ra \<Longrightarrow> 1024 < n \<Longrightarrow> n \<le> 65507 \<Longrightarrow> ofr_inv (open_frame key now n ra)"
  using ofr_open_inv [of ra key n now] by (auto simp: open_frame_def no_room_def not_le)

lemma push_inv:
  assumes "ofr_inv ra"
  shows "ofr_inv (snd (push oc sha256 source d now ra))"
proof (cases "\<exists>index count frame_len digest payload. parse_fragment d = Some (index, count, frame_len, digest, payload) \<and>
    good_header index count frame_len (length payload)")
  case True
  then obtain index count frame_len digest payload where
    p: "parse_fragment d = Some (index, count, frame_len, digest, payload)"
    and g: "good_header index count frame_len (length payload)" by blast
  show ?thesis
    using prune_expired_inv [OF assms, of now] open_frame_inv store_fragment_inv g
    by (simp add: push_good [OF p g] Let_def good_header_def)
next
  case False
  then have "snd (push oc sha256 source d now ra) = prune_expired now ra"
    using push_bad [of d oc sha256 source now ra] by (cases "parse_fragment d") fastforce+
  then show ?thesis by (simp add: prune_expired_inv assms)
qed

subsection \<open>Reassembly\<close>

lemma chunks_Nil [simp]: "chunks n [] = []"
  by (simp add: chunks.simps)

lemma chunks_step: "xs \<noteq> [] \<Longrightarrow> 0 < n \<Longrightarrow> chunks n xs = take n xs # chunks n (drop n xs)"
  by (simp add: chunks.simps)

lemma concat_chunks: "0 < n \<Longrightarrow> concat (chunks n xs) = xs"
proof (induction n xs rule: chunks.induct)
  case (1 n xs)
  then show ?case by (cases "xs = []") (simp_all add: chunks_step)
qed

lemma chunks_nth: "0 < n \<Longrightarrow> i < length (chunks n xs) \<Longrightarrow> chunks n xs ! i = take n (drop (i * n) xs)"
proof (induction n xs arbitrary: i rule: chunks.induct)
  case (1 n xs)
  then show ?case by (cases "xs = []"; cases i) (simp_all add: chunks_step add.commute)
qed

lemma div_ceil_step:
  assumes "0 < n" and "0 < k"
  shows "div_ceil k n = Suc (div_ceil (k - n) n)"
proof (cases "n \<le> k")
  case True
  have "k + n - 1 = (k - n + n - 1) + n" using True assms by linarith
  then show ?thesis unfolding div_ceil_def using assms by (simp only: div_add_self2)
next
  case False
  have e: "k + n - 1 = (k - 1) + n" "k - n + n - 1 = n - 1" using assms False by linarith+
  have "(k - 1) div n = 0" "(n - 1) div n = 0" using assms False by (auto intro!: div_less)
  then show ?thesis unfolding div_ceil_def e using assms by (simp only: div_add_self2)
qed

lemma length_chunks: "0 < n \<Longrightarrow> length (chunks n xs) = div_ceil (length xs) n"
proof (induction n xs rule: chunks.induct)
  case (1 n xs)
  then show ?case
    by (cases "xs = []") (simp_all add: chunks_step div_ceil_step [of n "length xs"], simp add: div_ceil_def)
qed

lemma length_chunk:
  assumes "0 < length frame" and "i < div_ceil (length frame) 990"
  shows "length (chunks 990 frame ! i) = fragment_len (length frame) i"
proof -
  define q where "q = div_ceil (length frame) 990"
  have b: "990 * (q - 1) < length frame" "length frame \<le> 990 * q" "i < q"
    using div_ceil_bounds [OF assms(1)] assms(2) by (simp_all add: q_def)
  have "length (chunks 990 frame ! i) = min 990 (length frame - i * 990)"
    using assms(2) by (simp add: chunks_nth length_chunks min.commute)
  also have "\<dots> = fragment_len (length frame) i"
  proof (cases "i + 1 = q")
    case True
    then show ?thesis using b by (simp add: fragment_len_def q_def [symmetric] mult.commute)
  next
    case False
    then have "990 * (i + 1) \<le> 990 * (q - 1)" using b(3) by (intro mult_le_mono2) simp
    then have "990 \<le> length frame - i * 990" using b(1) by simp
    then show ?thesis using False by (simp add: fragment_len_def q_def [symmetric])
  qed
  finally show ?thesis .
qed

lemma fragment_len_range:
  assumes "0 < n" and "i < div_ceil n 990"
  shows "0 < fragment_len n i" and "fragment_len n i \<le> 990"
proof -
  define q where "q = div_ceil n 990"
  have b: "990 * (q - 1) < n" "n \<le> 990 * q" "0 < q"
    unfolding q_def by (rule div_ceil_bounds [OF assms(1)])+
  then have "990 * q = 990 * (q - 1) + 990" by (cases q) simp_all
  then show "0 < fragment_len n i" "fragment_len n i \<le> 990"
    using b unfolding fragment_len_def q_def [symmetric] by auto
qed

lemma parse_encode_fragment:
  assumes "length digest = 16" and "0 < length payload" and "length payload \<le> 990"
  shows "parse_fragment (encode_overlay_fragment index count len digest payload) =
    Some (unat index, unat count, unat len, digest, payload)"
proof -
  let ?d = "encode_overlay_fragment index count len digest payload"
  have l: "length ?d = 34 + length payload"
    using assms by (simp add: encode_overlay_fragment_def)
  have p: "take 8 ?d = OVERLAY_FRAGMENT_MAGIC" "?d ! 8 = 1" "?d ! 9 = 0"
    by (simp_all add: encode_overlay_fragment_def nth_append)
  have split: "drop 10 ?d = to_be_bytes index @ to_be_bytes count @ to_be_bytes len @ digest @ payload"
    by (simp add: encode_overlay_fragment_def drop_Cons')
  have "drop 12 ?d = drop 2 (drop 10 ?d)" "drop 14 ?d = drop 4 (drop 10 ?d)"
    "drop 18 ?d = drop 8 (drop 10 ?d)" "drop 34 ?d = drop 24 (drop 10 ?d)" by simp_all
  note parts = this [unfolded split]
  show ?thesis
    unfolding parse_fragment_def parts split
    using l p assms by (simp add: w16.dec_enc w32.dec_enc)
qed

lemma send_frame_fragments:
  assumes "1024 < length frame" and "length frame \<le> 65507" and "send_frame_datagrams sha256 frame = Some ds"
  shows "length ds = div_ceil (length frame) 990"
    and "i < div_ceil (length frame) 990 \<Longrightarrow> ds ! i =
      encode_overlay_fragment (of_nat i) (of_nat (div_ceil (length frame) 990)) (of_nat (length frame))
        (overlay_fragment_digest sha256 frame) (chunks 990 frame ! i)"
  using assms
  by (auto simp: send_frame_datagrams_def Let_def length_chunks nth_enumerate_eq split: if_splits)

lemma div_ceil_small: "n \<le> 65507 \<Longrightarrow> div_ceil n 990 \<le> 67"
proof -
  assume "n \<le> 65507"
  then have "(n + 989) div 990 \<le> 66496 div 990" by (intro div_le_mono) simp
  then show ?thesis by (simp add: div_ceil_def)
qed

lemma parse_own_fragment:
  assumes "1024 < length frame" and "length frame \<le> 65507" and "send_frame_datagrams sha256 frame = Some ds"
    and "16 \<le> length (sha256 frame)" and "i < length ds"
  shows "parse_fragment (ds ! i) = Some (i, div_ceil (length frame) 990, length frame,
      overlay_fragment_digest sha256 frame, chunks 990 frame ! i)"
    and "good_header i (div_ceil (length frame) 990) (length frame) (length (chunks 990 frame ! i))"
proof -
  have i: "i < div_ceil (length frame) 990" using send_frame_fragments(1) assms by metis
  have small: "div_ceil (length frame) 990 < 65536" using div_ceil_small [OF assms(2)] by simp
  have "length (chunks 990 frame ! i) = fragment_len (length frame) i"
    using i assms(1) by (intro length_chunk) auto
  then show "parse_fragment (ds ! i) = Some (i, div_ceil (length frame) 990, length frame,
      overlay_fragment_digest sha256 frame, chunks 990 frame ! i)"
    "good_header i (div_ceil (length frame) 990) (length frame) (length (chunks 990 frame ! i))"
    using fragment_len_range [of "length frame" i] i small assms order_less_trans [OF _ assms(1), of 0]
    by (simp_all add: send_frame_fragments(2) [OF assms(1-3) i] parse_encode_fragment good_header_def
        overlay_fragment_digest_def unsigned_of_nat take_bit_eq_mod)
qed

text \<open>The fragments of a frame that a pending entry holds.\<close>

definition gathering ::
  "overlay_fragment_key \<Rightarrow> bytes \<Rightarrow> time \<Rightarrow> nat set \<Rightarrow> overlay_fragment_reassembler \<Rightarrow> bool" where
  "gathering key frame expiry S ra \<longleftrightarrow>
     (\<exists>f. am_get (ofr_pending ra) key = Some f \<and> pof_expires_at f = expiry \<and> pof_frame_len f = length frame \<and>
        pof_fragments f = map (\<lambda>i. if i \<in> S then Some (chunks 990 frame ! i) else None)
          [0 ..< div_ceil (length frame) 990])"

lemma gathering_prune:
  "ofr_inv ra \<Longrightarrow> gathering key frame expiry S ra \<Longrightarrow> now < expiry \<Longrightarrow>
     gathering key frame expiry S (prune_expired now ra)"
  by (auto simp: gathering_def prune_expired_pending)

lemma store_fragment_other:
  assumes "hm_wf (ofr_pending ra)" and "key \<noteq> key'"
  shows "am_get (ofr_pending (snd (store_fragment sha256 key' index count len payload ra))) key =
    am_get (ofr_pending ra) key"
proof -
  have "am_get (ofr_pending (ofr_remove key' ra)) key = am_get (ofr_pending ra) key"
    if "hm_wf (ofr_pending ra)" for ra using that assms(2) by (simp add: ofr_remove_pending)
  then show ?thesis
    using assms unfolding store_fragment_def Let_def
    by (auto simp: hm_get_insert hm_wf_insert split: option.splits)
qed

text \<open>Whether a datagram from a source belongs to another frame than the one of the key, or to none.\<close>

definition foreign :: "overlay_fragment_key \<Rightarrow> socket_addr \<Rightarrow> bytes \<Rightarrow> bool" where
  "foreign key source d \<longleftrightarrow>
     (case parse_fragment d of None \<Rightarrow> True
      | Some (_, _, _, digest, _) \<Rightarrow> \<lparr>ofk_source = source, ofk_digest = digest\<rparr> \<noteq> key)"

lemma push_foreign:
  assumes inv: "ofr_inv ra" and g: "gathering key frame expiry S ra" and "foreign key source d" and "now < expiry"
  shows "gathering key frame expiry S (snd (push oc sha256 source d now ra))"
proof (cases "\<exists>index count n digest payload. parse_fragment d = Some (index, count, n, digest, payload) \<and>
    good_header index count n (length payload)")
  case True
  then obtain index count n digest payload where
    p: "parse_fragment d = Some (index, count, n, digest, payload)"
    and gh: "good_header index count n (length payload)" by blast
  define key' where "key' = \<lparr>ofk_source = source, ofk_digest = digest\<rparr>"
  have ne: "key \<noteq> key'" using assms(3) p by (auto simp: foreign_def key'_def)
  let ?ra = "prune_expired now ra"
  have g': "gathering key frame expiry S ?ra" using gathering_prune assms by blast
  have wf: "hm_wf (ofr_pending ?ra)" using prune_expired_inv [OF inv] by (simp add: ofr_inv_def)
  have "am_get (ofr_pending (open_frame key' now n ?ra)) key = am_get (ofr_pending ?ra) key"
    "hm_wf (ofr_pending (open_frame key' now n ?ra))"
    using ne wf by (simp_all add: open_frame_def hm_get_insert hm_wf_insert)
  then show ?thesis
    using g' ne unfolding push_good [OF p gh] Let_def key'_def [symmetric]
    by (auto simp: gathering_def store_fragment_other)
next
  case False
  then have "snd (push oc sha256 source d now ra) = prune_expired now ra"
    using push_bad [of d oc sha256 source now ra] by (cases "parse_fragment d") fastforce+
  then show ?thesis using gathering_prune assms by simp
qed


lemma add_fragment_gathering:
  assumes "ofr_inv ra" and "am_get (ofr_pending ra) key = Some f" and "pof_frame_len f = length frame"
    and "pof_fragments f = map (\<lambda>i. if i \<in> S then Some (chunks 990 frame ! i) else None) [0 ..< n]"
    and n: "n = div_ceil (length frame) 990" and "i < n" and "i \<notin> S" and "S \<subseteq> {..<n}"
  shows "(pof_fragments f)[i := Some (chunks 990 frame ! i)] =
      map (\<lambda>j. if j \<in> insert i S then Some (chunks 990 frame ! j) else None) [0 ..< n]"
    and "pof_received_count f + 1 = n \<longleftrightarrow> insert i S = {..<n}"
proof -
  let ?f' = "(pof_fragments f)[i := Some (chunks 990 frame ! i)]"
  show upd: "?f' = map (\<lambda>j. if j \<in> insert i S then Some (chunks 990 frame ! j) else None) [0 ..< n]"
    using assms by (intro nth_equalityI) (auto simp: nth_list_update)
  have "frame_ok f" using assms(1,2) by (simp add: ofr_inv_def)
  then have "pof_received_count f = length (filter (\<lambda>f. f \<noteq> None) (pof_fragments f))" by (simp add: frame_ok_def)
  moreover have "length ?f' = n" using assms by simp
  ultimately have "pof_received_count f + 1 = n \<longleftrightarrow> \<not> list_ex (\<lambda>f. f = None) ?f'"
    using count_some_update [of i "pof_fragments f" "chunks 990 frame ! i"] count_some_full [of ?f'] assms(4,6,7)
    by (auto simp del: not_None_eq)
  also have "\<dots> \<longleftrightarrow> insert i S = {..<n}"
    unfolding upd using assms(6,8) by (auto simp: list_ex_iff)
  finally show "pof_received_count f + 1 = n \<longleftrightarrow> insert i S = {..<n}" .
qed

lemma gatheringE:
  assumes "ofr_inv ra" and "gathering key frame expiry S ra"
  obtains f where "am_get (ofr_pending ra) key = Some f" and "pof_expires_at f = expiry"
    and "pof_frame_len f = length frame" and "pof_fragment_count f = div_ceil (length frame) 990"
    and "pof_fragments f = map (\<lambda>i. if i \<in> S then Some (chunks 990 frame ! i) else None)
      [0 ..< div_ceil (length frame) 990]"
proof -
  from assms(2) obtain f where f: "am_get (ofr_pending ra) key = Some f" "pof_expires_at f = expiry"
    "pof_frame_len f = length frame"
    "pof_fragments f = map (\<lambda>i. if i \<in> S then Some (chunks 990 frame ! i) else None)
      [0 ..< div_ceil (length frame) 990]" by (auto simp: gathering_def)
  have "frame_ok f" using assms(1) f(1) by (simp add: ofr_inv_def)
  then have "pof_fragment_count f = div_ceil (length frame) 990" using f(3) by (simp add: frame_ok_def)
  from that [OF f(1-3) this f(4)] show thesis .
qed

lemma store_own_part:
  assumes inv: "ofr_inv ra" and g: "gathering key frame expiry S ra" and n: "n = div_ceil (length frame) 990"
    and "i < n" and "S \<subseteq> {..<n}" and part: "insert i S \<noteq> {..<n}"
    and s: "s = store_fragment sha256 key i n (length frame) (chunks 990 frame ! i) ra"
  shows "fst s = Inr None" and "gathering key frame expiry (insert i S) (snd s)"
proof -
  obtain f where f: "am_get (ofr_pending ra) key = Some f" "pof_expires_at f = expiry"
    "pof_frame_len f = length frame" "pof_fragment_count f = n"
    and fs: "pof_fragments f = map (\<lambda>i. if i \<in> S then Some (chunks 990 frame ! i) else None) [0 ..< n]"
    by (rule gatheringE [OF inv g, folded n])
  have at: "pof_fragments f ! i = (if i \<in> S then Some (chunks 990 frame ! i) else None)"
    using fs assms(4) by simp
  note add = add_fragment_gathering [OF inv f(1,3) fs n assms(4) _ assms(5)]
  have "fst s = Inr None \<and> gathering key frame expiry (insert i S) (snd s)"
  proof (cases "i \<in> S")
    case True
    then have "s = (Inr None, ra)" using f at by (simp add: s store_fragment_def)
    then show ?thesis using g True by (simp add: insert_absorb)
  next
    case False
    then have "s = (Inr None, ra\<lparr>ofr_pending := hm_insert key (add_fragment i (chunks 990 frame ! i) f) (ofr_pending ra)\<rparr>)"
      using f at add(2) part by (simp add: s store_fragment_def Let_def)
    then show ?thesis using f add(1) [OF False] unfolding n by (simp add: gathering_def hm_get_insert)
  qed
  then show "fst s = Inr None" "gathering key frame expiry (insert i S) (snd s)" by simp_all
qed

lemma store_own_full:
  assumes inv: "ofr_inv ra" and g: "gathering key frame expiry S ra" and n: "n = div_ceil (length frame) 990"
    and "i < n" and "S \<subseteq> {..<n}" and i: "i \<notin> S" and full: "insert i S = {..<n}"
    and digest: "ofk_digest key = overlay_fragment_digest sha256 frame"
  shows "store_fragment sha256 key i n (length frame) (chunks 990 frame ! i) ra = (Inr (Some frame), ofr_remove key ra)"
proof -
  obtain f where f: "am_get (ofr_pending ra) key = Some f"
    "pof_frame_len f = length frame" "pof_fragment_count f = n"
    and fs: "pof_fragments f = map (\<lambda>i. if i \<in> S then Some (chunks 990 frame ! i) else None) [0 ..< n]"
    by (rule gatheringE [OF inv g, folded n])
  have at: "pof_fragments f ! i = None" using fs assms(4) i by simp
  note add = add_fragment_gathering [OF inv f(1,2) fs n assms(4) i assms(5)]
  have len: "length (chunks 990 frame) = n" by (simp add: n length_chunks)
  have "(pof_fragments f)[i := Some (chunks 990 frame ! i)] = map (\<lambda>j. Some (chunks 990 frame ! j)) [0 ..< n]"
    unfolding add(1) full by simp
  also have "\<dots> = map Some (map (nth (chunks 990 frame)) [0 ..< n])" by simp
  also have "\<dots> = map Some (chunks 990 frame)" unfolding len [symmetric] map_nth ..
  finally have frags: "(pof_fragments f)[i := Some (chunks 990 frame ! i)] = map Some (chunks 990 frame)" .
  have rem: "ofr_remove key (ra\<lparr>ofr_pending := hm_insert key f' (ofr_pending ra)\<rparr>) = ofr_remove key ra"
    if "pof_frame_len f' = length frame" for f'
    using f that by (simp add: ofr_remove_def hm_get_insert hm_insert_remove)
  have "\<not> list_ex (\<lambda>f. f = None) (map Some (chunks 990 frame))" "concat (map the (map Some (chunks 990 frame))) = frame"
    by (auto simp: list_ex_iff comp_def concat_chunks)
  moreover have "pof_received_count f + 1 = n" using add(2) full by simp
  ultimately show ?thesis
    unfolding store_fragment_def Let_def f(1) option.case at
    using f(2,3) by (simp add: frags rem digest del: map_map)
qed


text \<open>One datagram of a run of the receive loop: its source, its bytes and the time of its arrival.\<close>

type_synonym arrival = "socket_addr \<times> bytes \<times> time"

definition arrive ::
  "(bytes \<Rightarrow> bytes) \<Rightarrow> arrival \<Rightarrow> overlay_fragment_reassembler \<Rightarrow> (push_error + bytes option) \<times> overlay_fragment_reassembler" where
  "arrive sha256 a ra = (case a of (source, d, now) \<Rightarrow> push False sha256 source d now ra)"

interpretation reassembler: invariant_system "arrive sha256" ofr_inv
  by unfold_locales (auto simp: arrive_def push_inv split: prod.splits)

text \<open>The indices of the fragments of a frame among the datagrams of a run.\<close>

definition arrived :: "socket_addr \<Rightarrow> bytes list \<Rightarrow> arrival list \<Rightarrow> nat set" where
  "arrived source ds as = {i. i < length ds \<and> (\<exists>now. (source, ds ! i, now) \<in> set as)}"

lemma push_own:
  assumes "1024 < length frame" and "length frame \<le> 65507" and "send_frame_datagrams sha256 frame = Some ds"
    and "16 \<le> length (sha256 frame)" and "i < length ds"
    and inv: "ofr_inv ra" and g: "gathering key frame expiry S ra" and "now < expiry"
    and key: "key = \<lparr>ofk_source = source, ofk_digest = overlay_fragment_digest sha256 frame\<rparr>"
    and "S \<subseteq> {..<length ds}"
  shows "insert i S \<noteq> {..<length ds} \<Longrightarrow> fst (push oc sha256 source (ds ! i) now ra) = Inr None \<and>
      gathering key frame expiry (insert i S) (snd (push oc sha256 source (ds ! i) now ra))"
    and "i \<notin> S \<Longrightarrow> insert i S = {..<length ds} \<Longrightarrow> fst (push oc sha256 source (ds ! i) now ra) = Inr (Some frame) \<and>
      am_get (ofr_pending (snd (push oc sha256 source (ds ! i) now ra))) key = None"
proof -
  have n: "length ds = div_ceil (length frame) 990" using send_frame_fragments(1) assms(1-3) by blast
  let ?ra = "prune_expired now ra"
  have inv': "ofr_inv ?ra" and g': "gathering key frame expiry S ?ra"
    using inv g assms(8) by (simp_all add: prune_expired_inv gathering_prune)
  have "\<not> no_room key (length frame) ?ra" "open_frame key now (length frame) ?ra = ?ra"
    using g' by (auto simp: gathering_def no_room_def open_frame_def)
  then have eq: "push oc sha256 source (ds ! i) now ra =
      store_fragment sha256 key i (length ds) (length frame) (chunks 990 frame ! i) ?ra"
    unfolding push_good [OF parse_own_fragment [OF assms(1-5)]] Let_def key [symmetric] n by simp
  show "insert i S \<noteq> {..<length ds} \<Longrightarrow> fst (push oc sha256 source (ds ! i) now ra) = Inr None \<and>
      gathering key frame expiry (insert i S) (snd (push oc sha256 source (ds ! i) now ra))"
    unfolding eq using store_own_part [OF inv' g' n assms(5,10) _ refl] by blast
  assume "i \<notin> S" "insert i S = {..<length ds}"
  then have "push oc sha256 source (ds ! i) now ra = (Inr (Some frame), ofr_remove key ?ra)"
    unfolding eq by (intro store_own_full [OF inv' g' n assms(5,10)]) (simp_all add: key)
  then show "fst (push oc sha256 source (ds ! i) now ra) = Inr (Some frame) \<and>
      am_get (ofr_pending (snd (push oc sha256 source (ds ! i) now ra))) key = None"
    using ofr_inv_wf [OF inv'] by (simp add: ofr_remove_pending)
qed


lemma own_arrivals:
  assumes "1024 < length frame" and "length frame \<le> 65507" and "send_frame_datagrams sha256 frame = Some ds"
    and "16 \<le> length (sha256 frame)"
    and key: "key = \<lparr>ofk_source = source, ofk_digest = overlay_fragment_digest sha256 frame\<rparr>"
  shows "i < length ds \<Longrightarrow> arrived source ds ((source, ds ! i, now) # as) = insert i (arrived source ds as)"
    and "foreign key source' d \<Longrightarrow> arrived source ds ((source', d, now) # as) = arrived source ds as"
proof -
  have p: "i < length ds \<Longrightarrow> parse_fragment (ds ! i) = Some (i, div_ceil (length frame) 990, length frame,
      overlay_fragment_digest sha256 frame, chunks 990 frame ! i)" for i
    by (rule parse_own_fragment(1) [OF assms(1-4)])
  have inj: "i = j" if "i < length ds" "j < length ds" "ds ! i = ds ! j" for i j
    using p [OF that(1)] p [OF that(2)] unfolding that(3) by simp
  show "arrived source ds ((source, ds ! i, now) # as) = insert i (arrived source ds as)" if "i < length ds"
    using inj [OF _ that] that by (auto simp: arrived_def)
  have "\<not> foreign key source (ds ! i)" if "i < length ds" for i
    unfolding foreign_def p [OF that] by (simp add: key)
  then show "arrived source ds ((source', d, now) # as) = arrived source ds as" if "foreign key source' d"
    using that by (auto simp: arrived_def)
qed

lemma gathering_run:
  assumes "1024 < length frame" and "length frame \<le> 65507" and "send_frame_datagrams sha256 frame = Some ds"
    and "16 \<le> length (sha256 frame)"
    and key: "key = \<lparr>ofk_source = source, ofk_digest = overlay_fragment_digest sha256 frame\<rparr>"
    and "ofr_inv ra" and "gathering key frame expiry S ra" and "S \<subseteq> {..<length ds}"
    and "\<forall>(source', d, now) \<in> set as. now < expiry \<and> (foreign key source' d \<or> source' = source \<and> d \<in> set ds)"
    and "S \<union> arrived source ds as \<subset> {..<length ds}"
  shows "gathering key frame expiry (S \<union> arrived source ds as) (run (arrive sha256) as ra)"
  using assms(6-10)
proof (induction as arbitrary: S ra)
  case Nil
  then show ?case by (simp add: arrived_def)
next
  case (Cons a as)
  obtain source' d now where a: "a = (source', d, now)" by (cases a) auto
  note own = own_arrivals [OF assms(1-4) key]
  have inv: "ofr_inv (snd (arrive sha256 a ra))" by (rule reassembler.inv_step [OF Cons.prems(1)])
  have now: "now < expiry" using Cons.prems(4) a by auto
  consider "foreign key source' d" | i where "i < length ds" "source' = source" "d = ds ! i"
    using Cons.prems(4) by (auto simp: a in_set_conv_nth)
  then show ?case
  proof cases
    case 1
    have "gathering key frame expiry S (snd (arrive sha256 a ra))"
      using push_foreign [OF Cons.prems(1,2) 1 now] by (simp add: a arrive_def)
    from Cons.IH [OF inv this Cons.prems(3)] show ?thesis
      using Cons.prems(4,5) own(2) [OF 1] by (simp add: a)
  next
    case 2
    have U: "S \<union> arrived source ds (a # as) = insert i S \<union> arrived source ds as"
      using own(1) [OF 2(1)] by (auto simp: a 2)
    have "insert i S \<noteq> {..<length ds}" using Cons.prems(5) unfolding U by auto
    then have "gathering key frame expiry (insert i S) (snd (arrive sha256 a ra))"
      using push_own(1) [OF assms(1-4) 2(1) Cons.prems(1,2) now key Cons.prems(3)] by (simp add: a arrive_def 2)
    from Cons.IH [OF inv this] show ?thesis
      using Cons.prems(3,4,5) 2(1) unfolding U by simp
  qed
qed


lemma push_first:
  assumes "1024 < length frame" and "length frame \<le> 65507" and "send_frame_datagrams sha256 frame = Some ds"
    and "16 \<le> length (sha256 frame)" and "i < length ds" and inv: "ofr_inv ra"
    and key: "key = \<lparr>ofk_source = source, ofk_digest = overlay_fragment_digest sha256 frame\<rparr>"
    and none: "am_get (ofr_pending ra) key = None" and room: "\<not> no_room key (length frame) (prune_expired now ra)"
  shows "gathering key frame (now + OVERLAY_FRAGMENT_REASSEMBLY_TIMEOUT) {i} (snd (push oc sha256 source (ds ! i) now ra))"
proof -
  have n: "length ds = div_ceil (length frame) 990" using send_frame_fragments(1) assms(1-3) by blast
  let ?ra = "prune_expired now ra" and ?expiry = "now + OVERLAY_FRAGMENT_REASSEMBLY_TIMEOUT"
  have inv': "ofr_inv (open_frame key now (length frame) ?ra)"
    using open_frame_inv [OF prune_expired_inv [OF inv] room assms(1,2)] .
  have "am_get (ofr_pending ?ra) key = None" using none by (simp add: prune_expired_pending [OF inv])
  then have g: "gathering key frame ?expiry {} (open_frame key now (length frame) ?ra)"
    by (simp add: open_frame_def gathering_def hm_get_insert fresh_frame_def map_replicate_trivial)
  have eq: "push oc sha256 source (ds ! i) now ra =
      store_fragment sha256 key i (length ds) (length frame) (chunks 990 frame ! i) (open_frame key now (length frame) ?ra)"
    unfolding push_good [OF parse_own_fragment [OF assms(1-5)]] Let_def key [symmetric] n using room by simp
  have "2 \<le> length ds" unfolding n using div_ceil_ge2 assms(1) by blast
  then have "card {..<length ds} \<noteq> card {i}" by simp
  then have "insert i {} \<noteq> {..<length ds}" by metis
  then show ?thesis unfolding eq using store_own_part(2) [OF inv' g n assms(5) _ _ refl] by simp
qed

text \<open>Bytes that a pending frame really holds.\<close>

definition held_bytes :: "pending_overlay_frame \<Rightarrow> nat" where
  "held_bytes frame = sum_list (map (\<lambda>f. case f of None \<Rightarrow> 0 | Some p \<Rightarrow> length p) (pof_fragments frame))"

lemma sum_fragment_len: "0 < n \<Longrightarrow> (\<Sum>i < div_ceil n 990. fragment_len n i) = n"
proof -
  assume "0 < n"
  define q where "q = div_ceil n 990 - 1"
  have q: "div_ceil n 990 = Suc q" "990 * q < n" using div_ceil_bounds [OF \<open>0 < n\<close>] by (simp_all add: q_def)
  have "(\<Sum>i < q. fragment_len n i) = (\<Sum>i < q. 990)" by (intro sum.cong) (auto simp: fragment_len_def q)
  then show ?thesis using q(2) by (simp add: q(1) fragment_len_def)
qed

lemma held_bytes_le: "frame_ok frame \<Longrightarrow> held_bytes frame \<le> pof_frame_len frame"
proof -
  assume ok: "frame_ok frame"
  let ?n = "pof_fragment_count frame" and ?g = "\<lambda>f. case f of None \<Rightarrow> 0 | Some p \<Rightarrow> length p"
  have len: "length (pof_fragments frame) = ?n" using ok by (simp add: frame_ok_def)
  have "held_bytes frame = (\<Sum>i < ?n. ?g (pof_fragments frame ! i))"
    by (simp add: held_bytes_def sum_list_sum_nth len atLeast0LessThan)
  also have "\<dots> \<le> (\<Sum>i < ?n. fragment_len (pof_frame_len frame) i)"
    using ok by (intro sum_mono) (auto simp: frame_ok_def split: option.splits)
  also have "\<dots> = pof_frame_len frame"
  proof -
    have "?n = div_ceil (pof_frame_len frame) 990" "0 < pof_frame_len frame" using ok by (auto simp: frame_ok_def)
    then show ?thesis using sum_fragment_len by simp
  qed
  finally show ?thesis .
qed

lemma pending_bytes_le:
  "ofr_inv ra \<Longrightarrow> pending_bytes (ofr_pending ra) \<le> MAX_PENDING_FRAGMENTED_FRAME_BYTES"
proof -
  assume inv: "ofr_inv ra"
  then have wf: "hm_wf (ofr_pending ra)" by (simp add: ofr_inv_def)
  have "pof_frame_len (snd e) \<le> 65507" if "e \<in> set (ofr_pending ra)" for e
  proof -
    have "am_get (ofr_pending ra) (fst e) = Some (snd e)"
      using that hm.in_entries [OF wf, of "fst e" "snd e"] by simp
    then have "frame_ok (snd e)" using inv by (simp add: ofr_inv_def)
    then show ?thesis by (simp add: frame_ok_def)
  qed
  then have "pending_bytes (ofr_pending ra) \<le> sum_list (map (\<lambda>_. 65507) (ofr_pending ra))"
    unfolding pending_bytes_def by (intro sum_list_mono) auto
  also have "\<dots> = 65507 * length (ofr_pending ra)" by (simp add: sum_list_triv)
  also have "\<dots> \<le> MAX_PENDING_FRAGMENTED_FRAME_BYTES" using inv by (simp add: ofr_inv_def)
  finally show ?thesis .
qed

lemma store_fragment_result:
  "fst (store_fragment sha256 key index count len payload ra) = Inr (Some frame) \<Longrightarrow>
     length frame = len \<and> overlay_fragment_digest sha256 frame = ofk_digest key"
  by (auto simp: store_fragment_def Let_def split: option.splits if_splits)


subsection \<open>Properties\<close>

text \<open>
  C10. A frame that was split for transit is put together again. Whatever the reassembler has
  received before, if it has no pending fragment of the frame and has room for it, then the
  fragments may arrive in any order, repeated, and mixed with arbitrary other datagrams: the
  fragment that completes the set returns exactly the frame, provided the datagrams arrive before
  the deadline that the first fragment sets.
\<close>

theorem reassembly_any_order:
  assumes "1024 < length frame" and "length frame \<le> 65507" and "send_frame_datagrams sha256 frame = Some ds"
    and "16 \<le> length (sha256 frame)"
    and "ra = run (arrive sha256) before ofr_default"
    and "key = \<lparr>ofk_source = source, ofk_digest = overlay_fragment_digest sha256 frame\<rparr>"
    and "am_get (ofr_pending ra) key = None" and "\<not> no_room key (length frame) (prune_expired t\<^sub>0 ra)"
    and "\<forall>(source', d, t) \<in> set others.
      t < t\<^sub>0 + OVERLAY_FRAGMENT_REASSEMBLY_TIMEOUT \<and> (foreign key source' d \<or> source' = source \<and> d \<in> set ds)"
    and "i < length ds" and "j < length ds"
    and "insert i (arrived source ds others) = {..<length ds} - {j}"
    and "t < t\<^sub>0 + OVERLAY_FRAGMENT_REASSEMBLY_TIMEOUT"
  shows "fst (arrive sha256 (source, ds ! j, t) (run (arrive sha256) ((source, ds ! i, t\<^sub>0) # others) ra)) =
    Inr (Some frame)"
proof -
  have inv: "ofr_inv ra" unfolding assms(5) by (rule reassembler.inv_run [OF ofr_default_inv])
  let ?ra = "snd (arrive sha256 (source, ds ! i, t\<^sub>0) ra)"
  have g: "gathering key frame (t\<^sub>0 + OVERLAY_FRAGMENT_REASSEMBLY_TIMEOUT) {i} ?ra"
    using push_first [OF assms(1-4,10) inv assms(6-8)] by (simp add: arrive_def)
  have inv': "ofr_inv ?ra" by (rule reassembler.inv_step [OF inv])
  have "gathering key frame (t\<^sub>0 + OVERLAY_FRAGMENT_REASSEMBLY_TIMEOUT) ({i} \<union> arrived source ds others)
      (run (arrive sha256) others ?ra)"
    using assms(10-12) by (intro gathering_run [OF assms(1-4,6) inv' g _ assms(9)]) auto
  from push_own(2) [OF assms(1-4,11) reassembler.inv_run [OF inv'] this assms(13,6)] show ?thesis
    using assms(11,12) by (auto simp: arrive_def)
qed

text \<open>
  C33. A frame leaves the reassembler only with the length and the digest that the header of the
  datagram completing it announces, and only if it is too long for a single datagram.
\<close>

theorem reassembled_frame_authentic:
  assumes "push overflow_checks sha256 source d now ra = (Inr (Some frame), ra')"
  shows "\<exists>index count payload.
    parse_fragment d = Some (index, count, length frame, overlay_fragment_digest sha256 frame, payload) \<and>
    count = div_ceil (length frame) OVERLAY_FRAGMENT_PAYLOAD_BYTES \<and> index < count \<and>
    MAX_OVERLAY_TRANSIT_DATAGRAM_BYTES < length frame \<and> length frame \<le> MAX_MULTIHOP_FRAME_BYTES"
proof (cases "\<exists>index count n digest payload. parse_fragment d = Some (index, count, n, digest, payload) \<and>
    good_header index count n (length payload)")
  case True
  then obtain index count n digest payload where
    p: "parse_fragment d = Some (index, count, n, digest, payload)"
    and g: "good_header index count n (length payload)" by blast
  let ?key = "\<lparr>ofk_source = source, ofk_digest = digest\<rparr>"
  have "fst (store_fragment sha256 ?key index count n payload (open_frame ?key now n (prune_expired now ra))) =
      Inr (Some frame)"
    using assms unfolding push_good [OF p g] Let_def by (auto split: if_splits)
  from store_fragment_result [OF this] show ?thesis using p g by (auto simp: good_header_def)
next
  case False
  then show ?thesis
    using assms push_bad [of d overflow_checks sha256 source now ra] by (cases "parse_fragment d") fastforce+
qed

text \<open>
  C34. Whatever datagrams arrive, the reassembler keeps at most 256 pending frames, its counter of
  reserved bytes is the sum of the announced frame lengths and stays below the limit, and the
  bytes held for a frame never exceed what was reserved for it.
\<close>

theorem reassembler_bounded:
  assumes "ra \<in> set (states (arrive sha256) arrivals ofr_default)"
  shows "length (ofr_pending ra) \<le> MAX_PENDING_FRAGMENTED_FRAMES \<and>
    ofr_reserved_bytes ra = pending_bytes (ofr_pending ra) \<and>
    ofr_reserved_bytes ra \<le> MAX_PENDING_FRAGMENTED_FRAME_BYTES \<and>
    (\<forall>key frame. am_get (ofr_pending ra) key = Some frame \<longrightarrow> held_bytes frame \<le> pof_frame_len frame)"
proof -
  have inv: "ofr_inv ra" by (rule reassembler.inv_states [OF ofr_default_inv assms])
  then show ?thesis
    using pending_bytes_le [OF inv] held_bytes_le by (auto simp: ofr_inv_def simp del: MAX_PENDING_FRAGMENTED_FRAME_BYTES_def)
qed


text \<open>
  The two indexes of the endpoint directory are inverse to each other after any sequence of
  replacements, accepted or not: a datagram from an endpoint is attributed to a neighbour exactly
  when that neighbour is reached at that endpoint.
\<close>

theorem directory_bijective:
  "endpoint_for (run directory_replace batches empty_indexes) node = Some endpoint \<longleftrightarrow>
   neighbor_for_endpoint (run directory_replace batches empty_indexes) endpoint = Some node"
  using directory.inv_run [OF empty_indexes_ok, of batches]
  by (simp add: indexes_ok_def endpoint_for_def neighbor_for_endpoint_def)

definition transit_frame :: bytes where "transit_frame = replicate 1025 7"
definition transit_digest :: "bytes \<Rightarrow> bytes" where "transit_digest frame = replicate 32 (of_nat (length frame))"
definition transit_fragments :: "bytes list" where
  "transit_fragments = the (send_frame_datagrams transit_digest transit_frame)"
definition transit_source :: socket_addr where
  "transit_source = SocketV4 0x0A000001 4000"


lemma transit_fragments_ok:
  "1024 < length transit_frame" "length transit_frame \<le> 65507"
  "send_frame_datagrams transit_digest transit_frame = Some transit_fragments"
  "16 \<le> length (transit_digest transit_frame)" "length transit_fragments = 2"
proof -
  have len: "length transit_frame = 1025" by (simp add: transit_frame_def)
  then show l: "1024 < length transit_frame" "length transit_frame \<le> 65507" by simp_all
  show s: "send_frame_datagrams transit_digest transit_frame = Some transit_fragments"
    unfolding transit_fragments_def by (simp add: send_frame_datagrams_def Let_def len div_ceil_def)
  show "16 \<le> length (transit_digest transit_frame)" by (simp add: transit_digest_def)
  show "length transit_fragments = 2" unfolding send_frame_fragments(1) [OF l s] by (simp add: len div_ceil_def)
qed

lemma ofr_default_room [simp]:
  "am_get (ofr_pending ofr_default) key = None" "prune_expired now ofr_default = ofr_default"
  "n \<le> 65507 \<Longrightarrow> \<not> no_room key n ofr_default"
  by (simp_all add: ofr_default_def prune_expired_def no_room_def)

theorem reassembly_any_order_witness:
  "fst (arrive transit_digest (transit_source, transit_fragments ! 0, 7)
     (run (arrive transit_digest) [(transit_source, transit_fragments ! 1, 3), (transit_source, [1, 2, 3], 5)] ofr_default)) =
    Inr (Some transit_frame)"
proof (rule reassembly_any_order [OF transit_fragments_ok(1-4), where before = "[]" and j = 0 and i = 1])
  let ?key = "\<lparr>ofk_source = transit_source, ofk_digest = overlay_fragment_digest transit_digest transit_frame\<rparr>"
  show "?key = ?key" ..
  show "\<forall>(source', d, t) \<in> set [(transit_source, [1, 2, 3], 5)].
      t < 3 + OVERLAY_FRAGMENT_REASSEMBLY_TIMEOUT \<and> (foreign ?key source' d \<or> source' = transit_source \<and> d \<in> set transit_fragments)"
    by (simp add: foreign_def parse_fragment_def)
  have "arrived transit_source transit_fragments [(transit_source, [1, 2, 3], 5)] = {}"
    using own_arrivals(2) [OF transit_fragments_ok(1-4) refl, where source = transit_source and source' = transit_source
        and d = "[1, 2, 3]" and now = 5 and as = "[]"]
    by (simp add: foreign_def parse_fragment_def arrived_def)
  then show "insert 1 (arrived transit_source transit_fragments [(transit_source, [1, 2, 3], 5)]) = {..<length transit_fragments} - {0}"
    by (auto simp: transit_fragments_ok(5))
qed (use transit_fragments_ok in simp_all)

theorem reassembled_frame_authentic_witness:
  "\<exists>index count payload.
    parse_fragment (transit_fragments ! 1) = Some (index, count, length transit_frame, overlay_fragment_digest transit_digest transit_frame, payload) \<and>
    count = div_ceil (length transit_frame) OVERLAY_FRAGMENT_PAYLOAD_BYTES \<and> index < count \<and>
    MAX_OVERLAY_TRANSIT_DATAGRAM_BYTES < length transit_frame \<and> length transit_frame \<le> MAX_MULTIHOP_FRAME_BYTES"
proof (rule reassembled_frame_authentic)
  let ?key = "\<lparr>ofk_source = transit_source, ofk_digest = overlay_fragment_digest transit_digest transit_frame\<rparr>"
  let ?ra = "snd (push False transit_digest transit_source (transit_fragments ! 0) 0 ofr_default)"
  have "gathering ?key transit_frame (0 + OVERLAY_FRAGMENT_REASSEMBLY_TIMEOUT) {0} ?ra"
    by (rule push_first [OF transit_fragments_ok(1-4) _ ofr_default_inv refl])
      (use transit_fragments_ok in simp_all)
  from push_own(2) [OF transit_fragments_ok(1-4) _ push_inv [OF ofr_default_inv] this, of 1 1]
  have "fst (push False transit_digest transit_source (transit_fragments ! 1) 1 ?ra) = Inr (Some transit_frame)"
    by (auto simp: transit_fragments_ok(5) numeral_2_eq_2 lessThan_Suc insert_commute)
  then show "push False transit_digest transit_source (transit_fragments ! 1) 1 ?ra =
      (Inr (Some transit_frame), snd (push False transit_digest transit_source (transit_fragments ! 1) 1 ?ra))"
    by (metis prod.collapse)
qed

theorem reassembler_bounded_witness:
  "let ra = run (arrive transit_digest) [(transit_source, transit_fragments ! 1, 3)] ofr_default in
   length (ofr_pending ra) \<le> MAX_PENDING_FRAGMENTED_FRAMES \<and> ofr_reserved_bytes ra = pending_bytes (ofr_pending ra)"
  using reassembler_bounded [OF run_in_states [of "arrive transit_digest" "[(transit_source, transit_fragments ! 1, 3)]" ofr_default]]
  unfolding Let_def by blast

end
