(* ===== verification/NatClass.thy ===== *)
theory NatClass
  imports Net Systems "HOL-Library.Multiset"
begin

text \<open>
  Classification of the network address translation in front of a node
  (\<open>crates/ipars-types/src/lib.rs\<close>): the mapping and filtering behaviour derived from STUN
  observations, the traversal strategy, the connectivity state and the declaration of a mapped
  public address. The \<open>f32\<close> confidence of a classification is not modelled: no decision of the
  modelled code reads it.
\<close>

subsection \<open>Observations and behaviours\<close>

record nat_probe_observation =
  npo_local_addr :: socket_addr
  npo_stun_server :: socket_addr
  npo_reflexive_addr :: socket_addr
  npo_observed_at :: time

datatype nat_mapping_behavior =
    MappingUnknown | NoNat | MappingEndpointIndependent | MappingAddressDependent | MappingAddressAndPortDependent

datatype nat_filtering_behavior =
    FilteringUnknown | FilteringEndpointIndependent | FilteringAddressDependent | FilteringAddressAndPortDependent

datatype nat_filtering_probe_kind = SameAddress | ChangePort | ChangeAddressAndPort

record nat_filtering_observation =
  nfo_local_addr :: socket_addr
  nfo_stun_server :: socket_addr
  nfo_probe :: nat_filtering_probe_kind
  nfo_response_origin :: "socket_addr option"
  nfo_other_address :: "socket_addr option"
  nfo_observed_at :: time

datatype nat_traversal_strategy_kind = DirectCandidate | CoordinatedHolePunch | RelayPreferred | InsufficientData

datatype nat_connectivity_state_kind =
    StateUnknown | StatePublic | StateMappedPublic | StatePrivate | StateNat | StateDoubleNat | StateRelayOnly

record nat_classification =
  nc_local_addr :: socket_addr
  nc_mapping_behavior :: nat_mapping_behavior
  nc_filtering_behavior :: nat_filtering_behavior
  nc_observed_endpoint :: "socket_addr option"
  nc_observations :: "nat_probe_observation list"
  nc_filtering_observations :: "nat_filtering_observation list"
  nc_strategy :: nat_traversal_strategy_kind
  nc_connectivity_state :: nat_connectivity_state_kind
  nc_assessed_at :: time

subsection \<open>Classification\<close>

fun same_stun_address_different_port_changes_mapping :: "nat_probe_observation list \<Rightarrow> bool" where
  "same_stun_address_different_port_changes_mapping [] = False"
| "same_stun_address_different_port_changes_mapping (left # rest) =
     (list_ex (\<lambda>right. sa_ip (npo_stun_server left) = sa_ip (npo_stun_server right) \<and>
         sa_port (npo_stun_server left) \<noteq> sa_port (npo_stun_server right) \<and>
         npo_reflexive_addr left \<noteq> npo_reflexive_addr right) rest \<or>
      same_stun_address_different_port_changes_mapping rest)"

definition classify_nat_mapping :: "socket_addr \<Rightarrow> nat_probe_observation list \<Rightarrow> nat_mapping_behavior" where
  "classify_nat_mapping local_addr observations =
     (if observations = [] then MappingUnknown
      else if \<not> is_unspecified (sa_ip local_addr) \<and> list_all (\<lambda>obs. npo_reflexive_addr obs = local_addr) observations
      then NoNat
      else if length observations = 1 then MappingUnknown
      else
        let first_reflexive = npo_reflexive_addr (observations ! 0) in
        if list_all (\<lambda>obs. npo_reflexive_addr obs = first_reflexive) observations then MappingEndpointIndependent
        else if same_stun_address_different_port_changes_mapping observations then MappingAddressAndPortDependent
        else MappingAddressDependent)"

definition stable_observed_endpoint :: "nat_probe_observation list \<Rightarrow> socket_addr option" where
  "stable_observed_endpoint observations =
     (case observations of
        [] \<Rightarrow> None
      | o1 # _ \<Rightarrow>
          let first = npo_reflexive_addr o1 in
          if list_all (\<lambda>obs. npo_reflexive_addr obs = first) observations then Some first else None)"

definition filtering_probe_received :: "nat_filtering_observation list \<Rightarrow> nat_filtering_probe_kind \<Rightarrow> bool" where
  "filtering_probe_received observations probe =
     list_ex (\<lambda>obs. nfo_probe obs = probe \<and> nfo_response_origin obs \<noteq> None) observations"

definition classify_nat_filtering :: "nat_filtering_observation list \<Rightarrow> nat_filtering_behavior" where
  "classify_nat_filtering observations =
     (if observations = [] then FilteringUnknown
      else if filtering_probe_received observations ChangeAddressAndPort then FilteringEndpointIndependent
      else if filtering_probe_received observations ChangePort then FilteringAddressDependent
      else if filtering_probe_received observations SameAddress then FilteringAddressAndPortDependent
      else FilteringUnknown)"

definition nat_traversal_strategy :: "nat_mapping_behavior \<Rightarrow> nat_filtering_behavior \<Rightarrow> nat_traversal_strategy_kind" where
  "nat_traversal_strategy mapping filtering =
     (if mapping = NoNat then DirectCandidate
      else if mapping = MappingAddressAndPortDependent \<or> mapping = MappingUnknown
      then (case mapping of MappingUnknown \<Rightarrow> InsufficientData | _ \<Rightarrow> RelayPreferred)
      else case filtering of
          FilteringAddressAndPortDependent \<Rightarrow> RelayPreferred
        | FilteringEndpointIndependent \<Rightarrow> CoordinatedHolePunch
        | FilteringAddressDependent \<Rightarrow> CoordinatedHolePunch
        | FilteringUnknown \<Rightarrow> InsufficientData)"

definition local_is_private :: "socket_addr \<Rightarrow> bool" where
  "local_is_private local_addr =
     (case sa_ip local_addr of
        V4 ip \<Rightarrow> v4_is_private ip \<or> v4_is_loopback ip \<or> v4_is_link_local ip
      | V6 ip \<Rightarrow> v6_is_loopback ip \<or> v6_is_unique_local ip \<or> v6_is_unicast_link_local ip)"

definition nat_connectivity_state ::
  "socket_addr \<Rightarrow> nat_probe_observation list \<Rightarrow> nat_mapping_behavior \<Rightarrow> nat_traversal_strategy_kind
     \<Rightarrow> nat_connectivity_state_kind" where
  "nat_connectivity_state local_addr observations mapping strategy =
     (if mapping = NoNat then
        (if socket_addr_is_globally_routable local_addr \<and>
            list_all (\<lambda>obs. socket_addr_is_globally_routable (npo_reflexive_addr obs)) observations
         then StatePublic else StatePrivate)
      else if strategy = RelayPreferred then StateRelayOnly
      else if observations = [] then StateUnknown
      else if mapping = MappingUnknown then
        (if list_ex (\<lambda>obs. npo_reflexive_addr obs \<noteq> npo_local_addr obs \<and>
             socket_addr_is_globally_routable (npo_reflexive_addr obs)) observations
         then StateNat else StateUnknown)
      else if local_is_private local_addr \<and> mapping = MappingAddressDependent \<and>
        length (remdups (map npo_reflexive_addr observations)) > 1
      then StateDoubleNat else StateNat)"

definition from_observations_with_filtering ::
  "socket_addr \<Rightarrow> nat_probe_observation list \<Rightarrow> nat_filtering_observation list \<Rightarrow> time \<Rightarrow> nat_classification" where
  "from_observations_with_filtering local_addr observations filtering_observations assessed_at =
     (let mapping = classify_nat_mapping local_addr observations;
          filtering = classify_nat_filtering filtering_observations;
          strategy = nat_traversal_strategy mapping filtering
      in \<lparr>nc_local_addr = local_addr, nc_mapping_behavior = mapping, nc_filtering_behavior = filtering,
          nc_observed_endpoint = stable_observed_endpoint observations, nc_observations = observations,
          nc_filtering_observations = filtering_observations, nc_strategy = strategy,
          nc_connectivity_state = nat_connectivity_state local_addr observations mapping strategy,
          nc_assessed_at = assessed_at\<rparr>)"

definition from_observations :: "socket_addr \<Rightarrow> nat_probe_observation list \<Rightarrow> time \<Rightarrow> nat_classification" where
  "from_observations local_addr observations assessed_at =
     from_observations_with_filtering local_addr observations [] assessed_at"

subsection \<open>Public reachability\<close>

definition public_state_is_supported :: "nat_classification \<Rightarrow> bool" where
  "public_state_is_supported nc =
     (case nc_connectivity_state nc of
        StatePublic \<Rightarrow>
          nc_mapping_behavior nc = NoNat \<and> nc_strategy nc = DirectCandidate \<and>
          socket_addr_is_globally_routable (nc_local_addr nc) \<and>
          nc_observed_endpoint nc = Some (nc_local_addr nc) \<and> nc_observations nc \<noteq> [] \<and>
          list_all (\<lambda>obs. npo_local_addr obs = nc_local_addr nc \<and> npo_reflexive_addr obs = nc_local_addr nc \<and>
            socket_addr_is_globally_routable (npo_reflexive_addr obs)) (nc_observations nc)
      | StateMappedPublic \<Rightarrow>
          (case nc_observed_endpoint nc of
             None \<Rightarrow> False
           | Some observed_endpoint \<Rightarrow>
               nc_mapping_behavior nc = MappingEndpointIndependent \<and>
               \<not> socket_addr_is_globally_routable (nc_local_addr nc) \<and>
               socket_addr_is_globally_routable observed_endpoint \<and>
               sa_ip (nc_local_addr nc) \<noteq> sa_ip observed_endpoint \<and> nc_observations nc \<noteq> [] \<and>
               list_all (\<lambda>obs. npo_local_addr obs = nc_local_addr nc \<and>
                 sa_ip (npo_reflexive_addr obs) = sa_ip observed_endpoint \<and>
                 socket_addr_is_globally_routable (npo_reflexive_addr obs)) (nc_observations nc))
      | _ \<Rightarrow> True)"

definition publicly_reachable_ip :: "nat_classification \<Rightarrow> ip_addr option" where
  "publicly_reachable_ip nc =
     (if \<not> public_state_is_supported nc then None
      else case nc_connectivity_state nc of
          StatePublic \<Rightarrow> Some (sa_ip (nc_local_addr nc))
        | StateMappedPublic \<Rightarrow> map_option sa_ip (nc_observed_endpoint nc)
        | _ \<Rightarrow> None)"

datatype mapped_public_error =
    NotGloballyRoutable ip_addr | NoStableEndpoint | AddressMismatch ip_addr ip_addr | UnsupportedMapping

definition declare_mapped_public_ip ::
  "ip_addr \<Rightarrow> nat_classification \<Rightarrow> (mapped_public_error + unit) \<times> nat_classification" where
  "declare_mapped_public_ip expected_ip nc =
     (let expected_endpoint = sa_new expected_ip 1 in
      if \<not> socket_addr_is_globally_routable expected_endpoint then (Inl (NotGloballyRoutable expected_ip), nc)
      else st_then (ok_or (map_option sa_ip (nc_observed_endpoint nc)) NoStableEndpoint, nc) (\<lambda>observed_ip nc.
        if observed_ip \<noteq> expected_ip then (Inl (AddressMismatch expected_ip observed_ip), nc)
        else
          let previous_state = nc_connectivity_state nc;
              nc = nc\<lparr>nc_connectivity_state := StateMappedPublic\<rparr>
          in if \<not> public_state_is_supported nc
             then (Inl UnsupportedMapping, nc\<lparr>nc_connectivity_state := previous_state\<rparr>)
             else (Inr (), nc)))"

subsection \<open>Lemmas\<close>

text \<open>Two observations that show a mapping depending on the port of the server.\<close>

definition port_sensitive :: "nat_probe_observation \<Rightarrow> nat_probe_observation \<Rightarrow> bool" where
  "port_sensitive left right \<longleftrightarrow>
     sa_ip (npo_stun_server left) = sa_ip (npo_stun_server right) \<and>
     sa_port (npo_stun_server left) \<noteq> sa_port (npo_stun_server right) \<and>
     npo_reflexive_addr left \<noteq> npo_reflexive_addr right"

lemma changes_mapping_iff:
  "same_stun_address_different_port_changes_mapping os \<longleftrightarrow> (\<exists>l \<in> set os. \<exists>r \<in> set os. port_sensitive l r)"
proof (induction os)
  case (Cons obs os)
  have "port_sensitive l r \<longleftrightarrow> port_sensitive r l" "\<not> port_sensitive l l" for l r
    by (auto simp: port_sensitive_def)
  moreover have "same_stun_address_different_port_changes_mapping (obs # os) \<longleftrightarrow>
      (\<exists>r \<in> set os. port_sensitive obs r) \<or> same_stun_address_different_port_changes_mapping os"
    by (simp add: list_ex_iff port_sensitive_def)
  ultimately show ?case unfolding Cons.IH list.set by blast
qed simp

lemma same_set_first:
  assumes "set xs = set ys" and "xs \<noteq> []"
  shows "list_all (\<lambda>obs. f obs = f (xs ! 0)) xs \<longleftrightarrow> list_all (\<lambda>obs. f obs = f (ys ! 0)) ys"
proof -
  have "ys \<noteq> []" using assms by auto
  then have "xs ! 0 \<in> set ys" "ys ! 0 \<in> set xs" using assms nth_mem [of 0 xs] nth_mem [of 0 ys] by auto
  then show ?thesis using assms(1) unfolding list_all_iff by metis
qed

lemma classify_nat_mapping_NoNat:
  "classify_nat_mapping local_addr os = NoNat \<longleftrightarrow>
     os \<noteq> [] \<and> \<not> is_unspecified (sa_ip local_addr) \<and> (\<forall>obs \<in> set os. npo_reflexive_addr obs = local_addr)"
proof -
  have "classify_nat_mapping local_addr os = NoNat \<longleftrightarrow>
      os \<noteq> [] \<and> \<not> is_unspecified (sa_ip local_addr) \<and> list_all (\<lambda>obs. npo_reflexive_addr obs = local_addr) os"
    by (simp add: classify_nat_mapping_def Let_def)
  then show ?thesis by (simp add: list_all_iff)
qed

lemma stable_observed_endpoint_iff:
  "stable_observed_endpoint os = Some e \<longleftrightarrow> os \<noteq> [] \<and> (\<forall>obs \<in> set os. npo_reflexive_addr obs = e)"
proof (cases os)
  case (Cons first rest)
  have "stable_observed_endpoint os = Some e \<longleftrightarrow>
      npo_reflexive_addr first = e \<and> list_all (\<lambda>obs. npo_reflexive_addr obs = e) os"
    by (auto simp: stable_observed_endpoint_def Cons Let_def)
  then show ?thesis by (auto simp: Cons list_all_iff)
qed (simp add: stable_observed_endpoint_def)

lemma declare_cases:
  "declare_mapped_public_ip ip nc = (r, nc') \<Longrightarrow>
     nc' = nc \<and> (\<exists>e. r = Inl e) \<or>
     nc' = nc\<lparr>nc_connectivity_state := StateMappedPublic\<rparr> \<and> public_state_is_supported nc' \<and> r = Inr () \<and>
     publicly_reachable_ip nc' = Some ip"
  by (cases "nc_observed_endpoint nc")
    (auto simp: declare_mapped_public_ip_def Let_def publicly_reachable_ip_def split: if_splits)

lemma declare_supported:
  "public_state_is_supported nc \<Longrightarrow> public_state_is_supported (snd (declare_mapped_public_ip ip nc))"
  using declare_cases [of ip nc] by (metis prod.collapse)

interpretation nat_declare: invariant_system declare_mapped_public_ip public_state_is_supported
  by unfold_locales (rule declare_supported)

lemma connectivity_state_not_public:
  "m \<noteq> NoNat \<Longrightarrow> nat_connectivity_state local_addr os m s \<noteq> StatePublic \<and>
     nat_connectivity_state local_addr os m s \<noteq> StateMappedPublic"
  by (simp add: nat_connectivity_state_def)

lemma from_observations_supported:
  assumes "\<forall>obs \<in> set os. npo_local_addr obs = local_addr"
  shows "public_state_is_supported (from_observations_with_filtering local_addr os fos at)"
proof -
  let ?m = "classify_nat_mapping local_addr os"
  show ?thesis
  proof (cases "?m = NoNat")
    case True
    then have os: "os \<noteq> []" "\<forall>obs \<in> set os. npo_reflexive_addr obs = local_addr"
      by (auto simp: classify_nat_mapping_NoNat)
    then have "stable_observed_endpoint os = Some local_addr" by (simp add: stable_observed_endpoint_iff)
    then show ?thesis
      using True os assms
      by (auto simp: from_observations_with_filtering_def Let_def public_state_is_supported_def
          nat_connectivity_state_def nat_traversal_strategy_def list_all_iff)
  next
    case False
    from connectivity_state_not_public [OF this] show ?thesis
      by (auto simp: from_observations_with_filtering_def Let_def public_state_is_supported_def
          split: nat_connectivity_state_kind.splits)
  qed
qed

lemma supported_reachable:
  assumes "publicly_reachable_ip nc = Some ip"
  shows "ip_addr_is_globally_routable ip \<and> nc_observations nc \<noteq> [] \<and>
    (\<forall>obs \<in> set (nc_observations nc). sa_ip (npo_reflexive_addr obs) = ip)"
  using assms
  by (auto simp: publicly_reachable_ip_def public_state_is_supported_def list_all_iff
      socket_addr_is_globally_routable_def split: if_splits nat_connectivity_state_kind.splits option.splits)

subsection \<open>Properties\<close>


text \<open>
  The mapping classification does not depend on the order in which the servers were asked, and
  it is port dependent exactly when more than one reflexive address was seen and two of the
  observations, made from the same server address at different ports, disagree.
\<close>

theorem nat_mapping_order_independent:
  assumes "mset os = mset os'"
  shows "classify_nat_mapping local_addr os = classify_nat_mapping local_addr os' \<and>
    (classify_nat_mapping local_addr os = MappingAddressAndPortDependent \<longleftrightarrow>
       (\<exists>l \<in> set os. \<exists>r \<in> set os. port_sensitive l r))"
proof -
  have set: "set os = set os'" and len: "length os = length os'"
    using assms by (metis set_mset_mset, metis size_mset)
  have "classify_nat_mapping local_addr os = classify_nat_mapping local_addr os'"
  proof (cases "os = []")
    case False
    then show ?thesis
      using set len same_set_first [OF set False, of npo_reflexive_addr]
      unfolding classify_nat_mapping_def Let_def changes_mapping_iff
      by (auto simp: list_all_iff [where P = "\<lambda>obs. npo_reflexive_addr obs = local_addr"])
  qed (use len in simp)
  moreover have "classify_nat_mapping local_addr os = MappingAddressAndPortDependent"
    if "l \<in> set os" "r \<in> set os" "port_sensitive l r" for l r
  proof -
    have ne: "npo_reflexive_addr l \<noteq> npo_reflexive_addr r" "l \<noteq> r" using that(3) by (auto simp: port_sensitive_def)
    then have "length os \<noteq> 1" using that by (auto simp: length_Suc_conv)
    moreover have "\<not> list_all (\<lambda>obs. npo_reflexive_addr obs = a) os" for a
      using that ne(1) unfolding list_all_iff by metis
    ultimately show ?thesis
      using that by (auto simp: classify_nat_mapping_def Let_def changes_mapping_iff)
  qed
  ultimately show ?thesis
    by (auto simp: classify_nat_mapping_def Let_def changes_mapping_iff split: if_splits)
qed

definition sample_observation :: "u16 \<Rightarrow> u16 \<Rightarrow> nat_probe_observation" where
  "sample_observation server_port reflexive_port =
     \<lparr>npo_local_addr = SocketV4 0x0a000001 5000, npo_stun_server = SocketV4 0x08080808 server_port,
      npo_reflexive_addr = SocketV4 0x01020304 reflexive_port, npo_observed_at = 0\<rparr>"


end
