(* ===== verification/Tokens.thy ===== *)
theory Tokens
  imports Overlay Systems
begin

text \<open>
  Join tokens (\<open>crates/ipars-types/src/lib.rs\<close>): the shape checks of the claims, among them the
  allowed routes; the canonical text of a signature; and the ledger record of a token with its
  status and metrics. Base64 (\<open>base64\<close> crate) and CIDR arithmetic (\<open>ipnet\<close> crate) are
  parameters; \<open>ipnet_laws\<close> states what the \<open>ipnet\<close> documentation promises.
\<close>

subsection \<open>Claims\<close>

definition MAX_JOIN_TOKEN_TAGS :: nat where [simp]: "MAX_JOIN_TOKEN_TAGS = 64"
definition MAX_JOIN_TOKEN_ALLOWED_ROUTES :: nat where [simp]: "MAX_JOIN_TOKEN_ALLOWED_ROUTES = 256"
definition MAX_JOIN_TOKEN_TTL_SECONDS :: int where [simp]: "MAX_JOIN_TOKEN_TTL_SECONDS = 30 * 24 * 60 * 60"
definition JOIN_TOKEN_NOT_BEFORE_SKEW_SECONDS :: int where [simp]: "JOIN_TOKEN_NOT_BEFORE_SKEW_SECONDS = 5"
definition MAX_JOIN_TOKEN_VALIDITY_SECONDS :: int where
  [simp]: "MAX_JOIN_TOKEN_VALIDITY_SECONDS = MAX_JOIN_TOKEN_TTL_SECONDS + JOIN_TOKEN_NOT_BEFORE_SKEW_SECONDS"

record join_token_claims =
  jt_cluster_id :: rstring
  jt_bootstrap_endpoints :: "bootstrap_endpoint list"
  jt_expires_at :: time
  jt_not_before :: time
  jt_role :: rstring
  jt_tags :: "rstring list"
  jt_issuer :: node_id
  jt_key_id :: rstring
  jt_policy :: token_policy
  jt_nonce :: rstring

datatype join_token_claims_error =
    ClaimEmpty string
  | ClaimTooLong string
  | ClaimCharacters string
  | TooManyTags string nat
  | TooManyRoutes nat
  | RestrictedRoute nat string
  | NonCanonicalRoute nat
  | DuplicateRoute nat
  | OverlappingRoute nat
  | EmptyValidity
  | ValidityTooLong
  | BootstrapInvalid bootstrap_error

definition is_time_valid :: "join_token_claims \<Rightarrow> time \<Rightarrow> bool" where
  "is_time_valid claims now \<longleftrightarrow> now \<ge> jt_not_before claims \<and> now < jt_expires_at claims"

definition validate_join_token_claim_identifier :: "rstring \<Rightarrow> string \<Rightarrow> join_token_claims_error + unit" where
  "validate_join_token_claim_identifier value label =
     (if value = [] then Inl (ClaimEmpty label)
      else if length value > MAX_JOIN_TOKEN_IDENTIFIER_BYTES then Inl (ClaimTooLong label)
      else if \<not> list_all identifier_byte value then Inl (ClaimCharacters label)
      else Inr ())"

definition validate_join_token_claim_tags :: "rstring list \<Rightarrow> string \<Rightarrow> join_token_claims_error + unit" where
  "validate_join_token_claim_tags tags label =
     (if length tags > MAX_JOIN_TOKEN_TAGS then Inl (TooManyTags label (length tags))
      else each (\<lambda>tag. validate_join_token_claim_identifier tag label) tags)"

definition join_token_ipv4_route_cidrs_overlap :: "net_libs \<Rightarrow> ip_net \<Rightarrow> ip_net \<Rightarrow> bool" where
  "join_token_ipv4_route_cidrs_overlap libs left right \<longleftrightarrow>
     net_contains libs left (net_network libs right) \<or> net_contains libs left (net_broadcast libs right) \<or>
     net_contains libs right (net_network libs left) \<or> net_contains libs right (net_broadcast libs left)"

definition join_token_ipv6_route_cidrs_overlap :: "net_libs \<Rightarrow> ip_net \<Rightarrow> ip_net \<Rightarrow> bool" where
  "join_token_ipv6_route_cidrs_overlap libs left right \<longleftrightarrow>
     net_contains libs left (net_network libs right) \<or> net_contains libs left (net_broadcast libs right) \<or>
     net_contains libs right (net_network libs left) \<or> net_contains libs right (net_broadcast libs left)"

definition join_token_route_cidrs_overlap :: "net_libs \<Rightarrow> ip_net \<Rightarrow> ip_net \<Rightarrow> bool" where
  "join_token_route_cidrs_overlap libs left right =
     (if is_v4_net left \<and> is_v4_net right then join_token_ipv4_route_cidrs_overlap libs left right
      else if \<not> is_v4_net left \<and> \<not> is_v4_net right then join_token_ipv6_route_cidrs_overlap libs left right
      else False)"

definition restricted_ipv4_routes :: "(ip_net \<times> string) list" where
  "restricted_ipv4_routes =
     [(\<lparr>net_addr = V4 0, net_prefix_len = 8\<rparr>, ''unspecified''),
      (\<lparr>net_addr = V4 0x7f000000, net_prefix_len = 8\<rparr>, ''loopback''),
      (\<lparr>net_addr = V4 0xa9fe0000, net_prefix_len = 16\<rparr>, ''link-local''),
      (\<lparr>net_addr = V4 0xe0000000, net_prefix_len = 4\<rparr>, ''multicast''),
      (\<lparr>net_addr = V4 0xffffffff, net_prefix_len = 32\<rparr>, ''broadcast'')]"

definition restricted_ipv6_routes :: "(ip_net \<times> string) list" where
  "restricted_ipv6_routes =
     [(\<lparr>net_addr = V6 0, net_prefix_len = 128\<rparr>, ''unspecified''),
      (\<lparr>net_addr = V6 1, net_prefix_len = 128\<rparr>, ''loopback''),
      (\<lparr>net_addr = V6 0xfe800000000000000000000000000000, net_prefix_len = 10\<rparr>, ''link-local''),
      (\<lparr>net_addr = V6 0xff000000000000000000000000000000, net_prefix_len = 8\<rparr>, ''multicast'')]"

definition restricted_join_token_ipv4_route_cidr_reason :: "net_libs \<Rightarrow> ip_net \<Rightarrow> string option" where
  "restricted_join_token_ipv4_route_cidr_reason libs network =
     map_option snd (find (\<lambda>(restricted, reason). join_token_ipv4_route_cidrs_overlap libs network restricted)
       restricted_ipv4_routes)"

definition restricted_join_token_ipv6_route_cidr_reason :: "net_libs \<Rightarrow> ip_net \<Rightarrow> string option" where
  "restricted_join_token_ipv6_route_cidr_reason libs network =
     map_option snd (find (\<lambda>(restricted, reason). join_token_ipv6_route_cidrs_overlap libs network restricted)
       restricted_ipv6_routes)"

definition restricted_join_token_route_cidr_reason :: "net_libs \<Rightarrow> ip_net \<Rightarrow> string option" where
  "restricted_join_token_route_cidr_reason libs cidr =
     (if net_prefix_len cidr = 0 then Some ''unrestricted''
      else case net_addr cidr of
          V4 _ \<Rightarrow> restricted_join_token_ipv4_route_cidr_reason libs cidr
        | V6 _ \<Rightarrow> restricted_join_token_ipv6_route_cidr_reason libs cidr)"

fun allowed_routes_loop :: "net_libs \<Rightarrow> nat \<Rightarrow> ip_net list \<Rightarrow> ip_net list \<Rightarrow> join_token_claims_error + unit" where
  "allowed_routes_loop libs index accepted [] = Inr ()"
| "allowed_routes_loop libs index accepted (route # routes) =
     (case restricted_join_token_route_cidr_reason libs route of
        Some reason \<Rightarrow> Inl (RestrictedRoute index reason)
      | None \<Rightarrow>
          let canonical = net_trunc libs route in
          if route \<noteq> canonical then Inl (NonCanonicalRoute index)
          else if canonical \<in> set accepted then Inl (DuplicateRoute index)
          else if list_ex (\<lambda>existing. join_token_route_cidrs_overlap libs existing canonical) accepted
          then Inl (OverlappingRoute index)
          else allowed_routes_loop libs (index + 1) (accepted @ [canonical]) routes)"

definition validate_join_token_allowed_routes :: "net_libs \<Rightarrow> ip_net list \<Rightarrow> join_token_claims_error + unit" where
  "validate_join_token_allowed_routes libs routes =
     (if length routes > MAX_JOIN_TOKEN_ALLOWED_ROUTES then Inl (TooManyRoutes (length routes))
      else allowed_routes_loop libs 0 [] routes)"

definition claims_validate_bootstrap_endpoints :: "net_libs \<Rightarrow> join_token_claims \<Rightarrow> bootstrap_error + unit" where
  "claims_validate_bootstrap_endpoints libs claims =
     validate_join_token_bootstrap_endpoints libs (jt_bootstrap_endpoints claims)"

definition claims_validate_shape :: "net_libs \<Rightarrow> join_token_claims \<Rightarrow> join_token_claims_error + unit" where
  "claims_validate_shape libs claims =
     and_then (validate_join_token_claim_identifier (jt_cluster_id claims) ''cluster ID'') (\<lambda>_.
     and_then (validate_join_token_claim_identifier (jt_issuer claims) ''issuer node ID'') (\<lambda>_.
     and_then (validate_join_token_claim_identifier (jt_key_id claims) ''issuer key ID'') (\<lambda>_.
     and_then (validate_join_token_claim_identifier (jt_role claims) ''role'') (\<lambda>_.
     and_then (validate_join_token_claim_identifier (jt_nonce claims) ''nonce'') (\<lambda>_.
     and_then (validate_join_token_claim_tags (jt_tags claims) ''tag'') (\<lambda>_.
     and_then (validate_join_token_claim_tags (tp_allowed_tags (jt_policy claims)) ''policy allowed tag'') (\<lambda>_.
     and_then (validate_join_token_allowed_routes libs (tp_allowed_routes (jt_policy claims))) (\<lambda>_.
     if jt_expires_at claims \<le> jt_not_before claims then Inl EmptyValidity
     else if jt_expires_at claims - jt_not_before claims > MAX_JOIN_TOKEN_VALIDITY_SECONDS * 1000000000
     then Inl ValidityTooLong
     else map_err BootstrapInvalid (claims_validate_bootstrap_endpoints libs claims)))))))))"

subsection \<open>Signatures\<close>

definition ED25519_SIGNATURE_BYTES :: nat where [simp]: "ED25519_SIGNATURE_BYTES = 64"
definition ED25519_SIGNATURE_BASE64_BYTES :: nat where [simp]: "ED25519_SIGNATURE_BASE64_BYTES = 88"

text \<open>The \<open>STANDARD\<close> engine of the \<open>base64\<close> crate.\<close>

record base64_lib =
  b64_decode :: "rstring \<Rightarrow> bytes option"
  b64_encode :: "bytes \<Rightarrow> rstring"

datatype signature_error = SignatureTextLength | SignatureBase64 | SignatureLength nat | SignatureNotCanonical

definition decode_ed25519_signature :: "base64_lib \<Rightarrow> rstring \<Rightarrow> signature_error + bytes" where
  "decode_ed25519_signature b64 value =
     (if length value \<noteq> ED25519_SIGNATURE_BASE64_BYTES then Inl SignatureTextLength
      else and_then (ok_or (b64_decode b64 value) SignatureBase64) (\<lambda>decoded.
        if length decoded \<noteq> ED25519_SIGNATURE_BYTES then Inl (SignatureLength (length decoded))
        else if b64_encode b64 decoded \<noteq> value then Inl SignatureNotCanonical
        else Inr decoded))"

record signed_join_token =
  sjt_claims :: join_token_claims
  sjt_signature :: rstring

datatype signed_join_token_error = TokenSignature signature_error | TokenClaims join_token_claims_error

definition signature_bytes :: "base64_lib \<Rightarrow> signed_join_token \<Rightarrow> signed_join_token_error + bytes" where
  "signature_bytes b64 token = map_err TokenSignature (decode_ed25519_signature b64 (sjt_signature token))"

definition signed_validate_shape ::
  "net_libs \<Rightarrow> base64_lib \<Rightarrow> signed_join_token \<Rightarrow> signed_join_token_error + unit" where
  "signed_validate_shape libs b64 token =
     and_then (signature_bytes b64 token) (\<lambda>_. map_err TokenClaims (claims_validate_shape libs (sjt_claims token)))"

subsection \<open>The ledger record\<close>

datatype token_status = Active | Revoked | Expired | Exhausted

record token_ledger_record =
  tl_cluster_id :: rstring
  tl_nonce :: rstring
  tl_token_claims :: "join_token_claims option"
  tl_issuer :: node_id
  tl_key_id :: rstring
  tl_role :: rstring
  tl_tags :: "rstring list"
  tl_expires_at :: time
  tl_max_uses :: "u32 option"
  tl_uses :: u32
  tl_revoked_at :: "time option"
  tl_created_at :: time

definition ledger_from_claims :: "join_token_claims \<Rightarrow> time \<Rightarrow> token_ledger_record" where
  "ledger_from_claims claims created_at =
     \<lparr>tl_cluster_id = jt_cluster_id claims, tl_nonce = jt_nonce claims, tl_token_claims = Some claims,
      tl_issuer = jt_issuer claims, tl_key_id = jt_key_id claims, tl_role = jt_role claims,
      tl_tags = jt_tags claims, tl_expires_at = jt_expires_at claims,
      tl_max_uses = tp_max_token_uses (jt_policy claims), tl_uses = 0, tl_revoked_at = None,
      tl_created_at = created_at\<rparr>"

definition ledger_status :: "token_ledger_record \<Rightarrow> time \<Rightarrow> token_status" where
  "ledger_status rec now =
     (if tl_revoked_at rec \<noteq> None then Revoked
      else if now \<ge> tl_expires_at rec then Expired
      else if (case tl_max_uses rec of None \<Rightarrow> False | Some max_uses \<Rightarrow> tl_uses rec \<ge> max_uses) then Exhausted
      else Active)"

definition remaining_uses :: "token_ledger_record \<Rightarrow> u32 option" where
  "remaining_uses rec = map_option (\<lambda>max_uses. saturating_sub max_uses (tl_uses rec)) (tl_max_uses rec)"

definition has_same_definition :: "token_ledger_record \<Rightarrow> token_ledger_record \<Rightarrow> bool" where
  "has_same_definition rec other \<longleftrightarrow>
     (tl_cluster_id rec = tl_cluster_id other \<and> tl_nonce rec = tl_nonce other \<and>
      tl_issuer rec = tl_issuer other \<and> tl_key_id rec = tl_key_id other \<and> tl_role rec = tl_role other \<and>
      tl_tags rec = tl_tags other \<and> tl_expires_at rec = tl_expires_at other \<and>
      tl_max_uses rec = tl_max_uses other) \<and>
     (case (tl_token_claims rec, tl_token_claims other) of
        (Some stored, Some requested) \<Rightarrow> stored = requested
      | _ \<Rightarrow> True)"

record token_ledger_metrics =
  tm_issued_count :: u64
  tm_active_count :: u64
  tm_revoked_count :: u64
  tm_expired_count :: u64
  tm_exhausted_count :: u64
  tm_use_count :: u64

definition metrics_default :: token_ledger_metrics where
  "metrics_default =
     \<lparr>tm_issued_count = 0, tm_active_count = 0, tm_revoked_count = 0, tm_expired_count = 0,
      tm_exhausted_count = 0, tm_use_count = 0\<rparr>"

definition observe_record :: "token_ledger_record \<Rightarrow> time \<Rightarrow> token_ledger_metrics \<Rightarrow> token_ledger_metrics" where
  "observe_record rec now m =
     (let m = m\<lparr>tm_issued_count := saturating_add (tm_issued_count m) 1\<rparr>;
          m = m\<lparr>tm_use_count := saturating_add (tm_use_count m) (ucast (tl_uses rec))\<rparr>
      in case ledger_status rec now of
          Active \<Rightarrow> m\<lparr>tm_active_count := saturating_add (tm_active_count m) 1\<rparr>
        | Revoked \<Rightarrow> m\<lparr>tm_revoked_count := saturating_add (tm_revoked_count m) 1\<rparr>
        | Expired \<Rightarrow> m\<lparr>tm_expired_count := saturating_add (tm_expired_count m) 1\<rparr>
        | Exhausted \<Rightarrow> m\<lparr>tm_exhausted_count := saturating_add (tm_exhausted_count m) 1\<rparr>)"

definition observe_revocation_tombstone :: "token_ledger_metrics \<Rightarrow> token_ledger_metrics" where
  "observe_revocation_tombstone m =
     m\<lparr>tm_issued_count := saturating_add (tm_issued_count m) 1,
       tm_revoked_count := saturating_add (tm_revoked_count m) 1\<rparr>"

subsection \<open>CIDR arithmetic\<close>

text \<open>What the \<open>ipnet\<close> crate documents about the operations the checks use.\<close>

definition ipnet_laws :: "net_libs \<Rightarrow> bool" where
  "ipnet_laws libs \<longleftrightarrow>
     net_trunc libs = (\<lambda>net. net\<lparr>net_addr := cidr_network net\<rparr>) \<and> net_contains libs = cidr_contains \<and>
     net_network libs = cidr_network \<and> net_broadcast libs = cidr_broadcast"

lemma cidr_network_bits:
  assumes "addr_bits (net_addr net) = (width, base)"
  shows "addr_bits (cidr_network net) =
    (width, base div 2 ^ (width - net_prefix_len net) * 2 ^ (width - net_prefix_len net))"
proof -
  let ?h = "2 ^ (width - net_prefix_len net) :: nat"
  have less: "base < 2 ^ width"
  proof (cases "net_addr net")
    case (V4 ip)
    then show ?thesis using assms unat_less_exp [of ip] by auto
  next
    case (V6 ip)
    then show ?thesis using assms unat_less_exp [of ip] by auto
  qed
  define n where "n = base div ?h * ?h"
  have "n \<le> base" by (simp add: n_def)
  then have "n < 2 ^ width" using less by linarith
  moreover have "width = (case net_addr net of V4 _ \<Rightarrow> 32 | V6 _ \<Rightarrow> 128)"
    using assms by (cases "net_addr net") auto
  ultimately show ?thesis
    unfolding cidr_network_def assms Let_def prod.case n_def [symmetric]
    by (cases "net_addr net") (auto simp: unsigned_of_nat take_bit_eq_mod)
qed

lemma div_chain: "hr dvd hl \<Longrightarrow> 0 < hr \<Longrightarrow> (x div hr * hr) div hl = x div (hl :: nat)"
proof (elim dvdE)
  fix k assume "0 < hr" "hl = hr * k"
  then show ?thesis by (simp only: div_mult2_eq nonzero_mult_div_cancel_right)
qed

lemma cidr_laminar_le:
  assumes "cidr_contains l a" and "cidr_contains r a" and "net_prefix_len l \<le> net_prefix_len r"
  shows "cidr_contains l (cidr_network r)"
proof -
  obtain w bl where l: "addr_bits (net_addr l) = (w, bl)" by (cases "addr_bits (net_addr l)") auto
  obtain wr br where r: "addr_bits (net_addr r) = (wr, br)" by (cases "addr_bits (net_addr r)") auto
  obtain wa va where a: "addr_bits a = (wa, va)" by (cases "addr_bits a") auto
  let ?hl = "2 ^ (w - net_prefix_len l) :: nat" and ?hr = "2 ^ (w - net_prefix_len r) :: nat"
  from assms(1,2) have eq: "wa = w" "wr = w" "va div ?hl = bl div ?hl" "va div ?hr = br div ?hr"
    by (auto simp: cidr_contains_def l r a Let_def)
  have "?hr dvd ?hl" using assms(3) by (intro le_imp_power_dvd) simp
  then have "(br div ?hr * ?hr) div ?hl = bl div ?hl"
    using eq div_chain [of ?hr ?hl va] by simp
  then show ?thesis
    using cidr_network_bits [OF r] eq by (simp add: cidr_contains_def l Let_def)
qed

lemma cidr_laminar:
  "cidr_contains l a \<Longrightarrow> cidr_contains r a \<Longrightarrow> cidr_contains l (cidr_network r) \<or> cidr_contains r (cidr_network l)"
  using cidr_laminar_le [of l a r] cidr_laminar_le [of r a l] by linarith

lemma cidr_same_family: "cidr_contains l a \<Longrightarrow> cidr_contains r a \<Longrightarrow> is_v4_net l = is_v4_net r"
  by (cases "net_addr l"; cases "net_addr r"; cases a) (auto simp: cidr_contains_def is_v4_net_def Let_def)

lemma overlap_if_common:
  assumes "ipnet_laws libs" and "cidr_contains l a" and "cidr_contains r a"
  shows "join_token_route_cidrs_overlap libs l r" and "join_token_ipv4_route_cidrs_overlap libs l r"
    and "join_token_ipv6_route_cidrs_overlap libs l r"
    and "aggregate_overlay_route_cidrs_overlap libs l r"
  using assms cidr_laminar [OF assms(2,3)] cidr_same_family [OF assms(2,3)]
  by (auto simp: ipnet_laws_def join_token_route_cidrs_overlap_def join_token_ipv4_route_cidrs_overlap_def
      join_token_ipv6_route_cidrs_overlap_def aggregate_overlay_route_cidrs_overlap_def)

subsection \<open>Accepted claims\<close>

lemma allowed_routes_loop_ok:
  assumes "allowed_routes_loop libs index accepted routes = Inr u"
    and "sorted_wrt (\<lambda>a b. \<not> join_token_route_cidrs_overlap libs a b) accepted"
  shows "sorted_wrt (\<lambda>a b. \<not> join_token_route_cidrs_overlap libs a b) (accepted @ routes) \<and>
    (\<forall>r \<in> set routes. restricted_join_token_route_cidr_reason libs r = None \<and> net_trunc libs r = r)"
  using assms
proof (induction routes arbitrary: accepted index)
  case (Cons r routes)
  then have r: "restricted_join_token_route_cidr_reason libs r = None" "net_trunc libs r = r"
    "\<not> list_ex (\<lambda>existing. join_token_route_cidrs_overlap libs existing r) accepted"
    and rest: "allowed_routes_loop libs (index + 1) (accepted @ [r]) routes = Inr u"
    by (auto simp: Let_def split: option.splits if_splits)
  have "sorted_wrt (\<lambda>a b. \<not> join_token_route_cidrs_overlap libs a b) (accepted @ [r])"
    using Cons.prems(2) r(3) by (auto simp: sorted_wrt_append list_ex_iff)
  from Cons.IH [OF rest this] r show ?case by simp
qed simp

lemma restricted_families:
  "(net, reason) \<in> set restricted_ipv4_routes \<Longrightarrow> is_v4_net net"
  "(net, reason) \<in> set restricted_ipv6_routes \<Longrightarrow> \<not> is_v4_net net"
  by (auto simp: restricted_ipv4_routes_def restricted_ipv6_routes_def is_v4_net_def)

lemma restricted_reason_None:
  assumes "restricted_join_token_route_cidr_reason libs r = None"
  shows "is_v4_net r \<Longrightarrow> (net, reason) \<in> set restricted_ipv4_routes \<Longrightarrow>
      \<not> join_token_ipv4_route_cidrs_overlap libs r net"
    and "\<not> is_v4_net r \<Longrightarrow> (net, reason) \<in> set restricted_ipv6_routes \<Longrightarrow>
      \<not> join_token_ipv6_route_cidrs_overlap libs r net"
  using assms
  by (cases "net_addr r"; force simp: restricted_join_token_route_cidr_reason_def is_v4_net_def find_None_iff
      restricted_join_token_ipv4_route_cidr_reason_def restricted_join_token_ipv6_route_cidr_reason_def split: if_splits)+

lemma unrestricted_route:
  assumes "ipnet_laws libs" and "restricted_join_token_route_cidr_reason libs r = None"
    and "cidr_contains r ip" and "(net, reason) \<in> set restricted_ipv4_routes \<union> set restricted_ipv6_routes"
  shows "\<not> cidr_contains net ip"
proof
  assume c: "cidr_contains net ip"
  have fam: "is_v4_net r = is_v4_net net" using cidr_same_family [OF assms(3) c] .
  from assms(4) show False
  proof
    assume "(net, reason) \<in> set restricted_ipv4_routes"
    then show False
      using fam restricted_families(1) restricted_reason_None(1) [OF assms(2)] overlap_if_common(2) [OF assms(1,3) c] by blast
  next
    assume "(net, reason) \<in> set restricted_ipv6_routes"
    then show False
      using fam restricted_families(2) restricted_reason_None(2) [OF assms(2)] overlap_if_common(3) [OF assms(1,3) c] by blast
  qed
qed

lemma claim_identifier_ok [result_simps]:
  "validate_join_token_claim_identifier value label = Inr u \<longleftrightarrow> overlay_identifier value"
  by (auto simp: validate_join_token_claim_identifier_def overlay_identifier_def)

lemma claims_validate_shape_ok:
  assumes "claims_validate_shape libs claims = Inr u"
  shows "\<forall>name \<in> {jt_cluster_id claims, jt_issuer claims, jt_key_id claims, jt_role claims, jt_nonce claims}.
      overlay_identifier name"
    and "jt_not_before claims < jt_expires_at claims"
    and "jt_expires_at claims - jt_not_before claims \<le> MAX_JOIN_TOKEN_VALIDITY_SECONDS * 1000000000"
    and "allowed_routes_loop libs 0 [] (tp_allowed_routes (jt_policy claims)) = Inr ()"
  using assms
  by (auto simp: claims_validate_shape_def result_simps validate_join_token_allowed_routes_def split: if_splits)

subsection \<open>Properties of claims and signatures\<close>


text \<open>
  A signature has one text only: two texts that decode to the same signature are equal, and
  the signature has 64 bytes. A signed token cannot be rewritten into a different token text with
  the same signature.
\<close>

theorem signature_text_unique:
  assumes "decode_ed25519_signature b64 value = Inr signature"
  shows "length signature = 64 \<and> value = b64_encode b64 signature \<and>
    (\<forall>value'. decode_ed25519_signature b64 value' = Inr signature \<longrightarrow> value' = value)"
  using assms by (auto simp: decode_ed25519_signature_def result_simps split: if_splits)

subsection \<open>Properties of the ledger\<close>

lemma saturating_count:
  "unat (c :: u64) = min n (2 ^ 64 - 1) \<Longrightarrow> unat (saturating_add c d) = min (n + unat d) (2 ^ 64 - 1)"
  by (auto simp: unat_saturating_add)

text \<open>What the metrics count: records, or the tombstones of revoked tokens without a record.\<close>

definition observe_all :: "token_ledger_record option list \<Rightarrow> time \<Rightarrow> token_ledger_metrics \<Rightarrow> token_ledger_metrics" where
  "observe_all entries now m =
     fold (\<lambda>e m. case e of Some rec \<Rightarrow> observe_record rec now m | None \<Rightarrow> observe_revocation_tombstone m) entries m"

definition entry_status :: "time \<Rightarrow> token_ledger_record option \<Rightarrow> token_status" where
  "entry_status now e = (case e of None \<Rightarrow> Revoked | Some rec \<Rightarrow> ledger_status rec now)"

definition entry_uses :: "token_ledger_record option \<Rightarrow> nat" where
  "entry_uses e = (case e of None \<Rightarrow> 0 | Some rec \<Rightarrow> unat (tl_uses rec))"

text \<open>The counters of a ledger, computed without bounds.\<close>

definition metrics_of :: "token_ledger_record option list \<Rightarrow> time \<Rightarrow> token_ledger_metrics \<Rightarrow> bool" where
  "metrics_of entries now m \<longleftrightarrow>
     (let count = (\<lambda>s. length (filter (\<lambda>e. entry_status now e = s) entries)); cap = (\<lambda>n. min n (2 ^ 64 - 1)) in
      unat (tm_issued_count m) = cap (length entries) \<and> unat (tm_active_count m) = cap (count Active) \<and>
      unat (tm_revoked_count m) = cap (count Revoked) \<and> unat (tm_expired_count m) = cap (count Expired) \<and>
      unat (tm_exhausted_count m) = cap (count Exhausted) \<and>
      unat (tm_use_count m) = cap (sum_list (map entry_uses entries)))"

lemma metrics_of_step:
  assumes "metrics_of entries now m"
  shows "metrics_of (entries @ [Some rec]) now (observe_record rec now m)"
    and "metrics_of (entries @ [None]) now (observe_revocation_tombstone m)"
proof -
  have u: "unat (ucast (tl_uses rec) :: u64) = unat (tl_uses rec)"
    by (simp add: unsigned_ucast_eq take_bit_nat_eq_self unsigned_less order_less_trans [OF unsigned_less])
  show "metrics_of (entries @ [Some rec]) now (observe_record rec now m)"
    using assms u unfolding metrics_of_def Let_def observe_record_def
    by (cases "ledger_status rec now")
      (simp_all add: saturating_count entry_status_def entry_uses_def)
  show "metrics_of (entries @ [None]) now (observe_revocation_tombstone m)"
    using assms unfolding metrics_of_def Let_def observe_revocation_tombstone_def
    by (simp add: saturating_count entry_status_def entry_uses_def)
qed

text \<open>
  The ledger metrics count what they name: after observing any entries, every counter is the
  number of records with that status (or the number of uses), capped at the largest 64-bit value,
  and as long as the ledger has fewer than \<open>2\<^sup>64\<close> entries the four statuses add up to the issued
  tokens.
\<close>

theorem ledger_metrics_count:
  "metrics_of entries now (observe_all entries now metrics_default) \<and>
   (length entries < 2 ^ 64 \<longrightarrow>
      (let m = observe_all entries now metrics_default in
       unat (tm_issued_count m) =
         unat (tm_active_count m) + unat (tm_revoked_count m) + unat (tm_expired_count m) + unat (tm_exhausted_count m)))"
proof -
  have all: "metrics_of entries now (observe_all entries now metrics_default)"
  proof (induction entries rule: rev_induct)
    case Nil
    then show ?case by (simp add: metrics_of_def observe_all_def metrics_default_def)
  next
    case (snoc e entries)
    have "observe_all (entries @ [e]) now metrics_default =
        (case e of Some rec \<Rightarrow> observe_record rec now (observe_all entries now metrics_default)
         | None \<Rightarrow> observe_revocation_tombstone (observe_all entries now metrics_default))"
      by (cases e) (simp_all add: observe_all_def)
    then show ?case using metrics_of_step [OF snoc.IH] by (cases e) simp_all
  qed
  have sum: "length entries = length (filter (\<lambda>e. entry_status now e = Active) entries) +
      length (filter (\<lambda>e. entry_status now e = Revoked) entries) +
      length (filter (\<lambda>e. entry_status now e = Expired) entries) +
      length (filter (\<lambda>e. entry_status now e = Exhausted) entries)"
  proof (induction entries)
    case (Cons e entries)
    then show ?case by (cases "entry_status now e") simp_all
  qed simp
  have cap: "n \<le> length entries \<Longrightarrow> length entries < 2 ^ 64 \<Longrightarrow> min n (2 ^ 64 - 1) = n" for n :: nat
    by linarith
  have "let m = observe_all entries now metrics_default in
      unat (tm_issued_count m) =
        unat (tm_active_count m) + unat (tm_revoked_count m) + unat (tm_expired_count m) + unat (tm_exhausted_count m)"
    if "length entries < 2 ^ 64"
    using all unfolding metrics_of_def Let_def
    by (simp only: cap [OF order_refl that] cap [OF length_filter_le that]) (rule sum)
  with all show ?thesis by blast
qed

definition sample_routes :: "ip_net list" where
  "sample_routes =
     [\<lparr>net_addr = V4 0x0a000000, net_prefix_len = 8\<rparr>, \<lparr>net_addr = V4 0xc0a80000, net_prefix_len = 16\<rparr>]"

definition sample_claims :: join_token_claims where
  "sample_claims =
     \<lparr>jt_cluster_id = str ''c'', jt_bootstrap_endpoints = [], jt_expires_at = 60000000000, jt_not_before = 0,
      jt_role = str ''edge'', jt_tags = [], jt_issuer = str ''n'', jt_key_id = str ''k'',
      jt_policy = token_policy_default\<lparr>tp_allowed_routes := sample_routes\<rparr>,
      jt_nonce = str ''x''\<rparr>"

lemma sample_claims_ok: "claims_validate_shape sample_libs sample_claims = Inr ()"
proof -
  have "allowed_routes_loop sample_libs 0 [] sample_routes = Inr ()"
    by (simp add: sample_routes_def restricted_join_token_route_cidr_reason_def
      restricted_join_token_ipv4_route_cidr_reason_def restricted_ipv4_routes_def
      join_token_ipv4_route_cidrs_overlap_def sample_libs_def cidr_contains_def cidr_network_def cidr_broadcast_def
      join_token_route_cidrs_overlap_def is_v4_net_def Let_def)
  then have "validate_join_token_allowed_routes sample_libs sample_routes = Inr ()"
    by (simp add: validate_join_token_allowed_routes_def) (simp add: sample_routes_def)
  moreover have "validate_join_token_claim_identifier (str name) label = Inr ()"
    if "name \<in> {''c'', ''n'', ''k'', ''edge'', ''x''}" for name label
  proof -
    have "\<forall>name \<in> set [''c'', ''n'', ''k'', ''edge'', ''x'']. overlay_identifier (str name)" by code_simp
    then show ?thesis using that by (auto simp: claim_identifier_ok)
  qed
  ultimately show ?thesis
    by (simp add: claims_validate_shape_def validate_join_token_claim_tags_def
        claims_validate_bootstrap_endpoints_def validate_join_token_bootstrap_endpoints_def
        sample_claims_def token_policy_default_def)
qed

lemma sample_libs_laws: "ipnet_laws sample_libs"
  by (simp add: ipnet_laws_def sample_libs_def)



end
