(* ===== verification/Quorum.thy ===== *)
theory Quorum
  imports Net Systems "HOL-Library.Multiset"
begin

text \<open>
  Frozen-majority authorization (\<open>crates/ipars-quorum/src/lib.rs\<close>): the manifest of a signing
  group, capability claims and their verification, and the signer engine with its pending signing
  sessions. The \<open>frost-ed25519\<close>, \<open>ed25519-dalek\<close>, \<open>sha2\<close> and \<open>url\<close> crates are the fields of
  \<open>quorum_libs\<close>; their opaque values (keys, shares, nonces, commitments, signatures) are
  represented by byte strings and FROST identifiers by natural numbers. The system's random source
  is an argument of the operations that read it.
\<close>

subsection \<open>External libraries\<close>

type_synonym ident = nat

record public_key_package =
  pk_min_signers :: "u16 option"
  pk_verifying_shares :: "(ident, bytes) amap"
  pk_verifying_key :: bytes

record key_package =
  kp_identifier :: ident
  kp_min_signers :: u16
  kp_verifying_key :: bytes
  kp_verifying_share :: bytes
  kp_signing_share :: bytes

record signing_package =
  sp_message :: bytes
  sp_commitments :: "(ident, bytes) amap"

record quorum_libs =
  ql_sha256 :: "bytes \<Rightarrow> bytes"
  ql_url_parse :: "rstring \<Rightarrow> parsed_url option"
  ql_url_origin :: "parsed_url \<Rightarrow> rstring"
  ql_keys_deserialize :: "bytes \<Rightarrow> public_key_package option"
  ql_keys_serialize :: "public_key_package \<Rightarrow> bytes option"
  ql_identifier :: "u16 \<Rightarrow> ident option"
  ql_share_of :: "bytes \<Rightarrow> bytes"
  ql_commit :: "bytes \<Rightarrow> bytes \<Rightarrow> bytes \<times> bytes"
  ql_sign :: "signing_package \<Rightarrow> bytes \<Rightarrow> key_package \<Rightarrow> bytes option"
  ql_package_serialize :: "signing_package \<Rightarrow> bytes option"
  ql_signature_deserialize :: "bytes \<Rightarrow> bytes option"
  ql_group_verify :: "bytes \<Rightarrow> bytes \<Rightarrow> bytes \<Rightarrow> bool"
  ql_verifying_key :: "bytes \<Rightarrow> bytes option"
  ql_is_weak :: "bytes \<Rightarrow> bool"
  ql_signature_from_slice :: "bytes \<Rightarrow> bytes option"
  ql_verify_strict :: "bytes \<Rightarrow> bytes \<Rightarrow> bytes \<Rightarrow> bool"

subsection \<open>The manifest\<close>

definition SCHEMA_VERSION :: u32 where [simp]: "SCHEMA_VERSION = 1"
definition MAX_CAPABILITY_TTL_SECS :: u64 where [simp]: "MAX_CAPABILITY_TTL_SECS = 300"

datatype quorum_error =
    ManifestError | ClaimsError | TimeError | ProofError | KeyError | CapacityError | SessionError | PackageError
  | SignatureError | RandomError

record member =
  mb_node_id :: rstring
  mb_identifier :: u16
  mb_endpoint :: rstring

record manifest =
  mf_schema_version :: u32
  mf_cluster_id :: rstring
  mf_epoch :: u64
  mf_members :: "member list"
  mf_public_key_package :: bytes

definition valid_id :: "rstring \<Rightarrow> bool" where
  "valid_id value \<longleftrightarrow> value \<noteq> [] \<and> length value \<le> 256 \<and> list_all identifier_byte value"

definition HEX :: bytes where "HEX = str ''0123456789abcdef''"

definition hex_digest :: "quorum_libs \<Rightarrow> bytes \<Rightarrow> rstring" where
  "hex_digest libs bs = concat (map (\<lambda>b. [HEX ! unat (drop_bit 4 b), HEX ! unat (b AND 15)]) (ql_sha256 libs bs))"

definition public_keys :: "quorum_libs \<Rightarrow> manifest \<Rightarrow> quorum_error + public_key_package" where
  "public_keys libs m =
     (if length (mf_public_key_package m) > 262144 then Inl ManifestError
      else ok_or (ql_keys_deserialize libs (mf_public_key_package m)) ManifestError)"

definition threshold :: "manifest \<Rightarrow> u16" where
  "threshold m = of_nat (length (mf_members m) div 2 + 1)"

fun members_loop ::
  "quorum_libs \<Rightarrow> public_key_package \<Rightarrow> rstring list \<Rightarrow> ident list \<Rightarrow> rstring list \<Rightarrow> member list
     \<Rightarrow> quorum_error + unit" where
  "members_loop libs keys nodes identifiers endpoints [] = Inr ()"
| "members_loop libs keys nodes identifiers endpoints (member # members) =
     and_then (ok_or (ql_identifier libs (mb_identifier member)) ManifestError) (\<lambda>id.
     and_then (ok_or (ql_url_parse libs (mb_endpoint member)) ManifestError) (\<lambda>endpoint.
     if \<not> valid_id (mb_node_id member) \<or> mb_node_id member \<in> set nodes \<or> id \<in> set identifiers \<or>
        am_get (pk_verifying_shares keys) id = None \<or>
        \<not> (url_scheme endpoint = str ''http'' \<or> url_scheme endpoint = str ''https'') \<or>
        url_host endpoint = None \<or> url_username endpoint \<noteq> [] \<or> url_password endpoint \<noteq> None \<or>
        url_query endpoint \<noteq> None \<or> url_fragment endpoint \<noteq> None \<or> url_path endpoint \<noteq> SLASH \<or>
        ql_url_origin libs endpoint \<in> set endpoints
     then Inl ManifestError
     else members_loop libs keys (mb_node_id member # nodes) (id # identifiers)
       (ql_url_origin libs endpoint # endpoints) members))"

definition manifest_validate :: "quorum_libs \<Rightarrow> manifest \<Rightarrow> quorum_error + unit" where
  "manifest_validate libs m =
     (if mf_schema_version m \<noteq> SCHEMA_VERSION \<or> mf_epoch m = 0 \<or> \<not> valid_id (mf_cluster_id m) \<or>
         \<not> (2 \<le> length (mf_members m) \<and> length (mf_members m) \<le> 1024)
      then Inl ManifestError
      else and_then (public_keys libs m) (\<lambda>keys.
        if pk_min_signers keys \<noteq> Some (threshold m) \<or> length (pk_verifying_shares keys) \<noteq> length (mf_members m)
        then Inl ManifestError
        else members_loop libs keys [] [] [] (mf_members m)))"

definition member_bytes :: "member \<Rightarrow> bytes" where
  "member_bytes member =
     field_bytes (mb_node_id member) @ to_be_bytes (mb_identifier member) @ field_bytes (mb_endpoint member)"

definition manifest_bytes :: "manifest \<Rightarrow> bytes \<Rightarrow> bytes" where
  "manifest_bytes m canonical_keys =
     str ''heteronetwork-quorum-manifest-v1'' @ [0] @ to_be_bytes (mf_schema_version m) @
     field_bytes (mf_cluster_id m) @ to_be_bytes (mf_epoch m) @
     (let members = sort_key mb_identifier (mf_members m) in
      to_be_bytes (of_nat (length members) :: u64) @ concat (map member_bytes members)) @
     field_bytes canonical_keys"

definition manifest_digest :: "quorum_libs \<Rightarrow> manifest \<Rightarrow> quorum_error + rstring" where
  "manifest_digest libs m =
     and_then (manifest_validate libs m) (\<lambda>_.
     and_then (public_keys libs m) (\<lambda>keys.
     and_then (ok_or (ql_keys_serialize libs keys) ManifestError) (\<lambda>canonical_keys.
     Inr (hex_digest libs (manifest_bytes m canonical_keys)))))"

subsection \<open>Capabilities\<close>

record capability_claims =
  cc_schema_version :: u32
  cc_cluster_id :: rstring
  cc_epoch :: u64
  cc_manifest_digest :: rstring
  cc_method :: rstring
  cc_path :: rstring
  cc_body_sha256 :: bytes
  cc_requester_public_key :: bytes
  cc_request_id :: bytes
  cc_issued_at :: u64
  cc_expires_at :: u64

definition claims_signing_bytes :: "capability_claims \<Rightarrow> bytes" where
  "claims_signing_bytes c =
     str ''heteronetwork-quorum-capability-v1'' @ [0] @ to_be_bytes (cc_schema_version c) @
     field_bytes (cc_cluster_id c) @ to_be_bytes (cc_epoch c) @ field_bytes (cc_manifest_digest c) @
     field_bytes (cc_method c) @ field_bytes (cc_path c) @ cc_body_sha256 c @ cc_requester_public_key c @
     cc_request_id c @ to_be_bytes (cc_issued_at c) @ to_be_bytes (cc_expires_at c)"

definition claims_proof_bytes :: "capability_claims \<Rightarrow> bytes" where
  "claims_proof_bytes c =
     str ''heteronetwork-quorum-request-proof-v1'' @ [0] @ field_bytes (claims_signing_bytes c)"

text \<open>\<open>str::split\<close> at a separator byte.\<close>

fun split_at :: "u8 \<Rightarrow> bytes \<Rightarrow> bytes list" where
  "split_at sep [] = [[]]"
| "split_at sep (b # bs) =
     (if b = sep then [] # split_at sep bs
      else case split_at sep bs of part # parts \<Rightarrow> (b # part) # parts | [] \<Rightarrow> [[b]])"

definition plain_segment :: "rstring \<Rightarrow> bool" where
  "plain_segment node \<longleftrightarrow> valid_id node \<and> node \<noteq> str ''.'' \<and> node \<noteq> str ''..''"

definition allowed_mutation :: "rstring \<Rightarrow> rstring \<Rightarrow> bool" where
  "allowed_mutation method path =
     (let parts = split_at 47 path in
      if take 3 parts \<noteq> [[], str ''v1'', str ''admin''] then False
      else case drop 3 parts of
          [a] \<Rightarrow> method = str ''POST'' \<and> (a = str ''enrollment'' \<or> a = str ''client-enrollment'') \<or>
                 method = str ''PUT'' \<and> a = str ''policy''
        | [a, b] \<Rightarrow> method = str ''POST'' \<and> a = str ''quorum'' \<and> b = str ''revocations'' \<or>
                 method = str ''DELETE'' \<and> a = str ''nodes'' \<and> plain_segment b
        | [a, b, c] \<Rightarrow> method = str ''PUT'' \<and> a = str ''nodes'' \<and> c = str ''display-name'' \<and> plain_segment b
        | [a, b, c, d] \<Rightarrow> method = str ''POST'' \<and> a = str ''paths'' \<and> d = str ''pin'' \<and>
                 plain_segment b \<and> plain_segment c
        | _ \<Rightarrow> False)"

definition claims_validate :: "quorum_libs \<Rightarrow> manifest \<Rightarrow> u64 \<Rightarrow> capability_claims \<Rightarrow> quorum_error + unit" where
  "claims_validate libs m now c =
     (if cc_schema_version c \<noteq> SCHEMA_VERSION \<or> cc_cluster_id c \<noteq> mf_cluster_id m \<or> cc_epoch c \<noteq> mf_epoch m
      then Inl ClaimsError
      else and_then (manifest_digest libs m) (\<lambda>digest.
        if cc_manifest_digest c \<noteq> digest \<or> cc_request_id c = replicate 32 0 \<or>
           \<not> allowed_mutation (cc_method c) (cc_path c)
        then Inl ClaimsError
        else if cc_issued_at c > now \<or> cc_expires_at c \<le> now \<or> cc_expires_at c \<le> cc_issued_at c \<or>
           cc_expires_at c - cc_issued_at c > MAX_CAPABILITY_TTL_SECS
        then Inl TimeError
        else Inr ()))"

record request_proof =
  rp_signature :: bytes

definition proof_verify :: "quorum_libs \<Rightarrow> capability_claims \<Rightarrow> request_proof \<Rightarrow> quorum_error + unit" where
  "proof_verify libs c p =
     and_then (ok_or (ql_verifying_key libs (cc_requester_public_key c)) ProofError) (\<lambda>key.
     and_then (ok_or (ql_signature_from_slice libs (rp_signature p)) ProofError) (\<lambda>signature.
     if ql_is_weak libs key then Inl ProofError
     else if ql_verify_strict libs key (claims_proof_bytes c) signature then Inr () else Inl ProofError))"

record capability_token =
  ct_claims :: capability_claims
  ct_signature :: bytes

definition group_verify :: "quorum_libs \<Rightarrow> manifest \<Rightarrow> bytes \<Rightarrow> bytes \<Rightarrow> quorum_error + unit" where
  "group_verify libs m message bs =
     and_then (ok_or (ql_signature_deserialize libs bs) SignatureError) (\<lambda>signature.
     and_then (public_keys libs m) (\<lambda>keys.
     if ql_group_verify libs (pk_verifying_key keys) message signature then Inr () else Inl SignatureError))"

definition verify_capability ::
  "quorum_libs \<Rightarrow> manifest \<Rightarrow> capability_token \<Rightarrow> request_proof \<Rightarrow> rstring \<Rightarrow> rstring \<Rightarrow> bytes \<Rightarrow> u64
     \<Rightarrow> quorum_error + unit" where
  "verify_capability libs m token p method path body now =
     and_then (claims_validate libs m now (ct_claims token)) (\<lambda>_.
     if cc_method (ct_claims token) \<noteq> method \<or> cc_path (ct_claims token) \<noteq> path \<or>
        cc_body_sha256 (ct_claims token) \<noteq> ql_sha256 libs body
     then Inl ClaimsError
     else and_then (proof_verify libs (ct_claims token) p) (\<lambda>_.
       group_verify libs m (claims_signing_bytes (ct_claims token)) (ct_signature token)))"

subsection \<open>The signer engine\<close>

record round1_response =
  r1_session_id :: bytes
  r1_identifier :: u16
  r1_commitments :: bytes

record pending =
  pd_message :: bytes
  pd_created_at :: u64
  pd_expires_at :: u64
  pd_nonces :: bytes
  pd_commitments :: bytes

record signer_engine =
  se_manifest :: manifest
  se_key :: key_package
  se_identifier :: u16
  se_max_pending :: nat
  se_pending_ttl_secs :: u64
  se_pending :: "(bytes, pending) amap"

definition engine_new ::
  "quorum_libs \<Rightarrow> manifest \<Rightarrow> rstring \<Rightarrow> key_package \<Rightarrow> nat \<Rightarrow> u64 \<Rightarrow> quorum_error + signer_engine" where
  "engine_new libs m node_id key max_pending pending_ttl_secs =
     and_then (manifest_validate libs m) (\<lambda>_.
     if \<not> (1 \<le> max_pending \<and> max_pending \<le> 1024) \<or> \<not> (1 \<le> pending_ttl_secs \<and> pending_ttl_secs \<le> 300)
     then Inl CapacityError
     else and_then (ok_or (find (\<lambda>member. mb_node_id member = node_id) (mf_members m)) KeyError) (\<lambda>member.
       and_then (ok_or (ql_identifier libs (mb_identifier member)) KeyError) (\<lambda>id.
       and_then (public_keys libs m) (\<lambda>public.
       if kp_identifier key \<noteq> id \<or> kp_min_signers key \<noteq> threshold m \<or>
          kp_verifying_key key \<noteq> pk_verifying_key public \<or>
          am_get (pk_verifying_shares public) id \<noteq> Some (kp_verifying_share key) \<or>
          ql_share_of libs (kp_signing_share key) \<noteq> kp_verifying_share key
       then Inl KeyError
       else Inr \<lparr>se_manifest = m, se_key = key, se_identifier = mb_identifier member,
           se_max_pending = max_pending, se_pending_ttl_secs = pending_ttl_secs, se_pending = []\<rparr>))))"

definition prune_pending :: "u64 \<Rightarrow> signer_engine \<Rightarrow> signer_engine" where
  "prune_pending now e =
     e\<lparr>se_pending := am_retain (\<lambda>_ p. now \<ge> pd_created_at p \<and> now < pd_expires_at p) (se_pending e)\<rparr>"

text \<open>What the random source returns: nothing, or a session id and the entropy for the nonces.\<close>

type_synonym entropy = "(bytes \<times> bytes) option"

definition allocate_pending ::
  "quorum_libs \<Rightarrow> entropy \<Rightarrow> bytes \<Rightarrow> u64 \<Rightarrow> u64 \<Rightarrow> signer_engine
     \<Rightarrow> (quorum_error + round1_response) \<times> signer_engine" where
  "allocate_pending libs rng message expires_at now e =
     (let e = prune_pending now e in
      if length (se_pending e) \<ge> se_max_pending e then (Inl CapacityError, e)
      else st_then (ok_or rng RandomError, e) (\<lambda>(session_id, seed) e.
        if session_id = replicate 32 0 \<or> am_get (se_pending e) session_id \<noteq> None then (Inl RandomError, e)
        else
          let (nonces, commitments) = ql_commit libs (kp_signing_share (se_key e)) seed in
          (Inr \<lparr>r1_session_id = session_id, r1_identifier = se_identifier e, r1_commitments = commitments\<rparr>,
           e\<lparr>se_pending := bm_insert session_id
             \<lparr>pd_message = message, pd_created_at = now,
              pd_expires_at = min (saturating_add now (se_pending_ttl_secs e)) expires_at,
              pd_nonces = nonces, pd_commitments = commitments\<rparr> (se_pending e)\<rparr>)))"

definition round1 ::
  "quorum_libs \<Rightarrow> entropy \<Rightarrow> capability_claims \<Rightarrow> request_proof \<Rightarrow> u64 \<Rightarrow> signer_engine
     \<Rightarrow> (quorum_error + round1_response) \<times> signer_engine" where
  "round1 libs rng c p now e =
     (let e = prune_pending now e in
      st_then (claims_validate libs (se_manifest e) now c, e) (\<lambda>_ e.
      st_then (proof_verify libs c p, e) (\<lambda>_ e.
      allocate_pending libs rng (claims_signing_bytes c) (cc_expires_at c) now e)))"

definition sign_pending ::
  "quorum_libs \<Rightarrow> signer_engine \<Rightarrow> pending \<Rightarrow> bytes \<Rightarrow> signing_package \<Rightarrow> u64 \<Rightarrow> quorum_error + bytes" where
  "sign_pending libs e p message package now =
     (if now < pd_created_at p \<or> now \<ge> pd_expires_at p then Inl TimeError
      else
        let commitments = sp_commitments package in
        and_then (public_keys libs (se_manifest e)) (\<lambda>public.
        if pd_message p \<noteq> message \<or> sp_message package \<noteq> message \<or>
           length commitments < unat (threshold (se_manifest e)) \<or>
           length commitments > length (mf_members (se_manifest e)) \<or>
           list_ex (\<lambda>(id, _). am_get (pk_verifying_shares public) id = None) commitments \<or>
           am_get commitments (kp_identifier (se_key e)) \<noteq> Some (pd_commitments p)
        then Inl PackageError
        else ok_or (ql_sign libs package (pd_nonces p) (se_key e)) PackageError))"

text \<open>\<open>self.pending.remove(&session_id).ok_or(Error::Session)?\<close>\<close>

definition take_pending :: "bytes \<Rightarrow> signer_engine \<Rightarrow> (quorum_error + pending) \<times> signer_engine" where
  "take_pending session_id e =
     (case am_get (se_pending e) session_id of
        None \<Rightarrow> (Inl SessionError, e)
      | Some p \<Rightarrow> (Inr p, e\<lparr>se_pending := am_remove session_id (se_pending e)\<rparr>))"

definition round2 ::
  "quorum_libs \<Rightarrow> bytes \<Rightarrow> capability_claims \<Rightarrow> signing_package \<Rightarrow> u64 \<Rightarrow> signer_engine
     \<Rightarrow> (quorum_error + bytes) \<times> signer_engine" where
  "round2 libs session_id c package now e =
     st_then (take_pending session_id e) (\<lambda>p e.
     if now < pd_created_at p \<or> now \<ge> pd_expires_at p then (Inl TimeError, e)
     else st_then (claims_validate libs (se_manifest e) now c, e) (\<lambda>_ e.
       (sign_pending libs e p (claims_signing_bytes c) package now, e)))"

subsection \<open>Quorums\<close>

text \<open>The contract of a family of approving sets: any two of them share a member.\<close>

locale quorum_system =
  fixes quorum :: "'a set \<Rightarrow> bool"
  assumes intersect: "quorum A \<Longrightarrow> quorum B \<Longrightarrow> A \<inter> B \<noteq> {}"
begin

lemma not_empty: "quorum A \<Longrightarrow> A \<noteq> {}"
  using intersect [of A A] by auto

lemma common_member:
  assumes "quorum A" and "quorum B"
  obtains x where "x \<in> A" and "x \<in> B"
  using intersect [OF assms] by blast

end

definition approving :: "quorum_libs \<Rightarrow> manifest \<Rightarrow> ident set \<Rightarrow> bool" where
  "approving libs m A \<longleftrightarrow> manifest_validate libs m = Inr () \<and> unat (threshold m) \<le> card A \<and>
     (\<exists>keys. public_keys libs m = Inr keys \<and> A \<subseteq> dom (am_get (pk_verifying_shares keys)))"

lemma unat_threshold: "length (mf_members m) \<le> 1024 \<Longrightarrow> unat (threshold m) = length (mf_members m) div 2 + 1"
proof -
  have "unat (of_nat k :: u16) = k" if "k < 65536" for k
    using that by (simp add: unsigned_of_nat take_bit_eq_mod)
  from this [of "length (mf_members m) div 2 + 1"] show "length (mf_members m) \<le> 1024 \<Longrightarrow> ?thesis"
    unfolding threshold_def by linarith
qed

lemma manifest_validate_ok:
  assumes "manifest_validate libs m = Inr u"
  shows "length (mf_members m) \<le> 1024" and "2 \<le> length (mf_members m)" and "mf_epoch m \<noteq> 0"
    and "valid_id (mf_cluster_id m)" and "mf_schema_version m = 1"
    and "public_keys libs m = Inr keys \<Longrightarrow> length (pk_verifying_shares keys) = length (mf_members m) \<and>
      members_loop libs keys [] [] [] (mf_members m) = Inr ()"
    and "is_ok (public_keys libs m)"
  using assms by (auto simp: manifest_validate_def result_simps split: if_splits)

lemma card_dom_le: "card (dom (map_of xs)) \<le> length xs"
  using card_length [of "map fst xs"] by (simp add: dom_map_of_conv_image_fst)

lemma approving_intersect:
  assumes "approving libs m A" and "approving libs m B"
  shows "A \<inter> B \<noteq> {}"
proof
  assume disj: "A \<inter> B = {}"
  obtain keys where keys: "public_keys libs m = Inr keys" "A \<subseteq> dom (am_get (pk_verifying_shares keys))"
    "B \<subseteq> dom (am_get (pk_verifying_shares keys))"
    using assms by (auto simp: approving_def)
  let ?n = "length (mf_members m)"
  have ok: "manifest_validate libs m = Inr ()" using assms(1) by (simp add: approving_def)
  have "card A + card B = card (A \<union> B)"
    using card_Un_disjoint [OF _ _ disj] finite_subset [OF keys(2) finite_dom_map_of]
      finite_subset [OF keys(3) finite_dom_map_of] by simp
  also have "\<dots> \<le> card (dom (am_get (pk_verifying_shares keys)))"
    using keys by (intro card_mono finite_dom_map_of) auto
  also have "\<dots> \<le> ?n"
    using card_dom_le [of "pk_verifying_shares keys"] manifest_validate_ok(6) [OF ok keys(1)] by simp
  finally have "card A + card B \<le> ?n" .
  moreover have "?n div 2 + 1 \<le> card A" "?n div 2 + 1 \<le> card B"
    using assms unat_threshold [OF manifest_validate_ok(1) [OF ok]] by (simp_all add: approving_def)
  ultimately show False by linarith
qed

interpretation group: quorum_system "approving libs m" for libs m
  by unfold_locales (rule approving_intersect)

lemma sign_pending_ok:
  assumes "sign_pending libs e p message package now = Inr share"
  shows "pd_message p = message" and "sp_message package = message"
    and "ql_sign libs package (pd_nonces p) (se_key e) = Some share"
    and "am_get (sp_commitments package) (kp_identifier (se_key e)) = Some (pd_commitments p)"
    and "pd_created_at p \<le> now" and "now < pd_expires_at p"
    and "manifest_validate libs (se_manifest e) = Inr () \<Longrightarrow> distinct (map fst (sp_commitments package)) \<Longrightarrow>
      approving libs (se_manifest e) (fst ` set (sp_commitments package))"
proof -
  from assms obtain public where pub: "public_keys libs (se_manifest e) = Inr public"
    and cond: "unat (threshold (se_manifest e)) \<le> length (sp_commitments package)"
      "\<not> list_ex (\<lambda>(id, _). am_get (pk_verifying_shares public) id = None) (sp_commitments package)"
    by (auto simp: sign_pending_def Let_def result_simps split: if_splits)
  show "pd_message p = message" "sp_message package = message"
    "ql_sign libs package (pd_nonces p) (se_key e) = Some share"
    "am_get (sp_commitments package) (kp_identifier (se_key e)) = Some (pd_commitments p)"
    "pd_created_at p \<le> now" "now < pd_expires_at p"
    using assms by (auto simp: sign_pending_def Let_def result_simps split: if_splits)
  assume d: "distinct (map fst (sp_commitments package))" and v: "manifest_validate libs (se_manifest e) = Inr ()"
  have "card (fst ` set (sp_commitments package)) = length (sp_commitments package)"
    using distinct_card [OF d] by simp
  moreover have "fst ` set (sp_commitments package) \<subseteq> dom (am_get (pk_verifying_shares public))"
    using cond(2) by (force simp: list_ex_iff)
  ultimately show "approving libs (se_manifest e) (fst ` set (sp_commitments package))"
    using cond(1) v pub by (auto simp: approving_def)
qed

subsection \<open>Canonical bytes\<close>

text \<open>Claims as they occur: arrays of 32 bytes, texts shorter than the address space.\<close>

definition claims_wf :: "capability_claims \<Rightarrow> bool" where
  "claims_wf c \<longleftrightarrow>
     length (cc_body_sha256 c) = 32 \<and> length (cc_requester_public_key c) = 32 \<and> length (cc_request_id c) = 32 \<and>
     length (cc_cluster_id c) < 2 ^ 64 \<and> length (cc_manifest_digest c) < 2 ^ 64 \<and>
     length (cc_method c) < 2 ^ 64 \<and> length (cc_path c) < 2 ^ 64"

lemma field_bytes_eq_iff: "length x < 2 ^ 64 \<Longrightarrow> length y < 2 ^ 64 \<Longrightarrow> field_bytes x = field_bytes y \<longleftrightarrow> x = y"
  using fld.enc_inj [of x y] by auto

lemmas transcript_simps = field_bytes_eq_iff fld.enc_append_iff w16.enc_append_iff w32.enc_append_iff w64.enc_append_iff
  append_eq_same_length

lemma claims_signing_bytes_inj:
  assumes "claims_wf c" and "claims_wf c'" and "claims_signing_bytes c = claims_signing_bytes c'"
  shows "c = c'"
proof -
  have "cc_schema_version c = cc_schema_version c' \<and> cc_cluster_id c = cc_cluster_id c' \<and>
    cc_epoch c = cc_epoch c' \<and> cc_manifest_digest c = cc_manifest_digest c' \<and> cc_method c = cc_method c' \<and>
    cc_path c = cc_path c' \<and> cc_body_sha256 c = cc_body_sha256 c' \<and>
    cc_requester_public_key c = cc_requester_public_key c' \<and> cc_request_id c = cc_request_id c' \<and>
    cc_issued_at c = cc_issued_at c' \<and> cc_expires_at c = cc_expires_at c'"
    using assms by (simp add: claims_signing_bytes_def claims_wf_def transcript_simps)
  then show ?thesis by (intro capability_claims.equality) simp_all
qed

subsection \<open>Paths\<close>

fun join_with :: "u8 \<Rightarrow> bytes list \<Rightarrow> bytes" where
  "join_with sep [] = []"
| "join_with sep [part] = part"
| "join_with sep (part # parts) = part @ sep # join_with sep parts"

lemma split_at_not_Nil [simp]: "split_at sep bs \<noteq> []"
  by (induction bs) (auto split: list.splits)

lemma join_with_Cons:
  "join_with sep ((b # part) # parts) = b # join_with sep (part # parts)"
  "parts \<noteq> [] \<Longrightarrow> join_with sep ([] # parts) = sep # join_with sep parts"
  by (cases parts; simp)+

lemma join_split: "join_with sep (split_at sep bs) = bs"
proof (induction bs)
  case (Cons b bs)
  then show ?case
    by (cases "split_at sep bs") (auto simp: join_with_Cons simp del: join_with.simps)
qed simp

lemma plain_segments:
  "\<forall>a \<in> set [''enrollment'', ''client-enrollment'', ''policy'', ''quorum'', ''revocations'', ''nodes'',
     ''display-name'', ''paths'', ''pin'']. plain_segment (str a)"
  by (simp add: plain_segment_def valid_id_def str_def identifier_byte_def is_ascii_alphanumeric_def)

lemma allowed_mutation_segments:
  assumes "allowed_mutation method path"
  shows "\<exists>parts. path = join_with 47 ([] # str ''v1'' # str ''admin'' # parts) \<and> parts \<noteq> [] \<and> length parts \<le> 4 \<and>
    (\<forall>segment \<in> set parts. plain_segment segment)"
proof -
  define parts where "parts = drop 3 (split_at 47 path)"
  have t: "take 3 (split_at 47 path) = [[], str ''v1'', str ''admin'']"
    using assms unfolding allowed_mutation_def Let_def by metis
  have "split_at 47 path = [] # str ''v1'' # str ''admin'' # parts"
    using append_take_drop_id [of 3 "split_at 47 path"] unfolding t parts_def by simp
  then have "path = join_with 47 ([] # str ''v1'' # str ''admin'' # parts)" by (metis join_split)
  moreover have "parts \<noteq> [] \<and> length parts \<le> 4 \<and> (\<forall>segment \<in> set parts. plain_segment segment)"
    using assms plain_segments unfolding allowed_mutation_def Let_def parts_def [symmetric]
    by (auto simp del: plain_segment_def split: if_splits list.splits)
  ultimately show ?thesis by blast
qed


subsection \<open>The digest of a manifest\<close>

definition quorum_member_ok :: "quorum_libs \<Rightarrow> public_key_package \<Rightarrow> member \<Rightarrow> bool" where
  "quorum_member_ok libs keys member \<longleftrightarrow>
     (\<exists>id endpoint. ql_identifier libs (mb_identifier member) = Some id \<and>
        ql_url_parse libs (mb_endpoint member) = Some endpoint \<and> valid_id (mb_node_id member) \<and>
        am_get (pk_verifying_shares keys) id \<noteq> None \<and>
        (url_scheme endpoint = str ''http'' \<or> url_scheme endpoint = str ''https'') \<and> url_host endpoint \<noteq> None \<and>
        url_username endpoint = [] \<and> url_password endpoint = None \<and> url_query endpoint = None \<and>
        url_fragment endpoint = None \<and> url_path endpoint = SLASH)"

abbreviation member_id :: "quorum_libs \<Rightarrow> member \<Rightarrow> ident" where
  "member_id libs member \<equiv> the (ql_identifier libs (mb_identifier member))"

abbreviation member_origin :: "quorum_libs \<Rightarrow> member \<Rightarrow> rstring" where
  "member_origin libs member \<equiv> ql_url_origin libs (the (ql_url_parse libs (mb_endpoint member)))"

lemma members_loop_ok:
  "members_loop libs keys nodes ids eps ms = Inr u \<longleftrightarrow>
     (\<forall>m \<in> set ms. quorum_member_ok libs keys m) \<and>
     distinct (map mb_node_id ms) \<and> set (map mb_node_id ms) \<inter> set nodes = {} \<and>
     distinct (map (member_id libs) ms) \<and> set (map (member_id libs) ms) \<inter> set ids = {} \<and>
     distinct (map (member_origin libs) ms) \<and> set (map (member_origin libs) ms) \<inter> set eps = {}"
proof (induction ms arbitrary: nodes ids eps)
  case (Cons m ms)
  show ?case
  proof (cases "quorum_member_ok libs keys m")
    case True
    then obtain id endpoint where "ql_identifier libs (mb_identifier m) = Some id"
      "ql_url_parse libs (mb_endpoint m) = Some endpoint" by (auto simp: quorum_member_ok_def)
    then show ?thesis using True Cons by (auto simp: quorum_member_ok_def)
  next
    case False
    then show ?thesis by (auto simp: quorum_member_ok_def result_simps split: if_splits)
  qed
qed simp

lemma members_loop_error: "members_loop libs keys nodes ids eps ms \<in> {Inr (), Inl ManifestError}"
  by (induction ms arbitrary: nodes ids eps)
    (auto simp: and_then_def ok_or_def split: option.splits sum.splits)

lemma distinct_map_perm: "mset xs = mset ys \<Longrightarrow> distinct (map f xs) = distinct (map f ys)"
  by (metis mset_map mset_eq_imp_distinct_iff)

lemma members_loop_perm:
  assumes "mset ms = mset ms'"
  shows "members_loop libs keys [] [] [] ms = members_loop libs keys [] [] [] ms'"
proof -
  have "members_loop libs keys [] [] [] ms = Inr () \<longleftrightarrow> members_loop libs keys [] [] [] ms' = Inr ()"
    using mset_eq_setD [OF assms] unfolding members_loop_ok by (simp add: distinct_map_perm [OF assms])
  then show ?thesis
    using members_loop_error [of libs keys "[]" "[]" "[]" ms] members_loop_error [of libs keys "[]" "[]" "[]" ms'] by auto
qed

lemma manifest_validate_perm:
  assumes "mset (mf_members m) = mset ms"
  shows "manifest_validate libs (m\<lparr>mf_members := ms\<rparr>) = manifest_validate libs m"
proof -
  have "length ms = length (mf_members m)" using assms by (metis size_mset)
  then show ?thesis
    by (simp add: manifest_validate_def public_keys_def threshold_def members_loop_perm [OF assms] cong: if_cong)
qed

lemma sorted_members_perm:
  assumes "mset (mf_members m) = mset ms" and "manifest_validate libs m = Inr ()"
  shows "sort_key mb_identifier ms = sort_key mb_identifier (mf_members m)"
proof -
  obtain keys where "members_loop libs keys [] [] [] (mf_members m) = Inr ()"
    using manifest_validate_ok(6,7) [OF assms(2)] by (auto simp: is_ok_iff)
  then have "distinct (map (member_id libs) (mf_members m))" by (simp add: members_loop_ok)
  then have "inj_on mb_identifier (set ms)"
    using mset_eq_setD [OF assms(1)] by (auto simp: distinct_map inj_on_def)
  then show ?thesis
    using assms(1) by (intro sort_key_inj_key_eq) simp_all
qed

subsection \<open>Properties\<close>

text \<open>
  C39. The digest of a manifest does not depend on the order in which its members are listed: two
  manifests that differ only in that order have the same digest, or fail with the same error.
\<close>

theorem manifest_digest_order_independent:
  assumes "mset (mf_members m) = mset ms"
  shows "manifest_digest libs (m\<lparr>mf_members := ms\<rparr>) = manifest_digest libs m"
proof (cases "manifest_validate libs m")
  case (Inr u)
  have "length ms = length (mf_members m)" using assms by (metis size_mset)
  moreover have "sort_key mb_identifier ms = sort_key mb_identifier (mf_members m)"
    using sorted_members_perm [OF assms] Inr by simp
  ultimately show ?thesis
    using manifest_validate_perm [OF assms, of libs]
    by (simp add: manifest_digest_def manifest_bytes_def public_keys_def)
qed (simp add: manifest_digest_def manifest_validate_perm [OF assms])



subsection \<open>A sample group\<close>

definition sample_url :: "rstring \<Rightarrow> parsed_url" where
  "sample_url u =
     \<lparr>url_scheme = str ''https'', url_username = [], url_password = None, url_query = None, url_fragment = None,
      url_host = Some (Domain u), url_port = None, url_port_or_known_default = Some 443, url_path = SLASH,
      url_as_str = u\<rparr>"

definition sample_keys :: "bytes \<Rightarrow> public_key_package" where
  "sample_keys bs = \<lparr>pk_min_signers = Some 2, pk_verifying_shares = [(1, [1]), (2, [2])], pk_verifying_key = bs\<rparr>"

definition sample_quorum_libs :: quorum_libs where
  "sample_quorum_libs =
     \<lparr>ql_sha256 = (\<lambda>bs. replicate 32 0), ql_url_parse = (\<lambda>u. Some (sample_url u)), ql_url_origin = url_as_str,
      ql_keys_deserialize = (\<lambda>bs. Some (sample_keys bs)), ql_keys_serialize = (\<lambda>keys. Some (pk_verifying_key keys)),
      ql_identifier = (\<lambda>n. if n = 0 then None else Some (unat n)), ql_share_of = (\<lambda>s. s),
      ql_commit = (\<lambda>share seed. (seed, seed)), ql_sign = (\<lambda>package nonces key. Some nonces),
      ql_package_serialize = (\<lambda>package. Some (sp_message package)),
      ql_signature_deserialize = (\<lambda>bs. Some bs), ql_group_verify = (\<lambda>key message signature. True),
      ql_verifying_key = (\<lambda>bs. Some bs), ql_is_weak = (\<lambda>key. False),
      ql_signature_from_slice = (\<lambda>bs. Some bs), ql_verify_strict = (\<lambda>key message signature. True)\<rparr>"

definition sample_members :: "member list" where
  "sample_members =
     [\<lparr>mb_node_id = str ''a'', mb_identifier = 1, mb_endpoint = str ''x''\<rparr>,
      \<lparr>mb_node_id = str ''b'', mb_identifier = 2, mb_endpoint = str ''y''\<rparr>]"

definition sample_manifest :: manifest where
  "sample_manifest =
     \<lparr>mf_schema_version = 1, mf_cluster_id = str ''c'', mf_epoch = 7, mf_members = sample_members,
      mf_public_key_package = [1]\<rparr>"

definition zero_digest :: rstring where "zero_digest = replicate 64 48"

definition sample_capability :: capability_token where
  "sample_capability =
     \<lparr>ct_claims = \<lparr>cc_schema_version = 1, cc_cluster_id = str ''c'', cc_epoch = 7,
        cc_manifest_digest = zero_digest, cc_method = str ''PUT'', cc_path = str ''/v1/admin/policy'',
        cc_body_sha256 = replicate 32 0, cc_requester_public_key = replicate 32 5, cc_request_id = replicate 32 9,
        cc_issued_at = 100, cc_expires_at = 200\<rparr>, ct_signature = []\<rparr>"

lemmas sample_quorum_defs = sample_quorum_libs_def sample_manifest_def sample_members_def sample_keys_def
  sample_url_def

lemma sample_manifest_ok: "manifest_validate sample_quorum_libs sample_manifest = Inr ()"
  by (simp add: sample_quorum_defs manifest_validate_def public_keys_def threshold_def valid_id_def str_def
      identifier_byte_def is_ascii_alphanumeric_def)

lemma sample_manifest_digest: "manifest_digest sample_quorum_libs sample_manifest = Inr zero_digest"
proof -
  have "concat (map (\<lambda>b. [HEX ! unat (drop_bit 4 b), HEX ! unat (b AND 15)]) (replicate 32 (0 :: u8))) = zero_digest"
    by (simp add: HEX_def str_def zero_digest_def numeral_eq_Suc)
  then show ?thesis
    using sample_manifest_ok
    by (simp add: manifest_digest_def hex_digest_def public_keys_def sample_quorum_libs_def)
      (simp add: sample_manifest_def)
qed

theorem manifest_digest_order_independent_witness:
  "manifest_digest sample_quorum_libs (sample_manifest\<lparr>mf_members := rev sample_members\<rparr>) = Inr zero_digest"
  using manifest_digest_order_independent [of sample_manifest "rev sample_members" sample_quorum_libs]
    sample_manifest_digest by (simp add: sample_manifest_def)


end
