(* ===== verification/Sudo.thy ===== *)
theory Sudo
  imports Quorum
begin

text \<open>
  The two other documents a signing group approves: the rotation to a new manifest
  (\<open>crates/ipars-quorum/src/rotation.rs\<close>) and the sudo grant with its policy, attestation and
  redemption (\<open>crates/ipars-quorum/src/sudo.rs\<close>). Both share the pending sessions of the signer
  engine with the capabilities of \<open>Quorum\<close>; \<open>engine_op\<close> collects the six operations.
\<close>

subsection \<open>Manifest rotation\<close>

record manifest_transition =
  mt_old_manifest_digest :: rstring
  mt_new_manifest :: manifest
  mt_request_id :: bytes
  mt_issued_at :: u64
  mt_expires_at :: u64

definition transition_validate ::
  "quorum_libs \<Rightarrow> manifest \<Rightarrow> u64 \<Rightarrow> manifest_transition \<Rightarrow> quorum_error + unit" where
  "transition_validate libs old now t =
     and_then (manifest_digest libs old) (\<lambda>digest.
     if digest \<noteq> mt_old_manifest_digest t \<or> mf_cluster_id (mt_new_manifest t) \<noteq> mf_cluster_id old \<or>
        checked_add (mf_epoch old) 1 \<noteq> Some (mf_epoch (mt_new_manifest t)) \<or> mt_request_id t = replicate 32 0
     then Inl ManifestError
     else and_then (manifest_validate libs (mt_new_manifest t)) (\<lambda>_.
       and_then (public_keys libs old) (\<lambda>old_keys.
       and_then (public_keys libs (mt_new_manifest t)) (\<lambda>new_keys.
       if pk_verifying_key old_keys = pk_verifying_key new_keys then Inl KeyError
       else if mt_issued_at t > now \<or> mt_expires_at t \<le> now \<or> mt_expires_at t \<le> mt_issued_at t \<or>
          mt_expires_at t - mt_issued_at t > MAX_CAPABILITY_TTL_SECS
       then Inl TimeError
       else Inr ()))))"

definition transition_signing_bytes :: "quorum_libs \<Rightarrow> manifest_transition \<Rightarrow> quorum_error + bytes" where
  "transition_signing_bytes libs t =
     and_then (manifest_digest libs (mt_new_manifest t)) (\<lambda>digest.
     Inr (str ''heteronetwork-quorum-manifest-transition-v1'' @ [0] @ field_bytes (mt_old_manifest_digest t) @
       field_bytes digest @ field_bytes (mf_cluster_id (mt_new_manifest t)) @
       to_be_bytes (mf_epoch (mt_new_manifest t)) @ mt_request_id t @ to_be_bytes (mt_issued_at t) @
       to_be_bytes (mt_expires_at t)))"

record manifest_rotation =
  mr_transition :: manifest_transition
  mr_old_signature :: bytes
  mr_new_signature :: bytes

record verified_rotation =
  vr_old_manifest :: manifest
  vr_rotation :: manifest_rotation

definition verify_rotation ::
  "quorum_libs \<Rightarrow> manifest \<Rightarrow> manifest_rotation \<Rightarrow> u64 \<Rightarrow> quorum_error + verified_rotation" where
  "verify_rotation libs old rotation now =
     and_then (transition_validate libs old now (mr_transition rotation)) (\<lambda>_.
     and_then (transition_signing_bytes libs (mr_transition rotation)) (\<lambda>message.
     and_then (each (\<lambda>(m, bs). group_verify libs m message bs)
         [(old, mr_old_signature rotation), (mt_new_manifest (mr_transition rotation), mr_new_signature rotation)]) (\<lambda>_.
     Inr \<lparr>vr_old_manifest = old, vr_rotation = rotation\<rparr>)))"

definition rotation_validate_at :: "quorum_libs \<Rightarrow> u64 \<Rightarrow> verified_rotation \<Rightarrow> quorum_error + unit" where
  "rotation_validate_at libs now v = transition_validate libs (vr_old_manifest v) now (mr_transition (vr_rotation v))"

definition validate_rotation_group ::
  "quorum_libs \<Rightarrow> signer_engine \<Rightarrow> manifest \<Rightarrow> manifest_transition \<Rightarrow> u64 \<Rightarrow> quorum_error + unit" where
  "validate_rotation_group libs e old t now =
     and_then (transition_validate libs old now t) (\<lambda>_.
     and_then (manifest_digest libs (se_manifest e)) (\<lambda>digest.
     if digest = mt_old_manifest_digest t then Inr ()
     else and_then (manifest_digest libs (mt_new_manifest t)) (\<lambda>new_digest.
       if digest \<noteq> new_digest then Inl ManifestError else Inr ())))"

definition round1_rotation ::
  "quorum_libs \<Rightarrow> entropy \<Rightarrow> manifest \<Rightarrow> manifest_transition \<Rightarrow> u64 \<Rightarrow> signer_engine
     \<Rightarrow> (quorum_error + round1_response) \<times> signer_engine" where
  "round1_rotation libs rng old t now e =
     st_then (validate_rotation_group libs e old t now, e) (\<lambda>_ e.
     st_then (transition_signing_bytes libs t, e) (\<lambda>message e.
     allocate_pending libs rng message (mt_expires_at t) now e))"

definition round2_rotation ::
  "quorum_libs \<Rightarrow> bytes \<Rightarrow> manifest \<Rightarrow> manifest_transition \<Rightarrow> signing_package \<Rightarrow> u64 \<Rightarrow> signer_engine
     \<Rightarrow> (quorum_error + bytes) \<times> signer_engine" where
  "round2_rotation libs session_id old t package now e =
     st_then (take_pending session_id e) (\<lambda>p e.
     st_then (validate_rotation_group libs e old t now, e) (\<lambda>_ e.
     st_then (transition_signing_bytes libs t, e) (\<lambda>message e.
     (sign_pending libs e p message package now, e))))"

subsection \<open>Sudo policy\<close>

definition SUDO_SCHEMA_VERSION :: u32 where [simp]: "SUDO_SCHEMA_VERSION = 2"
definition MAX_SUDO_TTL_SECS :: u64 where [simp]: "MAX_SUDO_TTL_SECS = 60"
definition MAX_POLICY_BYTES :: nat where [simp]: "MAX_POLICY_BYTES = 1048576"

record sudo_identity =
  si_issuer :: rstring
  si_subject :: rstring

text \<open>\<open>chars().any(char::is_whitespace)\<close> over UTF-8.\<close>

fun has_whitespace :: "rstring \<Rightarrow> bool" where
  "has_whitespace [] = False"
| "has_whitespace (b # bs) =
     (0x09 \<le> b \<and> b \<le> 0x0d \<or> b = 0x20 \<or>
      b = 0xc2 \<and> (take 1 bs = [0x85] \<or> take 1 bs = [0xa0]) \<or>
      b = 0xe1 \<and> take 2 bs = [0x9a, 0x80] \<or>
      b = 0xe2 \<and> take 1 bs = [0x80] \<and> (case drop 1 bs of [] \<Rightarrow> False | c # _ \<Rightarrow>
        0x80 \<le> c \<and> c \<le> 0x8a \<or> c = 0xa8 \<or> c = 0xa9 \<or> c = 0xaf) \<or>
      b = 0xe2 \<and> take 2 bs = [0x81, 0x9f] \<or> b = 0xe3 \<and> take 2 bs = [0x80, 0x80] \<or>
      has_whitespace bs)"

definition identity_validate :: "quorum_libs \<Rightarrow> sudo_identity \<Rightarrow> quorum_error + unit" where
  "identity_validate libs i =
     (if length (si_issuer i) > 2048 \<or> take 8 (si_issuer i) \<noteq> str ''https://'' \<or> has_whitespace (si_issuer i) \<or>
         si_subject i = [] \<or> length (si_subject i) > 256 \<or> has_control (si_subject i)
      then Inl ClaimsError
      else and_then (ok_or (ql_url_parse libs (si_issuer i)) ClaimsError) (\<lambda>issuer.
        if url_scheme issuer \<noteq> str ''https'' \<or> url_host issuer = None \<or> url_username issuer \<noteq> [] \<or>
           url_password issuer \<noteq> None \<or> url_query issuer \<noteq> None \<or> url_fragment issuer \<noteq> None
        then Inl ClaimsError
        else Inr ()))"

definition identity_append :: "sudo_identity \<Rightarrow> bytes" where
  "identity_append i = field_bytes (si_issuer i) @ field_bytes (si_subject i)"

record sudo_host_policy =
  sh_attestation_key_epoch :: u64
  sh_attestation_public_key :: bytes
  sh_callers :: "(u32, sudo_identity) amap"

record sudo_policy =
  pol_schema_version :: u32
  pol_manifest :: manifest
  pol_hosts :: "(rstring, sudo_host_policy) amap"

definition strong_key :: "quorum_libs \<Rightarrow> bytes \<Rightarrow> quorum_error + bytes" where
  "strong_key libs bs =
     and_then (ok_or (ql_verifying_key libs bs) KeyError) (\<lambda>key.
     if ql_is_weak libs key then Inl KeyError else Inr key)"

definition verify_ed25519 :: "quorum_libs \<Rightarrow> bytes \<Rightarrow> bytes \<Rightarrow> bytes \<Rightarrow> quorum_error + unit" where
  "verify_ed25519 libs key message bs =
     and_then (map_err (\<lambda>_. ProofError) (strong_key libs key)) (\<lambda>key.
     and_then (ok_or (ql_signature_from_slice libs bs) ProofError) (\<lambda>signature.
     if ql_verify_strict libs key message signature then Inr () else Inl ProofError))"

fun callers_loop :: "quorum_libs \<Rightarrow> bytes \<Rightarrow> (u32 \<times> sudo_identity) list \<Rightarrow> quorum_error + bytes" where
  "callers_loop libs out [] = Inr out"
| "callers_loop libs out ((uid, identity) # callers) =
     (if uid = 0 then Inl ClaimsError
      else and_then (identity_validate libs identity) (\<lambda>_.
        let out = out @ to_be_bytes uid @ identity_append identity in
        if length out > MAX_POLICY_BYTES then Inl CapacityError
        else callers_loop libs out callers))"

fun hosts_loop ::
  "quorum_libs \<Rightarrow> manifest \<Rightarrow> bytes \<Rightarrow> nat \<Rightarrow> bytes list \<Rightarrow> (rstring \<times> sudo_host_policy) list
     \<Rightarrow> quorum_error + bytes" where
  "hosts_loop libs m out callers host_keys [] = Inr out"
| "hosts_loop libs m out callers host_keys ((node, host) # hosts) =
     (if \<not> list_ex (\<lambda>member. mb_node_id member = node) (mf_members m) \<or> sh_attestation_key_epoch host = 0 \<or>
         sh_callers host = [] \<or> length (sh_callers host) > 256
      then Inl ManifestError
      else and_then (strong_key libs (sh_attestation_public_key host)) (\<lambda>_.
        if sh_attestation_public_key host \<in> set host_keys then Inl KeyError
        else
          let out = out @ field_bytes node @ to_be_bytes (sh_attestation_key_epoch host) @
                sh_attestation_public_key host @ to_be_bytes (of_nat (length (sh_callers host)) :: u64);
              callers = callers + length (sh_callers host)
          in if callers > 4096 then Inl CapacityError
             else and_then (callers_loop libs out (sh_callers host)) (\<lambda>out.
               hosts_loop libs m out callers (sh_attestation_public_key host # host_keys) hosts)))"

definition canonical_bytes :: "quorum_libs \<Rightarrow> sudo_policy \<Rightarrow> quorum_error + bytes" where
  "canonical_bytes libs policy =
     and_then (manifest_validate libs (pol_manifest policy)) (\<lambda>_.
     if pol_schema_version policy \<noteq> SUDO_SCHEMA_VERSION \<or> pol_hosts policy = [] \<or>
        length (pol_hosts policy) > length (mf_members (pol_manifest policy))
     then Inl ManifestError
     else and_then (manifest_digest libs (pol_manifest policy)) (\<lambda>digest.
       hosts_loop libs (pol_manifest policy)
         (str ''heteronetwork-sudo-policy-v2'' @ [0] @ to_be_bytes (pol_schema_version policy) @
          field_bytes digest @ to_be_bytes (of_nat (length (pol_hosts policy)) :: u64))
         0 [] (pol_hosts policy)))"

definition policy_validate :: "quorum_libs \<Rightarrow> sudo_policy \<Rightarrow> quorum_error + unit" where
  "policy_validate libs policy = and_then (canonical_bytes libs policy) (\<lambda>_. Inr ())"

definition policy_digest :: "quorum_libs \<Rightarrow> sudo_policy \<Rightarrow> quorum_error + rstring" where
  "policy_digest libs policy = and_then (canonical_bytes libs policy) (\<lambda>bs. Inr (hex_digest libs bs))"

subsection \<open>Sudo grants\<close>

record sudo_grant =
  sg_schema_version :: u32
  sg_cluster_id :: rstring
  sg_host_node_id :: rstring
  sg_caller_uid :: u32
  sg_runas_uid :: u32
  sg_identity :: sudo_identity
  sg_attestation_key_epoch :: u64
  sg_requester_public_key :: bytes
  sg_manifest_epoch :: u64
  sg_manifest_digest :: rstring
  sg_policy_digest :: rstring
  sg_nonce :: bytes
  sg_issued_at :: u64
  sg_expires_at :: u64

definition lifetime :: "u64 \<Rightarrow> u64 \<Rightarrow> u64 \<Rightarrow> quorum_error + unit" where
  "lifetime issued expires now =
     (if issued > now \<or> expires \<le> now \<or> expires \<le> issued \<or> expires - issued > MAX_SUDO_TTL_SECS
      then Inl TimeError else Inr ())"

definition hex_text :: "rstring \<Rightarrow> bool" where
  "hex_text digest \<longleftrightarrow> length digest = 64 \<and>
     list_all (\<lambda>b. 48 \<le> b \<and> b \<le> 57 \<or> 97 \<le> b \<and> b \<le> 102) digest"

definition grant_shape :: "quorum_libs \<Rightarrow> sudo_grant \<Rightarrow> quorum_error + unit" where
  "grant_shape libs g =
     (if sg_schema_version g \<noteq> SUDO_SCHEMA_VERSION \<or> \<not> valid_id (sg_cluster_id g) \<or>
         \<not> valid_id (sg_host_node_id g) \<or> sg_caller_uid g = 0 \<or> sg_runas_uid g \<noteq> 0 \<or>
         sg_attestation_key_epoch g = 0 \<or> sg_manifest_epoch g = 0 \<or> sg_nonce g = replicate 32 0 \<or>
         list_ex (\<lambda>digest. \<not> hex_text digest) [sg_manifest_digest g, sg_policy_digest g]
      then Inl ClaimsError
      else and_then (identity_validate libs (sg_identity g)) (\<lambda>_.
        and_then (strong_key libs (sg_requester_public_key g)) (\<lambda>_. Inr ())))"

definition grant_validate :: "quorum_libs \<Rightarrow> sudo_policy \<Rightarrow> u64 \<Rightarrow> sudo_grant \<Rightarrow> quorum_error + unit" where
  "grant_validate libs policy now g =
     and_then (grant_shape libs g) (\<lambda>_.
     and_then (policy_digest libs policy) (\<lambda>digest.
     if sg_policy_digest g \<noteq> digest \<or> sg_cluster_id g \<noteq> mf_cluster_id (pol_manifest policy) \<or>
        sg_manifest_epoch g \<noteq> mf_epoch (pol_manifest policy)
     then Inl ClaimsError
     else and_then (manifest_digest libs (pol_manifest policy)) (\<lambda>manifest_digest.
       if sg_manifest_digest g \<noteq> manifest_digest then Inl ClaimsError
       else and_then (ok_or (am_get (pol_hosts policy) (sg_host_node_id g)) ClaimsError) (\<lambda>host.
         if sg_attestation_key_epoch g \<noteq> sh_attestation_key_epoch host \<or>
            am_get (sh_callers host) (sg_caller_uid g) \<noteq> Some (sg_identity g)
         then Inl ClaimsError
         else lifetime (sg_issued_at g) (sg_expires_at g) now))))"

definition grant_bytes :: "sudo_grant \<Rightarrow> bytes" where
  "grant_bytes g =
     str ''heteronetwork-sudo-host-attestation-v2'' @ [0] @ to_be_bytes (sg_schema_version g) @
     field_bytes (sg_cluster_id g) @ field_bytes (sg_host_node_id g) @ to_be_bytes (sg_caller_uid g) @
     to_be_bytes (sg_runas_uid g) @ identity_append (sg_identity g) @
     to_be_bytes (sg_attestation_key_epoch g) @ sg_requester_public_key g @ to_be_bytes (sg_manifest_epoch g) @
     field_bytes (sg_manifest_digest g) @ field_bytes (sg_policy_digest g) @ sg_nonce g @
     to_be_bytes (sg_issued_at g) @ to_be_bytes (sg_expires_at g)"

definition attestation_bytes :: "quorum_libs \<Rightarrow> sudo_grant \<Rightarrow> quorum_error + bytes" where
  "attestation_bytes libs g = and_then (grant_shape libs g) (\<lambda>_. Inr (grant_bytes g))"

record sudo_challenge =
  sc_grant :: sudo_grant
  sc_host_signature :: bytes

definition challenge_validate :: "quorum_libs \<Rightarrow> sudo_policy \<Rightarrow> u64 \<Rightarrow> sudo_challenge \<Rightarrow> quorum_error + unit" where
  "challenge_validate libs policy now c =
     and_then (grant_validate libs policy now (sc_grant c)) (\<lambda>_.
     and_then (ok_or (am_get (pol_hosts policy) (sg_host_node_id (sc_grant c))) ClaimsError) (\<lambda>host.
     and_then (attestation_bytes libs (sc_grant c)) (\<lambda>bs.
     verify_ed25519 libs (sh_attestation_public_key host) bs (sc_host_signature c))))"

definition challenge_signing_bytes :: "quorum_libs \<Rightarrow> sudo_challenge \<Rightarrow> quorum_error + bytes" where
  "challenge_signing_bytes libs c =
     (if length (sc_host_signature c) \<noteq> 64 then Inl ProofError
      else and_then (attestation_bytes libs (sc_grant c)) (\<lambda>bs.
        Inr (str ''heteronetwork-sudo-privilege-grant-v2'' @ [0] @ field_bytes bs @
          field_bytes (sc_host_signature c))))"

record sudo_round1_request =
  q1_identifier :: u16
  q1_challenge :: sudo_challenge
  q1_requester_proof :: bytes

definition round1_proof_bytes :: "quorum_libs \<Rightarrow> sudo_round1_request \<Rightarrow> quorum_error + bytes" where
  "round1_proof_bytes libs r =
     and_then (challenge_signing_bytes libs (q1_challenge r)) (\<lambda>bs.
     Inr (str ''heteronetwork-sudo-round1-pop-v2'' @ [0] @ to_be_bytes (q1_identifier r) @ field_bytes bs))"

record sudo_round2_request =
  q2_identifier :: u16
  q2_session_id :: bytes
  q2_challenge :: sudo_challenge
  q2_signing_package :: signing_package
  q2_requester_proof :: bytes

definition round2_proof_bytes :: "quorum_libs \<Rightarrow> sudo_round2_request \<Rightarrow> quorum_error + bytes" where
  "round2_proof_bytes libs r =
     (if length (sp_commitments (q2_signing_package r)) > 1024 \<or> length (sp_message (q2_signing_package r)) > 8192
      then Inl PackageError
      else and_then (challenge_signing_bytes libs (q2_challenge r)) (\<lambda>bs.
        and_then (ok_or (ql_package_serialize libs (q2_signing_package r)) PackageError) (\<lambda>package.
        Inr (str ''heteronetwork-sudo-round2-pop-v2'' @ [0] @ to_be_bytes (q2_identifier r) @ q2_session_id r @
          field_bytes bs @ field_bytes package))))"

definition validate_sudo_identity ::
  "quorum_libs \<Rightarrow> signer_engine \<Rightarrow> sudo_policy \<Rightarrow> sudo_identity \<Rightarrow> sudo_challenge \<Rightarrow> u64 \<Rightarrow> quorum_error + unit" where
  "validate_sudo_identity libs e policy authenticated c now =
     and_then (manifest_digest libs (se_manifest e)) (\<lambda>own.
     and_then (manifest_digest libs (pol_manifest policy)) (\<lambda>trusted.
     if own \<noteq> trusted then Inl ManifestError
     else and_then (challenge_validate libs policy now c) (\<lambda>_.
       if authenticated \<noteq> sg_identity (sc_grant c) then Inl ProofError else Inr ())))"

definition round1_sudo ::
  "quorum_libs \<Rightarrow> entropy \<Rightarrow> sudo_policy \<Rightarrow> sudo_identity \<Rightarrow> sudo_round1_request \<Rightarrow> u64 \<Rightarrow> signer_engine
     \<Rightarrow> (quorum_error + round1_response) \<times> signer_engine" where
  "round1_sudo libs rng policy authenticated r now e =
     st_then (validate_sudo_identity libs e policy authenticated (q1_challenge r) now, e) (\<lambda>_ e.
     if q1_identifier r \<noteq> se_identifier e then (Inl ProofError, e)
     else st_then (round1_proof_bytes libs r, e) (\<lambda>bs e.
       st_then (verify_ed25519 libs (sg_requester_public_key (sc_grant (q1_challenge r))) bs (q1_requester_proof r), e) (\<lambda>_ e.
       st_then (challenge_signing_bytes libs (q1_challenge r), e) (\<lambda>message e.
       allocate_pending libs rng message (sg_expires_at (sc_grant (q1_challenge r))) now e))))"

definition round2_sudo ::
  "quorum_libs \<Rightarrow> sudo_policy \<Rightarrow> sudo_identity \<Rightarrow> sudo_round2_request \<Rightarrow> u64 \<Rightarrow> signer_engine
     \<Rightarrow> (quorum_error + bytes) \<times> signer_engine" where
  "round2_sudo libs policy authenticated r now e =
     st_then (take_pending (q2_session_id r) e) (\<lambda>p e.
     st_then (validate_sudo_identity libs e policy authenticated (q2_challenge r) now, e) (\<lambda>_ e.
     if q2_identifier r \<noteq> se_identifier e then (Inl ProofError, e)
     else st_then (round2_proof_bytes libs r, e) (\<lambda>bs e.
       st_then (verify_ed25519 libs (sg_requester_public_key (sc_grant (q2_challenge r))) bs (q2_requester_proof r), e) (\<lambda>_ e.
       st_then (challenge_signing_bytes libs (q2_challenge r), e) (\<lambda>message e.
       (sign_pending libs e p message (q2_signing_package r) now, e))))))"

subsection \<open>Redemption\<close>

record sudo_token =
  st_challenge :: sudo_challenge
  st_signature :: bytes

record sudo_local_invocation =
  iv_host_node_id :: rstring
  iv_caller_uid :: u32
  iv_runas_uid :: u32
  iv_nonce :: bytes
  iv_issued_at :: u64
  iv_expires_at :: u64

definition invocation_proof_bytes ::
  "quorum_libs \<Rightarrow> sudo_token \<Rightarrow> sudo_local_invocation \<Rightarrow> quorum_error + bytes" where
  "invocation_proof_bytes libs token iv =
     (if \<not> valid_id (iv_host_node_id iv) \<or> iv_caller_uid iv = 0 \<or> iv_runas_uid iv \<noteq> 0 \<or>
         iv_nonce iv = replicate 32 0 \<or> length (st_signature token) \<noteq> 64
      then Inl ClaimsError
      else and_then (challenge_signing_bytes libs (st_challenge token)) (\<lambda>bs.
        Inr (str ''heteronetwork-sudo-redemption-pop-v2'' @ [0] @ field_bytes bs @ field_bytes (st_signature token) @
          field_bytes (iv_host_node_id iv) @ to_be_bytes (iv_caller_uid iv) @ to_be_bytes (iv_runas_uid iv) @
          iv_nonce iv @ to_be_bytes (iv_issued_at iv) @ to_be_bytes (iv_expires_at iv))))"

record verified_sudo_grant =
  vs_grant :: sudo_grant
  vs_invocation :: sudo_local_invocation

definition grant_validate_at :: "u64 \<Rightarrow> verified_sudo_grant \<Rightarrow> quorum_error + unit" where
  "grant_validate_at now v =
     and_then (lifetime (sg_issued_at (vs_grant v)) (sg_expires_at (vs_grant v)) now) (\<lambda>_.
     lifetime (iv_issued_at (vs_invocation v)) (iv_expires_at (vs_invocation v)) now)"

definition verify_sudo_redemption ::
  "quorum_libs \<Rightarrow> sudo_policy \<Rightarrow> sudo_token \<Rightarrow> sudo_local_invocation \<Rightarrow> bytes \<Rightarrow> u64
     \<Rightarrow> quorum_error + verified_sudo_grant" where
  "verify_sudo_redemption libs policy token iv requester_proof now =
     and_then (challenge_validate libs policy now (st_challenge token)) (\<lambda>_.
     let g = sc_grant (st_challenge token) in
     if iv_host_node_id iv \<noteq> sg_host_node_id g \<or> iv_caller_uid iv \<noteq> sg_caller_uid g \<or>
        iv_runas_uid iv \<noteq> sg_runas_uid g \<or> iv_nonce iv = sg_nonce g \<or> iv_issued_at iv < sg_issued_at g \<or>
        iv_expires_at iv > sg_expires_at g
     then Inl ClaimsError
     else and_then (lifetime (iv_issued_at iv) (iv_expires_at iv) now) (\<lambda>_.
       and_then (invocation_proof_bytes libs token iv) (\<lambda>proof_bytes.
       and_then (verify_ed25519 libs (sg_requester_public_key g) proof_bytes requester_proof) (\<lambda>_.
       and_then (ok_or (ql_signature_deserialize libs (st_signature token)) SignatureError) (\<lambda>signature.
       and_then (public_keys libs (pol_manifest policy)) (\<lambda>keys.
       and_then (challenge_signing_bytes libs (st_challenge token)) (\<lambda>message.
       if ql_group_verify libs (pk_verifying_key keys) message signature
       then Inr \<lparr>vs_grant = g, vs_invocation = iv\<rparr> else Inl SignatureError)))))))"

subsection \<open>Operations of the signer engine\<close>

datatype engine_op =
    Round1 entropy capability_claims request_proof u64
  | Round2 bytes capability_claims signing_package u64
  | Round1Rotation entropy manifest manifest_transition u64
  | Round2Rotation bytes manifest manifest_transition signing_package u64
  | Round1Sudo entropy sudo_policy sudo_identity sudo_round1_request u64
  | Round2Sudo sudo_policy sudo_identity sudo_round2_request u64

datatype engine_result = Response "quorum_error + round1_response" | Share "quorum_error + bytes"

fun engine_step :: "quorum_libs \<Rightarrow> engine_op \<Rightarrow> signer_engine \<Rightarrow> engine_result \<times> signer_engine" where
  "engine_step libs (Round1 rng c p now) e = map_prod Response id (round1 libs rng c p now e)"
| "engine_step libs (Round2 sid c package now) e = map_prod Share id (round2 libs sid c package now e)"
| "engine_step libs (Round1Rotation rng old t now) e = map_prod Response id (round1_rotation libs rng old t now e)"
| "engine_step libs (Round2Rotation sid old t package now) e =
     map_prod Share id (round2_rotation libs sid old t package now e)"
| "engine_step libs (Round1Sudo rng policy who r now) e = map_prod Response id (round1_sudo libs rng policy who r now e)"
| "engine_step libs (Round2Sudo policy who r now) e = map_prod Share id (round2_sudo libs policy who r now e)"

subsection \<open>Accounting for nonces\<close>

lemma mset_bm_insert: "am_get m k = None \<Longrightarrow> mset (bm_insert k v m) = add_mset (k, v) (mset m)"
  by (induction k v m rule: bm_insert.induct) auto

lemma mset_am_remove:
  "distinct (map fst m) \<Longrightarrow> am_get m k = Some v \<Longrightarrow> mset m = add_mset (k, v) (mset (am_remove k m))"
proof (induction m)
  case (Cons e m)
  obtain k' v' where e: "e = (k', v')" by (cases e)
  show ?case
  proof (cases "k' = k")
    case True
    then have "filter (\<lambda>e. fst e \<noteq> k) m = m" using Cons.prems e by (auto intro!: filter_True)
    then show ?thesis using Cons.prems True e by (auto simp: am_remove_def case_prod_unfold)
  next
    case False
    then show ?thesis using Cons e by (auto simp: am_remove_def case_prod_unfold)
  qed
qed simp

text \<open>The effect of a first and of a second round on the pending sessions.\<close>

definition round1_effect ::
  "signer_engine \<Rightarrow> (quorum_error + round1_response) \<times> signer_engine \<Rightarrow> bool" where
  "round1_effect e out \<longleftrightarrow>
     bm_wf (se_pending (snd out)) \<and> se_manifest (snd out) = se_manifest e \<and> se_key (snd out) = se_key e \<and>
     (case fst out of
        Inl _ \<Rightarrow> mset (se_pending (snd out)) \<subseteq># mset (se_pending e)
      | Inr r \<Rightarrow> \<exists>p. am_get (se_pending (snd out)) (r1_session_id r) = Some p \<and>
          mset (se_pending (snd out)) \<subseteq># add_mset (r1_session_id r, p) (mset (se_pending e)))"

definition round2_effect ::
  "bytes \<Rightarrow> signer_engine \<Rightarrow> (quorum_error + bytes) \<times> signer_engine \<Rightarrow> bool" where
  "round2_effect sid e out \<longleftrightarrow>
     bm_wf (se_pending (snd out)) \<and> se_manifest (snd out) = se_manifest e \<and> se_key (snd out) = se_key e \<and>
     (case fst out of
        Inl _ \<Rightarrow> mset (se_pending (snd out)) \<subseteq># mset (se_pending e)
      | Inr _ \<Rightarrow> \<exists>p. am_get (se_pending e) sid = Some p \<and>
          add_mset (sid, p) (mset (se_pending (snd out))) \<subseteq># mset (se_pending e))"

lemma st_then_either:
  "(\<And>x. r = Inl x \<Longrightarrow> P (Inl x, s)) \<Longrightarrow> (\<And>y. r = Inr y \<Longrightarrow> P (f y s)) \<Longrightarrow> P (st_then (r, s) f)"
  by (cases r) simp_all

lemmas round1_then = st_then_either [where P = "round1_effect e" for e]
lemmas round2_then = st_then_either [where P = "round2_effect sid e" for sid e]

lemma round1_if:
  "(c \<Longrightarrow> round1_effect e a) \<Longrightarrow> (\<not> c \<Longrightarrow> round1_effect e b) \<Longrightarrow> round1_effect e (if c then a else b)"
  by simp

lemma round1_effect_Inl: "bm_wf (se_pending e) \<Longrightarrow> round1_effect e (Inl x, e)"
  by (simp add: round1_effect_def)

lemma am_retain_subseteq: "mset (am_retain P m) \<subseteq># mset m"
  unfolding am_retain_def mset_filter by (rule multiset_filter_subset)

lemma prune_pending_wf: "bm_wf (se_pending e) \<Longrightarrow> bm_wf (se_pending (prune_pending now e))"
  by (simp add: prune_pending_def bm.wf_retain)

lemma round1_effect_prune:
  assumes "bm_wf (se_pending e)" and "round1_effect (prune_pending now e) out"
  shows "round1_effect e out"
proof -
  have sub: "mset (se_pending (prune_pending now e)) \<subseteq># mset (se_pending e)"
    by (simp add: prune_pending_def am_retain_subseteq)
  then have "add_mset x (mset (se_pending (prune_pending now e))) \<subseteq># add_mset x (mset (se_pending e))" for x by simp
  then show ?thesis
    using assms sub subset_mset.order_trans unfolding round1_effect_def
    by (auto simp: prune_pending_def split: sum.splits)
qed

lemma allocate_effect:
  assumes wf: "bm_wf (se_pending e)"
  shows "round1_effect e (allocate_pending libs rng message expires_at now e)"
proof -
  let ?e = "prune_pending now e"
  have "round1_effect ?e (allocate_pending libs rng message expires_at now e)"
    unfolding allocate_pending_def Let_def
    using prune_pending_wf [OF wf, of now]
    by (auto simp: round1_effect_def mset_bm_insert bm_wf_insert bm_get_insert ok_or_def st_then_def
        split: option.splits prod.splits)
  then show ?thesis by (rule round1_effect_prune [OF wf])
qed

lemma take_effect:
  assumes wf: "bm_wf (se_pending e)"
    and signed: "\<And>p e'. se_manifest e' = se_manifest e \<Longrightarrow> se_key e' = se_key e \<Longrightarrow> snd (f p e') = e'"
  shows "round2_effect sid e (st_then (take_pending sid e) f)"
proof (cases "am_get (se_pending e) sid")
  case None
  then show ?thesis using wf by (simp add: take_pending_def round2_effect_def)
next
  case (Some p)
  let ?e = "e\<lparr>se_pending := am_remove sid (se_pending e)\<rparr>"
  have "distinct (map fst (se_pending e))" using wf by (simp add: bm_wf_def strict_sorted_iff)
  from mset_am_remove [OF this Some]
  have m: "mset (se_pending e) = add_mset (sid, p) (mset (se_pending ?e))" by simp
  have s: "snd (f p ?e) = ?e" by (rule signed) simp_all
  show ?thesis
    using Some wf m s by (cases "fst (f p ?e)") (simp_all add: take_pending_def round2_effect_def bm.wf_remove)
qed

lemma round1_effects:
  assumes "bm_wf (se_pending e)"
  shows "round1_effect e (round1 libs rng c p now e)"
    and "round1_effect e (round1_rotation libs rng old t now e)"
    and "round1_effect e (round1_sudo libs rng policy who r now e)"
proof -
  note wf = prune_pending_wf [OF assms, of now]
  show "round1_effect e (round1 libs rng c p now e)"
    unfolding round1_def Let_def
    by (rule round1_effect_prune [OF assms, where now = now]; intro round1_then round1_effect_Inl allocate_effect wf)
  show "round1_effect e (round1_rotation libs rng old t now e)"
    unfolding round1_rotation_def by (intro round1_then round1_effect_Inl allocate_effect assms)
  show "round1_effect e (round1_sudo libs rng policy who r now e)"
    unfolding round1_sudo_def
    by (intro round1_then round1_effect_Inl allocate_effect assms round1_if)
qed


lemma st_then_snd: "(\<And>y. r = Inr y \<Longrightarrow> snd (f y s) = s) \<Longrightarrow> snd (st_then (r, s) f) = s"
  by (cases r) simp_all

lemma round2_effects:
  assumes "bm_wf (se_pending e)"
  shows "round2_effect sid e (round2 libs sid c package now e)"
    and "round2_effect sid e (round2_rotation libs sid old t package now e)"
    and "round2_effect (q2_session_id r) e (round2_sudo libs policy who r now e)"
  unfolding round2_def round2_rotation_def round2_sudo_def
  by (intro take_effect [OF assms]; auto intro!: st_then_snd)+

fun op_session :: "engine_op \<Rightarrow> bytes option" where
  "op_session (Round2 sid _ _ _) = Some sid"
| "op_session (Round2Rotation sid _ _ _ _) = Some sid"
| "op_session (Round2Sudo _ _ r _) = Some (q2_session_id r)"
| "op_session _ = None"

lemma engine_step_effect:
  assumes "bm_wf (se_pending e)" and "engine_step libs op e = (out, e')"
  shows "(\<exists>r. out = Response r \<and> op_session op = None \<and> round1_effect e (r, e')) \<or>
    (\<exists>r sid. out = Share r \<and> op_session op = Some sid \<and> round2_effect sid e (r, e'))"
  using round1_effects [OF assms(1), of libs] round2_effects [OF assms(1), of _ libs] assms(2)
  by (cases op) (auto simp: map_prod_def split: prod.splits, (metis prod.collapse)+)

lemma engine_step_wf:
  "bm_wf (se_pending e) \<Longrightarrow> bm_wf (se_pending (snd (engine_step libs op e)))"
  using engine_step_effect [of e libs op] by (cases "engine_step libs op e") (auto simp: round1_effect_def round2_effect_def)

interpretation signer: invariant_system "engine_step libs" "\<lambda>e. bm_wf (se_pending e)"
  by unfold_locales (rule engine_step_wf)

text \<open>
  The nonces that an engine commits to in a run, and those it computes signature shares with: a
  response reports the session whose pending entry holds the fresh nonces; a share is computed with
  the nonces of the session the request names.
\<close>

fun nonces_committed :: "quorum_libs \<Rightarrow> engine_op list \<Rightarrow> signer_engine \<Rightarrow> bytes list" where
  "nonces_committed libs [] e = []"
| "nonces_committed libs (op # ops) e =
     (let (out, e') = engine_step libs op e in
      (case out of Response (Inr r) \<Rightarrow> [pd_nonces (the (am_get (se_pending e') (r1_session_id r)))] | _ \<Rightarrow> []) @
      nonces_committed libs ops e')"

fun nonces_signed :: "quorum_libs \<Rightarrow> engine_op list \<Rightarrow> signer_engine \<Rightarrow> bytes list" where
  "nonces_signed libs [] e = []"
| "nonces_signed libs (op # ops) e =
     (let (out, e') = engine_step libs op e in
      (case out of Share (Inr share) \<Rightarrow> [pd_nonces (the (am_get (se_pending e) (the (op_session op))))] | _ \<Rightarrow> []) @
      nonces_signed libs ops e')"

abbreviation pending_nonces :: "signer_engine \<Rightarrow> bytes multiset" where
  "pending_nonces e \<equiv> image_mset (\<lambda>x. pd_nonces (snd x)) (mset (se_pending e))"

lemma nonces_accounted:
  "bm_wf (se_pending e) \<Longrightarrow>
     mset (nonces_signed libs ops e) \<subseteq># pending_nonces e + mset (nonces_committed libs ops e)"
proof (induction ops arbitrary: e)
  case (Cons op ops)
  obtain out e' where step: "engine_step libs op e = (out, e')" by (cases "engine_step libs op e")
  have IH: "mset (nonces_signed libs ops e') \<subseteq># pending_nonces e' + mset (nonces_committed libs ops e')"
    using Cons.IH engine_step_wf [OF Cons.prems, of libs op] step by simp
  have mono: "pending_nonces e' \<subseteq># image_mset (\<lambda>x. pd_nonces (snd x)) M" if "mset (se_pending e') \<subseteq># M" for M
    using that by (rule image_mset_subseteq_mono)
  from engine_step_effect [OF Cons.prems step] show ?case
  proof (elim disjE exE conjE)
    fix r assume r: "out = Response r" "op_session op = None" "round1_effect e (r, e')"
    then show ?thesis using step IH mono
      by (cases r) (auto simp: round1_effect_def intro: subset_mset.order_trans [OF IH] dest!: mono)
  next
    fix r sid assume r: "out = Share r" "op_session op = Some sid" "round2_effect sid e (r, e')"
    show ?thesis
    proof (cases r)
      case (Inr share)
      then obtain p where p: "am_get (se_pending e) sid = Some p"
        and sub: "add_mset (sid, p) (mset (se_pending e')) \<subseteq># mset (se_pending e)"
        using r by (auto simp: round2_effect_def)
      have "add_mset (pd_nonces p) (mset (nonces_signed libs ops e')) \<subseteq>#
          add_mset (pd_nonces p) (pending_nonces e') + mset (nonces_committed libs ops e')"
        using IH by simp
      also have "\<dots> \<subseteq># pending_nonces e + mset (nonces_committed libs ops e')"
        using image_mset_subseteq_mono [OF sub, of "\<lambda>x. pd_nonces (snd x)"] by (intro subset_mset.add_right_mono) simp
      finally show ?thesis using step r Inr p by simp
    qed (use r step mono in \<open>auto simp: round2_effect_def intro: subset_mset.order_trans [OF IH]\<close>)
  qed
qed simp


fun op_package :: "engine_op \<Rightarrow> signing_package option" where
  "op_package (Round2 _ _ package _) = Some package"
| "op_package (Round2Rotation _ _ _ package _) = Some package"
| "op_package (Round2Sudo _ _ r _) = Some (q2_signing_package r)"
| "op_package _ = None"

subsection \<open>Documents\<close>

datatype document = Capability capability_claims | Transition manifest_transition | SudoGrant sudo_challenge

fun document_bytes :: "quorum_libs \<Rightarrow> document \<Rightarrow> quorum_error + bytes" where
  "document_bytes libs (Capability c) = Inr (claims_signing_bytes c)"
| "document_bytes libs (Transition t) = transition_signing_bytes libs t"
| "document_bytes libs (SudoGrant c) = challenge_signing_bytes libs c"

fun op_document :: "engine_op \<Rightarrow> document" where
  "op_document (Round1 _ c _ _) = Capability c"
| "op_document (Round2 _ c _ _) = Capability c"
| "op_document (Round1Rotation _ _ t _) = Transition t"
| "op_document (Round2Rotation _ _ t _ _) = Transition t"
| "op_document (Round1Sudo _ _ _ r _) = SudoGrant (q1_challenge r)"
| "op_document (Round2Sudo _ _ r _) = SudoGrant (q2_challenge r)"

text \<open>Two approvals of a transition name the same manifest when its digest agrees.\<close>

fun same_document :: "quorum_libs \<Rightarrow> document \<Rightarrow> document \<Rightarrow> bool" where
  "same_document libs (Capability c) (Capability c') \<longleftrightarrow> c = c'"
| "same_document libs (Transition t) (Transition t') \<longleftrightarrow>
     mt_old_manifest_digest t = mt_old_manifest_digest t' \<and>
     manifest_digest libs (mt_new_manifest t) = manifest_digest libs (mt_new_manifest t') \<and>
     mf_cluster_id (mt_new_manifest t) = mf_cluster_id (mt_new_manifest t') \<and>
     mf_epoch (mt_new_manifest t) = mf_epoch (mt_new_manifest t') \<and> mt_request_id t = mt_request_id t' \<and>
     mt_issued_at t = mt_issued_at t' \<and> mt_expires_at t = mt_expires_at t'"
| "same_document libs (SudoGrant c) (SudoGrant c') \<longleftrightarrow> c = c'"
| "same_document libs _ _ \<longleftrightarrow> False"

text \<open>Documents as they occur: arrays of 32 bytes, texts shorter than the address space.\<close>

definition grant_wf :: "sudo_grant \<Rightarrow> bool" where
  "grant_wf g \<longleftrightarrow> length (sg_requester_public_key g) = 32 \<and> length (sg_nonce g) = 32 \<and>
     length (sg_cluster_id g) < 2 ^ 64 \<and> length (sg_host_node_id g) < 2 ^ 64 \<and>
     length (si_issuer (sg_identity g)) < 2 ^ 64 \<and> length (si_subject (sg_identity g)) < 2 ^ 64 \<and>
     length (sg_manifest_digest g) < 2 ^ 64 \<and> length (sg_policy_digest g) < 2 ^ 64 \<and>
     length (grant_bytes g) < 2 ^ 64"

fun document_wf :: "quorum_libs \<Rightarrow> document \<Rightarrow> bool" where
  "document_wf libs (Capability c) \<longleftrightarrow> claims_wf c"
| "document_wf libs (Transition t) \<longleftrightarrow> length (mt_request_id t) = 32 \<and>
     length (mt_old_manifest_digest t) < 2 ^ 64 \<and> length (mf_cluster_id (mt_new_manifest t)) < 2 ^ 64 \<and>
     (\<forall>digest. manifest_digest libs (mt_new_manifest t) = Inr digest \<longrightarrow> length digest < 2 ^ 64)"
| "document_wf libs (SudoGrant c) \<longleftrightarrow> grant_wf (sc_grant c)"

lemma grant_bytes_inj:
  assumes "grant_wf g" and "grant_wf g'" and "grant_bytes g = grant_bytes g'"
  shows "g = g'"
proof -
  have "sg_schema_version g = sg_schema_version g' \<and> sg_cluster_id g = sg_cluster_id g' \<and>
    sg_host_node_id g = sg_host_node_id g' \<and> sg_caller_uid g = sg_caller_uid g' \<and> sg_runas_uid g = sg_runas_uid g' \<and>
    si_issuer (sg_identity g) = si_issuer (sg_identity g') \<and> si_subject (sg_identity g) = si_subject (sg_identity g') \<and>
    sg_attestation_key_epoch g = sg_attestation_key_epoch g' \<and>
    sg_requester_public_key g = sg_requester_public_key g' \<and> sg_manifest_epoch g = sg_manifest_epoch g' \<and>
    sg_manifest_digest g = sg_manifest_digest g' \<and> sg_policy_digest g = sg_policy_digest g' \<and>
    sg_nonce g = sg_nonce g' \<and> sg_issued_at g = sg_issued_at g' \<and> sg_expires_at g = sg_expires_at g'"
    using assms by (simp add: grant_bytes_def grant_wf_def identity_append_def transcript_simps)
  then show ?thesis by (intro sudo_grant.equality sudo_identity.equality) simp_all
qed

lemma domains_differ:
  "str ''heteronetwork-quorum-capability-v1'' @ [0] @ a \<noteq> str ''heteronetwork-quorum-manifest-transition-v1'' @ [0] @ b"
  "str ''heteronetwork-quorum-capability-v1'' @ [0] @ a \<noteq> str ''heteronetwork-sudo-privilege-grant-v2'' @ [0] @ b"
  "str ''heteronetwork-quorum-manifest-transition-v1'' @ [0] @ a \<noteq> str ''heteronetwork-sudo-privilege-grant-v2'' @ [0] @ b"
  by (simp_all add: str_def)

lemma document_bytes_inj:
  assumes "document_bytes libs d = Inr bs" and "document_bytes libs d' = Inr bs"
    and "document_wf libs d" and "document_wf libs d'"
  shows "same_document libs d d'"
proof (cases "(libs, d, d')" rule: same_document.cases)
  case (1 libs c c')
  then show ?thesis using assms claims_signing_bytes_inj by auto
next
  case (2 libs t t')
  then show ?thesis using assms by (auto simp: transition_signing_bytes_def result_simps transcript_simps)
next
  case (3 libs c c')
  then have "grant_bytes (sc_grant c) = grant_bytes (sc_grant c')" "sc_host_signature c = sc_host_signature c'"
    using assms
    by (auto simp: challenge_signing_bytes_def attestation_bytes_def result_simps transcript_simps grant_wf_def
        split: if_splits)
  then show ?thesis using 3 assms grant_bytes_inj [of "sc_grant c" "sc_grant c'"] by simp
qed (use assms domains_differ domains_differ [symmetric] in
    \<open>auto simp: claims_signing_bytes_def transition_signing_bytes_def challenge_signing_bytes_def result_simps split: if_splits\<close>)

lemma share_from_session:
  assumes "engine_step libs op e = (Share (Inr share), e')"
  shows "\<exists>sid p package now message. op_session op = Some sid \<and> am_get (se_pending e) sid = Some p \<and>
    op_package op = Some package \<and> document_bytes libs (op_document op) = Inr message \<and>
    e' = e\<lparr>se_pending := am_remove sid (se_pending e)\<rparr> \<and> sign_pending libs e' p message package now = Inr share"
  using assms
  by (cases op) (auto simp: map_prod_def round2_def round2_rotation_def round2_sudo_def take_pending_def st_then_ok
      split: prod.splits option.splits if_splits)

lemma allocate_message:
  "allocate_pending libs rng message expires_at now e = (Inr r, e') \<Longrightarrow>
     \<exists>p. am_get (se_pending e') (r1_session_id r) = Some p \<and> pd_message p = message"
  by (auto simp: allocate_pending_def Let_def result_simps bm_get_insert split: if_splits prod.splits)

lemma session_from_document:
  assumes "engine_step libs op e = (Response (Inr r), e')"
  shows "\<exists>p. am_get (se_pending e') (r1_session_id r) = Some p \<and> document_bytes libs (op_document op) = Inr (pd_message p)"
  using assms allocate_message
  by (cases op) (force simp: map_prod_def round1_def round1_rotation_def round1_sudo_def st_then_ok Let_def
      split: prod.splits if_splits)+


subsection \<open>Properties of the engine\<close>

text \<open>
  C5. No FROST nonce signs twice. In any sequence of capability, rotation and sudo rounds, failed
  ones included, of an engine that starts without sessions, the nonces that shares are computed
  with are, counted with multiplicity, among the nonces the engine committed to; and a share is
  always computed with the nonces and the key of the session the request names.
\<close>

theorem nonces_used_once:
  assumes "engine_new libs m node_id key max_pending ttl = Inr e"
  shows "mset (nonces_signed libs ops e) \<subseteq># mset (nonces_committed libs ops e) \<and>
    (\<forall>s \<in> set (states (engine_step libs) ops e). \<forall>op share s'.
       engine_step libs op s = (Share (Inr share), s') \<longrightarrow>
       (\<exists>sid p package. op_session op = Some sid \<and> am_get (se_pending s) sid = Some p \<and>
          am_get (se_pending s') sid = None \<and> ql_sign libs package (pd_nonces p) (se_key s) = Some share))"
proof -
  have e: "se_pending e = []"
    using assms by (auto simp: engine_new_def result_simps split: if_splits)
  have "\<exists>sid p package. op_session op = Some sid \<and> am_get (se_pending s) sid = Some p \<and>
      am_get (se_pending s') sid = None \<and> ql_sign libs package (pd_nonces p) (se_key s) = Some share"
    if "s \<in> set (states (engine_step libs) ops e)" and step: "engine_step libs op s = (Share (Inr share), s')" for s op share s'
  proof -
    have wf: "bm_wf (se_pending s)" using signer.inv_states [OF _ that(1)] e by (simp add: bm_wf_def)
    from share_from_session [OF step] obtain sid p package now message where
      a: "op_session op = Some sid" "am_get (se_pending s) sid = Some p"
        "s' = s\<lparr>se_pending := am_remove sid (se_pending s)\<rparr>"
      and sp: "sign_pending libs s' p message package now = Inr share" by blast
    then have "am_get (se_pending s') sid = None" "se_key s' = se_key s" using wf by (simp_all add: bm.get_remove)
    then show ?thesis using a sign_pending_ok(3) [OF sp] by auto
  qed
  then show ?thesis using nonces_accounted [of e libs ops] e by (simp add: bm_wf_def)
qed

text \<open>
  C4. Two approvals of one group have a signer in common. Whenever two engines of the same frozen
  manifest release shares, whatever for, the signing packages both name a majority of the members,
  and some member appears in both.
\<close>

theorem shares_need_common_majority:
  assumes "manifest_validate libs m = Inr ()" and "se_manifest e1 = m" and "se_manifest e2 = m"
    and "engine_step libs op1 e1 = (Share (Inr s1), e1')" and "engine_step libs op2 e2 = (Share (Inr s2), e2')"
    and "op_package op1 = Some package1" and "op_package op2 = Some package2"
    and "bm_wf (sp_commitments package1)" and "bm_wf (sp_commitments package2)"
  shows "length (mf_members m) < 2 * length (sp_commitments package1) \<and>
    (\<exists>id c1 c2. am_get (sp_commitments package1) id = Some c1 \<and> am_get (sp_commitments package2) id = Some c2)"
proof -
  have a: "approving libs m (fst ` set (sp_commitments package))"
    if "se_manifest e = m" "engine_step libs op e = (Share (Inr s), e')" "op_package op = Some package"
      "bm_wf (sp_commitments package)" for e op s e' package
  proof -
    note h = that
    have d: "distinct (map fst (sp_commitments package))" using that(4) by (simp add: bm_wf_def strict_sorted_iff)
    from share_from_session [OF that(2)] obtain sid p now message where
      "e' = e\<lparr>se_pending := am_remove sid (se_pending e)\<rparr>"
      and sp: "sign_pending libs e' p message package now = Inr s"
      using h(3) by auto
    then show ?thesis using sign_pending_ok(7) [OF sp _ d] assms(1) h(1) by simp
  qed
  note both = a [OF assms(2,4,6,8)] a [OF assms(3,5,7,9)]
  obtain id where "id \<in> fst ` set (sp_commitments package1)" "id \<in> fst ` set (sp_commitments package2)"
    using group.common_member [OF both] by blast
  moreover have "length (mf_members m) div 2 + 1 \<le> length (sp_commitments package1)"
    using both(1) unat_threshold [OF manifest_validate_ok(1) [OF assms(1)]] card_length [of "map fst (sp_commitments package1)"]
    by (simp add: approving_def)
  ultimately show ?thesis by (auto simp: dom_map_of_conv_image_fst [symmetric] dom_def)
qed

text \<open>
  C6. A session signs the document it was opened for and no other. If a first round opened a session
  for a document, and a later second round gets a share from that session, then the second round
  presented the same kind of document with the same contents: the three kinds of transcript have
  different domains, and each transcript determines its document.
\<close>

theorem session_signs_its_document:
  assumes "engine_step libs op1 e1 = (Response (Inr r), e1')" and "sid = r1_session_id r"
    and "am_get (se_pending e2) sid = am_get (se_pending e1') sid" and "op_session op2 = Some sid"
    and "engine_step libs op2 e2 = (Share (Inr share), e2')"
    and "document_wf libs (op_document op1)" and "document_wf libs (op_document op2)"
  shows "same_document libs (op_document op1) (op_document op2)"
proof -
  obtain p where p: "am_get (se_pending e1') sid = Some p" "document_bytes libs (op_document op1) = Inr (pd_message p)"
    using session_from_document [OF assms(1)] assms(2) by auto
  obtain message package now where m: "document_bytes libs (op_document op2) = Inr message"
    and "sign_pending libs e2' p message package now = Inr share"
    using share_from_session [OF assms(5)] assms(3,4) p(1) by auto
  then have "pd_message p = message" using sign_pending_ok(1) by blast
  then show ?thesis using document_bytes_inj p(2) m assms(6,7) by blast
qed


subsection \<open>Properties of rotation and redemption\<close>

text \<open>Manifests that follow from a trusted one by verified rotations.\<close>

inductive rotated :: "quorum_libs \<Rightarrow> manifest \<Rightarrow> nat \<Rightarrow> manifest \<Rightarrow> bool" for libs m where
  anchor: "rotated libs m 0 m"
| rotate: "rotated libs m n old \<Longrightarrow> verify_rotation libs old rotation now = Inr v \<Longrightarrow>
    rotated libs m (Suc n) (mt_new_manifest (mr_transition rotation))"

inductive_cases rotated_SucE: "rotated libs m (Suc n) m'"

lemma verify_rotation_ok:
  assumes "verify_rotation libs old rotation now = Inr v" and "t = mr_transition rotation" and "new = mt_new_manifest t"
  shows "manifest_validate libs new = Inr ()" and "mf_cluster_id new = mf_cluster_id old"
    and "unat (mf_epoch new) = unat (mf_epoch old) + 1"
    and "\<exists>message. transition_signing_bytes libs t = Inr message \<and>
      group_verify libs old message (mr_old_signature rotation) = Inr () \<and>
      group_verify libs new message (mr_new_signature rotation) = Inr ()"
    and "\<exists>old_keys new_keys. public_keys libs old = Inr old_keys \<and> public_keys libs new = Inr new_keys \<and>
      pk_verifying_key old_keys \<noteq> pk_verifying_key new_keys"
  using assms
  by (auto simp: verify_rotation_def transition_validate_def result_simps split: if_splits)

text \<open>
  C8. Rotations form a chain without repetition: after \<open>n\<close> verified rotations the manifest belongs to
  the same cluster and its epoch is exactly \<open>n\<close> later, so no epoch is used twice and none is
  skipped; and the last step carries the signatures of both the group it replaces and its own,
  under different keys, over the same transcript.
\<close>

theorem rotation_chain:
  assumes "rotated libs m n m'"
  shows "mf_cluster_id m' = mf_cluster_id m \<and> unat (mf_epoch m') = unat (mf_epoch m) + n \<and>
    (n \<noteq> 0 \<longrightarrow> manifest_validate libs m' = Inr () \<and>
       (\<exists>old old_keys new_keys message old_signature new_signature. rotated libs m (n - 1) old \<and>
          public_keys libs old = Inr old_keys \<and> public_keys libs m' = Inr new_keys \<and>
          pk_verifying_key old_keys \<noteq> pk_verifying_key new_keys \<and>
          group_verify libs old message old_signature = Inr () \<and> group_verify libs m' message new_signature = Inr ()))"
  using assms
proof (induction rule: rotated.induct)
  case (rotate n old rotation now v)
  note ok = verify_rotation_ok [OF rotate.hyps(2) refl refl]
  show ?case using rotate.IH rotate.hyps(1) ok by (simp, blast)
qed simp

lemma lifetime_ok [result_simps]:
  "lifetime issued expires now = Inr u \<longleftrightarrow>
     issued \<le> now \<and> now < expires \<and> unat expires - unat issued \<le> 60"
proof -
  have "(expires - issued \<le> 60) = (unat expires - unat issued \<le> 60)" if "issued < expires"
    using that by (simp add: word_le_nat_alt word_less_nat_alt unat_sub)
  moreover have "issued < expires" if "issued \<le> now" "now < expires" using that by (rule order.strict_trans1)
  ultimately show ?thesis
    by (cases "issued \<le> now"; cases "now < expires") (auto simp: lifetime_def not_le not_less)
qed

text \<open>
  C9. Redemption of a sudo token is backed by the policy: the caller, who is not root, is listed for
  the host with the identity of the grant; the host's attestation key signed the grant, the
  requester's key signed this invocation, and the group signed the challenge; grant and
  invocation are alive now, live at most 60 seconds, the invocation inside the grant, and the
  verified grant still passes the check made before execution.
\<close>

theorem sudo_redemption_backed:
  assumes "verify_sudo_redemption libs policy token iv requester_proof now = Inr v"
    and "g = sc_grant (st_challenge token)"
  shows "vs_grant v = g \<and> vs_invocation v = iv \<and> grant_validate_at now v = Inr () \<and>
    iv_caller_uid iv = sg_caller_uid g \<and> sg_caller_uid g \<noteq> 0 \<and> iv_nonce iv \<noteq> sg_nonce g \<and>
    sg_issued_at g \<le> iv_issued_at iv \<and> iv_expires_at iv \<le> sg_expires_at g \<and>
    unat (sg_expires_at g) - unat (sg_issued_at g) \<le> 60 \<and>
    (\<exists>host message proof_bytes. am_get (pol_hosts policy) (iv_host_node_id iv) = Some host \<and>
       am_get (sh_callers host) (sg_caller_uid g) = Some (sg_identity g) \<and>
       verify_ed25519 libs (sh_attestation_public_key host) (grant_bytes g) (sc_host_signature (st_challenge token)) = Inr () \<and>
       invocation_proof_bytes libs token iv = Inr proof_bytes \<and>
       verify_ed25519 libs (sg_requester_public_key g) proof_bytes requester_proof = Inr () \<and>
       challenge_signing_bytes libs (st_challenge token) = Inr message \<and>
       group_verify libs (pol_manifest policy) message (st_signature token) = Inr ())"
proof -
  from assms have cv: "challenge_validate libs policy now (st_challenge token) = Inr ()"
    and v: "v = \<lparr>vs_grant = g, vs_invocation = iv\<rparr>" and life: "lifetime (iv_issued_at iv) (iv_expires_at iv) now = Inr ()"
    and eq: "iv_host_node_id iv = sg_host_node_id g" "iv_caller_uid iv = sg_caller_uid g" "iv_nonce iv \<noteq> sg_nonce g"
      "sg_issued_at g \<le> iv_issued_at iv" "iv_expires_at iv \<le> sg_expires_at g"
    and sigs: "\<exists>message proof_bytes. invocation_proof_bytes libs token iv = Inr proof_bytes \<and>
       verify_ed25519 libs (sg_requester_public_key g) proof_bytes requester_proof = Inr () \<and>
       challenge_signing_bytes libs (st_challenge token) = Inr message \<and>
       group_verify libs (pol_manifest policy) message (st_signature token) = Inr ()"
    by (auto simp: verify_sudo_redemption_def Let_def group_verify_def result_simps split: if_splits)
  from cv have gv: "grant_validate libs policy now g = Inr ()"
    and host: "\<exists>host. am_get (pol_hosts policy) (sg_host_node_id g) = Some host \<and>
      verify_ed25519 libs (sh_attestation_public_key host) (grant_bytes g) (sc_host_signature (st_challenge token)) = Inr ()"
    by (auto simp: challenge_validate_def attestation_bytes_def result_simps assms(2))
  from gv have shape: "grant_shape libs g = Inr ()" and life': "lifetime (sg_issued_at g) (sg_expires_at g) now = Inr ()"
    and callers: "\<exists>host. am_get (pol_hosts policy) (sg_host_node_id g) = Some host \<and>
      am_get (sh_callers host) (sg_caller_uid g) = Some (sg_identity g)"
    by (auto simp: grant_validate_def result_simps simp del: lifetime_ok split: if_splits)
  have "sg_caller_uid g \<noteq> 0" using shape by (auto simp: grant_shape_def split: if_splits)
  then show ?thesis
    using v eq life life' host callers sigs by (auto simp: grant_validate_at_def result_simps)
qed


subsection \<open>Sample runs\<close>

abbreviation sample_capability_claims :: capability_claims where
  "sample_capability_claims \<equiv> ct_claims sample_capability"

definition sample_key :: key_package where
  "sample_key = \<lparr>kp_identifier = 1, kp_min_signers = 2, kp_verifying_key = [1], kp_verifying_share = [1],
     kp_signing_share = [1]\<rparr>"

definition sample_engine :: signer_engine where
  "sample_engine = \<lparr>se_manifest = sample_manifest, se_key = sample_key, se_identifier = 1, se_max_pending = 4,
     se_pending_ttl_secs = 60, se_pending = []\<rparr>"

definition sample_session :: bytes where "sample_session = replicate 32 3"

definition sample_pending :: pending where
  "sample_pending = \<lparr>pd_message = claims_signing_bytes sample_capability_claims, pd_created_at = 150,
     pd_expires_at = 200, pd_nonces = [9], pd_commitments = [9]\<rparr>"

definition sample_package :: signing_package where
  "sample_package = \<lparr>sp_message = claims_signing_bytes sample_capability_claims,
     sp_commitments = [(1, [9]), (2, [8])]\<rparr>"

definition sample_round1 :: engine_op where
  "sample_round1 = Round1 (Some (sample_session, [9])) sample_capability_claims \<lparr>rp_signature = []\<rparr> 150"

definition sample_round2 :: engine_op where
  "sample_round2 = Round2 sample_session sample_capability_claims sample_package 160"

lemma sample_claims_valid:
  "now \<in> {150, 160} \<Longrightarrow> claims_validate sample_quorum_libs sample_manifest now sample_capability_claims = Inr ()"
proof -
  have "allowed_mutation (str ''PUT'') (str ''/v1/admin/policy'')"
    by (simp add: allowed_mutation_def str_def numeral_3_eq_3)
  then show "now \<in> {150, 160} \<Longrightarrow> ?thesis"
    using sample_manifest_digest
    by (auto simp: claims_validate_def sample_capability_def) (simp_all add: sample_manifest_def)
qed

lemma sample_engine_new:
  "engine_new sample_quorum_libs sample_manifest (str ''a'') sample_key 4 60 = Inr sample_engine"
  using sample_manifest_ok
  by (simp add: engine_new_def sample_engine_def) (simp add: sample_quorum_defs sample_key_def public_keys_def threshold_def)

lemma sample_round1_step:
  "engine_step sample_quorum_libs sample_round1 sample_engine =
     (Response (Inr \<lparr>r1_session_id = sample_session, r1_identifier = 1, r1_commitments = [9]\<rparr>),
      sample_engine\<lparr>se_pending := [(sample_session, sample_pending)]\<rparr>)"
proof -
  have "proof_verify sample_quorum_libs sample_capability_claims \<lparr>rp_signature = []\<rparr> = Inr ()"
    by (simp add: proof_verify_def sample_quorum_libs_def)
  moreover have "prune_pending 150 sample_engine = sample_engine"
    by (simp add: prune_pending_def sample_engine_def am_retain_def)
  ultimately show ?thesis
    using sample_claims_valid [of 150]
    by (simp add: sample_round1_def round1_def Let_def allocate_pending_def)
      (simp add: sample_engine_def sample_session_def sample_quorum_libs_def sample_pending_def sample_capability_def
        saturating_add_def)
qed

lemma sample_round2_step:
  "engine_step sample_quorum_libs sample_round2 (sample_engine\<lparr>se_pending := [(sample_session, sample_pending)]\<rparr>) =
     (Share (Inr [9]), sample_engine)"
proof -
  have keys: "public_keys sample_quorum_libs sample_manifest = Inr (sample_keys [1])"
    by (simp add: public_keys_def sample_quorum_libs_def sample_manifest_def)
  have sign: "sign_pending sample_quorum_libs sample_engine sample_pending (claims_signing_bytes sample_capability_claims)
      sample_package 160 = Inr [9]"
    unfolding sign_pending_def Let_def
    using keys by (simp add: sample_pending_def sample_package_def sample_engine_def sample_keys_def sample_key_def)
      (simp add: threshold_def sample_manifest_def sample_members_def sample_quorum_libs_def)
  have "take_pending sample_session (sample_engine\<lparr>se_pending := [(sample_session, sample_pending)]\<rparr>) =
      (Inr sample_pending, sample_engine)"
    by (simp add: take_pending_def am_remove_def sample_engine_def)
  then show ?thesis
    using sample_claims_valid [of 160] sign
    by (simp add: sample_round2_def round2_def) (simp add: sample_engine_def sample_pending_def)
qed

theorem nonces_used_once_witness:
  "nonces_signed sample_quorum_libs [sample_round1, sample_round2, sample_round2] sample_engine = [[9]] \<and>
   mset [[9 :: u8]] \<subseteq># mset (nonces_committed sample_quorum_libs [sample_round1, sample_round2, sample_round2] sample_engine)"
proof -
  have "engine_step sample_quorum_libs sample_round2 sample_engine = (Share (Inl SessionError), sample_engine)"
    by (simp add: sample_round2_def round2_def take_pending_def sample_engine_def)
  then have "nonces_signed sample_quorum_libs [sample_round1, sample_round2, sample_round2] sample_engine = [[9]]"
    by (simp add: sample_round1_step sample_round2_step) (simp add: sample_round2_def sample_pending_def)
  then show ?thesis
    using nonces_used_once [OF sample_engine_new, of "[sample_round1, sample_round2, sample_round2]"] by simp
qed

theorem shares_need_common_majority_witness:
  "\<exists>id c1 c2. am_get (sp_commitments sample_package) id = Some c1 \<and> am_get (sp_commitments sample_package) id = Some c2"
proof -
  let ?e = "sample_engine\<lparr>se_pending := [(sample_session, sample_pending)]\<rparr>"
  have "se_manifest ?e = sample_manifest" by (simp add: sample_engine_def)
  moreover have "op_package sample_round2 = Some sample_package" by (simp add: sample_round2_def)
  moreover have "bm_wf (sp_commitments sample_package)" by (simp add: bm_wf_def sample_package_def)
  ultimately show ?thesis
    using shares_need_common_majority [OF sample_manifest_ok _ _ sample_round2_step sample_round2_step] by blast
qed

theorem session_signs_its_document_witness:
  "same_document sample_quorum_libs (op_document sample_round1) (op_document sample_round2)"
proof (rule session_signs_its_document [OF sample_round1_step _ _ _ sample_round2_step])
  have "claims_wf sample_capability_claims"
    by (simp add: claims_wf_def sample_capability_def zero_digest_def)
  then show "document_wf sample_quorum_libs (op_document sample_round1)"
    "document_wf sample_quorum_libs (op_document sample_round2)"
    by (simp_all add: sample_round1_def sample_round2_def)
qed (simp_all add: sample_round2_def)

definition sample_rotation :: manifest_rotation where
  "sample_rotation =
     \<lparr>mr_transition = \<lparr>mt_old_manifest_digest = zero_digest,
        mt_new_manifest = sample_manifest\<lparr>mf_epoch := 8, mf_public_key_package := [2]\<rparr>,
        mt_request_id = replicate 32 1, mt_issued_at = 100, mt_expires_at = 200\<rparr>,
      mr_old_signature = [], mr_new_signature = []\<rparr>"


abbreviation sample_next_manifest :: manifest where
  "sample_next_manifest \<equiv> mt_new_manifest (mr_transition sample_rotation)"

lemma sample_next_ok:
  "manifest_validate sample_quorum_libs sample_next_manifest = Inr ()"
  "manifest_digest sample_quorum_libs sample_next_manifest = Inr zero_digest"
proof -
  show v: "manifest_validate sample_quorum_libs sample_next_manifest = Inr ()"
    by (simp add: sample_rotation_def sample_quorum_defs manifest_validate_def public_keys_def threshold_def valid_id_def
        str_def identifier_byte_def is_ascii_alphanumeric_def)
  have "hex_digest sample_quorum_libs bs = zero_digest" for bs
    by (simp add: hex_digest_def sample_quorum_libs_def HEX_def str_def zero_digest_def numeral_eq_Suc)
  then show "manifest_digest sample_quorum_libs sample_next_manifest = Inr zero_digest"
    using v by (simp add: manifest_digest_def) (simp add: public_keys_def sample_quorum_libs_def sample_rotation_def)
qed

lemma sample_rotation_ok: "is_ok (verify_rotation sample_quorum_libs sample_manifest sample_rotation 150)"
proof -
  have keys: "public_keys sample_quorum_libs sample_manifest = Inr (sample_keys [1])"
    "public_keys sample_quorum_libs sample_next_manifest = Inr (sample_keys [2])"
    by (simp_all add: public_keys_def sample_quorum_libs_def sample_manifest_def sample_rotation_def)
  have "transition_validate sample_quorum_libs sample_manifest 150 (mr_transition sample_rotation) = Inr ()"
    using sample_manifest_digest sample_next_ok keys
    by (simp add: transition_validate_def)
      (simp add: sample_rotation_def sample_manifest_def sample_keys_def checked_add_def)
  moreover have "group_verify sample_quorum_libs m message bs = Inr ()"
    if "public_keys sample_quorum_libs m = Inr keys" for m keys message bs
    using that by (simp add: group_verify_def) (simp add: sample_quorum_libs_def)
  ultimately show ?thesis
    using sample_next_ok(2) keys by (simp add: verify_rotation_def transition_signing_bytes_def)
qed

theorem rotation_chain_witness:
  "unat (mf_epoch sample_next_manifest) = unat (mf_epoch sample_manifest) + 1"
proof -
  obtain v where "verify_rotation sample_quorum_libs sample_manifest sample_rotation 150 = Inr v"
    using sample_rotation_ok by (auto simp: is_ok_iff)
  from rotation_chain [OF rotate [OF anchor this]] show ?thesis by simp
qed

definition sample_identity :: sudo_identity where
  "sample_identity = \<lparr>si_issuer = str ''https://i'', si_subject = str ''s''\<rparr>"

definition sample_policy :: sudo_policy where
  "sample_policy = \<lparr>pol_schema_version = 2, pol_manifest = sample_manifest,
     pol_hosts = [(str ''a'', \<lparr>sh_attestation_key_epoch = 1, sh_attestation_public_key = replicate 32 1,
       sh_callers = [(1000, sample_identity)]\<rparr>)]\<rparr>"

definition sample_grant :: sudo_grant where
  "sample_grant = \<lparr>sg_schema_version = 2, sg_cluster_id = str ''c'', sg_host_node_id = str ''a'',
     sg_caller_uid = 1000, sg_runas_uid = 0, sg_identity = sample_identity, sg_attestation_key_epoch = 1,
     sg_requester_public_key = replicate 32 2, sg_manifest_epoch = 7, sg_manifest_digest = zero_digest,
     sg_policy_digest = zero_digest, sg_nonce = replicate 32 4, sg_issued_at = 100, sg_expires_at = 150\<rparr>"

definition sample_token :: sudo_token where
  "sample_token = \<lparr>st_challenge = \<lparr>sc_grant = sample_grant, sc_host_signature = replicate 64 1\<rparr>,
     st_signature = replicate 64 2\<rparr>"

definition sample_invocation :: sudo_local_invocation where
  "sample_invocation = \<lparr>iv_host_node_id = str ''a'', iv_caller_uid = 1000, iv_runas_uid = 0,
     iv_nonce = replicate 32 5, iv_issued_at = 110, iv_expires_at = 140\<rparr>"

lemma sample_ed25519: "verify_ed25519 sample_quorum_libs key message bs = Inr ()"
  by (simp add: verify_ed25519_def strong_key_def sample_quorum_libs_def)

lemma sample_identity_ok: "identity_validate sample_quorum_libs sample_identity = Inr ()"
  by (simp add: identity_validate_def sample_identity_def sample_quorum_libs_def sample_url_def str_def)

lemma sample_grant_shape: "grant_shape sample_quorum_libs sample_grant = Inr ()"
proof -
  have "valid_id (str ''c'')" "valid_id (str ''a'')" "hex_text zero_digest"
    by (simp_all add: valid_id_def str_def identifier_byte_def is_ascii_alphanumeric_def hex_text_def zero_digest_def
        list_all_iff)
  moreover have "strong_key sample_quorum_libs bs = Inr bs" for bs
    by (simp add: strong_key_def sample_quorum_libs_def)
  ultimately show ?thesis
    using sample_identity_ok by (simp add: grant_shape_def) (simp add: sample_grant_def)
qed

lemma sample_policy_digest: "policy_digest sample_quorum_libs sample_policy = Inr zero_digest"
proof -
  have "strong_key sample_quorum_libs bs = Inr bs" for bs
    by (simp add: strong_key_def sample_quorum_libs_def)
  moreover have "hex_digest sample_quorum_libs bs = zero_digest" for bs
    by (simp add: hex_digest_def sample_quorum_libs_def HEX_def str_def zero_digest_def numeral_eq_Suc)
  ultimately show ?thesis
    using sample_manifest_ok sample_manifest_digest sample_identity_ok
    by (simp add: policy_digest_def canonical_bytes_def sample_policy_def)
      (simp add: sample_manifest_def sample_members_def identity_append_def sample_identity_def field_bytes_def
        zero_digest_def)
qed

lemma sample_redemption:
  "verify_sudo_redemption sample_quorum_libs sample_policy sample_token sample_invocation [] 120 =
     Inr \<lparr>vs_grant = sample_grant, vs_invocation = sample_invocation\<rparr>"
proof -
  have "grant_validate sample_quorum_libs sample_policy 120 sample_grant = Inr ()"
    using sample_grant_shape sample_policy_digest sample_manifest_digest
    by (simp add: grant_validate_def) (simp add: sample_grant_def sample_policy_def sample_manifest_def lifetime_def)
  then have cv: "challenge_validate sample_quorum_libs sample_policy 120 (st_challenge sample_token) = Inr ()"
    using sample_grant_shape sample_ed25519
    by (simp add: challenge_validate_def attestation_bytes_def sample_token_def) (simp add: sample_grant_def sample_policy_def)
  have sb: "is_ok (challenge_signing_bytes sample_quorum_libs (st_challenge sample_token))"
    using sample_grant_shape by (simp add: challenge_signing_bytes_def attestation_bytes_def sample_token_def)
  then obtain message where m: "challenge_signing_bytes sample_quorum_libs (st_challenge sample_token) = Inr message"
    by (auto simp: is_ok_iff)
  have "valid_id (str ''a'')" by (simp add: valid_id_def str_def identifier_byte_def is_ascii_alphanumeric_def)
  then have "is_ok (invocation_proof_bytes sample_quorum_libs sample_token sample_invocation)"
    using m by (simp add: invocation_proof_bytes_def) (simp add: sample_invocation_def sample_token_def)
  then obtain pb where pb: "invocation_proof_bytes sample_quorum_libs sample_token sample_invocation = Inr pb"
    by (auto simp: is_ok_iff)
  have keys: "public_keys sample_quorum_libs (pol_manifest sample_policy) = Inr (sample_keys [1])"
    by (simp add: public_keys_def sample_quorum_libs_def sample_manifest_def sample_policy_def)
  show ?thesis
    unfolding verify_sudo_redemption_def Let_def cv m pb keys
    by (simp add: sample_ed25519) (simp add: sample_token_def sample_grant_def sample_invocation_def lifetime_def
        sample_quorum_libs_def)
qed

theorem sudo_redemption_backed_witness:
  "grant_validate_at 120 \<lparr>vs_grant = sample_grant, vs_invocation = sample_invocation\<rparr> = Inr ()"
  using sudo_redemption_backed [OF sample_redemption refl] by simp

end
