(* ===== verification/RelayFrame.thy ===== *)
theory RelayFrame
  imports Wire Systems
begin

text \<open>
  The datagrams of the relay (\<open>crates/ipars-relay/src/lib.rs\<close>): the four frame versions with their
  encoders and decoders, the size and node identifier checks, the session token comparison, and
  the WireGuard message indices the relay reads from payloads. A \<open>RelaySessionId\<close> is the string it
  wraps. Socket errors carry no data: nothing reads it.
\<close>

unbundle bit_operations_syntax

type_synonym relay_session_id = rstring

datatype relay_error =
    InvalidAdmissionRequest | AdmissionDenied | NodeSessionLimitExceeded | UnknownSession | SessionExpired
  | InvalidSessionCredential | RateLimited | MalformedRelayFrame | RelayFrameTooLarge | Socket

definition session_id_new :: "rstring \<Rightarrow> rstring \<Rightarrow> relay_session_id" where
  "session_id_new left right =
     (if left \<le> right then left @ str '':'' @ right else right @ str '':'' @ left)"

record relay_datagram =
  rd_session_id :: relay_session_id
  rd_session_token :: rstring
  rd_source :: "rstring option"
  rd_destination :: "rstring option"
  rd_ciphertext_payload :: bytes
  rd_endpoint_announcement :: bool

definition RELAY_FRAME_MAGIC :: bytes where "RELAY_FRAME_MAGIC = str ''IPARS-RLY1''"
definition RELAY_FRAME_MAGIC_V2 :: bytes where "RELAY_FRAME_MAGIC_V2 = str ''IPARS-RLY2''"
definition RELAY_FRAME_MAGIC_V3 :: bytes where "RELAY_FRAME_MAGIC_V3 = str ''IPARS-RLY3''"
definition RELAY_FRAME_MAGIC_V4 :: bytes where "RELAY_FRAME_MAGIC_V4 = str ''IPARS-RLY4''"
definition MAX_RELAY_SESSION_ID_BYTES :: nat where [simp]: "MAX_RELAY_SESSION_ID_BYTES = 4096"
definition MAX_RELAY_SESSION_TOKEN_BYTES :: nat where [simp]: "MAX_RELAY_SESSION_TOKEN_BYTES = 256"
definition MAX_RELAY_NODE_ID_BYTES :: nat where [simp]: "MAX_RELAY_NODE_ID_BYTES = 128"
definition MAX_RELAY_CIPHERTEXT_PAYLOAD_BYTES :: nat where
  [simp]: "MAX_RELAY_CIPHERTEXT_PAYLOAD_BYTES = 128 * 1024"

lemma length_relay_magic [simp]:
  "length RELAY_FRAME_MAGIC = 10" "length RELAY_FRAME_MAGIC_V2 = 10"
  "length RELAY_FRAME_MAGIC_V3 = 10" "length RELAY_FRAME_MAGIC_V4 = 10"
  by (simp_all add: RELAY_FRAME_MAGIC_def RELAY_FRAME_MAGIC_V2_def RELAY_FRAME_MAGIC_V3_def RELAY_FRAME_MAGIC_V4_def)

text \<open>Operations of the standard library on slices.\<close>

definition starts_with :: "bytes \<Rightarrow> bytes \<Rightarrow> bool" where
  "starts_with d p \<longleftrightarrow> take (length p) d = p"

definition byte_slice :: "bytes \<Rightarrow> nat \<Rightarrow> nat \<Rightarrow> bytes" where
  "byte_slice d a b = take (b - a) (drop a d)"

definition get_slice :: "bytes \<Rightarrow> nat \<Rightarrow> nat \<Rightarrow> bytes option" where
  "get_slice d a b = (if a \<le> b \<and> b \<le> length d then Some (byte_slice d a b) else None)"

definition u16_at :: "bytes \<Rightarrow> nat \<Rightarrow> nat" where
  "u16_at d i = unat (from_be_bytes [d ! i, d ! (i + 1)] :: u16)"

definition len_bytes :: "bytes \<Rightarrow> bytes" where
  "len_bytes s = to_be_bytes (word_of_nat (length s) :: u16)"

subsection \<open>Checks\<close>

definition relay_node_id_is_valid :: "rstring \<Rightarrow> bool" where
  "relay_node_id_is_valid node_id \<longleftrightarrow>
     node_id \<noteq> [] \<and> length node_id \<le> MAX_RELAY_NODE_ID_BYTES \<and>
     \<not> (node_id = str ''.'' \<or> node_id = str ''..'') \<and> \<not> starts_with node_id (str ''-'') \<and>
     list_all (\<lambda>b. is_ascii_alphanumeric b \<or> b = 46 \<or> b = 95 \<or> b = 45) node_id"

definition validate_relay_admission_node_id :: "rstring \<Rightarrow> relay_error + unit" where
  "validate_relay_admission_node_id node_id =
     (if relay_node_id_is_valid node_id then Inr () else Inl InvalidAdmissionRequest)"

definition validate_relay_frame_node_id :: "rstring \<Rightarrow> relay_error + unit" where
  "validate_relay_frame_node_id node_id =
     (if relay_node_id_is_valid node_id then Inr () else Inl MalformedRelayFrame)"

definition validate_relay_frame_sizes_with_options :: "nat \<Rightarrow> nat \<Rightarrow> nat \<Rightarrow> bool \<Rightarrow> relay_error + unit" where
  "validate_relay_frame_sizes_with_options session_id_len session_token_len ciphertext_payload_len allow_empty_payload =
     (if session_id_len = 0 \<or> session_token_len = 0 \<or> \<not> allow_empty_payload \<and> ciphertext_payload_len = 0
      then Inl MalformedRelayFrame
      else if session_id_len > MAX_RELAY_SESSION_ID_BYTES \<or> session_token_len > MAX_RELAY_SESSION_TOKEN_BYTES \<or>
        ciphertext_payload_len > MAX_RELAY_CIPHERTEXT_PAYLOAD_BYTES
      then Inl RelayFrameTooLarge
      else if session_id_len > 65535 \<or> session_token_len > 65535 then Inl RelayFrameTooLarge
      else Inr ())"

definition validate_relay_frame_sizes :: "nat \<Rightarrow> nat \<Rightarrow> nat \<Rightarrow> relay_error + unit" where
  "validate_relay_frame_sizes session_id_len session_token_len ciphertext_payload_len =
     validate_relay_frame_sizes_with_options session_id_len session_token_len ciphertext_payload_len False"

definition validate_relay_frame_sizes_allow_empty :: "nat \<Rightarrow> nat \<Rightarrow> nat \<Rightarrow> relay_error + unit" where
  "validate_relay_frame_sizes_allow_empty session_id_len session_token_len ciphertext_payload_len =
     validate_relay_frame_sizes_with_options session_id_len session_token_len ciphertext_payload_len True"

definition validate_relay_node_id_size :: "nat \<Rightarrow> relay_error + unit" where
  "validate_relay_node_id_size node_id_len =
     (if node_id_len = 0 \<or> node_id_len > MAX_RELAY_NODE_ID_BYTES \<or> node_id_len > 65535
      then Inl RelayFrameTooLarge else Inr ())"

text \<open>
  The comparison of session tokens reads all 256 positions whatever the tokens are, so that its
  duration does not depend on them; \<open>byte_or_zero\<close> is \<open>get(index).copied().unwrap_or_default()\<close>.
\<close>

definition byte_or_zero :: "bytes \<Rightarrow> nat \<Rightarrow> u8" where
  "byte_or_zero bs i = (if i < length bs then bs ! i else 0)"

definition relay_session_token_matches :: "rstring \<Rightarrow> rstring \<Rightarrow> bool" where
  "relay_session_token_matches expected provided =
     (if length expected > MAX_RELAY_SESSION_TOKEN_BYTES \<or> length provided > MAX_RELAY_SESSION_TOKEN_BYTES
      then False
      else fold (\<lambda>i diff. diff OR unat (byte_or_zero expected i XOR byte_or_zero provided i))
             [0..<MAX_RELAY_SESSION_TOKEN_BYTES] (length expected XOR length provided) = 0)"

subsection \<open>Encoders\<close>

definition encode_relay_datagram :: "rstring \<Rightarrow> rstring \<Rightarrow> bytes \<Rightarrow> relay_error + bytes" where
  "encode_relay_datagram session_id session_token ciphertext_payload =
     (if session_id = [] \<or> session_token = [] \<or> ciphertext_payload = [] then Inl MalformedRelayFrame
      else and_then (validate_relay_frame_sizes (length session_id) (length session_token) (length ciphertext_payload)) (\<lambda>_.
      Inr (RELAY_FRAME_MAGIC @ len_bytes session_id @ len_bytes session_token @
        session_id @ session_token @ ciphertext_payload)))"

definition encode_relay_datagram_with_route ::
  "rstring \<Rightarrow> rstring \<Rightarrow> rstring \<Rightarrow> rstring \<Rightarrow> bytes \<Rightarrow> relay_error + bytes" where
  "encode_relay_datagram_with_route session_id session_token source destination ciphertext_payload =
     (if session_id = [] \<or> session_token = [] \<or> source = [] \<or> destination = [] \<or> ciphertext_payload = []
      then Inl MalformedRelayFrame
      else and_then (validate_relay_frame_sizes (length session_id) (length session_token) (length ciphertext_payload)) (\<lambda>_.
      and_then (validate_relay_frame_node_id source) (\<lambda>_.
      and_then (validate_relay_frame_node_id destination) (\<lambda>_.
      Inr (RELAY_FRAME_MAGIC_V2 @ len_bytes session_id @ len_bytes session_token @ len_bytes source @ len_bytes destination @
        session_id @ session_token @ source @ destination @ ciphertext_payload)))))"

definition encode_relay_endpoint_announcement ::
  "rstring \<Rightarrow> rstring \<Rightarrow> rstring \<Rightarrow> rstring \<Rightarrow> relay_error + bytes" where
  "encode_relay_endpoint_announcement session_id session_token source destination =
     (if session_id = [] \<or> session_token = [] \<or> source = [] \<or> destination = [] then Inl MalformedRelayFrame
      else and_then (validate_relay_frame_sizes_allow_empty (length session_id) (length session_token) 0) (\<lambda>_.
      and_then (validate_relay_frame_node_id source) (\<lambda>_.
      and_then (validate_relay_frame_node_id destination) (\<lambda>_.
      Inr (RELAY_FRAME_MAGIC_V3 @ len_bytes session_id @ len_bytes session_token @ len_bytes source @ len_bytes destination @
        session_id @ session_token @ source @ destination)))))"

text \<open>\<open>packet[..n].copy_from_slice(magic)\<close> overwrites the first \<open>n\<close> bytes.\<close>

definition encode_relay_endpoint_probe ::
  "rstring \<Rightarrow> rstring \<Rightarrow> rstring \<Rightarrow> rstring \<Rightarrow> relay_error + bytes" where
  "encode_relay_endpoint_probe session_id session_token source destination =
     and_then (encode_relay_endpoint_announcement session_id session_token source destination) (\<lambda>packet.
     Inr (RELAY_FRAME_MAGIC_V4 @ drop (length RELAY_FRAME_MAGIC_V4) packet))"

subsection \<open>Decoders\<close>

definition decode_relay_datagram_v1 :: "bytes \<Rightarrow> relay_error + relay_datagram" where
  "decode_relay_datagram_v1 datagram =
     (let fixed_header_len = length RELAY_FRAME_MAGIC + 4 in
      if length datagram \<le> fixed_header_len \<or> \<not> starts_with datagram RELAY_FRAME_MAGIC then Inl MalformedRelayFrame
      else
      let session_len_offset = length RELAY_FRAME_MAGIC;
          token_len_offset = session_len_offset + 2;
          session_len = u16_at datagram session_len_offset;
          token_len = u16_at datagram token_len_offset;
          session_start = fixed_header_len;
          token_start = session_start + session_len;
          payload_start = token_start + token_len
      in
      if session_len = 0 \<or> token_len = 0 then Inl MalformedRelayFrame
      else and_then (validate_relay_frame_sizes session_len token_len (length datagram - payload_start)) (\<lambda>_.
      if token_start > length datagram \<or> payload_start \<ge> length datagram then Inl MalformedRelayFrame
      else and_then (ok_or (from_utf8 (byte_slice datagram session_start token_start)) MalformedRelayFrame) (\<lambda>session_id.
      and_then (ok_or (from_utf8 (byte_slice datagram token_start payload_start)) MalformedRelayFrame) (\<lambda>session_token.
      Inr \<lparr>rd_session_id = session_id, rd_session_token = session_token, rd_source = None, rd_destination = None,
           rd_ciphertext_payload = drop payload_start datagram, rd_endpoint_announcement = False\<rparr>))))"

definition decode_relay_datagram_v2_with_options :: "bytes \<Rightarrow> bytes \<Rightarrow> bool \<Rightarrow> relay_error + relay_datagram" where
  "decode_relay_datagram_v2_with_options datagram magic endpoint_announcement =
     (let fixed_header_len = length magic + 8 in
      if length datagram < fixed_header_len \<or> \<not> starts_with datagram magic then Inl MalformedRelayFrame
      else
      let session_len_offset = length magic;
          token_len_offset = session_len_offset + 2;
          source_len_offset = token_len_offset + 2;
          destination_len_offset = source_len_offset + 2;
          session_len = u16_at datagram session_len_offset;
          token_len = u16_at datagram token_len_offset;
          source_len = u16_at datagram source_len_offset;
          destination_len = u16_at datagram destination_len_offset;
          session_start = fixed_header_len;
          token_start = session_start + session_len;
          source_start = token_start + token_len;
          destination_start = source_start + source_len;
          payload_start = destination_start + destination_len
      in
      if session_len = 0 \<or> token_len = 0 \<or> source_len = 0 \<or> destination_len = 0 then Inl MalformedRelayFrame
      else and_then
        (if endpoint_announcement
         then validate_relay_frame_sizes_allow_empty session_len token_len (length datagram - payload_start)
         else validate_relay_frame_sizes session_len token_len (length datagram - payload_start)) (\<lambda>_.
      and_then (validate_relay_node_id_size source_len) (\<lambda>_.
      and_then (validate_relay_node_id_size destination_len) (\<lambda>_.
      if token_start > length datagram \<or> source_start > length datagram \<or> destination_start > length datagram \<or>
         payload_start > length datagram \<or> \<not> endpoint_announcement \<and> payload_start = length datagram
      then Inl MalformedRelayFrame
      else and_then (ok_or (from_utf8 (byte_slice datagram session_start token_start)) MalformedRelayFrame) (\<lambda>session_id.
      and_then (ok_or (from_utf8 (byte_slice datagram token_start source_start)) MalformedRelayFrame) (\<lambda>session_token.
      and_then (ok_or (from_utf8 (byte_slice datagram source_start destination_start)) MalformedRelayFrame) (\<lambda>source.
      and_then (ok_or (from_utf8 (byte_slice datagram destination_start payload_start)) MalformedRelayFrame) (\<lambda>destination.
      and_then (validate_relay_frame_node_id source) (\<lambda>_.
      and_then (validate_relay_frame_node_id destination) (\<lambda>_.
      Inr \<lparr>rd_session_id = session_id, rd_session_token = session_token, rd_source = Some source,
           rd_destination = Some destination, rd_ciphertext_payload = drop payload_start datagram,
           rd_endpoint_announcement = endpoint_announcement\<rparr>))))))))))"

definition decode_relay_datagram_v2 :: "bytes \<Rightarrow> relay_error + relay_datagram" where
  "decode_relay_datagram_v2 datagram = decode_relay_datagram_v2_with_options datagram RELAY_FRAME_MAGIC_V2 False"

definition decode_relay_datagram_v3 :: "bytes \<Rightarrow> relay_error + relay_datagram" where
  "decode_relay_datagram_v3 datagram = decode_relay_datagram_v2_with_options datagram RELAY_FRAME_MAGIC_V3 True"

function decode_relay_datagram :: "bytes \<Rightarrow> relay_error + relay_datagram" where
  "decode_relay_datagram datagram =
     (if starts_with datagram RELAY_FRAME_MAGIC_V4
      then decode_relay_datagram (RELAY_FRAME_MAGIC_V3 @ drop (length RELAY_FRAME_MAGIC_V3) datagram)
      else if starts_with datagram RELAY_FRAME_MAGIC_V3 then decode_relay_datagram_v3 datagram
      else if starts_with datagram RELAY_FRAME_MAGIC_V2 then decode_relay_datagram_v2 datagram
      else decode_relay_datagram_v1 datagram)"
  by pat_completeness auto

lemma magics_differ:
  "\<not> starts_with (RELAY_FRAME_MAGIC @ d) RELAY_FRAME_MAGIC_V2" "\<not> starts_with (RELAY_FRAME_MAGIC @ d) RELAY_FRAME_MAGIC_V3"
  "\<not> starts_with (RELAY_FRAME_MAGIC @ d) RELAY_FRAME_MAGIC_V4" "\<not> starts_with (RELAY_FRAME_MAGIC_V2 @ d) RELAY_FRAME_MAGIC_V3"
  "\<not> starts_with (RELAY_FRAME_MAGIC_V2 @ d) RELAY_FRAME_MAGIC_V4" "\<not> starts_with (RELAY_FRAME_MAGIC_V3 @ d) RELAY_FRAME_MAGIC_V4"
  by (simp_all add: starts_with_def RELAY_FRAME_MAGIC_def RELAY_FRAME_MAGIC_V2_def RELAY_FRAME_MAGIC_V3_def
      RELAY_FRAME_MAGIC_V4_def str_def)

termination decode_relay_datagram
  by (relation "measure (\<lambda>d. if starts_with d RELAY_FRAME_MAGIC_V4 then 1 else 0)") (simp_all add: magics_differ)

declare decode_relay_datagram.simps [simp del]

subsection \<open>WireGuard messages in payloads\<close>

definition wireguard_datagram_payload :: "bytes \<Rightarrow> bool" where
  "wireguard_datagram_payload payload =
     (if length payload < 4 \<or> get_slice payload 1 4 \<noteq> Some [0, 0, 0] then False
      else if payload ! 0 = 1 then length payload = 148
      else if payload ! 0 = 2 then length payload = 92
      else if payload ! 0 = 3 then length payload = 64
      else if payload ! 0 = 4 then length payload \<ge> 32 \<and> length payload mod 16 = 0
      else False)"

definition read_wireguard_index :: "bytes \<Rightarrow> nat \<Rightarrow> u32 option" where
  "read_wireguard_index payload offset = map_option from_le_bytes (get_slice payload offset (offset + 4))"

definition wireguard_sender_index :: "bytes \<Rightarrow> u32 option" where
  "wireguard_sender_index payload =
     (if \<not> wireguard_datagram_payload payload then None
      else if payload ! 0 = 1 \<or> payload ! 0 = 2 then read_wireguard_index payload 4 else None)"

definition wireguard_receiver_index :: "bytes \<Rightarrow> u32 option" where
  "wireguard_receiver_index payload =
     (if \<not> wireguard_datagram_payload payload then None
      else if payload ! 0 = 2 then read_wireguard_index payload 8
      else if payload ! 0 = 3 \<or> payload ! 0 = 4 then read_wireguard_index payload 4 else None)"

subsection \<open>Token comparison\<close>

lemma fold_or_zero:
  "fold (\<lambda>i diff. diff OR f i) is acc = 0 \<longleftrightarrow> acc = 0 \<and> (\<forall>i \<in> set is. f i = 0)" for f :: "nat \<Rightarrow> nat"
  by (induction "is" arbitrary: acc) (auto simp: or_eq_0_iff)

lemma xor_nat_eq_0: "a XOR b = 0 \<longleftrightarrow> a = b" for a b :: nat
  by (auto simp: bit_eq_iff [of "a XOR b"] bit_eq_iff [of a] bit_xor_iff)

lemma xor_byte_eq_0: "a XOR b = 0 \<longleftrightarrow> a = b" for a b :: u8
  by (auto simp: bit_eq_iff [of "a XOR b"] bit_eq_iff [of a] bit_xor_iff)

lemma relay_session_token_matches_iff:
  "relay_session_token_matches expected provided \<longleftrightarrow> expected = provided \<and> length expected \<le> 256"
proof -
  have "(\<forall>i \<in> {0..<256}. unat (byte_or_zero expected i XOR byte_or_zero provided i) = 0) \<longleftrightarrow>
      (\<forall>i < length expected. expected ! i = provided ! i)"
    if "length expected = length provided" "length expected \<le> 256"
    using that by (auto simp: byte_or_zero_def unat_eq_0 xor_byte_eq_0)
  then show ?thesis
    unfolding relay_session_token_matches_def fold_or_zero xor_nat_eq_0
    by (auto simp: list_eq_iff_nth_eq not_less)
qed

subsection \<open>Frames\<close>

lemma slice_append: "length xs = a \<Longrightarrow> a + length ys = b \<Longrightarrow> byte_slice (xs @ ys @ zs) a b = ys"
  by (auto simp: byte_slice_def)

lemma slice_join: "a \<le> b \<Longrightarrow> b \<le> c \<Longrightarrow> byte_slice d a b @ byte_slice d b c = byte_slice d a c"
  using take_add [of "b - a" "c - b" "drop a d"] by (simp add: byte_slice_def add.commute)

lemma slice_rest: "byte_slice d a (length d) = drop a d"
  by (simp add: byte_slice_def)

lemma length_slice: "a \<le> b \<Longrightarrow> b \<le> length d \<Longrightarrow> length (byte_slice d a b) = b - a"
  by (simp add: byte_slice_def)

lemma length_len_bytes [simp]: "length (len_bytes s) = 2"
  by (simp add: len_bytes_def)

lemma u16_at_append:
  assumes "length xs = i" and "length s \<le> 65535"
  shows "u16_at (xs @ len_bytes s @ zs) i = length s"
proof -
  obtain a b where ab: "len_bytes s = [a, b]"
    using length_len_bytes [of s] by (simp only: numeral_2_eq_2 length_Suc_conv) auto
  have "(from_be_bytes (len_bytes s) :: u16) = word_of_nat (length s)"
    by (simp add: len_bytes_def from_be_to_be)
  then show ?thesis using assms by (simp add: u16_at_def ab nth_append unsigned_of_nat take_bit_eq_mod)
qed

lemma u16_at_le: "u16_at d i \<le> 65535"
  using unat_less_exp [of "from_be_bytes [d ! i, d ! (i + 1)] :: u16"] by (simp add: u16_at_def)

lemma len_bytes_slice:
  assumes "length s = u16_at d i" and "i + 1 < length d"
  shows "len_bytes s = byte_slice d i (i + 2)"
proof -
  have "byte_slice d i (i + 2) = [d ! i, d ! (i + 1)]"
    using assms(2) by (simp add: byte_slice_def take_Suc_conv_app_nth numeral_2_eq_2 flip: Cons_nth_drop_Suc)
  then show ?thesis using assms(1)
    by (simp add: len_bytes_def u16_at_def to_be_from_be)
qed

lemma starts_with_append [simp]: "starts_with (p @ d) p"
  by (simp add: starts_with_def)

lemma starts_with_slice: "starts_with d p \<Longrightarrow> byte_slice d 0 (length p) = p"
  by (simp add: starts_with_def byte_slice_def)

lemma relay_node_id_utf8: "relay_node_id_is_valid s \<Longrightarrow> utf8_valid s"
  by (rule utf8_valid_identifier) (simp add: relay_node_id_is_valid_def identifier_byte_def [abs_def])


text \<open>The layout of the frames with a route, and the frames that are accepted.\<close>

definition route_frame :: "bytes \<Rightarrow> rstring \<Rightarrow> rstring \<Rightarrow> rstring \<Rightarrow> rstring \<Rightarrow> bytes \<Rightarrow> bytes" where
  "route_frame magic s t a b p =
     magic @ len_bytes s @ len_bytes t @ len_bytes a @ len_bytes b @ s @ t @ a @ b @ p"

definition credentials_ok :: "rstring \<Rightarrow> rstring \<Rightarrow> bytes \<Rightarrow> bool" where
  "credentials_ok s t p \<longleftrightarrow> s \<noteq> [] \<and> t \<noteq> [] \<and> length s \<le> 4096 \<and> length t \<le> 256 \<and> length p \<le> 131072 \<and>
     utf8_valid s \<and> utf8_valid t"

lemma route_frame_offsets:
  assumes "length magic = 10" and "length s \<le> 65535" "length t \<le> 65535" "length a \<le> 65535" "length b \<le> 65535"
    and "d = route_frame magic s t a b p"
  shows "u16_at d 10 = length s" "u16_at d 12 = length t" "u16_at d 14 = length a" "u16_at d 16 = length b"
    and "byte_slice d 18 (18 + length s) = s"
    and "byte_slice d (18 + length s) (18 + length s + length t) = t"
    and "byte_slice d (18 + length s + length t) (18 + length s + length t + length a) = a"
    and "byte_slice d (18 + length s + length t + length a) (18 + length s + length t + length a + length b) = b"
    and "drop (18 + length s + length t + length a + length b) d = p"
    and "length d = 18 + length s + length t + length a + length b + length p" and "starts_with d magic"
proof -
  note d = assms(6) [unfolded route_frame_def]
  show "u16_at d 10 = length s" using u16_at_append [OF assms(1,2)] by (simp add: d)
  show "u16_at d 12 = length t" using u16_at_append [of "magic @ len_bytes s" 12 t] assms(1,3) by (simp add: d)
  show "u16_at d 14 = length a" using u16_at_append [of "magic @ len_bytes s @ len_bytes t" 14 a] assms(1,4) by (simp add: d)
  show "u16_at d 16 = length b"
    using u16_at_append [of "magic @ len_bytes s @ len_bytes t @ len_bytes a" 16 b] assms(1,5) by (simp add: d)
  define h where "h = magic @ len_bytes s @ len_bytes t @ len_bytes a @ len_bytes b"
  have h: "length h = 18" "d = h @ s @ t @ a @ b @ p" using assms(1) by (simp_all add: h_def d)
  show "byte_slice d 18 (18 + length s) = s" using slice_append [of h 18 s] h by simp
  show "byte_slice d (18 + length s) (18 + length s + length t) = t" using slice_append [of "h @ s" _ t] h by simp
  show "byte_slice d (18 + length s + length t) (18 + length s + length t + length a) = a"
    using slice_append [of "h @ s @ t" _ a] h by simp
  show "byte_slice d (18 + length s + length t + length a) (18 + length s + length t + length a + length b) = b"
    using slice_append [of "h @ s @ t @ a" _ b] h by simp
  show "drop (18 + length s + length t + length a + length b) d = p" using h by simp
  show "length d = 18 + length s + length t + length a + length b + length p" using h by simp
  show "starts_with d magic" by (simp add: d)
qed

lemma decode_route_frame:
  assumes "length magic = 10" and "credentials_ok s t p" and "relay_node_id_is_valid a" "relay_node_id_is_valid b"
    and "announcement \<or> p \<noteq> []"
  shows "decode_relay_datagram_v2_with_options (route_frame magic s t a b p) magic announcement =
    Inr \<lparr>rd_session_id = s, rd_session_token = t, rd_source = Some a, rd_destination = Some b,
         rd_ciphertext_payload = p, rd_endpoint_announcement = announcement\<rparr>"
proof -
  have ids: "a \<noteq> []" "b \<noteq> []" "length a \<le> 128" "length b \<le> 128"
    using assms(3,4) by (simp_all add: relay_node_id_is_valid_def)
  have st: "s \<noteq> []" "t \<noteq> []" "length s \<le> 4096" "length t \<le> 256" "length p \<le> 131072" "utf8_valid s" "utf8_valid t"
    using assms(2) by (simp_all add: credentials_ok_def)
  note o = route_frame_offsets [OF assms(1) _ _ _ _ refl, of s t a b p]
  show ?thesis
    using ids st assms(1,3-5) o
    by (simp add: decode_relay_datagram_v2_with_options_def Let_def validate_relay_frame_sizes_def
        validate_relay_frame_sizes_allow_empty_def validate_relay_frame_sizes_with_options_def
        validate_relay_node_id_size_def validate_relay_frame_node_id_def from_utf8_def relay_node_id_utf8) blast
qed


lemma route_frame_of_slices:
  assumes "length magic = 10" and "starts_with d magic" and "18 \<le> length d"
    and "s1 = 18 + u16_at d 10" "s2 = s1 + u16_at d 12" "s3 = s2 + u16_at d 14" "s4 = s3 + u16_at d 16"
    and "s4 \<le> length d"
  shows "d = route_frame magic (byte_slice d 18 s1) (byte_slice d s1 s2) (byte_slice d s2 s3) (byte_slice d s3 s4) (drop s4 d)"
proof -
  have "len_bytes (byte_slice d 18 s1) = byte_slice d 10 12" "len_bytes (byte_slice d s1 s2) = byte_slice d 12 14"
    "len_bytes (byte_slice d s2 s3) = byte_slice d 14 16" "len_bytes (byte_slice d s3 s4) = byte_slice d 16 18"
    using len_bytes_slice [of _ d 10] len_bytes_slice [of _ d 12] len_bytes_slice [of _ d 14] len_bytes_slice [of _ d 16]
      assms(3-8) by (simp_all add: length_slice)
  then have "route_frame magic (byte_slice d 18 s1) (byte_slice d s1 s2) (byte_slice d s2 s3) (byte_slice d s3 s4) (drop s4 d) =
      byte_slice d 0 10 @ byte_slice d 10 12 @ byte_slice d 12 14 @ byte_slice d 14 16 @ byte_slice d 16 18 @
      byte_slice d 18 s1 @ byte_slice d s1 s2 @ byte_slice d s2 s3 @ byte_slice d s3 s4 @ byte_slice d s4 (length d)"
    using starts_with_slice [OF assms(2)] assms(1) by (simp add: route_frame_def slice_rest)
  also have "\<dots> = byte_slice d 0 (length d)"
    using assms(3-8) by (simp add: slice_join)
  finally show ?thesis by (simp add: slice_rest)
qed

lemma decode_route_frame_inv:
  assumes "length magic = 10" and "decode_relay_datagram_v2_with_options d magic announcement = Inr r"
  shows "\<exists>s t a b p. d = route_frame magic s t a b p \<and> credentials_ok s t p \<and> relay_node_id_is_valid a \<and>
    relay_node_id_is_valid b \<and> (announcement \<or> p \<noteq> []) \<and>
    r = \<lparr>rd_session_id = s, rd_session_token = t, rd_source = Some a, rd_destination = Some b,
         rd_ciphertext_payload = p, rd_endpoint_announcement = announcement\<rparr>"
proof -
  define s1 s2 s3 s4 where starts: "s1 = 18 + u16_at d 10" "s2 = s1 + u16_at d 12" "s3 = s2 + u16_at d 14" "s4 = s3 + u16_at d 16"
  note unfold = decode_relay_datagram_v2_with_options_def Let_def validate_relay_frame_sizes_def
    validate_relay_frame_sizes_allow_empty_def validate_relay_frame_sizes_with_options_def
    validate_relay_node_id_size_def validate_relay_frame_node_id_def from_utf8_def
  have ok: "starts_with d magic" "18 \<le> length d" "s4 \<le> length d" "0 < u16_at d 10" "0 < u16_at d 12"
    "u16_at d 10 \<le> 4096" "u16_at d 12 \<le> 256" "length d - s4 \<le> 131072" "announcement \<or> s4 \<noteq> length d"
    "utf8_valid (byte_slice d 18 s1)" "utf8_valid (byte_slice d s1 s2)"
    "relay_node_id_is_valid (byte_slice d s2 s3)" "relay_node_id_is_valid (byte_slice d s3 s4)"
    "r = \<lparr>rd_session_id = byte_slice d 18 s1, rd_session_token = byte_slice d s1 s2, rd_source = Some (byte_slice d s2 s3),
       rd_destination = Some (byte_slice d s3 s4), rd_ciphertext_payload = drop s4 d, rd_endpoint_announcement = announcement\<rparr>"
    using assms unfolding starts by (auto simp: unfold result_simps split: if_splits)
  have "s1 \<le> length d" "s2 \<le> length d" "s1 \<le> s2" "18 \<le> s1" using ok(3) by (auto simp: starts)
  then have "length (byte_slice d 18 s1) = u16_at d 10" "length (byte_slice d s1 s2) = u16_at d 12"
    by (simp_all add: length_slice starts)
  then have "credentials_ok (byte_slice d 18 s1) (byte_slice d s1 s2) (drop s4 d)"
    using ok by (auto simp: credentials_ok_def)
  moreover have "announcement \<or> drop s4 d \<noteq> []" using ok(3,9) by auto
  ultimately show ?thesis
    using route_frame_of_slices [OF assms(1) ok(1,2) starts ok(3)] ok(12-14) by blast
qed

text \<open>The same for the frames without a route.\<close>

definition plain_frame :: "rstring \<Rightarrow> rstring \<Rightarrow> bytes \<Rightarrow> bytes" where
  "plain_frame s t p = RELAY_FRAME_MAGIC @ len_bytes s @ len_bytes t @ s @ t @ p"

lemma decode_plain_frame:
  assumes "credentials_ok s t p" and "p \<noteq> []"
  shows "decode_relay_datagram_v1 (plain_frame s t p) =
    Inr \<lparr>rd_session_id = s, rd_session_token = t, rd_source = None, rd_destination = None,
         rd_ciphertext_payload = p, rd_endpoint_announcement = False\<rparr>"
proof -
  let ?d = "plain_frame s t p" and ?h = "RELAY_FRAME_MAGIC @ len_bytes s @ len_bytes t"
  have st: "s \<noteq> []" "t \<noteq> []" "length s \<le> 4096" "length t \<le> 256" "length p \<le> 131072" "utf8_valid s" "utf8_valid t"
    using assms(1) by (simp_all add: credentials_ok_def)
  have "u16_at ?d 10 = length s" "u16_at ?d 12 = length t"
    using u16_at_append [of RELAY_FRAME_MAGIC 10 s] u16_at_append [of "RELAY_FRAME_MAGIC @ len_bytes s" 12 t] st
    by (simp_all add: plain_frame_def)
  moreover have "byte_slice ?d 14 (14 + length s) = s" "byte_slice ?d (14 + length s) (14 + length s + length t) = t"
    using slice_append [of ?h 14 s] slice_append [of "?h @ s" "14 + length s" t] by (simp_all add: plain_frame_def)
  moreover have "drop (14 + length s + length t) ?d = p" "length ?d = 14 + length s + length t + length p"
    "starts_with ?d RELAY_FRAME_MAGIC"
    by (simp_all add: plain_frame_def)
  ultimately show ?thesis using st assms(2)
    by (simp add: decode_relay_datagram_v1_def Let_def validate_relay_frame_sizes_def
        validate_relay_frame_sizes_with_options_def from_utf8_def)
qed

lemma decode_plain_frame_inv:
  assumes "decode_relay_datagram_v1 d = Inr r"
  shows "\<exists>s t p. d = plain_frame s t p \<and> credentials_ok s t p \<and> p \<noteq> [] \<and>
    r = \<lparr>rd_session_id = s, rd_session_token = t, rd_source = None, rd_destination = None,
         rd_ciphertext_payload = p, rd_endpoint_announcement = False\<rparr>"
proof -
  define s1 s2 where starts: "s1 = 14 + u16_at d 10" "s2 = s1 + u16_at d 12"
  note unfold = decode_relay_datagram_v1_def Let_def validate_relay_frame_sizes_def
    validate_relay_frame_sizes_with_options_def from_utf8_def
  have ok: "starts_with d RELAY_FRAME_MAGIC" "14 \<le> length d" "s2 < length d" "0 < u16_at d 10" "0 < u16_at d 12"
    "u16_at d 10 \<le> 4096" "u16_at d 12 \<le> 256" "length d - s2 \<le> 131072"
    "utf8_valid (byte_slice d 14 s1)" "utf8_valid (byte_slice d s1 s2)"
    "r = \<lparr>rd_session_id = byte_slice d 14 s1, rd_session_token = byte_slice d s1 s2, rd_source = None,
       rd_destination = None, rd_ciphertext_payload = drop s2 d, rd_endpoint_announcement = False\<rparr>"
    using assms unfolding starts by (auto simp: unfold result_simps split: if_splits)
  have len: "length (byte_slice d 14 s1) = u16_at d 10" "length (byte_slice d s1 s2) = u16_at d 12"
    using ok(3) by (simp_all add: length_slice starts)
  have "len_bytes (byte_slice d 14 s1) = byte_slice d 10 12" "len_bytes (byte_slice d s1 s2) = byte_slice d 12 14"
    using len_bytes_slice [of _ d 10] len_bytes_slice [of _ d 12] ok(2) len by simp_all
  then have "plain_frame (byte_slice d 14 s1) (byte_slice d s1 s2) (drop s2 d) =
      byte_slice d 0 10 @ byte_slice d 10 12 @ byte_slice d 12 14 @ byte_slice d 14 s1 @ byte_slice d s1 s2 @ byte_slice d s2 (length d)"
    using starts_with_slice [OF ok(1)] by (simp add: plain_frame_def slice_rest)
  also have "\<dots> = d" using ok(2,3) slice_rest [of d 0] by (simp add: slice_join starts)
  finally have "d = plain_frame (byte_slice d 14 s1) (byte_slice d s1 s2) (drop s2 d)" ..
  moreover have "credentials_ok (byte_slice d 14 s1) (byte_slice d s1 s2) (drop s2 d)" "drop s2 d \<noteq> []"
    using ok len by (auto simp: credentials_ok_def)
  ultimately show ?thesis using ok(11) by blast
qed


subsection \<open>The encoders and the decoder\<close>

lemma encode_relay_datagram_iff:
  "utf8_valid s \<Longrightarrow> utf8_valid t \<Longrightarrow>
   encode_relay_datagram s t p = Inr d \<longleftrightarrow> d = plain_frame s t p \<and> credentials_ok s t p \<and> p \<noteq> []"
  by (auto simp: encode_relay_datagram_def result_simps validate_relay_frame_sizes_def
      validate_relay_frame_sizes_with_options_def plain_frame_def credentials_ok_def)

lemma encode_with_route_iff:
  "utf8_valid s \<Longrightarrow> utf8_valid t \<Longrightarrow>
   encode_relay_datagram_with_route s t a b p = Inr d \<longleftrightarrow>
     d = route_frame RELAY_FRAME_MAGIC_V2 s t a b p \<and> credentials_ok s t p \<and> p \<noteq> [] \<and>
     relay_node_id_is_valid a \<and> relay_node_id_is_valid b"
  by (auto simp: encode_relay_datagram_with_route_def result_simps validate_relay_frame_sizes_def
      validate_relay_frame_sizes_with_options_def validate_relay_frame_node_id_def route_frame_def credentials_ok_def
      relay_node_id_is_valid_def)

lemma encode_announcement_iff:
  "utf8_valid s \<Longrightarrow> utf8_valid t \<Longrightarrow>
   encode_relay_endpoint_announcement s t a b = Inr d \<longleftrightarrow>
     d = route_frame RELAY_FRAME_MAGIC_V3 s t a b [] \<and> credentials_ok s t [] \<and>
     relay_node_id_is_valid a \<and> relay_node_id_is_valid b"
  by (auto simp: encode_relay_endpoint_announcement_def result_simps validate_relay_frame_sizes_allow_empty_def
      validate_relay_frame_sizes_with_options_def validate_relay_frame_node_id_def route_frame_def credentials_ok_def
      relay_node_id_is_valid_def)

lemma encode_probe_iff:
  "utf8_valid s \<Longrightarrow> utf8_valid t \<Longrightarrow>
   encode_relay_endpoint_probe s t a b = Inr d \<longleftrightarrow>
     d = route_frame RELAY_FRAME_MAGIC_V4 s t a b [] \<and> credentials_ok s t [] \<and>
     relay_node_id_is_valid a \<and> relay_node_id_is_valid b"
  by (auto simp: encode_relay_endpoint_probe_def result_simps encode_announcement_iff route_frame_def)

lemma decode_relay_datagram_frames:
  "decode_relay_datagram (plain_frame s t p) = decode_relay_datagram_v1 (plain_frame s t p)"
  "decode_relay_datagram (route_frame RELAY_FRAME_MAGIC_V2 s t a b p) =
     decode_relay_datagram_v2_with_options (route_frame RELAY_FRAME_MAGIC_V2 s t a b p) RELAY_FRAME_MAGIC_V2 False"
  "decode_relay_datagram (route_frame RELAY_FRAME_MAGIC_V3 s t a b p) =
     decode_relay_datagram_v2_with_options (route_frame RELAY_FRAME_MAGIC_V3 s t a b p) RELAY_FRAME_MAGIC_V3 True"
  "decode_relay_datagram (route_frame RELAY_FRAME_MAGIC_V4 s t a b p) =
     decode_relay_datagram (route_frame RELAY_FRAME_MAGIC_V3 s t a b p)"
  by (subst decode_relay_datagram.simps,
      simp add: plain_frame_def route_frame_def magics_differ decode_relay_datagram_v2_def decode_relay_datagram_v3_def)+

text \<open>The frames the decoder accepts, and what it reads from them.\<close>

lemma decode_relay_datagram_inv:
  assumes "decode_relay_datagram d = Inr r"
  shows "(\<exists>s t p. d = plain_frame s t p \<and> credentials_ok s t p \<and> p \<noteq> [] \<and>
      r = \<lparr>rd_session_id = s, rd_session_token = t, rd_source = None, rd_destination = None,
           rd_ciphertext_payload = p, rd_endpoint_announcement = False\<rparr>) \<or>
    (\<exists>magic s t a b p announcement. d = route_frame magic s t a b p \<and> credentials_ok s t p \<and>
      relay_node_id_is_valid a \<and> relay_node_id_is_valid b \<and>
      (magic = RELAY_FRAME_MAGIC_V2 \<and> \<not> announcement \<and> p \<noteq> [] \<or>
       (magic = RELAY_FRAME_MAGIC_V3 \<or> magic = RELAY_FRAME_MAGIC_V4) \<and> announcement) \<and>
      r = \<lparr>rd_session_id = s, rd_session_token = t, rd_source = Some a, rd_destination = Some b,
           rd_ciphertext_payload = p, rd_endpoint_announcement = announcement\<rparr>)"
proof (cases "starts_with d RELAY_FRAME_MAGIC_V4")
  case True
  let ?probe = "RELAY_FRAME_MAGIC_V3 @ drop 10 d"
  have d: "d = RELAY_FRAME_MAGIC_V4 @ drop 10 d"
    using True by (metis append_take_drop_id length_relay_magic(4) starts_with_def)
  have "decode_relay_datagram d = decode_relay_datagram ?probe"
    using True by (subst decode_relay_datagram.simps) simp
  moreover have "decode_relay_datagram ?probe = decode_relay_datagram_v3 ?probe"
    by (subst decode_relay_datagram.simps) (simp add: magics_differ)
  ultimately have "decode_relay_datagram_v2_with_options ?probe RELAY_FRAME_MAGIC_V3 True = Inr r"
    using assms by (simp add: decode_relay_datagram_v3_def)
  from decode_route_frame_inv [OF _ this] obtain s t a b p where
    f: "?probe = route_frame RELAY_FRAME_MAGIC_V3 s t a b p" and
    r: "credentials_ok s t p \<and> relay_node_id_is_valid a \<and> relay_node_id_is_valid b \<and>
    r = \<lparr>rd_session_id = s, rd_session_token = t, rd_source = Some a, rd_destination = Some b,
         rd_ciphertext_payload = p, rd_endpoint_announcement = True\<rparr>" by auto
  from f have "drop 10 d = len_bytes s @ len_bytes t @ len_bytes a @ len_bytes b @ s @ t @ a @ b @ p"
    by (simp add: route_frame_def)
  with d have "d = route_frame RELAY_FRAME_MAGIC_V4 s t a b p" unfolding route_frame_def by metis
  with r show ?thesis by blast
next
  case False
  have "decode_relay_datagram d =
      (if starts_with d RELAY_FRAME_MAGIC_V3 then decode_relay_datagram_v2_with_options d RELAY_FRAME_MAGIC_V3 True
       else if starts_with d RELAY_FRAME_MAGIC_V2 then decode_relay_datagram_v2_with_options d RELAY_FRAME_MAGIC_V2 False
       else decode_relay_datagram_v1 d)"
    using False
    by (subst decode_relay_datagram.simps) (simp add: decode_relay_datagram_v2_def decode_relay_datagram_v3_def)
  with assms consider "decode_relay_datagram_v2_with_options d RELAY_FRAME_MAGIC_V3 True = Inr r"
    | "decode_relay_datagram_v2_with_options d RELAY_FRAME_MAGIC_V2 False = Inr r" | "decode_relay_datagram_v1 d = Inr r"
    by (auto split: if_splits)
  then show ?thesis
  proof cases
    case 1
    from decode_route_frame_inv [OF _ this] show ?thesis by (simp, blast)
  next
    case 2
    from decode_route_frame_inv [OF _ this] show ?thesis by (simp, blast)
  next
    case 3
    from decode_plain_frame_inv [OF this] show ?thesis by auto
  qed
qed

text \<open>
  C24. The relay's frames are canonical. For strings, a byte string decodes to a datagram without a
  route exactly when the encoder produces it for those fields, and likewise for a datagram with a
  route; it decodes to an empty endpoint announcement exactly when it is the announcement or the
  probe for those fields. So decoding inverts encoding, different fields have different frames,
  and a frame has no second reading under another version.
\<close>

theorem relay_frames_canonical:
  assumes "utf8_valid s" and "utf8_valid t"
  shows "(encode_relay_datagram s t p = Inr d \<longleftrightarrow>
      decode_relay_datagram d = Inr \<lparr>rd_session_id = s, rd_session_token = t, rd_source = None, rd_destination = None,
        rd_ciphertext_payload = p, rd_endpoint_announcement = False\<rparr>) \<and>
    (encode_relay_datagram_with_route s t a b p = Inr d \<longleftrightarrow>
      decode_relay_datagram d = Inr \<lparr>rd_session_id = s, rd_session_token = t, rd_source = Some a, rd_destination = Some b,
        rd_ciphertext_payload = p, rd_endpoint_announcement = False\<rparr>) \<and>
    (encode_relay_endpoint_announcement s t a b = Inr d \<or> encode_relay_endpoint_probe s t a b = Inr d \<longleftrightarrow>
      decode_relay_datagram d = Inr \<lparr>rd_session_id = s, rd_session_token = t, rd_source = Some a, rd_destination = Some b,
        rd_ciphertext_payload = [], rd_endpoint_announcement = True\<rparr>)"
  unfolding encode_relay_datagram_iff [OF assms] encode_with_route_iff [OF assms] encode_announcement_iff [OF assms]
    encode_probe_iff [OF assms]
  by (auto simp: decode_relay_datagram_frames decode_plain_frame decode_route_frame dest!: decode_relay_datagram_inv)

theorem relay_frames_canonical_witness:
  "utf8_valid (str ''a:b'') \<and> utf8_valid (str ''token'') \<and>
   (\<exists>d. encode_relay_datagram_with_route (str ''a:b'') (str ''token'') (str ''a'') (str ''b'') [1, 2] = Inr d \<and>
      decode_relay_datagram d = Inr \<lparr>rd_session_id = str ''a:b'', rd_session_token = str ''token'', rd_source = Some (str ''a''),
        rd_destination = Some (str ''b''), rd_ciphertext_payload = [1, 2], rd_endpoint_announcement = False\<rparr>)"
proof -
  have u: "utf8_valid (str ''a:b'')" "utf8_valid (str ''token'')" by (simp_all add: str_def)
  moreover have "credentials_ok (str ''a:b'') (str ''token'') [1, 2]"
    by (simp add: credentials_ok_def u) (simp add: str_def)
  moreover have "relay_node_id_is_valid (str ''a'')" "relay_node_id_is_valid (str ''b'')"
    by (simp_all add: relay_node_id_is_valid_def str_def starts_with_def is_ascii_alphanumeric_def)
  ultimately have "encode_relay_datagram_with_route (str ''a:b'') (str ''token'') (str ''a'') (str ''b'') [1, 2] =
      Inr (route_frame RELAY_FRAME_MAGIC_V2 (str ''a:b'') (str ''token'') (str ''a'') (str ''b'') [1, 2])"
    by (simp add: encode_with_route_iff)
  with relay_frames_canonical [OF u, of "[1, 2]" _ "str ''a''" "str ''b''"] u show ?thesis by blast
qed

end
