(* ===== verification/RelayTable.thy ===== *)
theory RelayTable
  imports RelayFrame Overlay
begin

text \<open>
  The relay's sessions (\<open>crates/ipars-relay/src/lib.rs\<close>): admission, renewal and expiry of sessions,
  forwarding between the two ends of a session with a rate limit, the learning of endpoints, and
  the return routes by which unwrapped WireGuard datagrams find their session; then the service
  around the table with its admission limits and counters. The locks of the source are held for a
  whole operation, so an operation is a function from state to state. The random session token and
  every reading of the clock are arguments.
\<close>

subsection \<open>Metrics\<close>

datatype relay_dataplane_drop_reason =
    DropAdmissionDenied | DropUnknownSession | DropSessionExpired | DropInvalidSessionCredential
  | DropRateLimited | DropMalformedFrame | DropFrameTooLarge | DropSocketError

definition RelayDataplaneDropReason_ALL :: "relay_dataplane_drop_reason list" where
  "RelayDataplaneDropReason_ALL =
     [DropAdmissionDenied, DropUnknownSession, DropSessionExpired, DropInvalidSessionCredential,
      DropRateLimited, DropMalformedFrame, DropFrameTooLarge, DropSocketError]"

datatype relay_admission_failure_reason =
    FailUnauthorized | FailInvalidAdmissionRequest | FailAdmissionDenied | FailNodeSessionLimitExceeded
  | FailRateLimited | FailInvalidSessionCredential | FailSocketError | FailInternalError

definition RelayAdmissionFailureReason_ALL :: "relay_admission_failure_reason list" where
  "RelayAdmissionFailureReason_ALL =
     [FailUnauthorized, FailInvalidAdmissionRequest, FailAdmissionDenied, FailNodeSessionLimitExceeded,
      FailRateLimited, FailInvalidSessionCredential, FailSocketError, FailInternalError]"

text \<open>The derived order of both enumerations is the order of their variants.\<close>

fun drop_reason_index :: "relay_dataplane_drop_reason \<Rightarrow> nat" where
  "drop_reason_index DropAdmissionDenied = 0"
| "drop_reason_index DropUnknownSession = 1"
| "drop_reason_index DropSessionExpired = 2"
| "drop_reason_index DropInvalidSessionCredential = 3"
| "drop_reason_index DropRateLimited = 4"
| "drop_reason_index DropMalformedFrame = 5"
| "drop_reason_index DropFrameTooLarge = 6"
| "drop_reason_index DropSocketError = 7"

fun failure_reason_index :: "relay_admission_failure_reason \<Rightarrow> nat" where
  "failure_reason_index FailUnauthorized = 0"
| "failure_reason_index FailInvalidAdmissionRequest = 1"
| "failure_reason_index FailAdmissionDenied = 2"
| "failure_reason_index FailNodeSessionLimitExceeded = 3"
| "failure_reason_index FailRateLimited = 4"
| "failure_reason_index FailInvalidSessionCredential = 5"
| "failure_reason_index FailSocketError = 6"
| "failure_reason_index FailInternalError = 7"

lemma drop_reason_index_inj: "drop_reason_index a = drop_reason_index b \<Longrightarrow> a = b"
  by (cases a; cases b) simp_all

lemma failure_reason_index_inj: "failure_reason_index a = failure_reason_index b \<Longrightarrow> a = b"
  by (cases a; cases b) simp_all

instantiation relay_dataplane_drop_reason :: linorder
begin

definition less_eq_relay_dataplane_drop_reason :: "relay_dataplane_drop_reason \<Rightarrow> relay_dataplane_drop_reason \<Rightarrow> bool" where
  "less_eq_relay_dataplane_drop_reason a b \<longleftrightarrow> drop_reason_index a \<le> drop_reason_index b"

definition less_relay_dataplane_drop_reason :: "relay_dataplane_drop_reason \<Rightarrow> relay_dataplane_drop_reason \<Rightarrow> bool" where
  "less_relay_dataplane_drop_reason a b \<longleftrightarrow> drop_reason_index a < drop_reason_index b"

instance
  by standard
    (auto simp: less_eq_relay_dataplane_drop_reason_def less_relay_dataplane_drop_reason_def intro: drop_reason_index_inj)

end

instantiation relay_admission_failure_reason :: linorder
begin

definition less_eq_relay_admission_failure_reason :: "relay_admission_failure_reason \<Rightarrow> relay_admission_failure_reason \<Rightarrow> bool" where
  "less_eq_relay_admission_failure_reason a b \<longleftrightarrow> failure_reason_index a \<le> failure_reason_index b"

definition less_relay_admission_failure_reason :: "relay_admission_failure_reason \<Rightarrow> relay_admission_failure_reason \<Rightarrow> bool" where
  "less_relay_admission_failure_reason a b \<longleftrightarrow> failure_reason_index a < failure_reason_index b"

instance
  by standard
    (auto simp: less_eq_relay_admission_failure_reason_def less_relay_admission_failure_reason_def intro: failure_reason_index_inj)

end

record relay_dataplane_metrics =
  dm_datagrams_received :: u64
  dm_datagrams_forwarded :: u64
  dm_datagrams_dropped :: u64
  dm_datagram_bytes_received :: u64
  dm_payload_bytes_forwarded :: u64
  dm_datagram_bytes_dropped :: u64
  dm_drops_by_reason :: "(relay_dataplane_drop_reason, u64) amap"

definition dataplane_default :: relay_dataplane_metrics where
  "dataplane_default = \<lparr>dm_datagrams_received = 0, dm_datagrams_forwarded = 0, dm_datagrams_dropped = 0,
     dm_datagram_bytes_received = 0, dm_payload_bytes_forwarded = 0, dm_datagram_bytes_dropped = 0, dm_drops_by_reason = []\<rparr>"

text \<open>\<open>*map.entry(key).or_default() = count.saturating_add(1)\<close>.\<close>

definition bump :: "'k::linorder \<Rightarrow> ('k, u64) amap \<Rightarrow> ('k, u64) amap" where
  "bump k m = bm_insert k (saturating_add (case am_get m k of None \<Rightarrow> 0 | Some c \<Rightarrow> c) 1) m"

definition record_received :: "nat \<Rightarrow> relay_dataplane_metrics \<Rightarrow> relay_dataplane_metrics" where
  "record_received datagram_bytes m =
     m\<lparr>dm_datagrams_received := saturating_add (dm_datagrams_received m) 1,
       dm_datagram_bytes_received := saturating_add (dm_datagram_bytes_received m) (word_of_nat datagram_bytes)\<rparr>"

definition record_forwarded :: "nat \<Rightarrow> relay_dataplane_metrics \<Rightarrow> relay_dataplane_metrics" where
  "record_forwarded payload_bytes m =
     m\<lparr>dm_datagrams_forwarded := saturating_add (dm_datagrams_forwarded m) 1,
       dm_payload_bytes_forwarded := saturating_add (dm_payload_bytes_forwarded m) (word_of_nat payload_bytes)\<rparr>"

definition record_drop :: "relay_dataplane_drop_reason \<Rightarrow> nat \<Rightarrow> relay_dataplane_metrics \<Rightarrow> relay_dataplane_metrics" where
  "record_drop reason datagram_bytes m =
     m\<lparr>dm_datagrams_dropped := saturating_add (dm_datagrams_dropped m) 1,
       dm_datagram_bytes_dropped := saturating_add (dm_datagram_bytes_dropped m) (word_of_nat datagram_bytes),
       dm_drops_by_reason := bump reason (dm_drops_by_reason m)\<rparr>"

fun relay_error_drop_reason :: "relay_error \<Rightarrow> relay_dataplane_drop_reason" where
  "relay_error_drop_reason InvalidAdmissionRequest = DropAdmissionDenied"
| "relay_error_drop_reason AdmissionDenied = DropAdmissionDenied"
| "relay_error_drop_reason NodeSessionLimitExceeded = DropAdmissionDenied"
| "relay_error_drop_reason UnknownSession = DropUnknownSession"
| "relay_error_drop_reason SessionExpired = DropSessionExpired"
| "relay_error_drop_reason InvalidSessionCredential = DropInvalidSessionCredential"
| "relay_error_drop_reason RateLimited = DropRateLimited"
| "relay_error_drop_reason MalformedRelayFrame = DropMalformedFrame"
| "relay_error_drop_reason RelayFrameTooLarge = DropFrameTooLarge"
| "relay_error_drop_reason Socket = DropSocketError"

fun relay_error_admission_failure_reason :: "relay_error \<Rightarrow> relay_admission_failure_reason" where
  "relay_error_admission_failure_reason InvalidAdmissionRequest = FailInvalidAdmissionRequest"
| "relay_error_admission_failure_reason AdmissionDenied = FailAdmissionDenied"
| "relay_error_admission_failure_reason NodeSessionLimitExceeded = FailNodeSessionLimitExceeded"
| "relay_error_admission_failure_reason RateLimited = FailRateLimited"
| "relay_error_admission_failure_reason InvalidSessionCredential = FailInvalidSessionCredential"
| "relay_error_admission_failure_reason Socket = FailSocketError"
| "relay_error_admission_failure_reason UnknownSession = FailInternalError"
| "relay_error_admission_failure_reason SessionExpired = FailInternalError"
| "relay_error_admission_failure_reason MalformedRelayFrame = FailInternalError"
| "relay_error_admission_failure_reason RelayFrameTooLarge = FailInternalError"

definition zero_filled_admission_failure_reasons ::
  "(relay_admission_failure_reason, u64) amap \<Rightarrow> (relay_admission_failure_reason, u64) amap" where
  "zero_filled_admission_failure_reasons observed =
     fold (\<lambda>reason m. bm_insert reason (case am_get observed reason of None \<Rightarrow> 0 | Some c \<Rightarrow> c) m)
       RelayAdmissionFailureReason_ALL []"

definition zero_filled_dataplane_metrics :: "relay_dataplane_metrics \<Rightarrow> relay_dataplane_metrics" where
  "zero_filled_dataplane_metrics metrics =
     metrics\<lparr>dm_drops_by_reason :=
       fold (\<lambda>reason m. bm_insert reason (case am_get (dm_drops_by_reason metrics) reason of None \<Rightarrow> 0 | Some c \<Rightarrow> c) m)
         RelayDataplaneDropReason_ALL []\<rparr>"

subsection \<open>Sessions\<close>

definition DEFAULT_SESSION_TTL_SECONDS :: int where [simp]: "DEFAULT_SESSION_TTL_SECONDS = 300"
definition MAX_WIREGUARD_SENDER_INDICES_PER_SIDE :: nat where [simp]: "MAX_WIREGUARD_SENDER_INDICES_PER_SIDE = 8"

definition default_session_ttl :: time where
  "default_session_ttl = DEFAULT_SESSION_TTL_SECONDS * 1000000000"

datatype relay_session_side = LeftSide | RightSide

record relay_session =
  rs_id :: relay_session_id
  rs_session_token :: rstring
  rs_left :: rstring
  rs_right :: rstring
  rs_left_addr :: socket_addr
  rs_right_addr :: socket_addr
  rs_created_at :: time
  rs_expires_at :: time
  rs_bytes_forwarded :: u64
  rs_left_addr_learned :: bool
  rs_right_addr_learned :: bool
  rs_left_wireguard_sender_indices :: "u32 list"
  rs_right_wireguard_sender_indices :: "u32 list"
  rs_window_started_at :: time
  rs_window_bytes :: u64
  rs_max_bytes_per_second :: u64

record relay_session_credentials =
  cr_session_id :: relay_session_id
  cr_session_token :: rstring
  cr_expires_at :: time

record relay_session_admission =
  ad_left :: rstring
  ad_right :: rstring
  ad_left_addr :: socket_addr
  ad_right_addr :: socket_addr
  ad_session_token :: rstring
  ad_session_ttl :: time

record relay_frame =
  rf_session_id :: relay_session_id
  rf_session_token :: rstring
  rf_source :: rstring
  rf_destination :: rstring
  rf_ciphertext_payload :: bytes

definition megabits_to_bytes_per_second :: "u32 \<Rightarrow> u64" where
  "megabits_to_bytes_per_second max_mbps = saturating_mul (ucast max_mbps) 1000000 div 8"

definition is_expired :: "relay_session \<Rightarrow> time \<Rightarrow> bool" where
  "is_expired s now \<longleftrightarrow> now \<ge> rs_expires_at s"

definition verify_token :: "relay_session \<Rightarrow> rstring \<Rightarrow> relay_error + unit" where
  "verify_token s session_token =
     (if relay_session_token_matches (rs_session_token s) session_token then Inr () else Inl InvalidSessionCredential)"

text \<open>
  The update of one side's index list: a known index moves to the end, and the oldest of eight
  makes room for a new one.
\<close>

definition push_sender_index :: "u32 \<Rightarrow> u32 list \<Rightarrow> u32 option \<times> u32 list" where
  "push_sender_index sender_index indices =
     (let indices = remove_first (\<lambda>i. i = sender_index) indices in
      if length indices \<ge> MAX_WIREGUARD_SENDER_INDICES_PER_SIDE
      then (Some (hd indices), tl indices @ [sender_index])
      else (None, indices @ [sender_index]))"

definition record_wireguard_sender_index ::
  "relay_session_side \<Rightarrow> bytes \<Rightarrow> relay_session \<Rightarrow> (u32 \<times> u32 option) option \<times> relay_session" where
  "record_wireguard_sender_index side payload s =
     (case wireguard_sender_index payload of
        None \<Rightarrow> (None, s)
      | Some sender_index \<Rightarrow>
          (case side of
             LeftSide \<Rightarrow>
               let (evicted, indices) = push_sender_index sender_index (rs_left_wireguard_sender_indices s)
               in (Some (sender_index, evicted), s\<lparr>rs_left_wireguard_sender_indices := indices\<rparr>)
           | RightSide \<Rightarrow>
               let (evicted, indices) = push_sender_index sender_index (rs_right_wireguard_sender_indices s)
               in (Some (sender_index, evicted), s\<lparr>rs_right_wireguard_sender_indices := indices\<rparr>)))"

definition consume_rate_limit :: "nat \<Rightarrow> time \<Rightarrow> relay_session \<Rightarrow> (relay_error + unit) \<times> relay_session" where
  "consume_rate_limit payload_len now s =
     (let s = (if now - rs_window_started_at s \<ge> 1000000000
               then s\<lparr>rs_window_started_at := now, rs_window_bytes := 0\<rparr> else s);
          len = word_of_nat payload_len :: u64
      in if saturating_add (rs_window_bytes s) len > rs_max_bytes_per_second s then (Inl RateLimited, s)
         else (Inr (), s\<lparr>rs_window_bytes := saturating_add (rs_window_bytes s) len\<rparr>))"

definition add_bytes_forwarded :: "nat \<Rightarrow> relay_session \<Rightarrow> relay_session" where
  "add_bytes_forwarded n s = s\<lparr>rs_bytes_forwarded := saturating_add (rs_bytes_forwarded s) (word_of_nat n)\<rparr>"

definition validate_relay_session_admission :: "relay_session_admission \<Rightarrow> relay_session_id \<Rightarrow> relay_error + unit" where
  "validate_relay_session_admission admission session_id =
     and_then (validate_relay_admission_node_id (ad_left admission)) (\<lambda>_.
     and_then (validate_relay_admission_node_id (ad_right admission)) (\<lambda>_.
     if ad_left admission = ad_right admission \<or> ad_left_addr admission = ad_right_addr admission then Inl AdmissionDenied
     else if \<not> endpoint_addr_is_usable (ad_left_addr admission) \<or> \<not> endpoint_addr_is_usable (ad_right_addr admission)
     then Inl AdmissionDenied
     else if length session_id > MAX_RELAY_SESSION_ID_BYTES then Inl AdmissionDenied
     else if ad_session_token admission = [] \<or> length (ad_session_token admission) > MAX_RELAY_SESSION_TOKEN_BYTES
     then Inl InvalidSessionCredential
     else Inr ()))"


subsection \<open>The table\<close>

record wireguard_return_route =
  wr_session_id :: relay_session_id
  wr_source_side :: relay_session_side
  wr_source_ip :: ip_addr

record relay_table =
  tb_sessions :: "(relay_session_id, relay_session) amap"
  tb_wireguard_return_routes :: "(u32, wireguard_return_route list) amap"
  tb_dataplane :: relay_dataplane_metrics

definition table_default :: relay_table where
  "table_default = \<lparr>tb_sessions = [], tb_wireguard_return_routes = [], tb_dataplane = dataplane_default\<rparr>"

definition put_session :: "relay_session_id \<Rightarrow> relay_session \<Rightarrow> relay_table \<Rightarrow> relay_table" where
  "put_session session_id s t = t\<lparr>tb_sessions := bm_insert session_id s (tb_sessions t)\<rparr>"

text \<open>The routes of an index, as \<open>get\<close> with a default or \<open>entry(index).or_default()\<close> reads them.\<close>

definition routes_at :: "(u32, wireguard_return_route list) amap \<Rightarrow> u32 \<Rightarrow> wireguard_return_route list" where
  "routes_at routes i = (case am_get routes i of None \<Rightarrow> [] | Some rs \<Rightarrow> rs)"

text \<open>\<open>routes.entry(index).or_default().push(route)\<close>.\<close>

definition push_route ::
  "u32 \<Rightarrow> wireguard_return_route \<Rightarrow> (u32, wireguard_return_route list) amap \<Rightarrow> (u32, wireguard_return_route list) amap" where
  "push_route i r routes = bm_insert i (routes_at routes i @ [r]) routes"

definition session_routes ::
  "relay_session_id \<times> relay_session \<Rightarrow> (u32, wireguard_return_route list) amap \<Rightarrow> (u32, wireguard_return_route list) amap" where
  "session_routes e routes =
     (case e of (session_id, session) \<Rightarrow>
       fold (\<lambda>i. push_route i \<lparr>wr_session_id = session_id, wr_source_side = LeftSide, wr_source_ip = sa_ip (rs_left_addr session)\<rparr>)
         (rs_right_wireguard_sender_indices session)
         (fold (\<lambda>i. push_route i \<lparr>wr_session_id = session_id, wr_source_side = RightSide, wr_source_ip = sa_ip (rs_right_addr session)\<rparr>)
           (rs_left_wireguard_sender_indices session) routes))"

definition rebuild_wireguard_return_routes :: "relay_table \<Rightarrow> relay_table" where
  "rebuild_wireguard_return_routes t = t\<lparr>tb_wireguard_return_routes := fold session_routes (tb_sessions t) []\<rparr>"

definition same_route :: "wireguard_return_route \<Rightarrow> wireguard_return_route \<Rightarrow> bool" where
  "same_route route existing \<longleftrightarrow>
     wr_session_id existing = wr_session_id route \<and> wr_source_side existing = wr_source_side route"

definition evict_route ::
  "u32 option \<Rightarrow> wireguard_return_route \<Rightarrow> (u32, wireguard_return_route list) amap \<Rightarrow> (u32, wireguard_return_route list) amap" where
  "evict_route evicted_index route routes =
     (case evicted_index of
        None \<Rightarrow> routes
      | Some i \<Rightarrow>
          (case am_get routes i of
             None \<Rightarrow> routes
           | Some rs \<Rightarrow>
               let rs = filter (\<lambda>existing. \<not> same_route route existing) rs
               in if rs = [] then am_remove i (bm_insert i rs routes) else bm_insert i rs routes))"

definition upsert_wireguard_return_route ::
  "u32 \<Rightarrow> u32 option \<Rightarrow> wireguard_return_route \<Rightarrow> relay_table \<Rightarrow> relay_table" where
  "upsert_wireguard_return_route receiver_index evicted_index route t =
     (let routes = evict_route evicted_index route (tb_wireguard_return_routes t);
          existing = routes_at routes receiver_index
      in t\<lparr>tb_wireguard_return_routes :=
             bm_insert receiver_index (filter (\<lambda>e. \<not> same_route route e) existing @ [route]) routes\<rparr>)"

definition purge_expired :: "time \<Rightarrow> relay_table \<Rightarrow> nat \<times> relay_table" where
  "purge_expired now t =
     (let sessions = am_retain (\<lambda>_ s. \<not> is_expired s now) (tb_sessions t);
          removed = length (tb_sessions t) - length sessions;
          t = t\<lparr>tb_sessions := sessions\<rparr>
      in (removed, if removed > 0 then rebuild_wireguard_return_routes t else t))"

definition session_count :: "relay_table \<Rightarrow> nat" where
  "session_count t = length (tb_sessions t)"

definition active_session_count_for_node :: "rstring \<Rightarrow> relay_table \<Rightarrow> nat" where
  "active_session_count_for_node node t =
     length (filter (\<lambda>(_, s). rs_left s = node \<or> rs_right s = node) (tb_sessions t))"

definition bytes_forwarded :: "relay_table \<Rightarrow> u64" where
  "bytes_forwarded t = dm_payload_bytes_forwarded (tb_dataplane t)"

definition is_pair :: "rstring \<Rightarrow> rstring \<Rightarrow> relay_session \<Rightarrow> bool" where
  "is_pair left right s \<longleftrightarrow> rs_left s = left \<and> rs_right s = right \<or> rs_left s = right \<and> rs_right s = left"

definition has_session_pair :: "rstring \<Rightarrow> rstring \<Rightarrow> relay_table \<Rightarrow> bool" where
  "has_session_pair left right t = list_ex (\<lambda>(_, s). is_pair left right s) (tb_sessions t)"

definition remove_expired_session :: "relay_session_id \<Rightarrow> time \<Rightarrow> relay_table \<Rightarrow> (relay_error + unit) \<times> relay_table" where
  "remove_expired_session session_id now t =
     (let expired = (case am_get (tb_sessions t) session_id of None \<Rightarrow> False | Some s \<Rightarrow> is_expired s now) in
      if expired
      then (Inl SessionExpired, rebuild_wireguard_return_routes (t\<lparr>tb_sessions := am_remove session_id (tb_sessions t)\<rparr>))
      else (Inr (), t))"

definition authorize_http_announcement ::
  "rstring \<Rightarrow> bytes \<Rightarrow> time \<Rightarrow> relay_table \<Rightarrow> (relay_error + rstring \<times> time) \<times> relay_table" where
  "authorize_http_announcement node packet now t =
     (case decode_relay_datagram packet of
        Inl e \<Rightarrow> (Inl e, t)
      | Inr frame \<Rightarrow>
          if \<not> rd_endpoint_announcement frame \<or> rd_source frame \<noteq> Some node then (Inl InvalidSessionCredential, t)
          else st_then (remove_expired_session (rd_session_id frame) now t) (\<lambda>_ t.
          (and_then (ok_or (am_get (tb_sessions t) (rd_session_id frame)) UnknownSession) (\<lambda>session.
           and_then (verify_token session (rd_session_token frame)) (\<lambda>_.
           if \<not> (rd_source frame = Some (rs_left session) \<and> rd_destination frame = Some (rs_right session) \<or>
                 rd_source frame = Some (rs_right session) \<and> rd_destination frame = Some (rs_left session))
           then Inl InvalidSessionCredential
           else Inr (rs_id session, rs_expires_at session))), t)))"

text \<open>Renewal of the session that a pair of nodes already has.\<close>

definition renew_session :: "relay_capability \<Rightarrow> relay_session_admission \<Rightarrow> time \<Rightarrow> relay_session \<Rightarrow> relay_session" where
  "renew_session capability admission expires_at existing =
     (let (left_addr, right_addr) =
        (if rs_left existing = ad_left admission then (ad_left_addr admission, ad_right_addr admission)
         else (ad_right_addr admission, ad_left_addr admission));
          existing = (if \<not> rs_left_addr_learned existing then existing\<lparr>rs_left_addr := left_addr\<rparr> else existing);
          existing = (if \<not> rs_right_addr_learned existing then existing\<lparr>rs_right_addr := right_addr\<rparr> else existing)
      in existing\<lparr>rs_expires_at := expires_at,
           rs_max_bytes_per_second := megabits_to_bytes_per_second (rc_max_mbps capability)\<rparr>)"

definition admit_with_options ::
  "net_libs \<Rightarrow> relay_capability \<Rightarrow> relay_session_admission \<Rightarrow> time \<Rightarrow> relay_table
     \<Rightarrow> (relay_error + relay_session_credentials) \<times> relay_table" where
  "admit_with_options libs capability admission now t =
     (let t = snd (purge_expired now t);
          session_id = session_id_new (ad_left admission) (ad_right admission)
      in
      case validate_relay_session_admission admission session_id of
        Inl e \<Rightarrow> (Inl e, t)
      | Inr _ \<Rightarrow>
          let expires_at = now + max (ad_session_ttl admission) 1000000 in
          (case find (\<lambda>(_, s). is_pair (ad_left admission) (ad_right admission) s) (tb_sessions t) of
             Some (key, existing) \<Rightarrow>
               let existing = renew_session capability admission expires_at existing in
               (Inr \<lparr>cr_session_id = rs_id existing, cr_session_token = rs_session_token existing, cr_expires_at = expires_at\<rparr>,
                rebuild_wireguard_return_routes (put_session key existing t))
           | None \<Rightarrow>
               if \<not> can_admit libs capability then (Inl AdmissionDenied, t)
               else
               (Inr \<lparr>cr_session_id = session_id, cr_session_token = ad_session_token admission, cr_expires_at = expires_at\<rparr>,
                put_session session_id
                  \<lparr>rs_id = session_id, rs_session_token = ad_session_token admission, rs_left = ad_left admission,
                   rs_right = ad_right admission, rs_left_addr = ad_left_addr admission, rs_right_addr = ad_right_addr admission,
                   rs_created_at = now, rs_expires_at = expires_at, rs_bytes_forwarded = 0, rs_left_addr_learned = False,
                   rs_right_addr_learned = False, rs_left_wireguard_sender_indices = [], rs_right_wireguard_sender_indices = [],
                   rs_window_started_at = now, rs_window_bytes = 0,
                   rs_max_bytes_per_second = megabits_to_bytes_per_second (rc_max_mbps capability)\<rparr> t)))"

definition admit_with_token ::
  "net_libs \<Rightarrow> relay_capability \<Rightarrow> rstring \<Rightarrow> rstring \<Rightarrow> socket_addr \<Rightarrow> socket_addr \<Rightarrow> rstring \<Rightarrow> time \<Rightarrow> relay_table
     \<Rightarrow> (relay_error + relay_session_credentials) \<times> relay_table" where
  "admit_with_token libs capability left right left_addr right_addr session_token now t =
     admit_with_options libs capability
       \<lparr>ad_left = left, ad_right = right, ad_left_addr = left_addr, ad_right_addr = right_addr,
        ad_session_token = session_token, ad_session_ttl = default_session_ttl\<rparr> now t"

subsection \<open>Forwarding\<close>

text \<open>
  \<open>session.consume_rate_limit(..)?\<close> on a session borrowed from the table: the window it updates stays
  in the table when the limit is exceeded.
\<close>

definition charge ::
  "relay_session_id \<Rightarrow> nat \<Rightarrow> time \<Rightarrow> relay_session \<Rightarrow> relay_table
     \<Rightarrow> (relay_session \<Rightarrow> (relay_error + 'a) \<times> relay_table) \<Rightarrow> (relay_error + 'a) \<times> relay_table" where
  "charge session_id payload_len now session t continue =
     (case consume_rate_limit payload_len now session of
        (Inl e, session) \<Rightarrow> (Inl e, put_session session_id session t)
      | (Inr _, session) \<Rightarrow> continue session)"

definition frame_target :: "relay_frame \<Rightarrow> relay_table \<Rightarrow> relay_error + relay_session \<times> socket_addr" where
  "frame_target frame t =
     and_then (ok_or (am_get (tb_sessions t) (rf_session_id frame)) UnknownSession) (\<lambda>session.
     and_then (verify_token session (rf_session_token frame)) (\<lambda>_.
     if rf_source frame = rs_left session \<and> rf_destination frame = rs_right session
     then Inr (session, rs_right_addr session)
     else if rf_source frame = rs_right session \<and> rf_destination frame = rs_left session
     then Inr (session, rs_left_addr session)
     else Inl UnknownSession))"

definition forward_target_at_inner :: "relay_frame \<Rightarrow> time \<Rightarrow> relay_table \<Rightarrow> (relay_error + socket_addr) \<times> relay_table" where
  "forward_target_at_inner frame now t =
     (let payload_len = length (rf_ciphertext_payload frame) in
      st_then (validate_relay_frame_sizes (length (rf_session_id frame)) (length (rf_session_token frame)) payload_len, t) (\<lambda>_ t.
      st_then (remove_expired_session (rf_session_id frame) now t) (\<lambda>_ t.
      st_then (frame_target frame t, t) (\<lambda>(session, target) t.
      charge (rf_session_id frame) payload_len now session t (\<lambda>session.
      (Inr target, put_session (rf_session_id frame) (add_bytes_forwarded payload_len session) t))))))"

definition on_dataplane :: "(relay_dataplane_metrics \<Rightarrow> relay_dataplane_metrics) \<Rightarrow> relay_table \<Rightarrow> relay_table" where
  "on_dataplane f t = t\<lparr>tb_dataplane := f (tb_dataplane t)\<rparr>"

definition forward_target_at :: "relay_frame \<Rightarrow> time \<Rightarrow> relay_table \<Rightarrow> (relay_error + socket_addr) \<times> relay_table" where
  "forward_target_at frame now t =
     (let n = length (rf_ciphertext_payload frame) in
      case forward_target_at_inner frame now (on_dataplane (record_received n) t) of
        (Inr target, t) \<Rightarrow> (Inr target, on_dataplane (record_forwarded n) t)
      | (Inl error, t) \<Rightarrow> (Inl error, on_dataplane (record_drop (relay_error_drop_reason error) n) t))"

record relay_datagram_forward =
  df_target :: socket_addr
  df_payload :: bytes
  df_should_forward :: bool

text \<open>
  Which side of a session a datagram comes from, and where it goes. A frame that names both nodes
  also teaches the relay the address of its sender.
\<close>

definition forward_side ::
  "socket_addr \<Rightarrow> relay_datagram \<Rightarrow> relay_session \<Rightarrow> relay_error + socket_addr \<times> relay_session_side \<times> relay_session" where
  "forward_side source_addr datagram session =
     (case (rd_source datagram, rd_destination datagram) of
        (Some source, Some destination) \<Rightarrow>
          if source = rs_left session \<and> destination = rs_right session
          then Inr (rs_right_addr session, LeftSide, session\<lparr>rs_left_addr := source_addr, rs_left_addr_learned := True\<rparr>)
          else if source = rs_right session \<and> destination = rs_left session
          then Inr (rs_left_addr session, RightSide, session\<lparr>rs_right_addr := source_addr, rs_right_addr_learned := True\<rparr>)
          else Inl UnknownSession
      | _ \<Rightarrow>
          if rs_left_addr session = source_addr then Inr (rs_right_addr session, LeftSide, session)
          else if rs_right_addr session = source_addr then Inr (rs_left_addr session, RightSide, session)
          else Inl UnknownSession)"

fun return_route :: "relay_session_id \<Rightarrow> relay_session_side \<Rightarrow> relay_session \<Rightarrow> wireguard_return_route" where
  "return_route session_id LeftSide session =
     \<lparr>wr_session_id = session_id, wr_source_side = RightSide, wr_source_ip = sa_ip (rs_right_addr session)\<rparr>"
| "return_route session_id RightSide session =
     \<lparr>wr_session_id = session_id, wr_source_side = LeftSide, wr_source_ip = sa_ip (rs_left_addr session)\<rparr>"

text \<open>The loop over the return routes of an index: at most one of them may qualify.\<close>

fun matching_route ::
  "(relay_session_id, relay_session) amap \<Rightarrow> ip_addr \<Rightarrow> wireguard_return_route list
     \<Rightarrow> (relay_session_id \<times> relay_session_side) option \<Rightarrow> relay_error + (relay_session_id \<times> relay_session_side) option" where
  "matching_route sessions ip [] matching = Inr matching"
| "matching_route sessions ip (route # routes) matching =
     (if wr_source_ip route \<noteq> ip then matching_route sessions ip routes matching
      else case am_get sessions (wr_session_id route) of
        None \<Rightarrow> matching_route sessions ip routes matching
      | Some session \<Rightarrow>
          let target_is_authenticated =
            (case wr_source_side route of
               LeftSide \<Rightarrow> rs_right_addr_learned session
             | RightSide \<Rightarrow> rs_left_addr_learned session)
          in if \<not> target_is_authenticated then matching_route sessions ip routes matching
             else if matching \<noteq> None then Inl UnknownSession
             else matching_route sessions ip routes (Some (wr_session_id route, wr_source_side route)))"

definition return_session ::
  "socket_addr \<Rightarrow> u32 \<Rightarrow> relay_table \<Rightarrow> relay_error + relay_session_id \<times> relay_session_side \<times> relay_session" where
  "return_session source_addr receiver_index t =
     and_then (matching_route (tb_sessions t) (sa_ip source_addr) (routes_at (tb_wireguard_return_routes t) receiver_index) None) (\<lambda>m.
     and_then (ok_or m UnknownSession) (\<lambda>(session_id, source_side).
     and_then (ok_or (am_get (tb_sessions t) session_id) UnknownSession) (\<lambda>session.
     Inr (session_id, source_side, session))))"

definition accept_return ::
  "socket_addr \<Rightarrow> bytes \<Rightarrow> relay_session_id \<Rightarrow> relay_session_side \<Rightarrow> relay_session \<Rightarrow> relay_table
     \<Rightarrow> relay_datagram_forward \<times> relay_table" where
  "accept_return source_addr datagram session_id source_side session t =
     (let (session, target) =
        (case source_side of
           LeftSide \<Rightarrow> (session\<lparr>rs_left_addr := source_addr\<rparr>, rs_right_addr session)
         | RightSide \<Rightarrow> (session\<lparr>rs_right_addr := source_addr\<rparr>, rs_left_addr session))
      in (\<lparr>df_target = target, df_payload = datagram, df_should_forward = True\<rparr>,
          put_session session_id (add_bytes_forwarded (length datagram) session) t))"

definition forward_wireguard_return_datagram ::
  "socket_addr \<Rightarrow> bytes \<Rightarrow> time \<Rightarrow> relay_table \<Rightarrow> (relay_error + relay_datagram_forward) \<times> relay_table" where
  "forward_wireguard_return_datagram source_addr datagram now t =
     st_then (ok_or (wireguard_receiver_index datagram) MalformedRelayFrame, t) (\<lambda>receiver_index t.
     let t = snd (purge_expired now t) in
     st_then (return_session source_addr receiver_index t, t) (\<lambda>(session_id, source_side, session) t.
     charge session_id (length datagram) now session t (\<lambda>session.
     map_prod Inr id (accept_return source_addr datagram session_id source_side session t))))"

definition datagram_side ::
  "socket_addr \<Rightarrow> relay_datagram \<Rightarrow> relay_table \<Rightarrow> relay_error + socket_addr \<times> relay_session_side \<times> relay_session" where
  "datagram_side source_addr datagram t =
     and_then (ok_or (am_get (tb_sessions t) (rd_session_id datagram)) UnknownSession) (\<lambda>session.
     and_then (verify_token session (rd_session_token datagram)) (\<lambda>_.
     forward_side source_addr datagram session))"

definition accept_datagram ::
  "relay_datagram \<Rightarrow> socket_addr \<Rightarrow> relay_session_side \<Rightarrow> relay_session \<Rightarrow> relay_table
     \<Rightarrow> relay_datagram_forward \<times> relay_table" where
  "accept_datagram datagram target source_side session t =
     (let session_id = rd_session_id datagram;
          payload = rd_ciphertext_payload datagram;
          (route_update, session) =
            (if rd_endpoint_announcement datagram then (None, session)
             else record_wireguard_sender_index source_side payload session);
          route = return_route session_id source_side session;
          t = put_session session_id (add_bytes_forwarded (length payload) session) t
      in (\<lparr>df_target = target, df_payload = payload, df_should_forward = \<not> rd_endpoint_announcement datagram\<rparr>,
          case route_update of
            None \<Rightarrow> t
          | Some (receiver_index, evicted_index) \<Rightarrow>
              upsert_wireguard_return_route receiver_index evicted_index route t))"

definition forward_relay_datagram ::
  "socket_addr \<Rightarrow> relay_datagram \<Rightarrow> time \<Rightarrow> relay_table \<Rightarrow> (relay_error + relay_datagram_forward) \<times> relay_table" where
  "forward_relay_datagram source_addr datagram now t =
     st_then (remove_expired_session (rd_session_id datagram) now t) (\<lambda>_ t.
     st_then (datagram_side source_addr datagram t, t) (\<lambda>(target, source_side, session) t.
     charge (rd_session_id datagram) (length (rd_ciphertext_payload datagram)) now session t (\<lambda>session.
     map_prod Inr id (accept_datagram datagram target source_side session t))))"

definition forward_datagram_for_addr_at_inner ::
  "socket_addr \<Rightarrow> bytes \<Rightarrow> time \<Rightarrow> relay_table \<Rightarrow> (relay_error + relay_datagram_forward) \<times> relay_table" where
  "forward_datagram_for_addr_at_inner source_addr datagram now t =
     (case decode_relay_datagram datagram of
        Inl error \<Rightarrow>
          if error = MalformedRelayFrame \<and> wireguard_datagram_payload datagram
          then forward_wireguard_return_datagram source_addr datagram now t
          else (Inl error, t)
      | Inr datagram \<Rightarrow> forward_relay_datagram source_addr datagram now t)"

definition forward_datagram_for_addr_at ::
  "socket_addr \<Rightarrow> bytes \<Rightarrow> time \<Rightarrow> relay_table \<Rightarrow> (relay_error + socket_addr \<times> bytes) \<times> relay_table" where
  "forward_datagram_for_addr_at source_addr datagram now t =
     (case forward_datagram_for_addr_at_inner source_addr datagram now (on_dataplane (record_received (length datagram)) t) of
        (Inr forward, t) \<Rightarrow>
          (Inr (df_target forward, df_payload forward),
           if df_should_forward forward then on_dataplane (record_forwarded (length (df_payload forward))) t else t)
      | (Inl error, t) \<Rightarrow>
          (Inl error, on_dataplane (record_drop (relay_error_drop_reason error) (length datagram)) t))"

text \<open>One received packet in the loop of \<open>UdpRelay::serve\<close>: the packets it sends, and the table.\<close>

definition serve_packet ::
  "socket_addr \<Rightarrow> bytes \<Rightarrow> time \<Rightarrow> relay_table \<Rightarrow> (bytes \<times> socket_addr) list \<times> relay_table" where
  "serve_packet peer buffer now t =
     (case forward_datagram_for_addr_at peer buffer now t of
        (Inl _, t) \<Rightarrow> ([], t)
      | (Inr (target, payload), t) \<Rightarrow>
          (if payload \<noteq> [] then [(payload, target)]
           else if starts_with buffer RELAY_FRAME_MAGIC_V4 then [(buffer, peer)]
           else [], t))"

subsection \<open>The index of return routes\<close>

text \<open>
  The return routes are an index of the sessions: under a WireGuard index stand the sessions, with
  the side its raw datagrams come from, whose other side has used that index as a sender.
\<close>

abbreviation route_key :: "wireguard_return_route \<Rightarrow> relay_session_id \<times> relay_session_side" where
  "route_key r \<equiv> (wr_session_id r, wr_source_side r)"

fun route_indices :: "relay_session_side \<Rightarrow> relay_session \<Rightarrow> u32 list" where
  "route_indices RightSide s = rs_left_wireguard_sender_indices s"
| "route_indices LeftSide s = rs_right_wireguard_sender_indices s"

definition keys_at :: "(u32, wireguard_return_route list) amap \<Rightarrow> u32 \<Rightarrow> (relay_session_id \<times> relay_session_side) list" where
  "keys_at routes i = map route_key (routes_at routes i)"

definition routes_ok :: "(relay_session_id, relay_session) amap \<Rightarrow> (u32, wireguard_return_route list) amap \<Rightarrow> bool" where
  "routes_ok sessions routes \<longleftrightarrow> bm_wf routes \<and>
     (\<forall>i. distinct (keys_at routes i) \<and>
          (\<forall>sid side. (sid, side) \<in> set (keys_at routes i) \<longleftrightarrow>
             (\<exists>s. am_get sessions sid = Some s \<and> i \<in> set (route_indices side s))))"

lemma routes_at_insert: "routes_at (bm_insert i rs routes) j = (if j = i then rs else routes_at routes j)"
  by (simp add: routes_at_def bm_get_insert)

lemma routes_at_push: "routes_at (push_route i r routes) j = routes_at routes j @ (if j = i then [r] else [])"
  by (simp add: push_route_def routes_at_insert)

lemma routes_at_fold_push:
  "distinct is \<Longrightarrow>
   routes_at (fold (\<lambda>i. push_route i r) is routes) j = routes_at routes j @ (if j \<in> set is then [r] else [])"
  by (induction "is" arbitrary: routes) (auto simp: routes_at_push)

lemma bm_wf_push: "bm_wf routes \<Longrightarrow> bm_wf (push_route i r routes)"
  by (simp add: push_route_def bm_wf_insert)

lemma bm_wf_fold_push: "bm_wf routes \<Longrightarrow> bm_wf (fold (\<lambda>i. push_route i r) is routes)"
  by (induction "is" arbitrary: routes) (auto simp: bm_wf_push)

definition indices_distinct :: "relay_session \<Rightarrow> bool" where
  "indices_distinct s \<longleftrightarrow> distinct (rs_left_wireguard_sender_indices s) \<and> distinct (rs_right_wireguard_sender_indices s)"

lemma keys_at_session_routes:
  "indices_distinct s \<Longrightarrow>
   keys_at (session_routes (sid, s) routes) j = keys_at routes j @
     (if j \<in> set (route_indices RightSide s) then [(sid, RightSide)] else []) @
     (if j \<in> set (route_indices LeftSide s) then [(sid, LeftSide)] else [])"
  by (simp add: keys_at_def session_routes_def indices_distinct_def routes_at_fold_push)

lemma in_keys_session_routes:
  assumes "indices_distinct s"
  shows "(sid', side) \<in> set (keys_at (session_routes (sid, s) routes) j) \<longleftrightarrow>
    (sid', side) \<in> set (keys_at routes j) \<or> sid' = sid \<and> j \<in> set (route_indices side s)"
  unfolding keys_at_session_routes [OF assms] by (cases side) auto

lemma bm_wf_session_routes: "bm_wf routes \<Longrightarrow> bm_wf (session_routes e routes)"
  by (cases e) (simp add: session_routes_def bm_wf_fold_push)

lemma fold_session_routes:
  assumes "\<forall>(sid, s) \<in> set es. indices_distinct s" and "distinct (map fst es)" and "bm_wf routes"
    and "\<forall>j. distinct (keys_at routes j) \<and> (\<forall>k \<in> set (keys_at routes j). fst k \<notin> fst ` set es)"
  shows "bm_wf (fold session_routes es routes) \<and>
    (\<forall>j. distinct (keys_at (fold session_routes es routes) j) \<and>
      (\<forall>sid side. (sid, side) \<in> set (keys_at (fold session_routes es routes) j) \<longleftrightarrow>
         (sid, side) \<in> set (keys_at routes j) \<or> (\<exists>s. (sid, s) \<in> set es \<and> j \<in> set (route_indices side s))))"
  using assms
proof (induction es arbitrary: routes)
  case (Cons e es)
  obtain sid s where e: "e = (sid, s)" by (cases e)
  have d: "indices_distinct s" using Cons.prems(1) by (simp add: e)
  let ?routes = "session_routes (sid, s) routes"
  have new: "sid \<notin> fst ` set es" using Cons.prems(2) by (simp add: e)
  have old: "(sid, side) \<notin> set (keys_at routes j)" for side j
    using Cons.prems(4) by (force simp: e)
  have "distinct (keys_at ?routes j)" for j
    using Cons.prems(4) old [of _ j] by (auto simp: keys_at_session_routes [OF d])
  moreover have "fst k \<notin> fst ` set es" if "k \<in> set (keys_at ?routes j)" for j k
    using that Cons.prems(4) new in_keys_session_routes [OF d, of "fst k" "snd k" sid routes j] by (auto simp: e)
  ultimately have "bm_wf (fold session_routes es ?routes) \<and>
    (\<forall>j. distinct (keys_at (fold session_routes es ?routes) j) \<and>
      (\<forall>sid side. (sid, side) \<in> set (keys_at (fold session_routes es ?routes) j) \<longleftrightarrow>
         (sid, side) \<in> set (keys_at ?routes j) \<or> (\<exists>s. (sid, s) \<in> set es \<and> j \<in> set (route_indices side s))))"
    using Cons.prems by (intro Cons.IH) (auto simp: bm_wf_session_routes)
  then show ?case by (auto simp: e in_keys_session_routes [OF d])
qed simp

lemma routes_ok_rebuild:
  assumes "bm_wf (tb_sessions t)" and "\<forall>(sid, s) \<in> set (tb_sessions t). indices_distinct s"
  shows "routes_ok (tb_sessions t) (tb_wireguard_return_routes (rebuild_wireguard_return_routes t))"
proof -
  have d: "distinct (map fst (tb_sessions t))" using bm.wf_keys assms(1) by blast
  have "bm_wf ([] :: (u32, wireguard_return_route list) amap)" by (simp add: bm_wf_def)
  from fold_session_routes [OF assms(2) d this] show ?thesis
    unfolding routes_ok_def rebuild_wireguard_return_routes_def
    by (simp add: routes_at_def keys_at_def bm.in_entries [OF assms(1)])
qed

text \<open>Recording a sender index in a session and its return route in the table go together.\<close>

lemma push_sender_index_set:
  assumes "distinct indices" and "push_sender_index i indices = (evicted, indices')"
  shows "distinct indices'" and "length indices \<le> 8 \<Longrightarrow> length indices' \<le> 8" and "evicted \<noteq> Some i"
    and "j \<in> set indices' \<longleftrightarrow> j = i \<or> j \<in> set indices \<and> evicted \<noteq> Some j"
proof -
  let ?rest = "remove_first (\<lambda>j. j = i) indices"
  have rest: "distinct ?rest" "set ?rest = set indices - {i}" using assms(1) by (simp_all add: set_remove_first_eq)
  consider (full) "length ?rest \<ge> 8" "evicted = Some (hd ?rest)" "indices' = tl ?rest @ [i]"
    | (room) "length ?rest < 8" "evicted = None" "indices' = ?rest @ [i]"
    using assms(2) by (auto simp: push_sender_index_def Let_def split: if_splits)
  then have "distinct indices' \<and> (length indices \<le> 8 \<longrightarrow> length indices' \<le> 8) \<and> evicted \<noteq> Some i \<and>
    (j \<in> set indices' \<longleftrightarrow> j = i \<or> j \<in> set indices \<and> evicted \<noteq> Some j)"
  proof cases
    case full
    then obtain x xs where xs: "?rest = x # xs" by (cases ?rest) auto
    have s: "set indices - {i} = set (x # xs)" and d: "distinct (x # xs)" using rest unfolding xs by simp_all
    have i: "i \<notin> set (x # xs)" and m: "j \<in> set indices \<longleftrightarrow> j \<in> set (x # xs) \<or> j = i \<and> i \<in> set indices"
      using s by blast+
    have l: "length (x # xs) \<le> length indices" using length_remove_first_le [of "\<lambda>j. j = i" indices] unfolding xs .
    have e: "evicted = Some x" "indices' = xs @ [i]" using full(2,3) unfolding xs by simp_all
    show ?thesis unfolding e m using d i l by auto
  next
    case room
    have m: "j \<in> set ?rest \<longleftrightarrow> j \<in> set indices \<and> j \<noteq> i" and "i \<notin> set ?rest" using rest(2) by blast+
    with room rest(1) show ?thesis by auto
  qed
  then show "distinct indices'" and "length indices \<le> 8 \<Longrightarrow> length indices' \<le> 8" and "evicted \<noteq> Some i"
    and "j \<in> set indices' \<longleftrightarrow> j = i \<or> j \<in> set indices \<and> evicted \<noteq> Some j" by blast+
qed

lemma routes_at_evict:
  assumes "bm_wf routes"
  shows "bm_wf (evict_route evicted route routes)"
    and "routes_at (evict_route evicted route routes) j =
      (if evicted = Some j then filter (\<lambda>e. \<not> same_route route e) (routes_at routes j) else routes_at routes j)"
proof -
  have g: "am_get (am_remove i (bm_insert i [] routes)) = (am_get routes)(i := None)" for i
    using assms by (simp add: bm.get_remove bm_wf_insert bm_get_insert)
  show "bm_wf (evict_route evicted route routes)"
    using assms by (simp add: evict_route_def Let_def bm_wf_insert bm.wf_remove split: option.split)
  show "routes_at (evict_route evicted route routes) j =
      (if evicted = Some j then filter (\<lambda>e. \<not> same_route route e) (routes_at routes j) else routes_at routes j)"
    by (auto simp: evict_route_def Let_def routes_at_def g bm_get_insert split: option.split)
qed

lemma keys_at_filter_same:
  "map route_key (filter (\<lambda>e. \<not> same_route route e) rs) = filter (\<lambda>k. k \<noteq> route_key route) (map route_key rs)"
  by (induction rs) (auto simp: same_route_def)

lemma routes_ok_upsert:
  assumes "routes_ok sessions (tb_wireguard_return_routes t)" and "am_get sessions sid = Some s"
    and "push_sender_index i (route_indices side s) = (evicted, indices)" and "distinct (route_indices side s)"
    and "route_indices side s' = indices" and "\<forall>other. other \<noteq> side \<longrightarrow> route_indices other s' = route_indices other s"
    and "route_key route = (sid, side)"
  shows "routes_ok (bm_insert sid s' sessions) (tb_wireguard_return_routes (upsert_wireguard_return_route i evicted route t))"
proof -
  let ?routes = "tb_wireguard_return_routes t" and ?evicted = "evict_route evicted route (tb_wireguard_return_routes t)"
  let ?new = "tb_wireguard_return_routes (upsert_wireguard_return_route i evicted route t)"
  have wf: "bm_wf ?routes" using assms(1) by (simp add: routes_ok_def)
  note push = push_sender_index_set [OF assms(4,3)]
  have ev: "keys_at ?evicted j = (if evicted = Some j then filter (\<lambda>k. k \<noteq> (sid, side)) (keys_at ?routes j) else keys_at ?routes j)" for j
    by (simp add: keys_at_def routes_at_evict(2) [OF wf] keys_at_filter_same assms(7))
  have keys: "keys_at ?new j = (if j = i then filter (\<lambda>k. k \<noteq> (sid, side)) (keys_at ?evicted j) @ [(sid, side)] else keys_at ?evicted j)" for j
    using assms(7) by (simp add: upsert_wireguard_return_route_def Let_def keys_at_def routes_at_insert keys_at_filter_same)
  have old: "distinct (keys_at ?routes j)"
    "(a, b) \<in> set (keys_at ?routes j) \<longleftrightarrow> (\<exists>s. am_get sessions a = Some s \<and> j \<in> set (route_indices b s))" for j a b
    using assms(1) by (auto simp: routes_ok_def)
  have "distinct (keys_at ?new j)" for j using old(1) by (auto simp: keys ev)
  moreover have "(a, b) \<in> set (keys_at ?new j) \<longleftrightarrow>
      (\<exists>s. am_get (bm_insert sid s' sessions) a = Some s \<and> j \<in> set (route_indices b s))" for a b j
  proof (cases "a = sid \<and> b = side")
    case True
    then show ?thesis
      using old(2) [of sid side j] assms(2) push(3) push(4) [of j] by (auto simp: keys ev bm_get_insert assms(5))
  next
    case False
    then have "(a, b) \<in> set (keys_at ?new j) \<longleftrightarrow> (a, b) \<in> set (keys_at ?routes j)" by (auto simp: keys ev)
    then show ?thesis using False assms(2,6) by (auto simp: old(2) bm_get_insert)
  qed
  moreover have "bm_wf ?new"
    by (simp add: upsert_wireguard_return_route_def Let_def bm_wf_insert routes_at_evict(1) [OF wf])
  ultimately show ?thesis by (simp add: routes_ok_def)
qed

lemma routes_ok_put:
  assumes "routes_ok sessions routes" and "am_get sessions sid = Some s"
    and "\<forall>side. route_indices side s' = route_indices side s"
  shows "routes_ok (bm_insert sid s' sessions) routes"
  using assms by (auto simp: routes_ok_def bm_get_insert)


subsection \<open>Session identifiers\<close>

lemma append_colon_inj:
  assumes "58 \<notin> set a" and "58 \<notin> set c" and "a @ 58 # b = c @ 58 # d"
  shows "a = c \<and> b = (d :: bytes)"
proof -
  have "takeWhile (\<lambda>x. x \<noteq> 58) (a @ 58 # b) = a" "takeWhile (\<lambda>x. x \<noteq> 58) (c @ 58 # d) = c"
    using assms(1,2) by (simp_all add: takeWhile_append)
  then have "a = c" using assms(3) by simp
  with assms(3) show ?thesis by simp
qed

lemma relay_node_id_no_colon: "relay_node_id_is_valid a \<Longrightarrow> 58 \<notin> set a"
  by (rule identifier_no_colon) (simp add: relay_node_id_is_valid_def identifier_byte_def [abs_def])

lemma session_id_new_eq_iff:
  assumes "relay_node_id_is_valid a" "relay_node_id_is_valid b" "relay_node_id_is_valid c" "relay_node_id_is_valid d"
  shows "session_id_new a b = session_id_new c d \<longleftrightarrow> a = c \<and> b = d \<or> a = d \<and> b = c"
proof
  note n = assms [THEN relay_node_id_no_colon]
  assume "session_id_new a b = session_id_new c d"
  then show "a = c \<and> b = d \<or> a = d \<and> b = c"
    using n append_colon_inj [of a c b d] append_colon_inj [of a d b c] append_colon_inj [of b c a d]
      append_colon_inj [of b d a c] by (auto simp: session_id_new_def str_def split: if_splits)
next
  assume "a = c \<and> b = d \<or> a = d \<and> b = c"
  then show "session_id_new a b = session_id_new c d" by (auto simp: session_id_new_def)
qed

subsection \<open>The invariant of the table\<close>

definition session_ok :: "relay_session_id \<Rightarrow> relay_session \<Rightarrow> bool" where
  "session_ok sid s \<longleftrightarrow> rs_id s = sid \<and> sid = session_id_new (rs_left s) (rs_right s) \<and>
     relay_node_id_is_valid (rs_left s) \<and> relay_node_id_is_valid (rs_right s) \<and> rs_left s \<noteq> rs_right s \<and>
     rs_session_token s \<noteq> [] \<and> length (rs_session_token s) \<le> 256 \<and> indices_distinct s \<and>
     length (rs_left_wireguard_sender_indices s) \<le> 8 \<and> length (rs_right_wireguard_sender_indices s) \<le> 8"

definition sessions_ok :: "(relay_session_id, relay_session) amap \<Rightarrow> bool" where
  "sessions_ok sessions \<longleftrightarrow> bm_wf sessions \<and> (\<forall>(sid, s) \<in> set sessions. session_ok sid s)"

definition table_inv :: "relay_table \<Rightarrow> bool" where
  "table_inv t \<longleftrightarrow> sessions_ok (tb_sessions t) \<and> routes_ok (tb_sessions t) (tb_wireguard_return_routes t)"

lemma sessions_okD: "sessions_ok sessions \<Longrightarrow> am_get sessions sid = Some s \<Longrightarrow> session_ok sid s"
  unfolding sessions_ok_def using bm.in_entries by fastforce

lemma sessions_ok_insert: "sessions_ok sessions \<Longrightarrow> session_ok sid s \<Longrightarrow> sessions_ok (bm_insert sid s sessions)"
  unfolding sessions_ok_def by (auto simp: bm_wf_insert bm.set_put)

lemma sessions_ok_filter: "sessions_ok sessions \<Longrightarrow> sessions_ok (filter P sessions)"
  unfolding sessions_ok_def by (auto simp: bm_wf_filter)

lemma table_inv_rebuild: "sessions_ok (tb_sessions t) \<Longrightarrow> table_inv (rebuild_wireguard_return_routes t)"
  using routes_ok_rebuild [of t]
  by (auto simp: table_inv_def sessions_ok_def session_ok_def rebuild_wireguard_return_routes_def)

text \<open>What no update of a session that forwards or renews it changes.\<close>

definition same_core :: "relay_session \<Rightarrow> relay_session \<Rightarrow> bool" where
  "same_core s s' \<longleftrightarrow> rs_id s' = rs_id s \<and> rs_session_token s' = rs_session_token s \<and> rs_left s' = rs_left s \<and>
     rs_right s' = rs_right s \<and> rs_left_wireguard_sender_indices s' = rs_left_wireguard_sender_indices s \<and>
     rs_right_wireguard_sender_indices s' = rs_right_wireguard_sender_indices s"

lemma session_ok_core: "same_core s s' \<Longrightarrow> session_ok sid s \<Longrightarrow> session_ok sid s'"
  by (simp add: same_core_def session_ok_def indices_distinct_def)

lemma same_core_trans: "same_core s s' \<Longrightarrow> same_core s' s'' \<Longrightarrow> same_core s s''"
  by (simp add: same_core_def)

lemma same_core_updates:
  "same_core s (add_bytes_forwarded n s)"
  "same_core s (snd (consume_rate_limit n now s))"
  "same_core s (renew_session capability admission expires_at s)"
  "forward_side source_addr datagram s = Inr (target, side, s') \<Longrightarrow> same_core s s'"
  by (auto simp: same_core_def add_bytes_forwarded_def consume_rate_limit_def Let_def renew_session_def forward_side_def
      split: if_splits option.splits)

lemma table_inv_put:
  assumes "table_inv t" and "am_get (tb_sessions t) sid = Some s" and "same_core s s'"
  shows "table_inv (put_session sid s' t)"
proof -
  have ok: "sessions_ok (tb_sessions t)" using assms(1) by (simp add: table_inv_def)
  have "session_ok sid s'" using session_ok_core [OF assms(3)] sessions_okD [OF ok assms(2)] .
  moreover have "route_indices side s' = route_indices side s" for side
    using assms(3) by (cases side) (simp_all add: same_core_def)
  ultimately show ?thesis
    using assms(1,2) ok by (simp add: table_inv_def put_session_def sessions_ok_insert routes_ok_put)
qed

lemma table_inv_new:
  assumes "table_inv t" and "am_get (tb_sessions t) sid = None" and "session_ok sid s"
    and "rs_left_wireguard_sender_indices s = []" "rs_right_wireguard_sender_indices s = []"
  shows "table_inv (put_session sid s t)"
proof -
  have "i \<notin> set (route_indices side s)" for i side using assms(4,5) by (cases side) simp_all
  then have "routes_ok (bm_insert sid s (tb_sessions t)) (tb_wireguard_return_routes t)"
    using assms(1,2) by (auto simp: table_inv_def routes_ok_def bm_get_insert)
  then show ?thesis using assms(1,3) by (simp add: table_inv_def put_session_def sessions_ok_insert)
qed

lemma length_filter_eq_id: "length (filter P xs) = length xs \<Longrightarrow> filter P xs = xs"
  by (metis filter_id_conv length_filter_less less_irrefl)

lemma table_inv_purge: "table_inv t \<Longrightarrow> table_inv (snd (purge_expired now t))"
proof -
  assume inv: "table_inv t"
  let ?t = "t\<lparr>tb_sessions := am_retain (\<lambda>_ s. \<not> is_expired s now) (tb_sessions t)\<rparr>"
  have "sessions_ok (tb_sessions ?t)" using inv by (simp add: table_inv_def am_retain_def sessions_ok_filter)
  then have "table_inv (rebuild_wireguard_return_routes ?t)" by (rule table_inv_rebuild)
  moreover have "?t = t" if "\<not> length (tb_sessions t) - length (tb_sessions ?t) > 0"
    using that length_filter_le [of _ "tb_sessions t"] length_filter_eq_id [of _ "tb_sessions t"]
    by (simp add: am_retain_def le_antisym)
  ultimately show ?thesis using inv by (simp add: purge_expired_def Let_def)
qed

lemma purge_sessions: "tb_sessions (snd (purge_expired now t)) = filter (\<lambda>(_, s). \<not> is_expired s now) (tb_sessions t)"
  by (simp add: purge_expired_def Let_def rebuild_wireguard_return_routes_def am_retain_def)

lemma table_inv_remove_expired: "table_inv t \<Longrightarrow> table_inv (snd (remove_expired_session sid now t))"
  using table_inv_rebuild [of "t\<lparr>tb_sessions := am_remove sid (tb_sessions t)\<rparr>"]
  by (simp add: remove_expired_session_def Let_def table_inv_def am_remove_def sessions_ok_filter)

lemma table_inv_on_dataplane [simp]: "table_inv (on_dataplane f t) = table_inv t"
  by (simp add: table_inv_def on_dataplane_def)


text \<open>The search for a pair of nodes is a lookup of its session identifier.\<close>

lemma is_pair_iff:
  "session_ok sid s \<Longrightarrow> relay_node_id_is_valid left \<Longrightarrow> relay_node_id_is_valid right \<Longrightarrow>
   is_pair left right s \<longleftrightarrow> sid = session_id_new left right"
  using session_id_new_eq_iff [of "rs_left s" "rs_right s" left right] by (auto simp: is_pair_def session_ok_def)

lemma find_pair:
  assumes "sessions_ok sessions" and "relay_node_id_is_valid left" "relay_node_id_is_valid right"
  shows "find (\<lambda>(_, s). is_pair left right s) sessions =
    map_option (\<lambda>s. (session_id_new left right, s)) (am_get sessions (session_id_new left right))"
proof -
  let ?sid = "session_id_new left right" and ?P = "\<lambda>(_, s). is_pair left right s"
  have wf: "bm_wf sessions" using assms(1) by (simp add: sessions_ok_def)
  have P: "?P e \<longleftrightarrow> fst e = ?sid" if "e \<in> set sessions" for e
  proof -
    have "session_ok (fst e) (snd e)" using that assms(1) by (auto simp: sessions_ok_def)
    then show ?thesis using is_pair_iff [OF _ assms(2,3)] by (simp add: case_prod_beta)
  qed
  show ?thesis
  proof (cases "am_get sessions ?sid")
    case None
    then have "?sid \<notin> fst ` set sessions" by (simp add: map_of_eq_None_iff)
    then have "\<not> (\<exists>e. e \<in> set sessions \<and> ?P e)" using P by (metis image_eqI)
    then have "find ?P sessions = None" using find_None_iff [of ?P sessions] by blast
    then show ?thesis using None by simp
  next
    case (Some s)
    then have "(?sid, s) \<in> set sessions" using bm.in_entries [OF wf] by blast
    then have "\<exists>e. e \<in> set sessions \<and> ?P e" using P by fastforce
    then obtain e where e: "find ?P sessions = Some e" using find_None_iff [of ?P sessions] by (metis option.exhaust)
    then have "e \<in> set sessions" "?P e" using find_Some_iff [of ?P sessions e] by (metis nth_mem)+
    then have "am_get sessions ?sid = Some (snd e)" using P bm.in_entries [OF wf, of "fst e" "snd e"] by (metis prod.collapse)
    then show ?thesis using e Some P [OF \<open>e \<in> set sessions\<close>] \<open>?P e\<close> by (cases e) simp
  qed
qed

lemma validate_admission_ok:
  assumes "validate_relay_session_admission admission sid = Inr ()"
  shows "relay_node_id_is_valid (ad_left admission)" "relay_node_id_is_valid (ad_right admission)"
    and "ad_left admission \<noteq> ad_right admission" "ad_left_addr admission \<noteq> ad_right_addr admission"
    and "ad_session_token admission \<noteq> []" "length (ad_session_token admission) \<le> 256"
    and "endpoint_addr_is_usable (ad_left_addr admission)" "endpoint_addr_is_usable (ad_right_addr admission)"
  using assms by (auto simp: validate_relay_session_admission_def validate_relay_admission_node_id_def result_simps
      split: if_splits)

text \<open>Every outcome of an admission: a refusal, a renewal, or a new session.\<close>

lemma admit_cases:
  assumes "table_inv t" and "admit_with_options libs capability admission now t = (r, t')"
    and "u = snd (purge_expired now t)" and "sid = session_id_new (ad_left admission) (ad_right admission)"
    and "expires_at = now + max (ad_session_ttl admission) 1000000"
  obtains (refused) e where "r = Inl e" "t' = u"
  | (renewed) s where "am_get (tb_sessions u) sid = Some s"
      "t' = rebuild_wireguard_return_routes (put_session sid (renew_session capability admission expires_at s) u)"
      "r = Inr \<lparr>cr_session_id = sid, cr_session_token = rs_session_token s, cr_expires_at = expires_at\<rparr>"
  | (opened) s where "am_get (tb_sessions u) sid = None" "can_admit libs capability" "session_ok sid s"
      "t' = put_session sid s u" "rs_left_wireguard_sender_indices s = []" "rs_right_wireguard_sender_indices s = []"
      "rs_left s = ad_left admission" "rs_right s = ad_right admission" "rs_session_token s = ad_session_token admission"
      "rs_expires_at s = expires_at" "rs_window_bytes s = 0" "rs_window_started_at s = now"
      "rs_max_bytes_per_second s = megabits_to_bytes_per_second (rc_max_mbps capability)"
      "r = Inr \<lparr>cr_session_id = sid, cr_session_token = ad_session_token admission, cr_expires_at = expires_at\<rparr>"
proof -
  have inv: "table_inv u" using table_inv_purge [OF assms(1)] by (simp add: assms(3))
  then have ok: "sessions_ok (tb_sessions u)" by (simp add: table_inv_def)
  show thesis
  proof (cases "validate_relay_session_admission admission sid")
    case (Inl e)
    then have "r = Inl e" "t' = u" using assms(2-4) by (auto simp: admit_with_options_def Let_def)
    then show thesis by (rule refused)
  next
    case (Inr x)
    then have v: "validate_relay_session_admission admission sid = Inr ()" by simp
    note valid = validate_admission_ok [OF v]
    note found = find_pair [OF ok valid(1,2), folded assms(4)]
    note unfold = admit_with_options_def Let_def assms(3) [symmetric] assms(4) [symmetric] assms(5) [symmetric]
    show thesis
    proof (cases "am_get (tb_sessions u) sid")
      case None
      define s where "s = \<lparr>rs_id = sid, rs_session_token = ad_session_token admission, rs_left = ad_left admission,
        rs_right = ad_right admission, rs_left_addr = ad_left_addr admission, rs_right_addr = ad_right_addr admission,
        rs_created_at = now, rs_expires_at = expires_at, rs_bytes_forwarded = 0, rs_left_addr_learned = False,
        rs_right_addr_learned = False, rs_left_wireguard_sender_indices = [], rs_right_wireguard_sender_indices = [],
        rs_window_started_at = now, rs_window_bytes = 0,
        rs_max_bytes_per_second = megabits_to_bytes_per_second (rc_max_mbps capability)\<rparr>"
      show thesis
      proof (cases "can_admit libs capability")
        case True
        then have "r = Inr \<lparr>cr_session_id = sid, cr_session_token = ad_session_token admission, cr_expires_at = expires_at\<rparr>"
          "t' = put_session sid s u"
          using assms(2) v found None by (simp_all add: unfold s_def)
        moreover have "session_ok sid s" using valid by (simp add: s_def session_ok_def indices_distinct_def assms(4))
        ultimately show thesis using opened [OF None True, of s] by (simp add: s_def)
      next
        case False
        then have "r = Inl AdmissionDenied" "t' = u" using assms(2) v found None by (simp_all add: unfold)
        then show thesis by (rule refused)
      qed
    next
      case (Some s)
      have "rs_id s = sid" using sessions_okD [OF ok Some] by (simp add: session_ok_def)
      then have "t' = rebuild_wireguard_return_routes (put_session sid (renew_session capability admission expires_at s) u)"
        "r = Inr \<lparr>cr_session_id = sid, cr_session_token = rs_session_token s, cr_expires_at = expires_at\<rparr>"
        using assms(2) v found Some same_core_updates(3) [of s capability admission expires_at]
        by (simp_all add: unfold same_core_def)
      then show thesis by (rule renewed [OF Some])
    qed
  qed
qed


lemma table_inv_admit: "table_inv t \<Longrightarrow> table_inv (snd (admit_with_options libs capability admission now t))"
proof -
  assume inv: "table_inv t"
  obtain r t' where eq: "admit_with_options libs capability admission now t = (r, t')" by (cases "admit_with_options libs capability admission now t")
  define u where "u = snd (purge_expired now t)"
  have u: "table_inv u" using table_inv_purge [OF inv] by (simp add: u_def)
  from inv eq u_def refl refl have "table_inv t'"
  proof (cases rule: admit_cases)
    case (renewed s)
    have "table_inv (put_session (session_id_new (ad_left admission) (ad_right admission))
        (renew_session capability admission (now + max (ad_session_ttl admission) 1000000) s) u)"
      using table_inv_put [OF u renewed(1)] same_core_updates(3) by blast
    then show ?thesis using renewed(2) table_inv_rebuild by (simp add: table_inv_def)
  next
    case (opened s)
    then show ?thesis using table_inv_new [OF u opened(1) opened(3,5,6)] by simp
  qed (simp add: u)
  then show ?thesis by (simp add: eq)
qed

fun opposite :: "relay_session_side \<Rightarrow> relay_session_side" where
  "opposite LeftSide = RightSide"
| "opposite RightSide = LeftSide"

lemma table_inv_record:
  assumes "table_inv t" and "am_get (tb_sessions t) sid = Some s0" and "same_core s0 s"
    and "record_wireguard_sender_index side payload s = (update, s')"
  shows "table_inv (case update of None \<Rightarrow> put_session sid (add_bytes_forwarded n s') t
    | Some (i, evicted) \<Rightarrow> upsert_wireguard_return_route i evicted (return_route sid side s') (put_session sid (add_bytes_forwarded n s') t))"
proof (cases "wireguard_sender_index payload")
  case None
  then have "update = None" "s' = s" using assms(4) by (simp_all add: record_wireguard_sender_index_def)
  then show ?thesis
    using table_inv_put [OF assms(1,2)] same_core_trans [OF assms(3) same_core_updates(1)] by simp
next
  case (Some i)
  let ?s = "add_bytes_forwarded n s'"
  obtain evicted indices where p: "push_sender_index i (route_indices (opposite side) s0) = (evicted, indices)"
    by (cases "push_sender_index i (route_indices (opposite side) s0)")
  have core: "route_indices x s = route_indices x s0" for x using assms(3) by (cases x) (simp_all add: same_core_def)
  have up: "update = Some (i, evicted)" and s': "s' = (case side of
      LeftSide \<Rightarrow> s\<lparr>rs_left_wireguard_sender_indices := indices\<rparr> | RightSide \<Rightarrow> s\<lparr>rs_right_wireguard_sender_indices := indices\<rparr>)"
    using assms(4) Some p core [of "opposite side"] by (cases side; simp add: record_wireguard_sender_index_def)+
  have u2: "route_indices (opposite side) ?s = indices"
    by (cases side) (simp_all add: s' add_bytes_forwarded_def)
  have u3: "\<forall>other. other \<noteq> opposite side \<longrightarrow> route_indices other ?s = route_indices other s0"
  proof (intro allI impI)
    fix other assume "other \<noteq> opposite side"
    then show "route_indices other ?s = route_indices other s0"
      using core [of other] by (cases side; cases other) (simp_all add: s' add_bytes_forwarded_def)
  qed
  have u4: "rs_id ?s = rs_id s0" "rs_session_token ?s = rs_session_token s0" "rs_left ?s = rs_left s0" "rs_right ?s = rs_right s0"
    using assms(3) by (cases side; simp add: s' add_bytes_forwarded_def same_core_def)+
  have ok: "sessions_ok (tb_sessions t)" and s0: "session_ok sid s0"
    using assms(1,2) sessions_okD by (auto simp: table_inv_def)
  have d: "distinct (route_indices x s0)" "length (route_indices x s0) \<le> 8" for x
    using s0 by (cases x; simp add: session_ok_def indices_distinct_def)+
  note push = push_sender_index_set [OF d(1) p]
  have "distinct (route_indices x ?s) \<and> length (route_indices x ?s) \<le> 8" for x
    using u2 u3 d push(1) push(2) [OF d(2)] by (cases "x = opposite side") simp_all
  from this [of LeftSide] this [of RightSide] have "session_ok sid ?s"
    using s0 by (simp add: session_ok_def indices_distinct_def u4)
  moreover have key: "route_key (return_route sid side s') = (sid, opposite side)" by (cases side) simp_all
  have "routes_ok (bm_insert sid ?s (tb_sessions t)) (tb_wireguard_return_routes
      (upsert_wireguard_return_route i evicted (return_route sid side s') t))"
    using routes_ok_upsert [OF _ assms(2) p d(1) u2 u3 key] assms(1) by (simp add: table_inv_def)
  ultimately show ?thesis
    using ok by (simp add: up table_inv_def put_session_def upsert_wireguard_return_route_def Let_def sessions_ok_insert)
qed

lemma remove_expired_ok:
  "remove_expired_session sid now t = (Inr u, t') \<longleftrightarrow>
   t' = t \<and> (\<forall>s. am_get (tb_sessions t) sid = Some s \<longrightarrow> now < rs_expires_at s)"
  by (auto simp: remove_expired_session_def Let_def is_expired_def split: option.splits)


text \<open>Charging the rate limit and writing the session back, as every forwarding operation ends.\<close>

lemma table_inv_charge:
  assumes "table_inv t" and "am_get (tb_sessions t) sid = Some s0" and "same_core s0 s"
    and "\<And>s'. same_core s0 s' \<Longrightarrow> table_inv (snd (f s'))"
  shows "table_inv (snd (charge sid n now s t f))"
proof -
  obtain r s' where c: "consume_rate_limit n now s = (r, s')" by (cases "consume_rate_limit n now s")
  then have "same_core s0 s'" using same_core_trans [OF assms(3)] same_core_updates(2) [of s n now] by simp
  then show ?thesis using table_inv_put [OF assms(1,2)] assms(4) by (cases r) (simp_all add: c charge_def)
qed

lemma table_inv_forward_target: "table_inv t \<Longrightarrow> table_inv (snd (forward_target_at_inner frame now t))"
  unfolding forward_target_at_inner_def Let_def
proof (intro st_then_pure [where P = table_inv] st_then_inv [where P = table_inv], goal_cases)
  case (4 _ _ t' p)
  obtain s target where p: "p = (s, target)" by (cases p)
  have t': "table_inv t'" using 4(1,3) by (simp add: remove_expired_ok)
  have s: "am_get (tb_sessions t') (rf_session_id frame) = Some s"
    using 4(4) by (auto simp: p frame_target_def result_simps split: if_splits)
  show ?case
    unfolding p prod.case
    by (rule table_inv_charge [OF t' s]) (simp_all add: table_inv_put [OF t' s] same_core_trans same_core_updates same_core_def [of s s])
qed (auto simp: table_inv_remove_expired remove_expired_ok)


lemma table_inv_return: "table_inv t \<Longrightarrow> table_inv (snd (forward_wireguard_return_datagram source_addr datagram now t))"
  unfolding forward_wireguard_return_datagram_def Let_def [of "snd (purge_expired now _)"]
proof (intro st_then_pure [where P = table_inv], goal_cases)
  case (3 i p)
  let ?t = "snd (purge_expired now t)"
  obtain sid side s where p: "p = (sid, side, s)" by (cases p)
  have t: "table_inv ?t" using 3(1) by (rule table_inv_purge)
  have s: "am_get (tb_sessions ?t) sid = Some s"
    using 3(3) by (auto simp: p return_session_def result_simps split: prod.splits)
  show ?case
    unfolding p prod.case
  proof (rule table_inv_charge [OF t s])
    show "same_core s s" by (simp add: same_core_def)
  next
    fix s' assume "same_core s s'"
    then show "table_inv (snd (map_prod Inr id (accept_return source_addr datagram sid side s' ?t)))"
      by (cases side) (auto intro!: table_inv_put [OF t s] simp: accept_return_def same_core_def add_bytes_forwarded_def)
  qed
qed (simp_all add: table_inv_purge)

lemma table_inv_accept:
  assumes "table_inv t" and "am_get (tb_sessions t) (rd_session_id datagram) = Some s0" and "same_core s0 s"
  shows "table_inv (snd (accept_datagram datagram target side s t))"
proof (cases "rd_endpoint_announcement datagram")
  case True
  then show ?thesis
    using table_inv_put [OF assms(1,2)] same_core_trans [OF assms(3) same_core_updates(1)] by (simp add: accept_datagram_def Let_def)
next
  case False
  obtain update s' where r: "record_wireguard_sender_index side (rd_ciphertext_payload datagram) s = (update, s')"
    by (cases "record_wireguard_sender_index side (rd_ciphertext_payload datagram) s")
  then show ?thesis
    using table_inv_record [OF assms(1,2,3) r] False by (simp add: accept_datagram_def Let_def)
qed

lemma table_inv_relay: "table_inv t \<Longrightarrow> table_inv (snd (forward_relay_datagram source_addr datagram now t))"
  unfolding forward_relay_datagram_def
proof (intro st_then_pure [where P = table_inv] st_then_inv [where P = table_inv], goal_cases)
  case (3 _ t' p)
  obtain target side s where p: "p = (target, side, s)" by (cases p)
  have t': "table_inv t'" using 3(1,2) by (simp add: remove_expired_ok)
  obtain s0 where s: "am_get (tb_sessions t') (rd_session_id datagram) = Some s0" "same_core s0 s"
    using 3(3) same_core_updates(4) by (auto simp: p datagram_side_def result_simps)
  show ?case
    unfolding p prod.case
    by (rule table_inv_charge [OF t' s]) (simp add: table_inv_accept [OF t' s(1)])
qed (auto simp: table_inv_remove_expired remove_expired_ok)

lemma table_inv_inner: "table_inv t \<Longrightarrow> table_inv (snd (forward_datagram_for_addr_at_inner source_addr datagram now t))"
  by (simp add: forward_datagram_for_addr_at_inner_def table_inv_return table_inv_relay split: sum.split)

subsection \<open>Runs of the table\<close>

datatype table_op =
    AdmitOp relay_capability relay_session_admission time
  | AnnounceOp rstring bytes time
  | TargetOp relay_frame time
  | DatagramOp socket_addr bytes time
  | PurgeOp time

fun table_step :: "net_libs \<Rightarrow> table_op \<Rightarrow> relay_table \<Rightarrow> unit \<times> relay_table" where
  "table_step libs (AdmitOp capability admission now) t = ((), snd (admit_with_options libs capability admission now t))"
| "table_step libs (AnnounceOp node packet now) t = ((), snd (authorize_http_announcement node packet now t))"
| "table_step libs (TargetOp frame now) t = ((), snd (forward_target_at frame now t))"
| "table_step libs (DatagramOp source_addr datagram now) t = ((), snd (serve_packet source_addr datagram now t))"
| "table_step libs (PurgeOp now) t = ((), snd (purge_expired now t))"

lemma forward_datagram_snd:
  "\<exists>f. snd (forward_datagram_for_addr_at source_addr datagram now t) =
     on_dataplane f (snd (forward_datagram_for_addr_at_inner source_addr datagram now (on_dataplane (record_received (length datagram)) t)))"
proof -
  have id: "u = on_dataplane id u" for u by (simp add: on_dataplane_def)
  show ?thesis
    unfolding forward_datagram_for_addr_at_def by (auto split: prod.split sum.split intro: id exI [of _ id])
qed

lemma table_step_inv: "table_inv t \<Longrightarrow> table_inv (snd (table_step libs op t))"
proof (cases op)
  case (AnnounceOp node packet now)
  assume inv: "table_inv t"
  have "table_inv (snd (authorize_http_announcement node packet now t))"
    unfolding authorize_http_announcement_def
    by (auto simp: inv split: sum.split intro!: st_then_inv [where P = table_inv] table_inv_remove_expired)
      (simp_all add: remove_expired_ok inv)
  then show ?thesis by (simp add: AnnounceOp)
next
  case (TargetOp frame now)
  assume inv: "table_inv t"
  have "table_inv (snd (forward_target_at frame now t))"
    using table_inv_forward_target [of "on_dataplane (record_received (length (rf_ciphertext_payload frame))) t" frame now] inv
    by (auto simp: forward_target_at_def Let_def split: prod.split sum.split)
  then show ?thesis by (simp add: TargetOp)
next
  case (DatagramOp source_addr datagram now)
  assume inv: "table_inv t"
  obtain f where "snd (forward_datagram_for_addr_at source_addr datagram now t) =
     on_dataplane f (snd (forward_datagram_for_addr_at_inner source_addr datagram now (on_dataplane (record_received (length datagram)) t)))"
    using forward_datagram_snd by blast
  then have "table_inv (snd (forward_datagram_for_addr_at source_addr datagram now t))"
    using table_inv_inner inv by simp
  then have "table_inv (snd (serve_packet source_addr datagram now t))"
    by (auto simp: serve_packet_def split: prod.split sum.split)
  then show ?thesis by (simp add: DatagramOp)
qed (simp_all add: table_inv_admit table_inv_purge)

lemma table_default_inv: "table_inv table_default"
  by (simp add: table_inv_def table_default_def sessions_ok_def routes_ok_def bm_wf_def keys_at_def routes_at_def)

interpretation relay: invariant_system "table_step libs" table_inv for libs
  by unfold_locales (rule table_step_inv)


subsection \<open>What forwarding does\<close>

fun side_node :: "relay_session_side \<Rightarrow> relay_session \<Rightarrow> rstring" where
  "side_node LeftSide s = rs_left s"
| "side_node RightSide s = rs_right s"

fun side_addr :: "relay_session_side \<Rightarrow> relay_session \<Rightarrow> socket_addr" where
  "side_addr LeftSide s = rs_left_addr s"
| "side_addr RightSide s = rs_right_addr s"

fun side_learned :: "relay_session_side \<Rightarrow> relay_session \<Rightarrow> bool" where
  "side_learned LeftSide s = rs_left_addr_learned s"
| "side_learned RightSide s = rs_right_addr_learned s"

lemma charge_ok [result_simps]:
  "charge sid n now s t f = (Inr x, t') \<longleftrightarrow> (\<exists>s'. consume_rate_limit n now s = (Inr (), s') \<and> f s' = (Inr x, t'))"
  by (auto simp: charge_def split: prod.splits sum.splits)

lemma map_prod_Inr [result_simps]: "map_prod Inr id p = (Inr x, t) \<longleftrightarrow> p = (x, t)"
  by (cases p) auto

lemma verify_token_ok [result_simps]:
  "verify_token s token = Inr u \<longleftrightarrow> rs_session_token s = token \<and> length token \<le> 256"
  by (auto simp: verify_token_def relay_session_token_matches_iff)

lemma tb_sessions_upsert [simp]: "tb_sessions (upsert_wireguard_return_route i evicted route t) = tb_sessions t"
  by (simp add: upsert_wireguard_return_route_def Let_def)

lemma tb_sessions_on_dataplane [simp]: "tb_sessions (on_dataplane f t) = tb_sessions t"
  "tb_wireguard_return_routes (on_dataplane f t) = tb_wireguard_return_routes t"
  by (simp_all add: on_dataplane_def)

lemma purge_on_dataplane: "purge_expired now (on_dataplane f t) = map_prod id (on_dataplane f) (purge_expired now t)"
  by (simp add: purge_expired_def Let_def on_dataplane_def rebuild_wireguard_return_routes_def)

lemma forward_side_ok:
  "forward_side source_addr d s = Inr (target, side, s') \<Longrightarrow>
   target = side_addr (opposite side) s \<and>
   (rd_source d = Some (side_node side s) \<and> rd_destination d = Some (side_node (opposite side) s) \<or>
    (rd_source d = None \<or> rd_destination d = None) \<and> source_addr = side_addr side s)"
  by (auto simp: forward_side_def split: option.splits if_splits)

lemma accept_datagram_ok:
  assumes "accept_datagram d target side s t = (f, t')"
  shows "f = \<lparr>df_target = target, df_payload = rd_ciphertext_payload d, df_should_forward = \<not> rd_endpoint_announcement d\<rparr>"
    and "\<exists>s'. tb_sessions t' = bm_insert (rd_session_id d) s' (tb_sessions t)" and "tb_dataplane t' = tb_dataplane t"
  using assms by (auto simp: accept_datagram_def Let_def put_session_def upsert_wireguard_return_route_def split: prod.splits option.splits)

lemma forward_relay_ok:
  assumes "forward_relay_datagram source_addr d now t = (Inr f, t')"
  shows "\<exists>s side s' s''. am_get (tb_sessions t) (rd_session_id d) = Some s \<and> now < rs_expires_at s \<and>
    rs_session_token s = rd_session_token d \<and> forward_side source_addr d s = Inr (df_target f, side, s') \<and>
    df_payload f = rd_ciphertext_payload d \<and> df_should_forward f = (\<not> rd_endpoint_announcement d) \<and>
    tb_sessions t' = bm_insert (rd_session_id d) s'' (tb_sessions t) \<and> tb_dataplane t' = tb_dataplane t"
proof -
  from assms obtain s target side s1 s2 where "am_get (tb_sessions t) (rd_session_id d) = Some s" "now < rs_expires_at s"
    "rs_session_token s = rd_session_token d" "forward_side source_addr d s = Inr (target, side, s1)"
    "accept_datagram d target side s2 t = (f, t')"
    by (auto simp: forward_relay_datagram_def datagram_side_def result_simps remove_expired_ok)
  with accept_datagram_ok [of d target side s2 t f t'] show ?thesis by auto
qed

lemma matching_route_ok:
  "matching_route sessions ip routes m = Inr (Some (sid, side)) \<Longrightarrow>
   m = Some (sid, side) \<or>
   (\<exists>r \<in> set routes. route_key r = (sid, side) \<and> wr_source_ip r = ip \<and>
      (\<exists>s. am_get sessions sid = Some s \<and> side_learned (opposite side) s))"
  by (induction sessions ip routes m rule: matching_route.induct)
    (auto simp: Let_def split: if_splits option.splits relay_session_side.splits)

lemma forward_return_ok:
  assumes "forward_wireguard_return_datagram source_addr datagram now t = (Inr f, t')"
    and "u = snd (purge_expired now t)"
  shows "\<exists>sid s side i r s'. am_get (tb_sessions u) sid = Some s \<and> wireguard_receiver_index datagram = Some i \<and>
    r \<in> set (routes_at (tb_wireguard_return_routes u) i) \<and> route_key r = (sid, side) \<and> wr_source_ip r = sa_ip source_addr \<and>
    side_learned (opposite side) s \<and> df_target f = side_addr (opposite side) s \<and> df_payload f = datagram \<and> df_should_forward f \<and>
    tb_sessions t' = bm_insert sid s' (tb_sessions u)"
proof -
  from assms obtain i sid side s s1 where i: "wireguard_receiver_index datagram = Some i"
    and m: "matching_route (tb_sessions u) (sa_ip source_addr) (routes_at (tb_wireguard_return_routes u) i) None = Inr (Some (sid, side))"
    and s: "am_get (tb_sessions u) sid = Some s"
    and c: "consume_rate_limit (length datagram) now s = (Inr (), s1)"
    and k: "accept_return source_addr datagram sid side s1 u = (f, t')"
    by (auto simp: forward_wireguard_return_datagram_def Let_def return_session_def result_simps)
  have "side_addr x s1 = side_addr x s" for x
    using c by (cases x) (auto simp: consume_rate_limit_def Let_def split: if_splits)
  from this [of LeftSide] this [of RightSide] k
  have "df_target f = side_addr (opposite side) s \<and> df_payload f = datagram \<and> df_should_forward f \<and>
      (\<exists>s'. tb_sessions t' = bm_insert sid s' (tb_sessions u))"
    by (cases side) (auto simp: accept_return_def put_session_def)
  with matching_route_ok [OF m] i s show ?thesis by (auto 4 4)
qed

subsection \<open>The rate limit\<close>

lemma unat_megabits: "unat (megabits_to_bytes_per_second mbps) = unat mbps * 125000"
proof -
  have b: "unat mbps < 2 ^ 32" using unat_less_exp [of mbps] by simp
  have u: "unat (ucast mbps :: u64) = unat mbps" using b by (simp add: unsigned_ucast_eq take_bit_eq_mod)
  have "unat (saturating_mul (ucast mbps :: u64) 1000000) = unat mbps * 1000000"
    using b by (simp add: saturating_mul_def u unat_word_ariths)
  then show ?thesis by (simp add: megabits_to_bytes_per_second_def unat_div)
qed

interpretation rate: fixed_window consume_rate_limit rs_window_started_at "\<lambda>s. unat (rs_window_bytes s)" cap 1000000000
    "\<lambda>n. n < 2 ^ 64" "\<lambda>s. unat (rs_max_bytes_per_second s) = cap \<and> cap < 2 ^ 64 - 1" for cap
proof (unfold_locales, goal_cases)
  case (2 s n now)
  then show ?case by (simp add: consume_rate_limit_def Let_def)
next
  case (3 s n now r s')
  then show ?case by (auto simp: consume_rate_limit_def Let_def split: if_splits)
next
  case (4 s n now r s')
  then show ?case
    by (auto simp: consume_rate_limit_def Let_def word_less_nat_alt unat_saturating_add unsigned_of_nat take_bit_eq_mod split: if_splits)
next
  case (5 s n now u s')
  then show ?case
    by (auto simp: consume_rate_limit_def Let_def word_less_nat_alt unat_saturating_add unsigned_of_nat take_bit_eq_mod split: if_splits)
qed simp

subsection \<open>Properties of the table\<close>

text \<open>
  C19. The table stays consistent under any sequence of admissions, announcements, datagrams and
  purges, accepted or not. Every session stands under the identifier of its two different nodes, so
  a pair of nodes, in either order, has at most one session; a session remembers at most eight
  WireGuard indices per side; and the return routes are exactly the index of the sessions: under
  an index stands one route for every session and side whose other side has used the index, and
  nothing else.
\<close>

theorem relay_table_consistent:
  assumes "t = run (table_step libs) ops table_default"
  shows "(\<forall>sid s. am_get (tb_sessions t) sid = Some s \<longrightarrow>
      sid = session_id_new (rs_left s) (rs_right s) \<and> rs_left s \<noteq> rs_right s \<and>
      length (rs_left_wireguard_sender_indices s) \<le> 8 \<and> length (rs_right_wireguard_sender_indices s) \<le> 8) \<and>
    (\<forall>sid s sid' s'. am_get (tb_sessions t) sid = Some s \<longrightarrow> am_get (tb_sessions t) sid' = Some s' \<longrightarrow>
      is_pair (rs_left s) (rs_right s) s' \<longrightarrow> sid = sid') \<and>
    (\<forall>i sid side. length (filter (\<lambda>r. route_key r = (sid, side)) (routes_at (tb_wireguard_return_routes t) i)) =
      (if \<exists>s. am_get (tb_sessions t) sid = Some s \<and> i \<in> set (route_indices side s) then 1 else 0))"
proof -
  have inv: "sessions_ok (tb_sessions t)" "routes_ok (tb_sessions t) (tb_wireguard_return_routes t)"
    using relay.inv_run [OF table_default_inv, of libs ops] by (simp_all add: assms table_inv_def)
  have count: "length (filter (\<lambda>r. route_key r = k) (routes_at (tb_wireguard_return_routes t) i)) =
      (if k \<in> set (keys_at (tb_wireguard_return_routes t) i) then 1 else 0)" for i k
  proof -
    have "length (filter (\<lambda>r. route_key r = k) rs) = count_list (map route_key rs) k" for rs by (induction rs) auto
    moreover have "distinct xs \<Longrightarrow> count_list xs k = (if k \<in> set xs then 1 else 0)" for xs by (induction xs) auto
    ultimately show ?thesis using inv(2) by (simp add: routes_ok_def keys_at_def)
  qed
  have key: "k \<in> set (keys_at (tb_wireguard_return_routes t) i) \<longleftrightarrow>
      (\<exists>s. am_get (tb_sessions t) (fst k) = Some s \<and> i \<in> set (route_indices (snd k) s))" for i k
    using inv(2) unfolding routes_ok_def by (cases k) simp
  have pair: "sid = sid'" if "am_get (tb_sessions t) sid = Some s" "am_get (tb_sessions t) sid' = Some s'"
    "is_pair (rs_left s) (rs_right s) s'" for sid s sid' s'
    using that sessions_okD [OF inv(1)] is_pair_iff [of sid' s' "rs_left s" "rs_right s"] by (auto simp: session_ok_def)
  show ?thesis
  proof (intro conjI allI)
    fix i sid side
    show "length (filter (\<lambda>r. route_key r = (sid, side)) (routes_at (tb_wireguard_return_routes t) i)) =
      (if \<exists>s. am_get (tb_sessions t) sid = Some s \<and> i \<in> set (route_indices side s) then 1 else 0)"
      unfolding count key by simp
  qed (use sessions_okD [OF inv(1)] pair in \<open>auto simp: session_ok_def\<close>)
qed

text \<open>
  C18. The relay sends a datagram only to the other end of a live session, and only for somebody
  entitled to it. When a received datagram is forwarded, there is a session that has not expired,
  and the target is the address of the end opposite to the sender. A framed datagram carries
  that session's identifier and token and names the two nodes, or comes from the sender's known
  address; its ciphertext is passed on. A bare WireGuard datagram is passed on as it is; it comes from the
  address on record for an index that the opposite end has used, and the address of the opposite
  end was learned from an authenticated frame. No other session changes, except that expired
  ones may disappear.
\<close>

theorem relay_forwards_within_session:
  assumes "forward_datagram_for_addr_at source_addr datagram now t = (Inr (target, payload), t')"
    and "t = run (table_step libs) ops table_default" and "u = snd (purge_expired now t)"
  shows "\<exists>sid s side. am_get (tb_sessions t) sid = Some s \<and> now < rs_expires_at s \<and> target = side_addr (opposite side) s \<and>
    (case decode_relay_datagram datagram of
       Inr d \<Rightarrow> rd_session_id d = sid \<and> rd_session_token d = rs_session_token s \<and> payload = rd_ciphertext_payload d \<and>
         (rd_source d = Some (side_node side s) \<and> rd_destination d = Some (side_node (opposite side) s) \<or>
          rd_source d = None \<and> rd_destination d = None \<and> source_addr = side_addr side s)
     | Inl _ \<Rightarrow> payload = datagram \<and> side_learned (opposite side) s \<and>
         (\<exists>i. wireguard_receiver_index datagram = Some i \<and> i \<in> set (route_indices side s) \<and>
            (\<exists>r \<in> set (routes_at (tb_wireguard_return_routes u) i). route_key r = (sid, side) \<and> wr_source_ip r = sa_ip source_addr))) \<and>
    (\<forall>other. other \<noteq> sid \<longrightarrow> am_get (tb_sessions t') other = am_get (tb_sessions t) other \<or>
       am_get (tb_sessions t') other = None \<and> (\<exists>x. am_get (tb_sessions t) other = Some x \<and> is_expired x now))"
proof -
  define t1 where "t1 = on_dataplane (record_received (length datagram)) t"
  have s1: "tb_sessions t1 = tb_sessions t" by (simp add: t1_def)
  obtain r t2 where i: "forward_datagram_for_addr_at_inner source_addr datagram now t1 = (r, t2)"
    by (cases "forward_datagram_for_addr_at_inner source_addr datagram now t1")
  obtain f where r: "r = Inr f"
    using assms(1) i by (cases r) (simp_all add: forward_datagram_for_addr_at_def t1_def)
  have inner: "forward_datagram_for_addr_at_inner source_addr datagram now t1 = (Inr f, t2)" using i by (simp add: r)
  then have "(Inr (target, payload), t') = (Inr (df_target f, df_payload f),
      if df_should_forward f then on_dataplane (record_forwarded (length (df_payload f))) t2 else t2)"
    using assms(1) by (simp add: forward_datagram_for_addr_at_def t1_def)
  then have fields: "target = df_target f" "payload = df_payload f" "tb_sessions t' = tb_sessions t2" by simp_all
  show ?thesis
  proof (cases "decode_relay_datagram datagram")
    case (Inr d)
    with inner have "forward_relay_datagram source_addr d now t1 = (Inr f, t2)"
      by (simp add: forward_datagram_for_addr_at_inner_def)
    from forward_relay_ok [OF this] obtain s side s' s'' where
      s: "am_get (tb_sessions t) (rd_session_id d) = Some s" "now < rs_expires_at s" "rs_session_token s = rd_session_token d"
      "forward_side source_addr d s = Inr (df_target f, side, s')" "df_payload f = rd_ciphertext_payload d"
      "tb_sessions t2 = bm_insert (rd_session_id d) s'' (tb_sessions t)"
      unfolding s1 by blast
    have "rd_source d = None \<longleftrightarrow> rd_destination d = None" using decode_relay_datagram_inv [OF Inr] by auto
    then show ?thesis
      using s fields forward_side_ok [OF s(4)] unfolding Inr sum.case
      by (intro exI [of _ "rd_session_id d"] exI [of _ s] exI [of _ side]) (auto simp: bm_get_insert)
  next
    case (Inl e)
    with inner have "forward_wireguard_return_datagram source_addr datagram now t1 = (Inr f, t2)"
      by (auto simp: forward_datagram_for_addr_at_inner_def split: if_splits)
    moreover have "snd (purge_expired now t1) = on_dataplane (record_received (length datagram)) u"
      by (simp add: t1_def purge_on_dataplane assms(3))
    ultimately obtain sid s side i r s' where
      s: "am_get (tb_sessions u) sid = Some s" "wireguard_receiver_index datagram = Some i"
      "r \<in> set (routes_at (tb_wireguard_return_routes u) i)" "route_key r = (sid, side)" "wr_source_ip r = sa_ip source_addr"
      "side_learned (opposite side) s" "df_target f = side_addr (opposite side) s" "df_payload f = datagram"
      "tb_sessions t2 = bm_insert sid s' (tb_sessions u)"
      using forward_return_ok [of source_addr datagram now t1 f t2] by fastforce
    have inv: "table_inv t" "table_inv u"
      using relay.inv_run [OF table_default_inv, of libs ops] table_inv_purge by (simp_all add: assms(2,3))
    then have wf: "bm_wf (tb_sessions t)" by (simp add: table_inv_def sessions_ok_def)
    have get: "am_get (tb_sessions u) other =
        (case am_get (tb_sessions t) other of None \<Rightarrow> None | Some x \<Rightarrow> if is_expired x now then None else Some x)" for other
      using map_of_filter_entries [OF bm.wf_keys [OF wf], of "\<lambda>(_, s). \<not> is_expired s now" other]
      by (simp add: assms(3) purge_sessions split: option.splits)
    then have live: "am_get (tb_sessions t) sid = Some s" "now < rs_expires_at s"
      using s(1) by (auto simp: is_expired_def split: option.splits if_splits)
    have "route_key r \<in> set (keys_at (tb_wireguard_return_routes u) i)"
      using s(3) unfolding keys_at_def set_map by (rule imageI)
    then have "(sid, side) \<in> set (keys_at (tb_wireguard_return_routes u) i)" by (simp only: s(4))
    then have "i \<in> set (route_indices side s)" using inv(2) s(1) by (auto simp: table_inv_def routes_ok_def)
    then show ?thesis
      using s fields live get unfolding Inl sum.case
      by (intro exI [of _ sid] exI [of _ s] exI [of _ side]) (auto simp: bm_get_insert split: option.splits if_splits)
  qed
qed




subsection \<open>A relay with one session\<close>

definition relay_url :: parsed_url where
  "relay_url =
     \<lparr>url_scheme = str ''https'', url_username = [], url_password = None, url_query = None, url_fragment = None,
      url_host = Some (Ipv4Host 0x01020304), url_port = None, url_port_or_known_default = Some 443, url_path = SLASH,
      url_as_str = str ''https://1.2.3.4''\<rparr>"

definition relay_libs :: net_libs where
  "relay_libs = sample_libs\<lparr>url_parse := (\<lambda>_. Some relay_url)\<rparr>"

definition relay_cap :: relay_capability where
  "relay_cap = \<lparr>rc_enabled_by_policy = True, rc_public_endpoint = Some (SocketV4 0x01020304 9000),
     rc_admission_url = Some (str ''https://1.2.3.4''), rc_max_sessions = 4, rc_active_sessions = 0, rc_max_mbps = 8,
     rc_e2e_only = True\<rparr>"

definition relay_admission :: relay_session_admission where
  "relay_admission = \<lparr>ad_left = str ''a'', ad_right = str ''b'', ad_left_addr = SocketV4 0x0a000001 1000,
     ad_right_addr = SocketV4 0x0a000002 1000, ad_session_token = str ''t'', ad_session_ttl = default_session_ttl\<rparr>"

definition relay_ops :: "table_op list" where
  "relay_ops = [AdmitOp relay_cap relay_admission 0]"

definition relay_one :: relay_table where
  "relay_one = run (table_step relay_libs) relay_ops table_default"

definition relay_session_ab :: relay_session where
  "relay_session_ab =
     \<lparr>rs_id = str ''a:b'', rs_session_token = str ''t'', rs_left = str ''a'', rs_right = str ''b'',
      rs_left_addr = SocketV4 0x0a000001 1000, rs_right_addr = SocketV4 0x0a000002 1000, rs_created_at = 0,
      rs_expires_at = 300000000000, rs_bytes_forwarded = 0, rs_left_addr_learned = False, rs_right_addr_learned = False,
      rs_left_wireguard_sender_indices = [], rs_right_wireguard_sender_indices = [], rs_window_started_at = 0,
      rs_window_bytes = 0, rs_max_bytes_per_second = 1000000\<rparr>"

lemma relay_cap_admits: "can_admit relay_libs relay_cap"
  by (simp add: can_admit_def is_eligible_relay_def available_capacity_def saturating_sub_def relay_cap_def relay_libs_def
      relay_admission_url_is_usable_def http_url_is_usable_endpoint_def relay_url_def endpoint_addr_is_usable_def
      v4_is_multicast_def octet_def v4_is_broadcast_def)

lemma relay_admission_valid: "validate_relay_session_admission relay_admission (str ''a:b'') = Inr ()"
  by (simp add: validate_relay_session_admission_def validate_relay_admission_node_id_def relay_node_id_is_valid_def
      relay_admission_def str_def starts_with_def is_ascii_alphanumeric_def endpoint_addr_is_usable_def
      v4_is_multicast_def octet_def v4_is_broadcast_def)

lemma relay_one_eq: "relay_one = \<lparr>tb_sessions = [(str ''a:b'', relay_session_ab)], tb_wireguard_return_routes = [], tb_dataplane = dataplane_default\<rparr>"
proof -
  have "session_id_new (ad_left relay_admission) (ad_right relay_admission) = str ''a:b''"
    by (simp add: session_id_new_def relay_admission_def str_def)
  moreover have "megabits_to_bytes_per_second (rc_max_mbps relay_cap) = 1000000"
    by (simp add: megabits_to_bytes_per_second_def relay_cap_def saturating_mul_def)
  ultimately show ?thesis
    using relay_admission_valid relay_cap_admits
    by (simp add: relay_one_def relay_ops_def admit_with_options_def Let_def purge_expired_def am_retain_def table_default_def
        put_session_def relay_session_ab_def default_session_ttl_def relay_admission_def)
qed

definition relay_frame_ab :: "bytes \<Rightarrow> bytes" where
  "relay_frame_ab magic = route_frame magic (str ''a:b'') (str ''t'') (str ''a'') (str ''b'') [1, 2]"

lemma relay_frame_ab_decodes:
  "decode_relay_datagram (relay_frame_ab RELAY_FRAME_MAGIC_V2) =
     Inr \<lparr>rd_session_id = str ''a:b'', rd_session_token = str ''t'', rd_source = Some (str ''a''), rd_destination = Some (str ''b''),
          rd_ciphertext_payload = [1, 2], rd_endpoint_announcement = False\<rparr>"
  "decode_relay_datagram (relay_frame_ab RELAY_FRAME_MAGIC_V3) =
     Inr \<lparr>rd_session_id = str ''a:b'', rd_session_token = str ''t'', rd_source = Some (str ''a''), rd_destination = Some (str ''b''),
          rd_ciphertext_payload = [1, 2], rd_endpoint_announcement = True\<rparr>"
proof -
  have "credentials_ok (str ''a:b'') (str ''t'') [1, 2]" by (simp add: credentials_ok_def str_def)
  moreover have "relay_node_id_is_valid (str ''a'')" "relay_node_id_is_valid (str ''b'')"
    by (simp_all add: relay_node_id_is_valid_def str_def starts_with_def is_ascii_alphanumeric_def)
  ultimately show
    "decode_relay_datagram (relay_frame_ab RELAY_FRAME_MAGIC_V2) =
     Inr \<lparr>rd_session_id = str ''a:b'', rd_session_token = str ''t'', rd_source = Some (str ''a''), rd_destination = Some (str ''b''),
          rd_ciphertext_payload = [1, 2], rd_endpoint_announcement = False\<rparr>"
    "decode_relay_datagram (relay_frame_ab RELAY_FRAME_MAGIC_V3) =
     Inr \<lparr>rd_session_id = str ''a:b'', rd_session_token = str ''t'', rd_source = Some (str ''a''), rd_destination = Some (str ''b''),
          rd_ciphertext_payload = [1, 2], rd_endpoint_announcement = True\<rparr>"
    unfolding relay_frame_ab_def decode_relay_datagram_frames by (simp_all add: decode_route_frame)
qed

lemma relay_frame_ab_forwards:
  "magic = RELAY_FRAME_MAGIC_V2 \<or> magic = RELAY_FRAME_MAGIC_V3 \<Longrightarrow>
   \<exists>t'. forward_datagram_for_addr_at (SocketV4 0x0a000009 7) (relay_frame_ab magic) 5 relay_one =
     (Inr (SocketV4 0x0a000002 1000, [1, 2]), t')"
  by (elim disjE)
    (simp_all add: forward_datagram_for_addr_at_def forward_datagram_for_addr_at_inner_def relay_frame_ab_decodes
      forward_relay_datagram_def relay_one_eq remove_expired_session_def is_expired_def relay_session_ab_def on_dataplane_def
      datagram_side_def verify_token_def relay_session_token_matches_iff forward_side_def charge_def consume_rate_limit_def
      saturating_add_def accept_datagram_def record_wireguard_sender_index_def wireguard_sender_index_def
      wireguard_datagram_payload_def)

theorem relay_table_consistent_witness:
  "am_get (tb_sessions relay_one) (str ''a:b'') = Some relay_session_ab \<and>
   str ''a:b'' = session_id_new (rs_left relay_session_ab) (rs_right relay_session_ab)"
proof -
  have "am_get (tb_sessions relay_one) (str ''a:b'') = Some relay_session_ab" by (simp add: relay_one_eq)
  then show ?thesis using relay_table_consistent [OF relay_one_def] by blast
qed

theorem relay_forwards_within_session_witness:
  "\<exists>target payload t'. forward_datagram_for_addr_at (SocketV4 0x0a000009 7) (relay_frame_ab RELAY_FRAME_MAGIC_V2) 5 relay_one =
     (Inr (target, payload), t') \<and>
   (\<exists>sid s side. am_get (tb_sessions relay_one) sid = Some s \<and> target = side_addr (opposite side) s)"
proof -
  obtain t' where f: "forward_datagram_for_addr_at (SocketV4 0x0a000009 7) (relay_frame_ab RELAY_FRAME_MAGIC_V2) 5 relay_one =
      (Inr (SocketV4 0x0a000002 1000, [1, 2]), t')" using relay_frame_ab_forwards by blast
  from relay_forwards_within_session [OF f relay_one_def refl] f show ?thesis by blast
qed



end
