(* ===== verification/RelayService.thy ===== *)
theory RelayService
  imports RelayTable
begin

text \<open>
  The relay service (\<open>RelayService\<close> in \<open>crates/ipars-relay/src/lib.rs\<close>): admission requests with a rate
  limit, the limits on sessions, and the counters that the status reports. An operation that reads
  the clock more than once has an argument per reading. The always empty lists of HTTP transports
  and the constant health of a status response are left out.
\<close>

subsection \<open>State\<close>

record relay_admission_rate_limit =
  rl_max_attempts :: u32
  rl_window :: time

record relay_admission_rate_window =
  aw_started_at :: time
  aw_attempts :: u32

record relay_service =
  sv_relay_node :: rstring
  sv_capability :: relay_capability
  sv_table :: relay_table
  sv_session_ttl :: time
  sv_admission_rate_limit :: "relay_admission_rate_limit option"
  sv_max_sessions_per_node :: "u32 option"
  sv_admission_rate_window :: relay_admission_rate_window
  sv_admission_attempts :: u64
  sv_admission_successes :: u64
  sv_admission_failures :: u64
  sv_admission_failures_by_reason :: "(relay_admission_failure_reason, u64) amap"

definition with_session_ttl_admission_controls ::
  "rstring \<Rightarrow> relay_capability \<Rightarrow> time \<Rightarrow> relay_admission_rate_limit option \<Rightarrow> u32 option \<Rightarrow> time \<Rightarrow> relay_service" where
  "with_session_ttl_admission_controls relay_node capability session_ttl admission_rate_limit max_sessions_per_node now =
     \<lparr>sv_relay_node = relay_node, sv_capability = capability, sv_table = table_default,
      sv_session_ttl = max session_ttl 1000000, sv_admission_rate_limit = admission_rate_limit,
      sv_max_sessions_per_node =
        (case max_sessions_per_node of None \<Rightarrow> None | Some limit \<Rightarrow> if limit > 0 then Some limit else None),
      sv_admission_rate_window = \<lparr>aw_started_at = now, aw_attempts = 0\<rparr>, sv_admission_attempts = 0,
      sv_admission_successes = 0, sv_admission_failures = 0, sv_admission_failures_by_reason = []\<rparr>"

definition service_new :: "rstring \<Rightarrow> relay_capability \<Rightarrow> time \<Rightarrow> relay_service" where
  "service_new relay_node capability now =
     with_session_ttl_admission_controls relay_node capability default_session_ttl None None now"

record relay_admission_request =
  rq_left :: rstring
  rq_right :: rstring
  rq_left_addr :: socket_addr
  rq_right_addr :: socket_addr

record relay_admission_response =
  rp_relay_node :: rstring
  rp_session_id :: rstring
  rp_session_token :: rstring
  rp_expires_at :: time
  rp_left :: rstring
  rp_right :: rstring
  rp_left_addr :: socket_addr
  rp_right_addr :: socket_addr

subsection \<open>Admission\<close>

definition record_admission_attempt_for_limit :: "time \<Rightarrow> relay_service \<Rightarrow> (relay_error + unit) \<times> relay_service" where
  "record_admission_attempt_for_limit now sv =
     (case sv_admission_rate_limit sv of
        None \<Rightarrow> (Inr (), sv)
      | Some limit \<Rightarrow>
          if rl_max_attempts limit = 0 \<or> rl_window limit \<le> 0 then (Inr (), sv)
          else
            let window = sv_admission_rate_window sv;
                window = (if now - aw_started_at window \<ge> rl_window limit
                          then \<lparr>aw_started_at = now, aw_attempts = 0\<rparr> else window)
            in if aw_attempts window \<ge> rl_max_attempts limit
               then (Inl RateLimited, sv\<lparr>sv_admission_rate_window := window\<rparr>)
               else (Inr (), sv\<lparr>sv_admission_rate_window := window\<lparr>aw_attempts := saturating_add (aw_attempts window) 1\<rparr>\<rparr>))"

definition record_admission_failure :: "relay_admission_failure_reason \<Rightarrow> relay_service \<Rightarrow> relay_service" where
  "record_admission_failure reason sv =
     sv\<lparr>sv_admission_failures := sv_admission_failures sv + 1,
        sv_admission_failures_by_reason := bump reason (sv_admission_failures_by_reason sv)\<rparr>"

definition node_session_limit_exceeded :: "relay_service \<Rightarrow> relay_table \<Rightarrow> rstring \<Rightarrow> bool" where
  "node_session_limit_exceeded sv table node =
     (case sv_max_sessions_per_node sv of
        None \<Rightarrow> False
      | Some limit \<Rightarrow> active_session_count_for_node node table \<ge> unat limit)"

definition sync_active_sessions :: "relay_table \<Rightarrow> relay_service \<Rightarrow> relay_service" where
  "sync_active_sessions table sv =
     sv\<lparr>sv_table := table,
        sv_capability := (sv_capability sv)\<lparr>rc_active_sessions := word_of_nat (session_count table)\<rparr>\<rparr>"

definition admit_inner ::
  "net_libs \<Rightarrow> relay_admission_request \<Rightarrow> rstring \<Rightarrow> time \<Rightarrow> time \<Rightarrow> relay_service
     \<Rightarrow> (relay_error + relay_admission_response) \<times> relay_service" where
  "admit_inner libs request session_token now_purge now_admit sv =
     (if rq_left request = sv_relay_node sv \<or> rq_right request = sv_relay_node sv then (Inl AdmissionDenied, sv)
      else
      let table = snd (purge_expired now_purge (sv_table sv));
          sv = sync_active_sessions table sv;
          admission = \<lparr>ad_left = rq_left request, ad_right = rq_right request, ad_left_addr = rq_left_addr request,
            ad_right_addr = rq_right_addr request, ad_session_token = session_token, ad_session_ttl = sv_session_ttl sv\<rparr>;
          session_id = session_id_new (ad_left admission) (ad_right admission)
      in
      st_then (validate_relay_session_admission admission session_id, sv) (\<lambda>_ sv.
      if \<not> has_session_pair (ad_left admission) (ad_right admission) table \<and>
         (node_session_limit_exceeded sv table (ad_left admission) \<or> node_session_limit_exceeded sv table (ad_right admission))
      then (Inl NodeSessionLimitExceeded, sv)
      else
      (case admit_with_options libs (sv_capability sv) admission now_admit table of
         (Inl e, table) \<Rightarrow> (Inl e, sv\<lparr>sv_table := table\<rparr>)
       | (Inr credentials, table) \<Rightarrow>
           (Inr \<lparr>rp_relay_node = sv_relay_node sv, rp_session_id = cr_session_id credentials,
              rp_session_token = cr_session_token credentials, rp_expires_at = cr_expires_at credentials,
              rp_left = rq_left request, rp_right = rq_right request, rp_left_addr = rq_left_addr request,
              rp_right_addr = rq_right_addr request\<rparr>,
            sync_active_sessions table sv))))"

definition admit ::
  "net_libs \<Rightarrow> relay_admission_request \<Rightarrow> rstring \<Rightarrow> time \<Rightarrow> time \<Rightarrow> time \<Rightarrow> relay_service
     \<Rightarrow> (relay_error + relay_admission_response) \<times> relay_service" where
  "admit libs request session_token now_limit now_purge now_admit sv =
     (let sv = sv\<lparr>sv_admission_attempts := sv_admission_attempts sv + 1\<rparr> in
      case st_then (record_admission_attempt_for_limit now_limit sv) (\<lambda>_ sv.
             admit_inner libs request session_token now_purge now_admit sv) of
        (Inr response, sv) \<Rightarrow> (Inr response, sv\<lparr>sv_admission_successes := sv_admission_successes sv + 1\<rparr>)
      | (Inl error, sv) \<Rightarrow> (Inl error, record_admission_failure (relay_error_admission_failure_reason error) sv))"

definition record_unauthorized_admission_attempt :: "time \<Rightarrow> relay_service \<Rightarrow> (relay_error + unit) \<times> relay_service" where
  "record_unauthorized_admission_attempt now sv =
     (let sv = sv\<lparr>sv_admission_attempts := sv_admission_attempts sv + 1\<rparr> in
      case record_admission_attempt_for_limit now sv of
        (Inr _, sv) \<Rightarrow> (Inr (), record_admission_failure FailUnauthorized sv)
      | (Inl error, sv) \<Rightarrow> (Inl error, record_admission_failure (relay_error_admission_failure_reason error) sv))"

subsection \<open>Status\<close>

record relay_status_response =
  ss_relay_node :: rstring
  ss_capability :: relay_capability
  ss_admission_attempt_count :: u64
  ss_admission_success_count :: u64
  ss_admission_failure_count :: u64
  ss_admission_failures_by_reason :: "(relay_admission_failure_reason, u64) amap"
  ss_max_sessions_per_node :: "u32 option"
  ss_dataplane :: relay_dataplane_metrics
  ss_generated_at :: time

definition service_status :: "time \<Rightarrow> relay_service \<Rightarrow> relay_status_response \<times> relay_service" where
  "service_status generated_at sv =
     (let table = snd (purge_expired generated_at (sv_table sv));
          sv = sync_active_sessions table sv
      in (\<lparr>ss_relay_node = sv_relay_node sv, ss_capability = sv_capability sv,
           ss_admission_attempt_count = sv_admission_attempts sv, ss_admission_success_count = sv_admission_successes sv,
           ss_admission_failure_count = sv_admission_failures sv,
           ss_admission_failures_by_reason = zero_filled_admission_failure_reasons (sv_admission_failures_by_reason sv),
           ss_max_sessions_per_node = sv_max_sessions_per_node sv,
           ss_dataplane = zero_filled_dataplane_metrics (tb_dataplane table), ss_generated_at = generated_at\<rparr>, sv))"

subsection \<open>Forwarding opens no session\<close>

text \<open>Every session of a table stands, between the same nodes, already in an earlier one.\<close>

definition within :: "relay_table \<Rightarrow> relay_table \<Rightarrow> bool" where
  "within t0 t \<longleftrightarrow> (\<forall>sid s. am_get (tb_sessions t) sid = Some s \<longrightarrow>
     (\<exists>s0. am_get (tb_sessions t0) sid = Some s0 \<and> rs_left s0 = rs_left s \<and> rs_right s0 = rs_right s))"

lemma within_refl: "within t t"
  by (simp add: within_def)

lemma within_trans: "within t0 t \<Longrightarrow> within t t' \<Longrightarrow> within t0 t'"
  unfolding within_def by (metis)

lemma within_sessions: "within t0 t \<Longrightarrow> tb_sessions t' = tb_sessions t \<Longrightarrow> within t0 t'"
  by (simp add: within_def)

lemma within_filter:
  assumes "bm_wf (tb_sessions t)" and "tb_sessions t' = filter P (tb_sessions t)"
  shows "within t t'"
  using assms(1) by (auto simp: within_def assms(2) map_of_filter_entries bm.wf_keys split: option.splits if_splits)

lemma within_put:
  "within t0 t \<Longrightarrow> am_get (tb_sessions t) sid = Some s \<Longrightarrow> rs_left s' = rs_left s \<Longrightarrow> rs_right s' = rs_right s \<Longrightarrow>
   within t0 (put_session sid s' t)"
  by (auto simp: within_def put_session_def bm_get_insert)

lemma tb_sessions_rebuild [simp]: "tb_sessions (rebuild_wireguard_return_routes t) = tb_sessions t"
  by (simp add: rebuild_wireguard_return_routes_def)

lemma within_simps [simp]:
  "within t0 (upsert_wireguard_return_route i evicted route t) = within t0 t"
  "within t0 (on_dataplane f t) = within t0 t" "within (on_dataplane f t0) t = within t0 t"
  "within t0 (rebuild_wireguard_return_routes t) = within t0 t"
  by (simp_all add: within_def)

lemma table_inv_wf: "table_inv t \<Longrightarrow> bm_wf (tb_sessions t)"
  by (simp add: table_inv_def sessions_ok_def)

lemma within_purge: "table_inv t \<Longrightarrow> within t (snd (purge_expired now t))"
  by (rule within_filter [OF table_inv_wf purge_sessions])

lemma within_remove_expired: "table_inv t \<Longrightarrow> within t (snd (remove_expired_session sid now t))"
  by (rule within_filter [OF table_inv_wf, where P = "\<lambda>e. fst e \<noteq> sid \<or> \<not> is_expired (snd e) now"])
    (auto simp: remove_expired_session_def Let_def am_remove_def table_inv_wf bm.in_entries [OF table_inv_wf]
      intro!: filter_cong filter_True [symmetric] split: option.splits)

lemma within_charge:
  assumes "within t0 t" and "am_get (tb_sessions t) sid = Some s0" and "same_core s0 s"
    and "\<And>s'. same_core s0 s' \<Longrightarrow> within t0 (snd (f s'))"
  shows "within t0 (snd (charge sid n now s t f))"
proof -
  obtain r s' where c: "consume_rate_limit n now s = (r, s')" by (cases "consume_rate_limit n now s")
  then have "same_core s0 s'" using same_core_trans [OF assms(3)] same_core_updates(2) [of s n now] by simp
  then show ?thesis
    using within_put [OF assms(1,2), of s'] assms(4) by (cases r) (simp_all add: c charge_def same_core_def)
qed

lemma within_accept:
  assumes "within t0 t" and "am_get (tb_sessions t) (rd_session_id d) = Some s0" and "same_core s0 s"
  shows "within t0 (snd (accept_datagram d target side s t))"
proof -
  obtain update s' where r: "(if rd_endpoint_announcement d then (None, s)
      else record_wireguard_sender_index side (rd_ciphertext_payload d) s) = (update, s')" by fastforce
  then have "rs_left s' = rs_left s0" "rs_right s' = rs_right s0"
    using assms(3) by (auto simp: record_wireguard_sender_index_def same_core_def
        split: if_splits option.splits prod.splits relay_session_side.splits)
  then have "within t0 (put_session (rd_session_id d) (add_bytes_forwarded n s') t)" for n
    using within_put [OF assms(1,2)] by (simp add: add_bytes_forwarded_def)
  then show ?thesis
    unfolding accept_datagram_def Let_def r
    by (simp split: option.split)
qed


lemma within_forward_target: "table_inv t \<Longrightarrow> within t (snd (forward_target_at_inner frame now t))"
  unfolding forward_target_at_inner_def Let_def
proof (intro st_then_pure [where P = "within t"] st_then_inv [where P = "within t"], goal_cases)
  case (4 _ _ t' p)
  obtain s target where p: "p = (s, target)" by (cases p)
  have t': "t' = t" using 4(3) by (simp add: remove_expired_ok)
  have s: "am_get (tb_sessions t) (rf_session_id frame) = Some s"
    using 4(4) by (auto simp: p t' frame_target_def result_simps split: if_splits)
  show ?case
    unfolding p prod.case t'
    by (rule within_charge [OF within_refl s])
      (auto intro!: within_put [OF within_refl s] simp: same_core_def add_bytes_forwarded_def)
qed (auto simp: within_refl within_remove_expired remove_expired_ok)

lemma within_return: "table_inv t \<Longrightarrow> within t (snd (forward_wireguard_return_datagram source_addr datagram now t))"
  unfolding forward_wireguard_return_datagram_def Let_def
proof (intro st_then_pure [where P = "within t"], goal_cases)
  case (3 i p)
  let ?t = "snd (purge_expired now t)"
  obtain sid side s where p: "p = (sid, side, s)" by (cases p)
  have w: "within t ?t" using 3(1) by (rule within_purge)
  have s: "am_get (tb_sessions ?t) sid = Some s"
    using 3(3) by (auto simp: p return_session_def result_simps split: prod.splits)
  show ?case
    unfolding p prod.case
  proof (rule within_charge [OF w s])
    show "same_core s s" by (simp add: same_core_def)
  next
    fix s' assume "same_core s s'"
    then show "within t (snd (map_prod Inr id (accept_return source_addr datagram sid side s' ?t)))"
      by (cases side) (auto intro!: within_put [OF w s] simp: accept_return_def same_core_def add_bytes_forwarded_def)
  qed
qed (simp_all add: within_refl within_purge)

lemma within_relay: "table_inv t \<Longrightarrow> within t (snd (forward_relay_datagram source_addr d now t))"
  unfolding forward_relay_datagram_def
proof (intro st_then_pure [where P = "within t"] st_then_inv [where P = "within t"], goal_cases)
  case (3 _ t' p)
  obtain target side s where p: "p = (target, side, s)" by (cases p)
  have t': "t' = t" using 3(2) by (simp add: remove_expired_ok)
  obtain s0 where s: "am_get (tb_sessions t) (rd_session_id d) = Some s0" "same_core s0 s"
    using 3(3) same_core_updates(4) by (auto simp: p t' datagram_side_def result_simps)
  show ?case
    unfolding p prod.case t'
    by (rule within_charge [OF within_refl s]) (simp add: within_accept [OF within_refl s(1)])
qed (auto simp: within_refl within_remove_expired remove_expired_ok)

lemma within_step:
  assumes "table_inv t" and "\<And>capability admission now. op \<noteq> AdmitOp capability admission now"
  shows "within t (snd (table_step libs op t))"
proof (cases op)
  case (AdmitOp capability admission now)
  then show ?thesis using assms(2) by blast
next
  case (AnnounceOp node packet now)
  have "within t (snd (authorize_http_announcement node packet now t))"
    unfolding authorize_http_announcement_def
    by (auto simp: within_refl split: sum.split intro!: st_then_inv [where P = "within t"] within_remove_expired assms(1))
      (simp_all add: remove_expired_ok within_refl)
  then show ?thesis by (simp add: AnnounceOp)
next
  case (TargetOp frame now)
  have "within t (snd (forward_target_at frame now t))"
    using within_forward_target [of "on_dataplane (record_received (length (rf_ciphertext_payload frame))) t" frame now] assms(1)
    by (auto simp: forward_target_at_def Let_def split: prod.split sum.split)
  then show ?thesis by (simp add: TargetOp)
next
  case (DatagramOp source_addr datagram now)
  let ?t = "on_dataplane (record_received (length datagram)) t"
  have "within ?t (snd (forward_datagram_for_addr_at_inner source_addr datagram now ?t))"
    using assms(1)
    by (simp add: forward_datagram_for_addr_at_inner_def within_refl within_return within_relay
        del: within_simps(3) split: sum.split)
  moreover obtain f where "snd (forward_datagram_for_addr_at source_addr datagram now t) =
     on_dataplane f (snd (forward_datagram_for_addr_at_inner source_addr datagram now ?t))"
    using forward_datagram_snd by blast
  ultimately have "within t (snd (forward_datagram_for_addr_at source_addr datagram now t))" by simp
  then have "within t (snd (serve_packet source_addr datagram now t))"
    by (auto simp: serve_packet_def split: prod.split sum.split)
  then show ?thesis by (simp add: DatagramOp)
next
  case (PurgeOp now)
  then show ?thesis using within_purge [OF assms(1)] by simp
qed

subsection \<open>Counting sessions\<close>

definition pair_ids :: "(rstring \<Rightarrow> rstring \<Rightarrow> bool) \<Rightarrow> relay_table \<Rightarrow> relay_session_id set" where
  "pair_ids Q t = {sid. \<exists>s. am_get (tb_sessions t) sid = Some s \<and> Q (rs_left s) (rs_right s)}"

lemma finite_pair_ids: "finite (pair_ids Q t)"
  by (rule finite_subset [OF _ finite_dom_map_of [of "tb_sessions t"]]) (auto simp: pair_ids_def)

lemma length_pair_ids:
  assumes "bm_wf (tb_sessions t)"
  shows "length (filter (\<lambda>(_, s). Q (rs_left s) (rs_right s)) (tb_sessions t)) = card (pair_ids Q t)"
proof -
  let ?f = "filter (\<lambda>(_, s). Q (rs_left s) (rs_right s)) (tb_sessions t)"
  have "length ?f = card (dom (am_get ?f))" using assms by (intro bm.length_dom bm_wf_filter)
  moreover have "dom (am_get ?f) = pair_ids Q t"
    unfolding dom_def map_of_filter_entries [OF bm.wf_keys [OF assms]] pair_ids_def by (auto split: option.splits if_splits)
  ultimately show ?thesis by simp
qed

lemma session_count_ids: "bm_wf (tb_sessions t) \<Longrightarrow> session_count t = card (pair_ids (\<lambda>_ _. True) t)"
  using length_pair_ids [of t "\<lambda>_ _. True"] by (simp add: session_count_def case_prod_beta)

lemma node_count_ids:
  "bm_wf (tb_sessions t) \<Longrightarrow>
   active_session_count_for_node node t = card (pair_ids (\<lambda>left right. left = node \<or> right = node) t)"
  using length_pair_ids [of t "\<lambda>left right. left = node \<or> right = node"]
  by (simp add: active_session_count_for_node_def)

lemma pair_ids_within: "within t0 t \<Longrightarrow> pair_ids Q t \<subseteq> pair_ids Q t0"
  by (fastforce simp: within_def pair_ids_def)

lemma counts_within:
  assumes "within t0 t" and "bm_wf (tb_sessions t)" "bm_wf (tb_sessions t0)"
  shows "session_count t \<le> session_count t0"
    and "active_session_count_for_node node t \<le> active_session_count_for_node node t0"
  using assms by (simp_all add: session_count_ids node_count_ids card_mono finite_pair_ids pair_ids_within)


lemma has_session_pair_iff:
  assumes "sessions_ok (tb_sessions t)" and "relay_node_id_is_valid left" "relay_node_id_is_valid right"
  shows "has_session_pair left right t \<longleftrightarrow> am_get (tb_sessions t) (session_id_new left right) \<noteq> None"
proof -
  have "has_session_pair left right t \<longleftrightarrow> find (\<lambda>(_, s). is_pair left right s) (tb_sessions t) \<noteq> None"
    using find_None_iff [of "\<lambda>(_, s). is_pair left right s" "tb_sessions t"] by (auto simp: has_session_pair_def list_ex_iff)
  then show ?thesis unfolding find_pair [OF assms] by simp
qed

subsection \<open>The limits on sessions\<close>

definition service_ok :: "u32 \<Rightarrow> u32 option \<Rightarrow> relay_service \<Rightarrow> bool" where
  "service_ok max_sessions limit sv \<longleftrightarrow> rc_max_sessions (sv_capability sv) = max_sessions \<and> sv_max_sessions_per_node sv = limit \<and>
     table_inv (sv_table sv) \<and> session_count (sv_table sv) \<le> unat max_sessions \<and>
     (\<forall>n node. limit = Some n \<longrightarrow> active_session_count_for_node node (sv_table sv) \<le> unat n)"

lemma service_ok_within:
  assumes "service_ok max_sessions limit sv" and "within (sv_table sv) t" and "table_inv t"
    and "sv_table sv' = t" and "rc_max_sessions (sv_capability sv') = rc_max_sessions (sv_capability sv)"
    and "sv_max_sessions_per_node sv' = sv_max_sessions_per_node sv"
  shows "service_ok max_sessions limit sv'"
  using assms counts_within [OF assms(2)] table_inv_wf unfolding service_ok_def by (metis order_trans)

lemma service_ok_fields:
  assumes "service_ok max_sessions limit sv" and "sv_table sv' = sv_table sv"
    and "rc_max_sessions (sv_capability sv') = rc_max_sessions (sv_capability sv)"
    and "sv_max_sessions_per_node sv' = sv_max_sessions_per_node sv"
  shows "service_ok max_sessions limit sv'"
  using assms by (simp add: service_ok_def)

lemma record_attempt_fields:
  "sv_table (snd (record_admission_attempt_for_limit now sv)) = sv_table sv"
  "sv_capability (snd (record_admission_attempt_for_limit now sv)) = sv_capability sv"
  "sv_max_sessions_per_node (snd (record_admission_attempt_for_limit now sv)) = sv_max_sessions_per_node sv"
  by (simp_all add: record_admission_attempt_for_limit_def Let_def split: option.split)

text \<open>A new session between two nodes counts for these two nodes only.\<close>

lemma pair_ids_put:
  "rs_left s = left \<Longrightarrow> rs_right s = right \<Longrightarrow> am_get (tb_sessions t) sid = None \<Longrightarrow>
   pair_ids Q (put_session sid s t) = (if Q left right then insert sid (pair_ids Q t) else pair_ids Q t)"
  by (auto simp: pair_ids_def put_session_def bm_get_insert)

lemma opened_counts:
  assumes "table_inv t" and "u = snd (purge_expired now t)" and "am_get (tb_sessions u) sid = None"
    and "rs_left s = left" "rs_right s = right" and "bm_wf (tb_sessions (put_session sid s u))"
    and "\<And>s0. am_get (tb_sessions t) sid = Some s0 \<Longrightarrow> is_pair left right s0"
  shows "session_count (put_session sid s u) \<le> Suc (session_count t)"
    and "active_session_count_for_node node (put_session sid s u) \<le>
      (if am_get (tb_sessions t) sid = None \<and> (node = left \<or> node = right)
       then Suc (active_session_count_for_node node t) else active_session_count_for_node node t)"
proof -
  have w: "within t u" using within_purge [OF assms(1)] by (simp add: assms(2))
  note wf = table_inv_wf [OF assms(1)] assms(6)
  note ids = pair_ids_put [OF assms(4,5,3)]
  have sub: "pair_ids Q u \<subseteq> pair_ids Q t" and new: "sid \<notin> pair_ids Q u" for Q
    using pair_ids_within [OF w] assms(3) by (auto simp: pair_ids_def)
  have le: "card (pair_ids Q u) \<le> card (pair_ids Q t)" for Q by (intro card_mono finite_pair_ids sub)
  then show "session_count (put_session sid s u) \<le> Suc (session_count t)"
    using new by (simp add: session_count_ids wf ids card_insert_if finite_pair_ids)
  let ?Q = "\<lambda>left right. left = node \<or> right = node"
  consider (other) "\<not> ?Q left right" | (known) "?Q left right" "sid \<in> pair_ids ?Q t" | (fresh) "?Q left right" "sid \<notin> pair_ids ?Q t"
    by blast
  then show "active_session_count_for_node node (put_session sid s u) \<le>
      (if am_get (tb_sessions t) sid = None \<and> (node = left \<or> node = right)
       then Suc (active_session_count_for_node node t) else active_session_count_for_node node t)"
  proof cases
    case other
    then show ?thesis using le [of ?Q] by (auto simp: node_count_ids wf ids)
  next
    case known
    have "card (insert sid (pair_ids ?Q u)) \<le> card (pair_ids ?Q t)"
      using known(2) sub [of ?Q] by (intro card_mono finite_pair_ids) blast
    then show ?thesis using known(1) by (simp add: node_count_ids wf ids)
  next
    case fresh
    have "am_get (tb_sessions t) sid = None"
    proof (rule ccontr)
      assume "am_get (tb_sessions t) sid \<noteq> None"
      then obtain s0 where s0: "am_get (tb_sessions t) sid = Some s0" by blast
      then show False using assms(7) [OF s0] fresh by (auto simp: is_pair_def pair_ids_def)
    qed
    then show ?thesis using fresh(1) le [of ?Q] new [of ?Q]
      by (auto simp: node_count_ids wf ids card_insert_if finite_pair_ids)
  qed
qed


lemma can_admit_room:
  assumes "can_admit libs c" and "rc_active_sessions c = word_of_nat n" and "n \<le> unat (rc_max_sessions c)"
  shows "n < unat (rc_max_sessions c)"
proof (rule ccontr)
  assume "\<not> n < unat (rc_max_sessions c)"
  then have "rc_active_sessions c = rc_max_sessions c" using assms(2,3) by simp
  then show False using assms(1) by (simp add: can_admit_def available_capacity_def saturating_sub_def)
qed

lemma service_ok_sync:
  assumes "service_ok max_sessions limit sv" and "within (sv_table sv) t" and "table_inv t"
  shows "service_ok max_sessions limit (sync_active_sessions t sv)"
  using assms by (rule service_ok_within) (simp_all add: sync_active_sessions_def)

lemma service_ok_admit_with_options:
  assumes ok: "service_ok max_sessions limit sv" and table: "sv_table sv = t"
    and active: "rc_active_sessions (sv_capability sv) = word_of_nat (session_count t)"
    and valid: "validate_relay_session_admission admission (session_id_new (ad_left admission) (ad_right admission)) = Inr ()"
    and room: "has_session_pair (ad_left admission) (ad_right admission) t \<or>
      \<not> node_session_limit_exceeded sv t (ad_left admission) \<and> \<not> node_session_limit_exceeded sv t (ad_right admission)"
    and eq: "admit_with_options libs (sv_capability sv) admission now t = (r, t')"
    and sv': "sv_table sv' = t'" "rc_max_sessions (sv_capability sv') = rc_max_sessions (sv_capability sv)"
      "sv_max_sessions_per_node sv' = sv_max_sessions_per_node sv"
  shows "service_ok max_sessions limit sv'"
proof -
  have inv: "table_inv t" using ok table by (simp add: service_ok_def)
  have inv': "table_inv t'" using table_inv_admit [OF inv, of libs "sv_capability sv" admission now] by (simp add: eq)
  let ?sid = "session_id_new (ad_left admission) (ad_right admission)"
  note v = validate_admission_ok [OF valid]
  have sok: "sessions_ok (tb_sessions t)" using inv by (simp add: table_inv_def)
  from inv eq refl refl refl show ?thesis
  proof (cases rule: admit_cases)
    case (opened s)
    have pair: "is_pair (ad_left admission) (ad_right admission) s0" if "am_get (tb_sessions t) ?sid = Some s0" for s0
      using is_pair_iff [OF sessions_okD [OF sok that] v(1,2)] by simp
    note counts = opened_counts [OF inv refl opened(1,7,8) _ pair, folded opened(4), OF table_inv_wf [OF inv']]
    have "session_count t < unat max_sessions"
      using can_admit_room [OF opened(2) active] ok table by (simp add: service_ok_def)
    moreover have "active_session_count_for_node node t' \<le> unat n" if "limit = Some n" for n node
      using counts(2) [of node] room that ok table
      by (auto simp: service_ok_def has_session_pair_iff [OF sok v(1,2)] node_session_limit_exceeded_def split: if_splits
          intro: order_trans)
    ultimately show ?thesis using counts(1) ok sv' inv' by (simp add: service_ok_def)
  next
    case (refused e)
    then show ?thesis
      using service_ok_within [OF ok _ inv' sv'] within_purge [OF inv] table by simp
  next
    case (renewed s)
    have "same_core s (renew_session (sv_capability sv) admission (now + max (ad_session_ttl admission) 1000000) s)"
      by (rule same_core_updates)
    then have "within t t'"
      using within_put [OF within_purge [OF inv] renewed(1)] by (simp add: renewed(2) same_core_def)
    then show ?thesis using service_ok_within [OF ok _ inv' sv'] table by simp
  qed
qed


lemma service_ok_admit_inner:
  assumes "service_ok max_sessions limit sv"
  shows "service_ok max_sessions limit (snd (admit_inner libs request token now_purge now_admit sv))"
proof -
  let ?t = "snd (purge_expired now_purge (sv_table sv))"
  let ?sv = "sync_active_sessions ?t sv"
  let ?a = "\<lparr>ad_left = rq_left request, ad_right = rq_right request, ad_left_addr = rq_left_addr request,
    ad_right_addr = rq_right_addr request, ad_session_token = token, ad_session_ttl = sv_session_ttl ?sv\<rparr>"
  let ?sid = "session_id_new (rq_left request) (rq_right request)"
  have inv: "table_inv (sv_table sv)" using assms by (simp add: service_ok_def)
  have ok: "service_ok max_sessions limit ?sv"
    using assms by (rule service_ok_sync) (use inv in \<open>simp_all add: within_purge table_inv_purge\<close>)
  obtain r t' where eq: "admit_with_options libs (sv_capability ?sv) ?a now_admit ?t = (r, t')"
    by (cases "admit_with_options libs (sv_capability ?sv) ?a now_admit ?t")
  have admitted: "service_ok max_sessions limit sv'"
    if "validate_relay_session_admission ?a ?sid = Inr ()"
      "has_session_pair (rq_left request) (rq_right request) ?t \<or>
       \<not> node_session_limit_exceeded ?sv ?t (rq_left request) \<and> \<not> node_session_limit_exceeded ?sv ?t (rq_right request)"
      "sv_table sv' = t'" "rc_max_sessions (sv_capability sv') = rc_max_sessions (sv_capability ?sv)"
      "sv_max_sessions_per_node sv' = sv_max_sessions_per_node ?sv" for sv'
    using service_ok_admit_with_options [OF ok _ _ _ _ eq that(3-5)] that(1,2) by (simp add: sync_active_sessions_def)
  show ?thesis
  proof (cases "validate_relay_session_admission ?a ?sid")
    case (Inl e)
    then show ?thesis using ok assms by (simp add: admit_inner_def Let_def)
  next
    case (Inr x)
    then have v: "validate_relay_session_admission ?a ?sid = Inr ()" by simp
    then show ?thesis
      using ok assms admitted [OF v] eq
      by (cases r) (auto simp: admit_inner_def Let_def sync_active_sessions_def)
  qed
qed

subsection \<open>Runs of the service\<close>

datatype service_op =
    RequestOp relay_admission_request rstring time time time
  | UnauthorizedOp time
  | StatusOp time
  | HttpOp rstring bytes time
  | FrameOp relay_frame time
  | PacketOp socket_addr bytes time

fun service_step :: "net_libs \<Rightarrow> service_op \<Rightarrow> relay_service \<Rightarrow> unit \<times> relay_service" where
  "service_step libs (RequestOp request token now_limit now_purge now_admit) sv =
     ((), snd (admit libs request token now_limit now_purge now_admit sv))"
| "service_step libs (UnauthorizedOp now) sv = ((), snd (record_unauthorized_admission_attempt now sv))"
| "service_step libs (StatusOp now) sv = ((), snd (service_status now sv))"
| "service_step libs (HttpOp node packet now) sv =
     ((), sv\<lparr>sv_table := snd (authorize_http_announcement node packet now (sv_table sv))\<rparr>)"
| "service_step libs (FrameOp frame now) sv = ((), sv\<lparr>sv_table := snd (forward_target_at frame now (sv_table sv))\<rparr>)"
| "service_step libs (PacketOp peer datagram now) sv = ((), sv\<lparr>sv_table := snd (serve_packet peer datagram now (sv_table sv))\<rparr>)"

lemma service_ok_table_op:
  assumes "service_ok max_sessions limit sv" and "\<And>capability admission now. op \<noteq> AdmitOp capability admission now"
  shows "service_ok max_sessions limit (sv\<lparr>sv_table := snd (table_step libs op (sv_table sv))\<rparr>)"
proof -
  have "table_inv (sv_table sv)" using assms(1) by (simp add: service_ok_def)
  then show ?thesis using assms by (intro service_ok_within [OF assms(1) within_step table_step_inv]) simp_all
qed

lemma service_ok_attempt:
  assumes "service_ok max_sessions limit sv"
  shows "service_ok max_sessions limit (snd (record_admission_attempt_for_limit now (sv\<lparr>sv_admission_attempts := n\<rparr>)))"
  by (rule service_ok_fields [OF assms]) (simp_all add: record_attempt_fields)

lemma service_ok_failure:
  "service_ok max_sessions limit sv \<Longrightarrow> service_ok max_sessions limit (record_admission_failure reason sv)"
  by (rule service_ok_fields) (simp_all add: record_admission_failure_def)

lemma service_ok_step:
  assumes "service_ok max_sessions limit sv"
  shows "service_ok max_sessions limit (snd (service_step libs op sv))"
proof (cases op)
  case (RequestOp request token now_limit now_purge now_admit)
  let ?sv = "sv\<lparr>sv_admission_attempts := sv_admission_attempts sv + 1\<rparr>"
  let ?m = "st_then (record_admission_attempt_for_limit now_limit ?sv) (\<lambda>_ sv. admit_inner libs request token now_purge now_admit sv)"
  have ok: "service_ok max_sessions limit (snd ?m)"
  proof (rule st_then_inv [where P = "service_ok max_sessions limit"])
    show "service_ok max_sessions limit (snd (record_admission_attempt_for_limit now_limit ?sv))"
      by (rule service_ok_attempt [OF assms])
    fix x s assume "record_admission_attempt_for_limit now_limit ?sv = (Inr x, s)"
    then have "service_ok max_sessions limit s" using service_ok_attempt [OF assms, of now_limit] by (metis snd_conv)
    then show "service_ok max_sessions limit (snd (admit_inner libs request token now_purge now_admit s))"
      by (rule service_ok_admit_inner)
  qed
  obtain r s where m: "?m = (r, s)" by (cases ?m)
  have s: "service_ok max_sessions limit s" using ok by (simp add: m)
  have "service_ok max_sessions limit (s\<lparr>sv_admission_successes := sv_admission_successes s + 1\<rparr>)"
    by (rule service_ok_fields [OF s]) simp_all
  then show ?thesis
    using m service_ok_failure [OF s] by (cases r) (simp_all add: RequestOp admit_def Let_def)
next
  case (UnauthorizedOp now)
  obtain r s where m: "record_admission_attempt_for_limit now (sv\<lparr>sv_admission_attempts := sv_admission_attempts sv + 1\<rparr>) = (r, s)"
    by (cases "record_admission_attempt_for_limit now (sv\<lparr>sv_admission_attempts := sv_admission_attempts sv + 1\<rparr>)")
  then have "service_ok max_sessions limit s" using service_ok_attempt [OF assms, of now] by (metis snd_conv)
  then show ?thesis
    using m service_ok_failure by (cases r) (simp_all add: UnauthorizedOp record_unauthorized_admission_attempt_def Let_def)
next
  case (StatusOp now)
  have "table_inv (sv_table sv)" using assms by (simp add: service_ok_def)
  then show ?thesis
    using service_ok_sync [OF assms within_purge table_inv_purge] by (simp add: StatusOp service_status_def Let_def)
next
  case (HttpOp node packet now)
  then show ?thesis using service_ok_table_op [OF assms, of "AnnounceOp node packet now"] by simp
next
  case (FrameOp frame now)
  then show ?thesis using service_ok_table_op [OF assms, of "TargetOp frame now"] by simp
next
  case (PacketOp peer datagram now)
  then show ?thesis using service_ok_table_op [OF assms, of "DatagramOp peer datagram now"] by simp
qed

interpretation service: invariant_system "service_step libs" "service_ok max_sessions limit" for libs max_sessions limit
  by unfold_locales (rule service_ok_step)

text \<open>
  C25. The service keeps its limits whatever is asked of it. In every state a service reaches by any
  sequence of admission requests, rejected ones included, status queries, announcements, frames and packets,
  the table holds at most as many sessions as the relay's capability allows, although active
  sessions are counted in 32 bits; and with a limit per node, no node takes part in more
  sessions than that.
\<close>

theorem relay_session_limits:
  assumes "sv = run (service_step libs) ops
      (with_session_ttl_admission_controls relay_node capability session_ttl rate_limit (Some limit) now)"
  shows "session_count (sv_table sv) \<le> unat (rc_max_sessions capability) \<and>
    (limit > 0 \<longrightarrow> active_session_count_for_node node (sv_table sv) \<le> unat limit)"
proof -
  let ?sv = "with_session_ttl_admission_controls relay_node capability session_ttl rate_limit (Some limit) now"
  have "service_ok (rc_max_sessions capability) (sv_max_sessions_per_node ?sv) ?sv"
    by (simp add: service_ok_def with_session_ttl_admission_controls_def table_default_inv session_count_def
        active_session_count_for_node_def) (simp add: table_default_def)
  then have "service_ok (rc_max_sessions capability) (sv_max_sessions_per_node ?sv) sv"
    unfolding assms by (rule service.inv_run)
  then show ?thesis by (simp add: service_ok_def with_session_ttl_admission_controls_def)
qed


subsection \<open>The admission rate\<close>

interpretation admission_rate: fixed_window "\<lambda>_. record_admission_attempt_for_limit"
    "\<lambda>sv. aw_started_at (sv_admission_rate_window sv)" "\<lambda>sv. unat (aw_attempts (sv_admission_rate_window sv))"
    "unat max_attempts" window "\<lambda>n. n = 1"
    "\<lambda>sv. sv_admission_rate_limit sv = Some \<lparr>rl_max_attempts = max_attempts, rl_window = window\<rparr> \<and> 0 < window \<and> max_attempts \<noteq> 0"
  for max_attempts window
proof -
  have inc: "unat (saturating_add a 1) = Suc (unat a)" if "\<not> m \<le> a" for a m :: u32
    using that unat_less_exp [of m] by (simp add: unat_saturating_add word_le_nat_alt)
  show "fixed_window (\<lambda>_. record_admission_attempt_for_limit)
    (\<lambda>sv. aw_started_at (sv_admission_rate_window sv)) (\<lambda>sv. unat (aw_attempts (sv_admission_rate_window sv)))
    (unat max_attempts) window (\<lambda>n. n = 1)
    (\<lambda>sv. sv_admission_rate_limit sv = Some \<lparr>rl_max_attempts = max_attempts, rl_window = window\<rparr> \<and> 0 < window \<and> max_attempts \<noteq> 0)"
    by unfold_locales
      (auto simp: record_admission_attempt_for_limit_def Let_def inc split: if_splits, simp_all add: word_le_nat_alt Suc_le_eq unat_gt_0)
qed

lemma admission_attempts_bounded:
  assumes "sv_admission_rate_limit sv = Some \<lparr>rl_max_attempts = max_attempts, rl_window = window\<rparr>" and "0 < window" "max_attempts \<noteq> 0"
    and "aw_attempts (sv_admission_rate_window sv) = 0" and "\<forall>now \<in> set nows. now \<le> T"
  shows "accepted_total (\<lambda>_. record_admission_attempt_for_limit) (map (Pair 1) nows) sv \<le>
    unat max_attempts * (nat ((T - aw_started_at (sv_admission_rate_window sv)) div window) + 1)"
  using admission_rate.total_bounded [of sv max_attempts window "map (Pair 1) nows" T] assms by auto

subsection \<open>Counters\<close>

definition count_of :: "(relay_admission_failure_reason, u64) amap \<Rightarrow> relay_admission_failure_reason \<Rightarrow> nat" where
  "count_of m reason = (case am_get m reason of None \<Rightarrow> 0 | Some c \<Rightarrow> unat c)"

definition failures_total :: "(relay_admission_failure_reason, u64) amap \<Rightarrow> nat" where
  "failures_total m = sum_list (map (count_of m) RelayAdmissionFailureReason_ALL)"

lemma count_of_bump: "count_of (bump k m) r = (if r = k then min (Suc (count_of m r)) (2 ^ 64 - 1) else count_of m r)"
  by (auto simp: count_of_def bump_def bm_get_insert unat_saturating_add split: option.splits)

lemma count_of_le_total: "count_of m r \<le> failures_total m"
  by (cases r) (simp_all add: failures_total_def RelayAdmissionFailureReason_ALL_def)

lemma failures_total_bump:
  assumes "failures_total m < 2 ^ 64 - 1"
  shows "failures_total (bump k m) = Suc (failures_total m)"
proof -
  have "count_of m k < 2 ^ 64 - 1" using count_of_le_total [of m k] assms by linarith
  then have c: "count_of (bump k m) r = (if r = k then Suc (count_of m r) else count_of m r)" for r
    by (auto simp: count_of_bump)
  show ?thesis
    by (simp only: failures_total_def RelayAdmissionFailureReason_ALL_def list.map sum_list.Cons sum_list.Nil c) (cases k; simp)
qed

lemma zero_filled_total:
  "sum_list (map (\<lambda>(_, c). unat c) (zero_filled_admission_failure_reasons m)) = failures_total m"
  by (simp add: zero_filled_admission_failure_reasons_def RelayAdmissionFailureReason_ALL_def failures_total_def count_of_def
      less_relay_admission_failure_reason_def split: option.split)

definition accounted :: "nat \<Rightarrow> relay_service \<Rightarrow> bool" where
  "accounted n sv \<longleftrightarrow> unat (sv_admission_attempts sv) = n \<and>
     unat (sv_admission_successes sv) + unat (sv_admission_failures sv) = n \<and>
     failures_total (sv_admission_failures_by_reason sv) = unat (sv_admission_failures sv)"

fun attempts_of :: "service_op \<Rightarrow> nat" where
  "attempts_of (RequestOp _ _ _ _ _) = 1"
| "attempts_of (UnauthorizedOp _) = 1"
| "attempts_of _ = 0"

text \<open>What the limiter and the admission leave of the counters: everything.\<close>

definition same_counters :: "relay_service \<Rightarrow> relay_service \<Rightarrow> bool" where
  "same_counters sv sv' \<longleftrightarrow> sv_admission_attempts sv' = sv_admission_attempts sv \<and>
     sv_admission_successes sv' = sv_admission_successes sv \<and> sv_admission_failures sv' = sv_admission_failures sv \<and>
     sv_admission_failures_by_reason sv' = sv_admission_failures_by_reason sv"

lemma same_counters_steps:
  "same_counters sv (snd (record_admission_attempt_for_limit now sv))"
  "same_counters sv (snd (admit_inner libs request token now_purge now_admit sv))"
  "same_counters sv (snd (service_status now sv))"
  by (auto simp: same_counters_def record_admission_attempt_for_limit_def Let_def service_status_def sync_active_sessions_def
      admit_inner_def st_then_def split: option.split sum.split prod.split)

lemma unat_inc: "unat w + 1 < 2 ^ 64 \<Longrightarrow> unat (w + 1) = unat w + 1" for w :: u64
  by (simp add: unat_word_ariths)

lemma accounted_outcome:
  assumes "accounted n sv" and "n + 1 < 2 ^ 64" and "same_counters (sv\<lparr>sv_admission_attempts := sv_admission_attempts sv + 1\<rparr>) sv'"
  shows "accounted (n + 1) (record_admission_failure reason sv')"
    and "accounted (n + 1) (sv'\<lparr>sv_admission_successes := sv_admission_successes sv' + 1\<rparr>)"
  using assms failures_total_bump [of "sv_admission_failures_by_reason sv"]
  by (simp_all add: accounted_def same_counters_def record_admission_failure_def unat_inc)

lemma accounted_step:
  assumes "accounted n sv" and "n + attempts_of op < 2 ^ 64"
  shows "accounted (n + attempts_of op) (snd (service_step libs op sv))"
proof (cases op)
  case (RequestOp request token now_limit now_purge now_admit)
  let ?sv = "sv\<lparr>sv_admission_attempts := sv_admission_attempts sv + 1\<rparr>"
  let ?m = "st_then (record_admission_attempt_for_limit now_limit ?sv) (\<lambda>_ sv. admit_inner libs request token now_purge now_admit sv)"
  have "same_counters ?sv (snd ?m)"
  proof (rule st_then_inv [where P = "same_counters ?sv"])
    show "same_counters ?sv (snd (record_admission_attempt_for_limit now_limit ?sv))" by (rule same_counters_steps)
    fix x s assume "record_admission_attempt_for_limit now_limit ?sv = (Inr x, s)"
    then have "same_counters ?sv s" using same_counters_steps(1) [of ?sv now_limit] by (metis snd_conv)
    then show "same_counters ?sv (snd (admit_inner libs request token now_purge now_admit s))"
      using same_counters_steps(2) [of s libs request token now_purge now_admit] by (simp add: same_counters_def)
  qed
  moreover obtain r s where m: "?m = (r, s)" by (cases ?m)
  ultimately have "same_counters ?sv s" by simp
  from accounted_outcome [OF assms(1) _ this] show ?thesis
    using m assms(2) by (cases r) (simp_all add: RequestOp admit_def Let_def)
next
  case (UnauthorizedOp now)
  let ?sv = "sv\<lparr>sv_admission_attempts := sv_admission_attempts sv + 1\<rparr>"
  obtain r s where m: "record_admission_attempt_for_limit now ?sv = (r, s)" by (cases "record_admission_attempt_for_limit now ?sv")
  then have "same_counters ?sv s" using same_counters_steps(1) [of ?sv now] by (metis snd_conv)
  from accounted_outcome [OF assms(1) _ this] show ?thesis
    using m assms(2) by (cases r) (simp_all add: UnauthorizedOp record_unauthorized_admission_attempt_def Let_def)
next
  case (StatusOp now)
  then show ?thesis using assms(1) same_counters_steps(3) [of sv now] by (simp add: accounted_def same_counters_def)
qed (use assms(1) in \<open>simp_all add: accounted_def\<close>)

lemma accounted_run:
  "accounted n sv \<Longrightarrow> n + sum_list (map attempts_of ops) < 2 ^ 64 \<Longrightarrow>
   accounted (n + sum_list (map attempts_of ops)) (run (service_step libs) ops sv)"
proof (induction ops arbitrary: n sv)
  case (Cons op ops)
  then have "accounted (n + attempts_of op) (snd (service_step libs op sv))" by (intro accounted_step) auto
  from Cons.IH [OF this] Cons.prems(2) show ?case by (simp add: add.assoc)
qed simp

text \<open>
  C36. Every admission attempt is accounted for exactly once. As long as a service has seen fewer than
  \<open>2\<^sup>64\<close> attempts, the status it reports counts all of them, authorised or not, limited or not; the
  successes and failures add up to the attempts, and the failures by reason add up to the failures.
\<close>

theorem relay_admissions_accounted:
  assumes "sum_list (map attempts_of ops) < 2 ^ 64"
    and "sv = run (service_step libs) ops
      (with_session_ttl_admission_controls relay_node capability session_ttl rate_limit limit now)"
    and "st = fst (service_status now' sv)"
  shows "unat (ss_admission_attempt_count st) = sum_list (map attempts_of ops) \<and>
    unat (ss_admission_success_count st) + unat (ss_admission_failure_count st) = unat (ss_admission_attempt_count st) \<and>
    sum_list (map (\<lambda>(_, c). unat c) (ss_admission_failures_by_reason st)) = unat (ss_admission_failure_count st)"
proof -
  have "accounted 0 (with_session_ttl_admission_controls relay_node capability session_ttl rate_limit limit now)"
    by (simp add: accounted_def with_session_ttl_admission_controls_def failures_total_def count_of_def
        RelayAdmissionFailureReason_ALL_def)
  from accounted_run [OF this, of ops libs] assms(1)
  have "accounted (sum_list (map attempts_of ops)) sv" by (simp add: assms(2))
  then show ?thesis
    using zero_filled_total by (simp add: assms(3) service_status_def Let_def sync_active_sessions_def accounted_def)
qed


subsection \<open>A service with one request\<close>

definition relay_request :: relay_admission_request where
  "relay_request = \<lparr>rq_left = str ''a'', rq_right = str ''b'', rq_left_addr = SocketV4 0x0a000001 1000,
     rq_right_addr = SocketV4 0x0a000002 1000\<rparr>"

definition relay_service_ab :: relay_service where
  "relay_service_ab = run (service_step relay_libs) [RequestOp relay_request (str ''t'') 0 0 0, UnauthorizedOp 1]
     (with_session_ttl_admission_controls (str ''r'') relay_cap default_session_ttl None (Some 1) 0)"

lemma relay_admits:
  "admit_with_options relay_libs relay_cap relay_admission 0 table_default =
     (Inr \<lparr>cr_session_id = str ''a:b'', cr_session_token = str ''t'', cr_expires_at = 300000000000\<rparr>, relay_one)"
proof -
  have "fst (admit_with_options relay_libs relay_cap relay_admission 0 table_default) =
      Inr \<lparr>cr_session_id = str ''a:b'', cr_session_token = str ''t'', cr_expires_at = 300000000000\<rparr>"
  proof -
    have "session_id_new (ad_left relay_admission) (ad_right relay_admission) = str ''a:b''"
      by (simp add: session_id_new_def relay_admission_def str_def)
    then show ?thesis
      using relay_admission_valid relay_cap_admits
      by (simp add: admit_with_options_def Let_def purge_expired_def am_retain_def table_default_def
          default_session_ttl_def relay_admission_def)
  qed
  then show ?thesis
    by (cases "admit_with_options relay_libs relay_cap relay_admission 0 table_default") (simp add: relay_one_def relay_ops_def)
qed

theorem relay_session_limits_witness:
  "session_count (sv_table relay_service_ab) = 1 \<and> session_count (sv_table relay_service_ab) \<le> 4 \<and>
   active_session_count_for_node (str ''a'') (sv_table relay_service_ab) \<le> 1"
proof -
  have a: "\<lparr>ad_left = str ''a'', ad_right = str ''b'', ad_left_addr = SocketV4 0x0a000001 1000,
      ad_right_addr = SocketV4 0x0a000002 1000, ad_session_token = str ''t'', ad_session_ttl = default_session_ttl\<rparr> = relay_admission"
    by (simp add: relay_admission_def)
  have purge: "purge_expired now table_default = (0, table_default)" for now
    by (simp add: purge_expired_def am_retain_def table_default_def)
  have cap: "relay_cap\<lparr>rc_active_sessions := word_of_nat (session_count table_default)\<rparr> = relay_cap"
    by (simp add: relay_cap_def session_count_def table_default_def)
  have ids: "session_id_new (str ''a'') (str ''b'') = str ''a:b''" "str ''a'' \<noteq> str ''r''" "str ''b'' \<noteq> str ''r''"
    by (simp_all add: session_id_new_def str_def)
  have ttl: "max default_session_ttl 1000000 = default_session_ttl" by (simp add: default_session_ttl_def)
  have zero: "active_session_count_for_node node table_default = 0" for node
    by (simp add: active_session_count_for_node_def table_default_def)
  define sv where "sv = (with_session_ttl_admission_controls (str ''r'') relay_cap default_session_ttl None (Some 1) 0)
    \<lparr>sv_admission_attempts := 1\<rparr>"
  have fields: "sv_relay_node sv = str ''r''" "sv_capability sv = relay_cap" "sv_table sv = table_default"
    "sv_session_ttl sv = default_session_ttl" "sv_admission_rate_limit sv = None" "sv_max_sessions_per_node sv = Some 1"
    by (simp_all add: sv_def with_session_ttl_admission_controls_def ttl)
  have "admit_inner relay_libs relay_request (str ''t'') 0 0 sv =
      (fst (admit_inner relay_libs relay_request (str ''t'') 0 0 sv), sync_active_sessions relay_one (sync_active_sessions table_default sv))"
    "is_ok (fst (admit_inner relay_libs relay_request (str ''t'') 0 0 sv))"
    by (simp_all add: admit_inner_def Let_def relay_request_def fields ids purge sync_active_sessions_def a cap
        relay_admission_valid relay_admits node_session_limit_exceeded_def zero)
  then obtain r where "admit_inner relay_libs relay_request (str ''t'') 0 0 sv =
      (Inr r, sync_active_sessions relay_one (sync_active_sessions table_default sv))"
    by (auto simp: is_ok_iff)
  then have "sv_table relay_service_ab = relay_one"
    using fields(5)
    by (simp add: relay_service_ab_def admit_def Let_def with_session_ttl_admission_controls_def record_admission_attempt_for_limit_def
        record_unauthorized_admission_attempt_def record_admission_failure_def sync_active_sessions_def sv_def)
  then have "session_count (sv_table relay_service_ab) = 1" by (simp add: session_count_def relay_one_eq)
  with relay_session_limits [OF relay_service_ab_def, of "str ''a''"] show ?thesis by (simp add: relay_cap_def)
qed

theorem relay_admissions_accounted_witness:
  "unat (ss_admission_attempt_count (fst (service_status 5 relay_service_ab))) = 2 \<and>
   unat (ss_admission_success_count (fst (service_status 5 relay_service_ab))) +
     unat (ss_admission_failure_count (fst (service_status 5 relay_service_ab))) = 2"
  using relay_admissions_accounted [OF _ relay_service_ab_def refl, of 5] by simp

end
