(* ===== verification/Loops.thy ===== *)
theory Loops
  imports Containers "HOL-Library.While_Combinator"
begin

text \<open>
  Rust's loops with early exits. \<open>for_each\<close> is a \<open>for\<close> loop and \<open>while_loop\<close> a \<open>while\<close> loop whose
  bodies either go on with a new state, \<open>Inr\<close>, or leave the enclosing function with a value, \<open>Inl\<close>.
  A \<open>while\<close> loop that never ends has the value \<open>None\<close>, so that every result about such a loop has to
  show that it ends.
\<close>

subsection \<open>Loops\<close>

fun for_each :: "('a \<Rightarrow> 's \<Rightarrow> 'r + 's) \<Rightarrow> 'a list \<Rightarrow> 's \<Rightarrow> 'r + 's" where
  "for_each f [] s = Inr s"
| "for_each f (x # xs) s = and_then (f x s) (for_each f xs)"

definition while_loop :: "('s \<Rightarrow> bool) \<Rightarrow> ('s \<Rightarrow> 'r + 's) \<Rightarrow> 's \<Rightarrow> ('r + 's) option" where
  "while_loop b c s =
     while_option (\<lambda>x. case x of Inl r \<Rightarrow> False | Inr s \<Rightarrow> b s) (\<lambda>x. and_then x c) (Inr s)"

lemma while_loop_unfold:
  "while_loop b c s =
     (if b s then (case c s of Inl r \<Rightarrow> Some (Inl r) | Inr s' \<Rightarrow> while_loop b c s') else Some (Inr s))"
proof -
  have stop: "while_option (\<lambda>x. case x of Inl r \<Rightarrow> False | Inr s \<Rightarrow> b s) (\<lambda>x. and_then x c) (Inl r) = Some (Inl r)" for r
    by (subst while_option_unfold) simp
  show ?thesis
    unfolding while_loop_def by (subst while_option_unfold) (simp add: stop split: sum.splits)
qed

lemma for_each_rule:
  assumes "P xs s"
    and "\<And>x xs s. P (x # xs) s \<Longrightarrow> case f x s of Inl r \<Rightarrow> Q r | Inr s' \<Rightarrow> P xs s'"
  shows "case for_each f xs s of Inl r \<Rightarrow> Q r | Inr s' \<Rightarrow> P [] s'"
  using assms(1)
proof (induction xs arbitrary: s)
  case (Cons x xs)
  show ?case using assms(2) [OF Cons.prems] Cons.IH by (cases "f x s") auto
qed simp

lemma for_each_cong [fundef_cong]:
  assumes "xs = ys" and "s = t" and "\<And>x s. x \<in> set ys \<Longrightarrow> f x s = g x s"
  shows "for_each f xs s = for_each g ys t"
proof -
  have "for_each f xs s = for_each g xs s" if "\<And>x s. x \<in> set xs \<Longrightarrow> f x s = g x s" for xs s
    using that by (induction xs arbitrary: s) (auto simp: and_then_def split: sum.splits)
  then show ?thesis using assms by simp
qed

lemma for_each_append: "for_each f (xs @ ys) s = and_then (for_each f xs s) (for_each f ys)"
  by (induction xs arbitrary: s) (auto simp: and_then_def split: sum.splits)

lemma while_loop_total:
  fixes f :: "'s \<Rightarrow> nat"
  assumes "P s"
    and "\<And>s. P s \<Longrightarrow> b s \<Longrightarrow> case c s of Inl r \<Rightarrow> Q r | Inr s' \<Rightarrow> P s' \<and> f s' < f s"
  shows "(\<exists>r. while_loop b c s = Some (Inl r) \<and> Q r) \<or>
    (\<exists>t. while_loop b c s = Some (Inr t) \<and> P t \<and> \<not> b t)"
  using assms(1)
proof (induction "f s" arbitrary: s rule: less_induct)
  case less
  show ?case
  proof (cases "b s")
    case True
    with assms(2) [OF less.prems] less.hyps show ?thesis
      by (subst (1 2) while_loop_unfold) (cases "c s", auto)
  next
    case False
    then show ?thesis using less.prems by (subst (1 2) while_loop_unfold) simp
  qed
qed

lemma while_option_total:
  fixes f :: "'s \<Rightarrow> nat"
  assumes "P s" and "\<And>s. P s \<Longrightarrow> b s \<Longrightarrow> P (c s) \<and> f (c s) < f s"
  shows "\<exists>t. while_option b c s = Some t \<and> P t \<and> \<not> b t"
proof -
  from measure_while_option_Some [of P b c f, OF assms(2,1)]
  obtain t where t: "while_option b c s = Some t" by blast
  moreover have "P t" using while_option_rule [of P b c s t, OF _ t assms(1)] assms(2) by blast
  ultimately show ?thesis using while_option_stop [OF t] by blast
qed

lemma fold_rule:
  assumes "P xs s" and "\<And>x xs s. P (x # xs) s \<Longrightarrow> P xs (f x s)"
  shows "P [] (fold f xs s)"
  using assms(1)
proof (induction xs arbitrary: s)
  case (Cons x xs)
  show ?case using Cons.IH [OF assms(2) [OF Cons.prems]] by simp
qed simp

end
