(* ===== verification/Search.thy ===== *)
theory Search
  imports Loops
begin

text \<open>
  Breadth-first search, once for all the searches of the topology. The locale \<open>bfs\<close> fixes the
  neighbours a search goes through, the test that lets it pass and a finite set it cannot leave. Its
  lemmas are the steps of a search: taking a node from the queue, skipping a neighbour, marking one.
  They keep an invariant on the depths of the marked nodes and on the queue, and a measure that drops
  with every round. At the end the depths are the distances from the source; when a search stops early
  at a node, its depth is already the distance. \<open>pred_chain\<close> is the part about predecessors.
\<close>

definition steps :: "('n \<Rightarrow> 'n \<Rightarrow> bool) \<Rightarrow> nat \<Rightarrow> 'n \<Rightarrow> 'n \<Rightarrow> bool" where
  "steps E k x y \<longleftrightarrow> (\<exists>p. p \<noteq> [] \<and> hd p = x \<and> last p = y \<and> length p = Suc k \<and> successively E p)"

lemma steps_0 [simp]: "steps E 0 x y \<longleftrightarrow> x = y"
  by (auto simp: steps_def length_Suc_conv)

lemma steps_Suc: "steps E (Suc k) x y \<longleftrightarrow> (\<exists>z. E x z \<and> steps E k z y)"
proof
  assume "steps E (Suc k) x y"
  then obtain p where p: "hd p = x" "last p = y" "length p = Suc (Suc k)" "successively E p"
    by (auto simp: steps_def)
  then obtain z r where "p = x # z # r" by (cases p; cases "tl p") auto
  with p have "E x z" "z # r \<noteq> []" "hd (z # r) = z" "last (z # r) = y" "length (z # r) = Suc k" "successively E (z # r)"
    by auto
  then show "\<exists>z. E x z \<and> steps E k z y" unfolding steps_def by blast
next
  assume "\<exists>z. E x z \<and> steps E k z y"
  then obtain z p where "E x z" "p \<noteq> []" "hd p = z" "last p = y" "length p = Suc k" "successively E p"
    by (auto simp: steps_def)
  then show "steps E (Suc k) x y"
    unfolding steps_def by (intro exI [of _ "x # p"]) (auto simp: successively_Cons)
qed

lemma steps_snoc: "steps E k x z \<Longrightarrow> E z y \<Longrightarrow> steps E (Suc k) x y"
  by (induction k arbitrary: x) (auto simp: steps_Suc)

lemma steps_rtranclp: "steps E k x y \<Longrightarrow> E\<^sup>*\<^sup>* x y"
  by (induction k arbitrary: x) (auto simp: steps_Suc intro: converse_rtranclp_into_rtranclp)

lemma rtranclp_steps: "E\<^sup>*\<^sup>* x y \<Longrightarrow> \<exists>k. steps E k x y"
proof (induction rule: rtranclp_induct)
  case base
  show ?case by (rule exI [of _ 0]) simp
qed (blast intro: steps_snoc)

text \<open>The walk back from a node along its predecessors, as far as the source.\<close>

definition trace_back :: "('n \<rightharpoonup> 'n) \<Rightarrow> 'n \<Rightarrow> 'n \<Rightarrow> 'n list option option" where
  "trace_back pred source destination =
     map_option (\<lambda>r. case r of Inl _ \<Rightarrow> None | Inr (_, reversed) \<Rightarrow> Some (rev reversed))
       (while_loop (\<lambda>(cursor, _). cursor \<noteq> source)
          (\<lambda>(cursor, reversed). case pred cursor of
              None \<Rightarrow> Inl ()
            | Some cursor \<Rightarrow> Inr (cursor, reversed @ [cursor]))
          (destination, [destination]))"

definition walk :: "('n \<Rightarrow> 'n \<Rightarrow> bool) \<Rightarrow> 'n \<Rightarrow> 'n \<Rightarrow> 'n list \<Rightarrow> bool" where
  "walk E x y p \<longleftrightarrow> p \<noteq> [] \<and> hd p = x \<and> last p = y \<and> successively E p"

lemma walk_steps: "walk E x y p \<Longrightarrow> steps E (length p - 1) x y"
  unfolding walk_def steps_def by (intro exI [of _ p]) auto

lemma walk_Cons: "walk E x y p \<Longrightarrow> E z x \<Longrightarrow> walk E z y (z # p)"
  by (auto simp: walk_def successively_Cons)

locale bfs =
  fixes nbrs :: "'n \<Rightarrow> 'n list"
    and ok :: "'n \<Rightarrow> 'n \<Rightarrow> bool"
    and src :: 'n
    and nodes :: "'n set"
  assumes finite_nodes: "finite nodes"
    and src_node: "src \<in> nodes"
    and nbr_node: "z \<in> set (nbrs u) \<Longrightarrow> z \<in> nodes"
begin

definition edge :: "'n \<Rightarrow> 'n \<Rightarrow> bool" where
  "edge u z \<longleftrightarrow> z \<in> set (nbrs u) \<and> ok u z"

definition base :: "('n \<rightharpoonup> nat) \<Rightarrow> bool" where
  "base depth \<longleftrightarrow> depth src = Some 0 \<and> dom depth \<subseteq> nodes \<and> (\<forall>x d. depth x = Some d \<longrightarrow> steps edge d src x)"

definition closed :: "('n \<rightharpoonup> nat) \<Rightarrow> 'n set \<Rightarrow> bool" where
  "closed depth X \<longleftrightarrow>
     (\<forall>x z d. x \<in> X \<longrightarrow> depth x = Some d \<longrightarrow> edge x z \<longrightarrow> (\<exists>d'. depth z = Some d' \<and> d' \<le> Suc d))"

definition queued :: "('n \<rightharpoonup> nat) \<Rightarrow> 'n list \<Rightarrow> bool" where
  "queued depth q \<longleftrightarrow> base depth \<and> set q \<subseteq> dom depth \<and> sorted (map (the \<circ> depth) q) \<and>
     (q \<noteq> [] \<longrightarrow> (\<forall>x \<in> dom depth. the (depth x) \<le> Suc (the (depth (hd q))))) \<and>
     closed depth (- set q)"

definition scanning :: "('n \<rightharpoonup> nat) \<Rightarrow> 'n list \<Rightarrow> 'n \<Rightarrow> 'n list \<Rightarrow> bool" where
  "scanning depth q u R \<longleftrightarrow> base depth \<and> set (u # q) \<subseteq> dom depth \<and>
     sorted (map (the \<circ> depth) (u # q)) \<and>
     (\<forall>x \<in> dom depth. the (depth x) \<le> Suc (the (depth u))) \<and>
     closed depth (- set (u # q)) \<and> set R \<subseteq> set (nbrs u) \<and>
     (\<forall>z. edge u z \<longrightarrow> z \<in> dom depth \<or> z \<in> set R)"

definition work :: "('n \<rightharpoonup> nat) \<Rightarrow> 'n list \<Rightarrow> nat" where
  "work depth q = card (nodes - dom depth) + length q"

lemma start: "queued [src \<mapsto> 0] [src]"
  by (auto simp: queued_def base_def closed_def src_node)

lemma closedD:
  "closed depth X \<Longrightarrow> x \<in> X \<Longrightarrow> depth x = Some d \<Longrightarrow> edge x z \<Longrightarrow> \<exists>d'. depth z = Some d' \<and> d' \<le> Suc d"
  by (simp add: closed_def)

lemma take: "queued depth (u # q) \<Longrightarrow> scanning depth q u (nbrs u)"
  by (auto simp: queued_def scanning_def closed_def edge_def)

lemma skip: "scanning depth q u (z # R) \<Longrightarrow> \<not> ok u z \<or> z \<in> dom depth \<Longrightarrow> scanning depth q u R"
  by (auto simp: scanning_def edge_def)

lemma mark:
  assumes "scanning depth q u (z # R)" and "ok u z" and "z \<notin> dom depth"
  shows "scanning (depth(z \<mapsto> Suc (the (depth u)))) (q @ [z]) u R" (is "scanning ?depth _ _ _")
    and "work (depth(z \<mapsto> Suc (the (depth u)))) (q @ [z]) = work depth q"
proof -
  from assms have e: "edge u z" and node: "z \<in> nodes" and dom: "dom depth \<subseteq> nodes"
    by (auto simp: scanning_def edge_def base_def intro: nbr_node)
  from assms(1) obtain d where d: "depth u = Some d" "steps edge d src u"
    by (auto simp: scanning_def base_def)
  from assms(3) have fresh: "depth z = None" and ne: "u \<noteq> z" using d by auto
  have same: "map (the \<circ> ?depth) (u # q) = map (the \<circ> depth) (u # q)"
    using assms by (intro map_cong) (auto simp: scanning_def)
  have "\<forall>x \<in> set (u # q). the (depth x) \<le> Suc d" and "sorted (map (the \<circ> depth) (u # q))"
    using assms(1) d by (auto simp: scanning_def)
  then have "sorted (map (the \<circ> depth) (u # q) @ [Suc d])" by (auto simp: sorted_append)
  then have "sorted (map (the \<circ> ?depth) ((u # q) @ [z]))"
    unfolding map_append same using d by simp
  moreover have "closed ?depth (- set (u # q @ [z]))"
    unfolding closed_def
  proof (intro allI impI)
    fix x y e
    assume x: "x \<in> - set (u # q @ [z])" "?depth x = Some e" "edge x y"
    then have "depth x = Some e" "x \<in> - set (u # q)" by (auto split: if_splits)
    moreover have "closed depth (- set (u # q))" using assms(1) by (simp add: scanning_def)
    ultimately obtain e' where "depth y = Some e'" "e' \<le> Suc e" using closedD x(3) by metis
    with fresh show "\<exists>e'. ?depth y = Some e' \<and> e' \<le> Suc e" by (intro exI [of _ e']) auto
  qed
  moreover have "base ?depth"
  proof -
    have "base depth" using assms(1) by (simp add: scanning_def)
    then show ?thesis
      using fresh node d(1) steps_snoc [OF d(2) e] by (auto simp: base_def)
  qed
  ultimately show "scanning ?depth (q @ [z]) u R"
    using assms(1) d ne fresh by (auto simp: scanning_def)
  have "nodes - dom ?depth = (nodes - dom depth) - {z}" by auto
  then show "work ?depth (q @ [z]) = work depth q"
    using card_Suc_Diff1 [of "nodes - dom depth" z] finite_nodes node assms(3) by (simp add: work_def)
qed

lemma close:
  assumes "scanning depth q u []"
  shows "queued depth q"
proof -
  note s = assms [unfolded scanning_def]
  have "closed depth (- set q)"
    unfolding closed_def
  proof (intro allI impI)
    fix x z d
    assume x: "x \<in> - set q" "depth x = Some d" "edge x z"
    show "\<exists>d'. depth z = Some d' \<and> d' \<le> Suc d"
    proof (cases "x = u")
      case True
      with s x(3) have z: "z \<in> dom depth" by auto
      then have "the (depth z) \<le> Suc (the (depth u))" using s by blast
      with z True x(2) show ?thesis by auto
    next
      case False
      with x(1) have "x \<in> - set (u # q)" by simp
      with s x(2,3) show ?thesis using closedD by metis
    qed
  qed
  moreover have "the (depth x) \<le> Suc (the (depth (hd q)))" if "x \<in> dom depth" "q \<noteq> []" for x
  proof -
    have "the (depth x) \<le> Suc (the (depth u))" using s that(1) by blast
    moreover have "the (depth u) \<le> the (depth (hd q))" using s that(2) by (cases q) auto
    ultimately show ?thesis by simp
  qed
  moreover have "sorted (map (the \<circ> depth) q)" using s by simp
  ultimately show ?thesis using s unfolding queued_def by simp
qed

lemma work_take: "work depth q < work depth (u # q)"
  by (simp add: work_def)

text \<open>A walk from a marked node ends in a marked node or runs through the nodes still to be searched.\<close>

lemma frontier:
  assumes "closed depth (- X)" and "steps edge k y x" and "depth y = Some d"
  shows "(\<exists>d'. depth x = Some d' \<and> d' \<le> d + k) \<or>
    (\<exists>w m j. w \<in> X \<and> depth w = Some m \<and> steps edge (Suc j) w x \<and> m + Suc j \<le> d + k)"
  using assms(2,3)
proof (induction k arbitrary: y d)
  case (Suc k)
  show ?case
  proof (cases "y \<in> X")
    case True
    then show ?thesis using Suc.prems by blast
  next
    case False
    from Suc.prems(1) obtain z where z: "edge y z" "steps edge k z x" by (auto simp: steps_Suc)
    from closedD [OF assms(1) _ Suc.prems(2) z(1)] False
    obtain d' where "depth z = Some d'" "d' \<le> Suc d" by auto
    with Suc.IH [OF z(2) this(1)] show ?thesis by (fastforce dest: le_trans)
  qed
qed auto

lemma complete:
  assumes "queued depth []" and "steps edge k src x"
  shows "\<exists>d \<le> k. depth x = Some d"
  using assms frontier [of depth "{}" k src x 0] by (auto simp: queued_def base_def)

lemma sound: "base depth \<Longrightarrow> depth x = Some d \<Longrightarrow> steps edge d src x"
  by (simp add: base_def)

lemma reachable:
  assumes "queued depth []"
  shows "x \<in> dom depth \<longleftrightarrow> edge\<^sup>*\<^sup>* src x"
proof
  assume "x \<in> dom depth"
  then show "edge\<^sup>*\<^sup>* src x" using assms by (auto simp: queued_def base_def intro: steps_rtranclp)
next
  assume "edge\<^sup>*\<^sup>* src x"
  then obtain k where "steps edge k src x" using rtranclp_steps by metis
  then show "x \<in> dom depth" using complete [OF assms] by blast
qed

lemma early:
  assumes "scanning depth q u R" and "z \<notin> dom depth" and "steps edge k src z"
  shows "Suc (the (depth u)) \<le> k"
proof -
  from assms(1) have "closed depth (- set (u # q))" "depth src = Some 0"
    by (auto simp: scanning_def base_def)
  from frontier [OF this(1) assms(3) this(2)] assms(2) obtain w m j
    where w: "w \<in> set (u # q)" "depth w = Some m" "m + Suc j \<le> k" by auto
  have "the (depth u) \<le> the (depth w)" using assms(1) w(1) by (auto simp: scanning_def)
  with w show ?thesis by simp
qed

definition pred_chain :: "('n \<rightharpoonup> nat) \<Rightarrow> ('n \<rightharpoonup> 'n) \<Rightarrow> bool" where
  "pred_chain depth pred \<longleftrightarrow> (\<forall>x d. depth x = Some (Suc d) \<longrightarrow>
     (\<exists>y. pred x = Some y \<and> depth y = Some d \<and> edge y x))"

lemma chain_start: "pred_chain [src \<mapsto> 0] pred"
  by (simp add: pred_chain_def)

lemma chain_mark:
  assumes "pred_chain depth pred" and "scanning depth q u (z # R)" and "ok u z" and "z \<notin> dom depth"
  shows "pred_chain (depth(z \<mapsto> Suc (the (depth u)))) (pred(z \<mapsto> u))"
proof -
  from assms(2) obtain d where "depth u = Some d" by (auto simp: scanning_def)
  moreover from this assms(4) have "u \<noteq> z" by auto
  moreover have "edge u z" using assms(2,3) by (auto simp: scanning_def edge_def)
  ultimately show ?thesis
    using assms(1,4) unfolding pred_chain_def by (auto simp: domIff) (metis option.distinct(1))
qed

lemma depth_0: "base depth \<Longrightarrow> depth x = Some 0 \<Longrightarrow> x = src"
  by (fastforce simp: base_def)

lemma trace_back_walk:
  assumes "base depth" and "pred_chain depth pred" and "depth x = Some d"
  shows "\<exists>p. trace_back pred src x = Some (Some p) \<and> walk edge src x p \<and> length p = Suc d \<and> distinct p"
proof -
  let ?b = "\<lambda>(cursor, _ :: 'n list). cursor \<noteq> src"
  let ?c = "\<lambda>(cursor, reversed). case pred cursor of None \<Rightarrow> Inl () | Some cursor \<Rightarrow> Inr (cursor, reversed @ [cursor])"
  define P where "P = (\<lambda>(cursor, reversed). walk edge cursor x (rev reversed) \<and>
    (\<exists>e \<le> d. depth cursor = Some e \<and> map (the \<circ> depth) (rev reversed) = [e..<Suc d]))"
  have "(\<exists>r. while_loop ?b ?c (x, [x]) = Some (Inl r) \<and> False) \<or> (\<exists>t. while_loop ?b ?c (x, [x]) = Some (Inr t) \<and> P t \<and> \<not> ?b t)"
  proof (rule while_loop_total [where f = "\<lambda>(cursor, _). the (depth cursor)"])
    show "P (x, [x])" using assms(3) by (simp add: P_def walk_def)
    fix s
    assume "P s" "?b s"
    then obtain c r e where s: "s = (c, r)" "c \<noteq> src" "walk edge c x (rev r)" "e \<le> d" "depth c = Some e"
      "map (the \<circ> depth) (rev r) = [e..<Suc d]"
      by (auto simp: P_def)
    then obtain e' where e: "e = Suc e'" using depth_0 [OF assms(1)] by (cases e) auto
    with assms(2) s(5) obtain y where y: "pred c = Some y" "depth y = Some e'" "edge y c"
      by (auto simp: pred_chain_def)
    have "map (the \<circ> depth) (y # rev r) = [e'..<Suc d]"
      using s(4,6) y(2) e by (simp add: upt_conv_Cons)
    with s y e walk_Cons [OF s(3) y(3)] show "case ?c s of Inl r \<Rightarrow> False | Inr s' \<Rightarrow> P s' \<and> (\<lambda>(cursor, _). the (depth cursor)) s' < (\<lambda>(cursor, _). the (depth cursor)) s"
      by (simp add: P_def)
  qed
  then obtain r where r: "while_loop ?b ?c (x, [x]) = Some (Inr (src, r))" "P (src, r)" by auto
  then have m: "map (the \<circ> depth) (rev r) = [0..<Suc d]" using assms(1) by (simp add: P_def base_def)
  have "length (rev r) = Suc d" using arg_cong [OF m, of length] by simp
  moreover have "distinct (rev r)" using m by (metis distinct_map distinct_upt)
  ultimately show ?thesis using r by (intro exI [of _ "rev r"]) (simp add: trace_back_def P_def)
qed

end

end
