(* ===== verification/TopologyGraph.thy ===== *)
theory TopologyGraph
  imports Search Multihop
begin

text \<open>
  The undirected graph of the relay backbone (\<open>crates/ipars-control-plane/src/bounded_topology.rs\<close>):
  edges, adjacency, the invariants inspected after synthesis, distances, the diameter bound and the
  depth-first search for articulation points. A \<open>BTreeSet\<close> is a strictly ascending list. A function
  with a loop that ends for a reason the program text alone does not show has an option type: \<open>None\<close>
  stands for a call that never returns. The lemmas show that every call returns, that the distances are
  the distances of the graph, that the diameter bound is one, and that a graph without a reported
  articulation point stays connected when any one node fails.
\<close>

subsection \<open>Edges and adjacency\<close>

datatype topology_edge = TopologyEdge (te_first: node_id) (te_second: node_id)

instantiation topology_edge :: linorder
begin

definition less_eq_topology_edge :: "topology_edge \<Rightarrow> topology_edge \<Rightarrow> bool" where
  "less_eq_topology_edge a b \<longleftrightarrow> (te_first a, te_second a) \<le> (te_first b, te_second b)"

definition less_topology_edge :: "topology_edge \<Rightarrow> topology_edge \<Rightarrow> bool" where
  "less_topology_edge a b \<longleftrightarrow> (te_first a, te_second a) < (te_first b, te_second b)"

instance
proof
  fix a b c :: topology_edge
  show "(a < b) = (a \<le> b \<and> \<not> b \<le> a)"
    unfolding less_eq_topology_edge_def less_topology_edge_def by (rule less_le_not_le)
  show "a \<le> a" unfolding less_eq_topology_edge_def by (rule order_refl)
  show "a \<le> b \<or> b \<le> a" unfolding less_eq_topology_edge_def by (rule linear)
  show "a \<le> b \<Longrightarrow> b \<le> c \<Longrightarrow> a \<le> c"
    unfolding less_eq_topology_edge_def by (rule order_trans)
  show "a \<le> b \<Longrightarrow> b \<le> a \<Longrightarrow> a = b"
    unfolding less_eq_topology_edge_def by (cases a; cases b) (metis order_antisym prod.inject topology_edge.sel)
qed

end

definition topology_edge_new :: "node_id \<Rightarrow> node_id \<Rightarrow> topology_edge option" where
  "topology_edge_new first second =
     (if first = second then None
      else if first < second then Some (TopologyEdge first second)
      else Some (TopologyEdge second first))"

type_synonym adjacency = "(node_id, node_id list) amap"

definition add_undirected_edge :: "node_id \<Rightarrow> node_id \<Rightarrow> adjacency \<Rightarrow> adjacency" where
  "add_undirected_edge first second adjacency =
     (if first = second then adjacency
      else
        let adjacency = (case am_get adjacency first of
              None \<Rightarrow> adjacency
            | Some neighbors \<Rightarrow> bm_insert first (insort_insert second neighbors) adjacency)
        in case am_get adjacency second of
             None \<Rightarrow> adjacency
           | Some neighbors \<Rightarrow> bm_insert second (insort_insert first neighbors) adjacency)"

subsection \<open>Distances\<close>

record distance_search =
  ds_distances :: "(node_id, nat) amap"
  ds_queue :: "node_id list"

definition record_distance :: "nat \<Rightarrow> node_id \<Rightarrow> distance_search \<Rightarrow> distance_search" where
  "record_distance distance neighbor s =
     (if am_get (ds_distances s) neighbor \<noteq> None then s
      else s\<lparr>ds_distances := bm_insert neighbor (distance + 1) (ds_distances s), ds_queue := ds_queue s @ [neighbor]\<rparr>)"

definition distances_step :: "adjacency \<Rightarrow> distance_search \<Rightarrow> distance_search" where
  "distances_step adjacency s =
     (case ds_queue s of
        [] \<Rightarrow> s
      | current # queue \<Rightarrow>
          let s = s\<lparr>ds_queue := queue\<rparr> in
          case am_get (ds_distances s) current of
            None \<Rightarrow> s
          | Some distance \<Rightarrow>
              (case am_get adjacency current of
                 None \<Rightarrow> s
               | Some neighbors \<Rightarrow> fold (record_distance distance) neighbors s))"

definition distances_from :: "node_id \<Rightarrow> adjacency \<Rightarrow> (node_id, nat) amap option" where
  "distances_from source adjacency =
     map_option ds_distances
       (while_option (\<lambda>s. ds_queue s \<noteq> []) (distances_step adjacency)
          \<lparr>ds_distances = [(source, 0)], ds_queue = [source]\<rparr>)"

definition graph_is_connected :: "adjacency \<Rightarrow> bool option" where
  "graph_is_connected adjacency =
     (case adjacency of
        [] \<Rightarrow> Some True
      | (start, _) # _ \<Rightarrow> map_option (\<lambda>d. length d = length adjacency) (distances_from start adjacency))"

text \<open>\<open>max_by\<close> on (distance, node): the last of the greatest entries.\<close>

fun farthest :: "(node_id, nat) amap \<Rightarrow> (node_id \<times> nat) option" where
  "farthest [] = None"
| "farthest ((node, distance) # rest) =
     (case farthest rest of
        None \<Rightarrow> Some (node, distance)
      | Some (n, d) \<Rightarrow> if (distance, node) \<le> (d, n) then Some (n, d) else Some (node, distance))"

fun diameter_sweeps :: "nat \<Rightarrow> adjacency \<Rightarrow> node_id \<Rightarrow> nat \<Rightarrow> nat option option" where
  "diameter_sweeps 0 adjacency source lower_bound = Some (Some lower_bound)"
| "diameter_sweeps (Suc n) adjacency source lower_bound =
     Option.bind (distances_from source adjacency) (\<lambda>distances.
       if length distances \<noteq> length adjacency then Some None
       else case farthest distances of
         None \<Rightarrow> Some None
       | Some (node, distance) \<Rightarrow>
           if distance \<le> lower_bound then Some (Some lower_bound)
           else diameter_sweeps n adjacency node distance)"

definition calculate_diameter_lower_bound :: "adjacency \<Rightarrow> nat option option" where
  "calculate_diameter_lower_bound adjacency =
     (case adjacency of
        [] \<Rightarrow> Some None
      | (source, _) # _ \<Rightarrow> diameter_sweeps 4 adjacency source 0)"

subsection \<open>Articulation points\<close>

record dfs_state =
  df_discovery :: "(node_id, nat) amap"
  df_low :: "(node_id, nat) amap"
  df_time :: nat

definition dfs_enter :: "node_id \<Rightarrow> dfs_state \<Rightarrow> dfs_state" where
  "dfs_enter node s =
     \<lparr>df_discovery = bm_insert node (df_time s) (df_discovery s),
      df_low = bm_insert node (df_time s) (df_low s),
      df_time = df_time s + 1\<rparr>"

definition lower_low :: "node_id \<Rightarrow> nat \<Rightarrow> dfs_state \<Rightarrow> dfs_state" where
  "lower_low node bound s =
     (case am_get (df_low s) node of
        None \<Rightarrow> s
      | Some node_low \<Rightarrow> s\<lparr>df_low := bm_insert node (min node_low bound) (df_low s)\<rparr>)"

partial_function (option) articulation_neighbors ::
  "adjacency \<Rightarrow> node_id \<Rightarrow> node_id option \<Rightarrow> nat \<Rightarrow> node_id list \<Rightarrow> nat \<Rightarrow> dfs_state \<Rightarrow> (bool \<times> dfs_state) option" where
  "articulation_neighbors adjacency node parent discovered_at neighbors child_count s =
     (case neighbors of
        [] \<Rightarrow> Some (parent = None \<and> child_count > 1, s)
      | neighbor # rest \<Rightarrow>
          if parent = Some neighbor
          then articulation_neighbors adjacency node parent discovered_at rest child_count s
          else case am_get (df_discovery s) neighbor of
            Some neighbor_discovery \<Rightarrow>
              articulation_neighbors adjacency node parent discovered_at rest child_count
                (lower_low node neighbor_discovery s)
          | None \<Rightarrow>
              Option.bind
                (case am_get adjacency neighbor of
                   None \<Rightarrow> Some (False, dfs_enter neighbor s)
                 | Some ns \<Rightarrow>
                     articulation_neighbors adjacency neighbor (Some node) (df_time s) ns 0 (dfs_enter neighbor s))
                (\<lambda>(found, s').
                  if found then Some (True, s')
                  else
                    let neighbor_low = (case am_get (df_low s') neighbor of None \<Rightarrow> discovered_at | Some l \<Rightarrow> l) in
                    if parent \<noteq> None \<and> discovered_at \<le> neighbor_low then Some (True, s')
                    else articulation_neighbors adjacency node parent discovered_at rest (child_count + 1)
                           (lower_low node neighbor_low s')))"

declare articulation_neighbors.simps [code]

definition articulation_dfs ::
  "node_id \<Rightarrow> node_id option \<Rightarrow> adjacency \<Rightarrow> dfs_state \<Rightarrow> (bool \<times> dfs_state) option" where
  "articulation_dfs node parent adjacency s =
     (case am_get adjacency node of
        None \<Rightarrow> Some (False, dfs_enter node s)
      | Some neighbors \<Rightarrow>
          articulation_neighbors adjacency node parent (df_time s) neighbors 0 (dfs_enter node s))"

definition graph_has_no_articulation_points :: "adjacency \<Rightarrow> bool option" where
  "graph_has_no_articulation_points adjacency =
     (if length adjacency \<le> 2 then Some True
      else case adjacency of
        [] \<Rightarrow> Some True
      | (root, _) # _ \<Rightarrow>
          map_option (\<lambda>(found, s). \<not> found \<and> length (df_discovery s) = length adjacency)
            (articulation_dfs root None adjacency \<lparr>df_discovery = [], df_low = [], df_time = 0\<rparr>))"

subsection \<open>Inspection\<close>

record topology_invariants =
  ti_node_count :: nat
  ti_edge_count :: nat
  ti_max_observed_degree :: nat
  ti_connected :: bool
  ti_symmetric :: bool
  ti_no_self_loops :: bool
  ti_within_degree_bound :: bool

definition are_satisfied :: "topology_invariants \<Rightarrow> bool" where
  "are_satisfied i \<longleftrightarrow> ti_connected i \<and> ti_symmetric i \<and> ti_no_self_loops i \<and> ti_within_degree_bound i"

definition has_neighbor :: "adjacency \<Rightarrow> node_id \<Rightarrow> node_id \<Rightarrow> bool" where
  "has_neighbor adjacency node neighbor \<longleftrightarrow>
     (case am_get adjacency node of None \<Rightarrow> False | Some neighbors \<Rightarrow> neighbor \<in> set neighbors)"

definition inspect_invariants :: "adjacency \<Rightarrow> nat \<Rightarrow> topology_invariants option" where
  "inspect_invariants adjacency max_degree =
     (let no_self_loops = list_all (\<lambda>(node, neighbors). node \<notin> set neighbors) adjacency;
          symmetric = list_all (\<lambda>(node, neighbors).
            list_all (\<lambda>neighbor. has_neighbor adjacency neighbor node) neighbors) adjacency;
          max_observed_degree = fold max (map (length \<circ> snd) adjacency) 0;
          edge_count = length (remdups (concat (map (\<lambda>(node, neighbors).
            List.map_filter (topology_edge_new node) neighbors) adjacency)))
      in map_option (\<lambda>connected.
           \<lparr>ti_node_count = length adjacency, ti_edge_count = edge_count,
            ti_max_observed_degree = max_observed_degree, ti_connected = connected,
            ti_symmetric = symmetric, ti_no_self_loops = no_self_loops,
            ti_within_degree_bound = max_observed_degree \<le> max_degree\<rparr>)
         (graph_is_connected adjacency))"

subsection \<open>Breadth-first distances\<close>

definition neighbors_of :: "adjacency \<Rightarrow> node_id \<Rightarrow> node_id list" where
  "neighbors_of adjacency node = (case am_get adjacency node of None \<Rightarrow> [] | Some neighbors \<Rightarrow> neighbors)"

definition linked :: "adjacency \<Rightarrow> node_id \<Rightarrow> node_id \<Rightarrow> bool" where
  "linked adjacency x y \<longleftrightarrow> y \<in> set (neighbors_of adjacency x)"

definition search_space :: "adjacency \<Rightarrow> node_id \<Rightarrow> node_id set" where
  "search_space adjacency source = insert source (\<Union>(set ` snd ` set adjacency))"

lemma neighbors_in_space: "z \<in> set (neighbors_of adjacency u) \<Longrightarrow> z \<in> search_space adjacency source"
  using map_of_SomeD [of adjacency u] by (cases "am_get adjacency u") (force simp: neighbors_of_def search_space_def)+

interpretation dist: bfs "neighbors_of adjacency" "\<lambda>_ _. True" source "search_space adjacency source"
  for adjacency source
  by (unfold_locales, simp_all add: search_space_def)
    (rule neighbors_in_space [unfolded search_space_def, simplified])

lemma dist_edge: "dist.edge adjacency = linked adjacency"
  by (intro ext) (simp add: dist.edge_def linked_def)

definition distance_inv :: "adjacency \<Rightarrow> node_id \<Rightarrow> distance_search \<Rightarrow> bool" where
  "distance_inv adjacency source s \<longleftrightarrow>
     bm_wf (ds_distances s) \<and> dist.queued adjacency source (am_get (ds_distances s)) (ds_queue s)"

definition distance_work :: "adjacency \<Rightarrow> node_id \<Rightarrow> distance_search \<Rightarrow> nat" where
  "distance_work adjacency source s = dist.work adjacency source (am_get (ds_distances s)) (ds_queue s)"

lemma record_distances:
  assumes "bm_wf (ds_distances s)" and "am_get (ds_distances s) u = Some d"
    and "dist.scanning adjacency source (am_get (ds_distances s)) (ds_queue s) u ns"
  defines "s' \<equiv> fold (record_distance d) ns s"
  shows "distance_inv adjacency source s' \<and> distance_work adjacency source s' = distance_work adjacency source s"
proof -
  define P where "P R t \<longleftrightarrow> bm_wf (ds_distances t) \<and> am_get (ds_distances t) u = Some d \<and>
    dist.scanning adjacency source (am_get (ds_distances t)) (ds_queue t) u R \<and>
    distance_work adjacency source t = distance_work adjacency source s" for R t
  have "P [] (fold (record_distance d) ns s)"
  proof (rule fold_rule)
    show "P ns s" using assms by (simp add: P_def)
    fix x xs t
    assume P: "P (x # xs) t"
    show "P xs (record_distance d x t)"
    proof (cases "am_get (ds_distances t) x")
      case None
      then have x: "x \<notin> dom (am_get (ds_distances t))" "x \<noteq> u" using P by (auto simp: P_def)
      from P have "dist.scanning adjacency source (am_get (ds_distances t)) (ds_queue t) u (x # xs)"
        by (simp add: P_def)
      from dist.mark [OF this _ x(1)] P x(2) None show ?thesis
        by (simp add: P_def record_distance_def bm_wf_insert bm_get_insert distance_work_def)
    next
      case (Some e)
      then have "x \<in> dom (am_get (ds_distances t))" by auto
      then show ?thesis using P Some dist.skip by (fastforce simp: P_def record_distance_def)
    qed
  qed
  then show ?thesis
    unfolding s'_def P_def distance_inv_def using dist.close by blast
qed

lemma distances_step_inv:
  assumes "distance_inv adjacency source s" and "ds_queue s \<noteq> []"
  shows "distance_inv adjacency source (distances_step adjacency s) \<and>
    distance_work adjacency source (distances_step adjacency s) < distance_work adjacency source s"
proof -
  from assms(2) obtain u q where q: "ds_queue s = u # q" by (cases "ds_queue s") auto
  let ?s = "s\<lparr>ds_queue := q\<rparr>"
  have scan: "dist.scanning adjacency source (am_get (ds_distances s)) q u (neighbors_of adjacency u)"
    using assms(1) q dist.take by (simp add: distance_inv_def)
  then obtain d where d: "am_get (ds_distances s) u = Some d"
    by (auto simp: dist.scanning_def)
  have step: "distances_step adjacency s = fold (record_distance d) (neighbors_of adjacency u) ?s"
    by (simp add: distances_step_def q d neighbors_of_def split: option.splits)
  have "distance_work adjacency source ?s < distance_work adjacency source s"
    by (simp add: distance_work_def q dist.work_take)
  then show ?thesis
    unfolding step using record_distances [of ?s u d] scan d assms(1) by (simp add: distance_inv_def)
qed

lemma distances_from_total:
  obtains m where "distances_from source adjacency = Some m" and "bm_wf m"
    and "dist.queued adjacency source (am_get m) []"
proof -
  have "distance_inv adjacency source \<lparr>ds_distances = [(source, 0)], ds_queue = [source]\<rparr>"
    using dist.start [of adjacency source] by (simp add: distance_inv_def bm_wf_def fun_upd_def)
  then have "\<exists>t. while_option (\<lambda>s. ds_queue s \<noteq> []) (distances_step adjacency)
      \<lparr>ds_distances = [(source, 0)], ds_queue = [source]\<rparr> = Some t \<and> distance_inv adjacency source t \<and> \<not> ds_queue t \<noteq> []"
    by (intro while_option_total [where f = "distance_work adjacency source"] distances_step_inv)
  then obtain t where "while_option (\<lambda>s. ds_queue s \<noteq> []) (distances_step adjacency)
      \<lparr>ds_distances = [(source, 0)], ds_queue = [source]\<rparr> = Some t" "distance_inv adjacency source t" "ds_queue t = []"
    by auto
  then show ?thesis using that [of "ds_distances t"] by (simp add: distances_from_def distance_inv_def)
qed

definition at_distance :: "adjacency \<Rightarrow> node_id \<Rightarrow> node_id \<Rightarrow> nat \<Rightarrow> bool" where
  "at_distance adjacency x y d \<longleftrightarrow> steps (linked adjacency) d x y \<and> (\<forall>k. steps (linked adjacency) k x y \<longrightarrow> d \<le> k)"

lemma distances_from_correct:
  "\<exists>m. distances_from source adjacency = Some m \<and> bm_wf m \<and>
     (\<forall>x d. am_get m x = Some d \<longleftrightarrow> at_distance adjacency source x d) \<and>
     (\<forall>x. x \<in> fst ` set m \<longleftrightarrow> (linked adjacency)\<^sup>*\<^sup>* source x)"
proof -
  obtain m where m: "distances_from source adjacency = Some m" "bm_wf m"
    "dist.queued adjacency source (am_get m) []" by (rule distances_from_total)
  have "am_get m x = Some d \<longleftrightarrow> at_distance adjacency source x d" for x d
  proof
    assume d: "am_get m x = Some d"
    then show "at_distance adjacency source x d"
      using dist.sound [of adjacency source "am_get m"] dist.complete [OF m(3)] m(3)
      by (fastforce simp: at_distance_def dist_edge dist.queued_def)
  next
    assume d: "at_distance adjacency source x d"
    then have "steps (dist.edge adjacency) d source x" by (simp add: at_distance_def dist_edge)
    from dist.complete [OF m(3) this] obtain e where e: "e \<le> d" "am_get m x = Some e" by blast
    moreover have "steps (linked adjacency) e source x"
      using e m(3) dist.sound [of adjacency source "am_get m"] by (auto simp: dist_edge dist.queued_def)
    ultimately show "am_get m x = Some d" using d by (auto simp: at_distance_def)
  qed
  moreover have "x \<in> fst ` set m \<longleftrightarrow> (linked adjacency)\<^sup>*\<^sup>* source x" for x
    using dist.reachable [OF m(3), of x] by (simp add: dist_edge dom_map_of_conv_image_fst)
  ultimately show ?thesis using m by blast
qed

subsection \<open>Connectivity\<close>

definition conn :: "('n \<Rightarrow> 'n \<Rightarrow> bool) \<Rightarrow> 'n set \<Rightarrow> 'n \<Rightarrow> 'n \<Rightarrow> bool" where
  "conn E X x y \<longleftrightarrow> x \<in> X \<and> y \<in> X \<and> (\<lambda>a b. (E a b \<or> E b a) \<and> a \<in> X \<and> b \<in> X)\<^sup>*\<^sup>* x y"

lemma conn_refl: "x \<in> X \<Longrightarrow> conn E X x x"
  by (simp add: conn_def)

lemma conn_edge: "E x y \<or> E y x \<Longrightarrow> x \<in> X \<Longrightarrow> y \<in> X \<Longrightarrow> conn E X x y"
  unfolding conn_def by (intro conjI r_into_rtranclp) auto

lemma conn_trans: "conn E X x y \<Longrightarrow> conn E X y z \<Longrightarrow> conn E X x z"
  unfolding conn_def using rtranclp_trans [of _ x y z] by blast

lemma conn_sym: "conn E X x y \<Longrightarrow> conn E X y x"
proof -
  have "symp (\<lambda>a b. (E a b \<or> E b a) \<and> a \<in> X \<and> b \<in> X)" by (auto intro: sympI)
  then have "symp (\<lambda>a b. (E a b \<or> E b a) \<and> a \<in> X \<and> b \<in> X)\<^sup>*\<^sup>*" by (rule symp_rtranclp)
  then show "conn E X x y \<Longrightarrow> conn E X y x" by (auto simp: conn_def dest: sympD)
qed

lemma conn_mono: "conn E X x y \<Longrightarrow> X \<subseteq> Y \<Longrightarrow> conn E Y x y"
  unfolding conn_def
  using rtranclp_mono [of "\<lambda>a b. (E a b \<or> E b a) \<and> a \<in> X \<and> b \<in> X" "\<lambda>a b. (E a b \<or> E b a) \<and> a \<in> Y \<and> b \<in> Y"]
  by (auto simp: le_fun_def)

text \<open>
  A part \<open>S\<close> of the graph entered at \<open>n\<close>, with \<open>D\<close> the nodes known before, is robust when every node
  of it keeps, after the failure of any other node of it, a way to \<open>n\<close> or out of the part into \<open>D\<close>.
  For the entry itself that is only asked below the root.
\<close>

definition anchored :: "('n \<Rightarrow> 'n \<Rightarrow> bool) \<Rightarrow> 'n set \<Rightarrow> 'n \<Rightarrow> 'n set \<Rightarrow> 'n \<Rightarrow> bool" where
  "anchored E D n X x \<longleftrightarrow> (\<exists>z. conn E X x z \<and> (z = n \<or> (\<exists>w \<in> D. E z w)))"

definition robust :: "('n \<Rightarrow> 'n \<Rightarrow> bool) \<Rightarrow> 'n set \<Rightarrow> 'n \<Rightarrow> 'n set \<Rightarrow> bool \<Rightarrow> bool" where
  "robust E D n S below \<longleftrightarrow> n \<in> S \<and> D \<inter> S = {} \<and> (\<forall>x \<in> S. conn E S n x) \<and>
     (\<forall>v \<in> S. \<forall>x \<in> S - {v}. v \<noteq> n \<or> below \<longrightarrow> anchored E D n (S - {v}) x)"

lemma anchored_mono: "anchored E D n X x \<Longrightarrow> X \<subseteq> Y \<Longrightarrow> anchored E D n Y x"
  unfolding anchored_def by (blast intro: conn_mono)

lemma robust_single: "n \<notin> D \<Longrightarrow> robust E D n {n} below"
  by (simp add: robust_def conn_refl)

lemma anchored_entry: "conn E X x n \<Longrightarrow> anchored E D n X x"
  by (auto simp: anchored_def)

lemma robust_join:
  assumes S: "robust E D n S below" and C: "robust E (D \<union> S) c C True"
    and edge: "E n c" and exit: "below \<Longrightarrow> \<exists>y \<in> C. \<exists>w \<in> D. E y w"
  shows "robust E D n (S \<union> C) below"
proof -
  let ?SC = "S \<union> C"
  from S C have sets: "n \<in> S" "c \<in> C" "D \<inter> S = {}" "D \<inter> C = {}" "S \<inter> C = {}"
    by (auto simp: robust_def)
  have toC: "x \<in> C \<Longrightarrow> conn E C c x" and toS: "x \<in> S \<Longrightarrow> conn E S n x" for x
    using S C by (auto simp: robust_def)
  have via: "conn E X n c" if "n \<in> X" "c \<in> X" for X
    using edge that by (intro conn_edge) auto
  have "conn E ?SC n x" if "x \<in> ?SC" for x
  proof (cases "x \<in> C")
    case True
    have "conn E ?SC c x" by (rule conn_mono [OF toC [OF True] Un_upper2])
    then show ?thesis using sets by (intro conn_trans [OF via]) auto
  next
    case False
    with that have "conn E S n x" using toS by blast
    then show ?thesis by (rule conn_mono [OF _ Un_upper1])
  qed
  moreover have "anchored E D n (?SC - {v}) x"
    if v: "v \<in> ?SC" "v \<noteq> n \<or> below" and x: "x \<in> ?SC - {v}" for v x
  proof -
    let ?X = "?SC - {v}"
    consider "v \<in> S" "x \<in> S" | "v \<in> S" "v \<noteq> n" "x \<in> C" | "v = n" "below" "x \<in> C"
      | "v \<in> C" "x \<in> S" | "v \<in> C" "x \<in> C" using v x by blast
    then show ?thesis
    proof cases
      case 1
      with S v x have "anchored E D n (S - {v}) x" by (auto simp: robust_def)
      then show ?thesis by (rule anchored_mono) blast
    next
      case 2
      have "C \<subseteq> ?X" using 2 sets by blast
      then have "conn E ?X x c" by (rule conn_mono [OF conn_sym [OF toC [OF 2(3)]]])
      moreover have "conn E ?X c n" using 2 sets by (intro conn_sym [OF via]) auto
      ultimately show ?thesis by (rule anchored_entry [OF conn_trans])
    next
      case 3
      then obtain y w where y: "y \<in> C" "w \<in> D" "E y w" using exit by blast
      have "C \<subseteq> ?X" using 3 sets by blast
      then have "conn E ?X x y" by (rule conn_mono [OF conn_trans [OF conn_sym [OF toC [OF 3(3)]] toC [OF y(1)]]])
      with y show ?thesis by (auto simp: anchored_def)
    next
      case 4
      have "S \<subseteq> ?X" using 4 sets by blast
      then have "conn E ?X x n" by (rule conn_mono [OF conn_sym [OF toS [OF 4(2)]]])
      then show ?thesis by (rule anchored_entry)
    next
      case 5
      with C x obtain z where z: "conn E (C - {v}) x z" "z = c \<or> (\<exists>w \<in> D \<union> S. E z w)"
        unfolding robust_def anchored_def by blast
      have xz: "conn E ?X x z" by (rule conn_mono [OF z(1)]) blast
      then have zX: "z \<in> ?X" by (simp add: conn_def)
      have S: "S \<subseteq> ?X" using 5 sets by blast
      from z(2) consider "z = c" | w where "w \<in> D" "E z w" | w where "w \<in> S" "E z w" by blast
      then show ?thesis
      proof cases
        case 1
        then have "conn E ?X z n" using zX S sets by (auto intro: conn_sym [OF via])
        then show ?thesis by (rule anchored_entry [OF conn_trans [OF xz]])
      next
        case 2
        with xz show ?thesis by (auto simp: anchored_def)
      next
        case (3 w)
        have "conn E ?X z w" using 3 zX S by (intro conn_edge) auto
        from conn_trans [OF xz this] show ?thesis
          by (rule anchored_entry [OF conn_trans [OF _ conn_mono [OF conn_sym [OF toS [OF 3(1)]] S]]])
      qed
    qed
  qed
  ultimately show ?thesis using sets by (auto simp: robust_def)
qed

subsection \<open>The depth-first search\<close>

definition new_nodes :: "dfs_state \<Rightarrow> dfs_state \<Rightarrow> node_id set" where
  "new_nodes s0 s = dom (am_get (df_discovery s)) - dom (am_get (df_discovery s0))"

definition clocked :: "dfs_state \<Rightarrow> bool" where
  "clocked s \<longleftrightarrow> bm_wf (df_discovery s) \<and> (\<forall>w d. am_get (df_discovery s) w = Some d \<longrightarrow> d < df_time s)"

text \<open>The search has gone from \<open>s0\<close>, at the entry of \<open>n\<close>, to \<open>s\<close> and has found \<open>count\<close> children of \<open>n\<close>.\<close>

definition dfs_inv :: "adjacency \<Rightarrow> dfs_state \<Rightarrow> node_id \<Rightarrow> bool \<Rightarrow> nat \<Rightarrow> dfs_state \<Rightarrow> bool" where
  "dfs_inv adjacency s0 n below count s \<longleftrightarrow> clocked s \<and> df_time s0 \<le> df_time s \<and>
     (\<forall>w d. am_get (df_discovery s0) w = Some d \<longrightarrow> am_get (df_discovery s) w = Some d) \<and>
     (\<forall>w \<in> dom (am_get (df_discovery s0)). am_get (df_low s) w = am_get (df_low s0) w) \<and>
     (\<forall>w \<in> new_nodes s0 s. \<forall>d. am_get (df_discovery s) w = Some d \<longrightarrow> df_time s0 \<le> d) \<and>
     robust (linked adjacency) (dom (am_get (df_discovery s0))) n (new_nodes s0 s) below \<and>
     (\<exists>l. am_get (df_low s) n = Some l \<and> (l < df_time s0 \<longrightarrow>
        (\<exists>y \<in> new_nodes s0 s. \<exists>w. linked adjacency y w \<and> am_get (df_discovery s0) w = Some l))) \<and>
     (count = 0 \<longrightarrow> new_nodes s0 s = {n}) \<and>
     (count = 1 \<longrightarrow> (\<exists>c. \<forall>x \<in> new_nodes s0 s - {n}. conn (linked adjacency) (new_nodes s0 s - {n}) c x))"

lemma dfs_inv_enter:
  assumes "clocked s" and "am_get (df_discovery s) n = None"
  shows "dfs_inv adjacency s n below 0 (dfs_enter n s)"
proof -
  have "new_nodes s (dfs_enter n s) = {n}"
    using assms(2) by (auto simp: new_nodes_def dfs_enter_def bm_get_insert)
  then show ?thesis
    using assms robust_single [of n "dom (am_get (df_discovery s))" "linked adjacency" below]
    by (auto simp: dfs_inv_def dfs_enter_def clocked_def bm_get_insert bm_wf_insert domIff less_Suc_eq)
qed

lemma dfs_inv_lower:
  assumes inv: "dfs_inv adjacency s0 n below count s"
    and bound: "b < df_time s0 \<Longrightarrow> \<exists>y \<in> new_nodes s0 s. \<exists>w. linked adjacency y w \<and> am_get (df_discovery s0) w = Some b"
  shows "dfs_inv adjacency s0 n below count (lower_low n b s)"
proof -
  from inv obtain l where l: "am_get (df_low s) n = Some l" "l < df_time s0 \<longrightarrow>
      (\<exists>y \<in> new_nodes s0 s. \<exists>w. linked adjacency y w \<and> am_get (df_discovery s0) w = Some l)"
    by (auto simp: dfs_inv_def)
  let ?s = "s\<lparr>df_low := bm_insert n (min l b) (df_low s)\<rparr>"
  have s: "lower_low n b s = ?s" by (simp add: lower_low_def l)
  have same: "new_nodes s0 ?s = new_nodes s0 s" "clocked ?s = clocked s"
    by (simp_all add: new_nodes_def clocked_def)
  have "n \<notin> dom (am_get (df_discovery s0))" using inv by (auto simp: dfs_inv_def robust_def new_nodes_def)
  moreover have "min l b < df_time s0 \<longrightarrow>
      (\<exists>y \<in> new_nodes s0 s. \<exists>w. linked adjacency y w \<and> am_get (df_discovery s0) w = Some (min l b))"
    using l(2) bound by (simp add: min_def)
  ultimately show ?thesis
    using inv unfolding s dfs_inv_def same by (simp add: bm_get_insert)
qed

lemma dfs_invD:
  assumes "dfs_inv adjacency s0 n below count s"
  shows "clocked s" and "df_time s0 \<le> df_time s"
    and "am_get (df_discovery s0) w = Some d \<Longrightarrow> am_get (df_discovery s) w = Some d"
    and "w \<in> dom (am_get (df_discovery s0)) \<Longrightarrow> am_get (df_low s) w = am_get (df_low s0) w"
    and "w \<in> new_nodes s0 s \<Longrightarrow> am_get (df_discovery s) w = Some d \<Longrightarrow> df_time s0 \<le> d"
    and "robust (linked adjacency) (dom (am_get (df_discovery s0))) n (new_nodes s0 s) below"
    and "\<exists>l. am_get (df_low s) n = Some l \<and> (l < df_time s0 \<longrightarrow>
      (\<exists>y \<in> new_nodes s0 s. \<exists>w. linked adjacency y w \<and> am_get (df_discovery s0) w = Some l))"
    and "count = 0 \<Longrightarrow> new_nodes s0 s = {n}"
    and "count = 1 \<Longrightarrow> \<exists>c. \<forall>x \<in> new_nodes s0 s - {n}. conn (linked adjacency) (new_nodes s0 s - {n}) c x"
  using assms unfolding dfs_inv_def by blast+

lemma dfs_inv_old:
  assumes inv: "dfs_inv adjacency s0 n below count s"
    and w: "am_get (df_discovery s) w = Some d" "d < df_time s0"
  shows "am_get (df_discovery s0) w = Some d"
proof -
  have "w \<notin> new_nodes s0 s" using dfs_invD(5) [OF inv _ w(1)] w(2) by fastforce
  with w(1) obtain e where e: "am_get (df_discovery s0) w = Some e" by (auto simp: new_nodes_def)
  with dfs_invD(3) [OF inv e] w(1) show ?thesis by simp
qed

lemma dfs_inv_dom:
  assumes "dfs_inv adjacency s0 n below count s"
  shows "dom (am_get (df_discovery s)) = dom (am_get (df_discovery s0)) \<union> new_nodes s0 s"
  using dfs_invD(3) [OF assms] by (auto simp: new_nodes_def)

lemma dfs_inv_join:
  assumes inv: "dfs_inv adjacency s0 n below count s" and child: "dfs_inv adjacency s c True k t"
    and edge: "linked adjacency n c"
    and exit: "below \<Longrightarrow> \<exists>l. am_get (df_low t) c = Some l \<and> l < df_time s0"
  shows "dfs_inv adjacency s0 n below (Suc count) t"
proof -
  let ?D = "dom (am_get (df_discovery s0))" and ?S = "new_nodes s0 s" and ?C = "new_nodes s t"
  note i = dfs_invD [OF inv] and j = dfs_invD [OF child] and dom = dfs_inv_dom [OF inv]
  have new: "new_nodes s0 t = ?S \<union> ?C"
    using dfs_inv_dom [OF inv] dfs_inv_dom [OF child] by (auto simp: new_nodes_def)
  have n: "n \<in> ?S" using i(6) by (simp add: robust_def)
  have nC: "n \<notin> ?C" using n by (auto simp: new_nodes_def)
  from i(7) obtain l where l: "am_get (df_low s) n = Some l" "l < df_time s0 \<Longrightarrow>
      \<exists>y \<in> ?S. \<exists>w. linked adjacency y w \<and> am_get (df_discovery s0) w = Some l" by blast
  show ?thesis
    unfolding dfs_inv_def new
  proof (intro conjI allI ballI impI)
    show "clocked t" by (rule j(1))
    show "df_time s0 \<le> df_time t" using i(2) j(2) by simp
    show "am_get (df_discovery t) w = Some d" if "am_get (df_discovery s0) w = Some d" for w d
      by (rule j(3) [OF i(3) [OF that]])
    show "am_get (df_low t) w = am_get (df_low s0) w" if "w \<in> ?D" for w
      using i(4) [OF that] j(4) [of w] that dom by simp
    show "df_time s0 \<le> d" if w: "w \<in> ?S \<union> ?C" "am_get (df_discovery t) w = Some d" for w d
    proof (cases "w \<in> ?S")
      case True
      then obtain e where e: "am_get (df_discovery s) w = Some e" by (auto simp: new_nodes_def)
      with w(2) j(3) [OF e] i(5) [OF True e] show ?thesis by simp
    next
      case False
      with w(1) have "w \<in> ?C" by blast
      from j(5) [OF this w(2)] i(2) show ?thesis by simp
    qed
    show "robust (linked adjacency) ?D n (?S \<union> ?C) below"
    proof (rule robust_join [OF i(6)])
      show "robust (linked adjacency) (?D \<union> ?S) c ?C True" using j(6) unfolding dom .
      show "linked adjacency n c" by (rule edge)
      assume below
      with exit obtain m where m: "am_get (df_low t) c = Some m" "m < df_time s0" by blast
      with j(7) i(2) obtain y w where y: "y \<in> ?C" "linked adjacency y w" "am_get (df_discovery s) w = Some m"
        by auto
      then show "\<exists>y \<in> ?C. \<exists>w \<in> ?D. linked adjacency y w" using dfs_inv_old [OF inv y(3) m(2)] by blast
    qed
    have "am_get (df_low t) n = Some l" using j(4) [of n] n dom l(1) by simp
    then show "\<exists>l. am_get (df_low t) n = Some l \<and> (l < df_time s0 \<longrightarrow>
        (\<exists>y \<in> ?S \<union> ?C. \<exists>w. linked adjacency y w \<and> am_get (df_discovery s0) w = Some l))"
      using l(2) by blast
    show "?S \<union> ?C = {n}" if "Suc count = 0" using that by simp
    show "\<exists>c. \<forall>x \<in> ?S \<union> ?C - {n}. conn (linked adjacency) (?S \<union> ?C - {n}) c x" if "Suc count = 1"
    proof -
      have "?S = {n}" using i(8) that by simp
      then have "?S \<union> ?C - {n} = ?C" using nC by blast
      then show ?thesis using j(6) by (auto simp: robust_def)
    qed
  qed
qed

lemma dfs_inv_child:
  assumes inv: "dfs_inv adjacency s0 n below count s" and child: "dfs_inv adjacency s c True k t"
    and edge: "linked adjacency n c" and l: "am_get (df_low t) c = Some l"
    and exit: "below \<Longrightarrow> l < df_time s0"
  shows "dfs_inv adjacency s0 n below (Suc count) (lower_low n l t)"
proof (rule dfs_inv_lower)
  show "dfs_inv adjacency s0 n below (Suc count) t"
    using exit l by (intro dfs_inv_join [OF inv child edge]) auto
  assume early: "l < df_time s0"
  then have "l < df_time s" using dfs_invD(2) [OF inv] by simp
  with dfs_invD(7) [OF child] l obtain y w
    where y: "y \<in> new_nodes s t" "linked adjacency y w" "am_get (df_discovery s) w = Some l" by auto
  have "new_nodes s t \<subseteq> new_nodes s0 t" using dfs_inv_dom [OF inv] by (auto simp: new_nodes_def)
  then show "\<exists>y \<in> new_nodes s0 t. \<exists>w. linked adjacency y w \<and> am_get (df_discovery s0) w = Some l"
    using y dfs_inv_old [OF inv y(3) early] by blast
qed

lemma dfs_inv_progress:
  assumes "dfs_inv adjacency s c below k t" and "linked adjacency n c"
  shows "card (search_space adjacency root - dom (am_get (df_discovery t))) <
    card (search_space adjacency root - dom (am_get (df_discovery s)))"
proof (rule psubset_card_mono)
  have c: "c \<in> new_nodes s t" using dfs_invD(6) [OF assms(1)] by (simp add: robust_def)
  then have "c \<notin> dom (am_get (df_discovery s))" by (simp add: new_nodes_def)
  moreover have "c \<in> search_space adjacency root" using assms(2) by (simp add: linked_def neighbors_in_space)
  ultimately show "search_space adjacency root - dom (am_get (df_discovery t)) \<subset>
      search_space adjacency root - dom (am_get (df_discovery s))"
    unfolding dfs_inv_dom [OF assms(1)] using c by blast
qed (simp add: search_space_def)

lemma articulation_neighbors_ends:
  assumes "dfs_inv adjacency s0 n (parent \<noteq> None) count s" and "set ns \<subseteq> set (neighbors_of adjacency n)"
  shows "\<exists>found t. articulation_neighbors adjacency n parent (df_time s0) ns count s = Some (found, t) \<and>
    (\<not> found \<longrightarrow> (\<exists>k. dfs_inv adjacency s0 n (parent \<noteq> None) k t \<and> (parent = None \<longrightarrow> k \<le> 1)))"
  using assms
proof (induction "(card (search_space adjacency root - dom (am_get (df_discovery s))), length ns)"
    arbitrary: s0 n parent count s ns rule: less_induct)
  case less
  note inv = less.prems(1)
  show ?case
  proof (cases ns)
    case Nil
    then show ?thesis using inv by (subst articulation_neighbors.simps) auto
  next
    case (Cons c rest)
    have c: "linked adjacency n c" using less.prems(2) Cons by (simp add: linked_def)
    have rest: "set rest \<subseteq> set (neighbors_of adjacency n)" using less.prems(2) Cons by simp
    note next_one = less.hyps [OF _ _ rest, simplified]
    consider "parent = Some c" | d where "parent \<noteq> Some c" "am_get (df_discovery s) c = Some d"
      | "parent \<noteq> Some c" "am_get (df_discovery s) c = None" by fastforce
    then show ?thesis
    proof cases
      case 1
      with next_one [of s s0 parent count] inv Cons show ?thesis
        by (subst articulation_neighbors.simps) simp
    next
      case (2 d)
      have "n \<in> new_nodes s0 s" using dfs_invD(6) [OF inv] by (simp add: robust_def)
      then have "dfs_inv adjacency s0 n (parent \<noteq> None) count (lower_low n d s)"
        using dfs_inv_old [OF inv 2(2)] c by (intro dfs_inv_lower [OF inv]) blast
      moreover have "df_discovery (lower_low n d s) = df_discovery s"
        by (simp add: lower_low_def split: option.split)
      ultimately show ?thesis using next_one [of "lower_low n d s" s0 parent count] 2 Cons
        by (subst articulation_neighbors.simps) simp
    next
      case 3
      let ?enter = "dfs_enter c s"
      let ?call = "case am_get adjacency c of None \<Rightarrow> Some (False, ?enter)
        | Some ns \<Rightarrow> articulation_neighbors adjacency c (Some n) (df_time s) ns 0 ?enter"
      have enter: "dfs_inv adjacency s c True 0 ?enter"
        by (rule dfs_inv_enter [OF dfs_invD(1) [OF inv] 3(2)])
      have "\<exists>found t. ?call = Some (found, t) \<and> (\<not> found \<longrightarrow> (\<exists>k. dfs_inv adjacency s c True k t))"
      proof (cases "am_get adjacency c")
        case (Some ms)
        then show ?thesis
          using less.hyps [of ?enter ms s c "Some n" 0] enter dfs_inv_progress [OF enter c]
          by (auto simp: neighbors_of_def)
      qed (use enter in auto)
      then obtain found t where call: "?call = Some (found, t)" "\<not> found \<Longrightarrow> \<exists>k. dfs_inv adjacency s c True k t"
        by blast
      have unfold: "articulation_neighbors adjacency n parent (df_time s0) ns count s =
          (if found then Some (True, t)
           else let l = (case am_get (df_low t) c of None \<Rightarrow> df_time s0 | Some l \<Rightarrow> l) in
             if parent \<noteq> None \<and> df_time s0 \<le> l then Some (True, t)
             else articulation_neighbors adjacency n parent (df_time s0) rest (Suc count) (lower_low n l t))"
        by (subst articulation_neighbors.simps) (simp add: Cons 3 call(1) Let_def)
      show ?thesis
      proof (cases found)
        case True
        then show ?thesis unfolding unfold by auto
      next
        case False
        with call(2) obtain k where child: "dfs_inv adjacency s c True k t" by blast
        from dfs_invD(7) [OF child] obtain l where l: "am_get (df_low t) c = Some l" by blast
        show ?thesis
        proof (cases "parent \<noteq> None \<and> df_time s0 \<le> l")
          case True
          then show ?thesis using False l unfolding unfold by auto
        next
          case reach: False
          have "dfs_inv adjacency s0 n (parent \<noteq> None) (Suc count) (lower_low n l t)"
            using reach l by (intro dfs_inv_child [OF inv child c]) auto
          moreover have "df_discovery (lower_low n l t) = df_discovery t"
            by (simp add: lower_low_def split: option.split)
          ultimately have "\<exists>found t'. articulation_neighbors adjacency n parent (df_time s0) rest (Suc count) (lower_low n l t) = Some (found, t') \<and>
              (\<not> found \<longrightarrow> (\<exists>k. dfs_inv adjacency s0 n (parent \<noteq> None) k t' \<and> (parent = None \<longrightarrow> k \<le> 1)))"
            using dfs_inv_progress [OF child c] by (intro less.hyps [OF _ _ rest]) simp_all
          moreover have "articulation_neighbors adjacency n parent (df_time s0) ns count s =
              articulation_neighbors adjacency n parent (df_time s0) rest (Suc count) (lower_low n l t)"
            unfolding unfold using False reach l by auto
          ultimately show ?thesis by (simp only:)
        qed
      qed
    qed
  qed
qed

lemma linked_source: "linked adjacency x y \<Longrightarrow> x \<in> fst ` set adjacency"
  by (cases "am_get adjacency x") (force simp: linked_def neighbors_of_def dest: map_of_SomeD)+

lemma conn_in_keys:
  assumes "conn (linked adjacency) S x y" and "x \<in> fst ` set adjacency"
    and "\<And>x y. linked adjacency x y \<Longrightarrow> y \<in> fst ` set adjacency"
  shows "y \<in> fst ` set adjacency"
proof -
  have "(\<lambda>a b. (linked adjacency a b \<or> linked adjacency b a) \<and> a \<in> S \<and> b \<in> S)\<^sup>*\<^sup>* x y"
    using assms(1) by (simp add: conn_def)
  then show ?thesis by (cases rule: rtranclp.cases) (use assms(2,3) linked_source in blast)+
qed

lemma robust_root:
  assumes "robust E {} n K False" and "\<And>x. x \<in> K - {n} \<Longrightarrow> conn E (K - {n}) c x"
    and "v \<in> K" and "x \<in> K - {v}" and "y \<in> K - {v}"
  shows "conn E (K - {v}) x y"
proof (cases "v = n")
  case True
  have "conn E (K - {n}) c x" "conn E (K - {n}) c y" using assms(2,4,5) True by blast+
  then show ?thesis unfolding True by (rule conn_trans [OF conn_sym])
next
  case False
  have "conn E (K - {v}) z n" if "z \<in> K - {v}" for z
    using assms(1,3) False that by (auto simp: robust_def anchored_def)
  from this [OF assms(4)] this [OF assms(5)] show ?thesis by (rule conn_trans [OF _ conn_sym])
qed

definition survives_any_failure :: "adjacency \<Rightarrow> bool" where
  "survives_any_failure adjacency \<longleftrightarrow> (\<forall>v \<in> fst ` set adjacency.
     \<forall>x \<in> fst ` set adjacency - {v}. \<forall>y \<in> fst ` set adjacency - {v}.
       conn (linked adjacency) (fst ` set adjacency - {v}) x y)"

lemma survives_small:
  assumes "length adjacency \<le> 2"
  shows "survives_any_failure adjacency"
  unfolding survives_any_failure_def
proof (intro ballI)
  fix v x y
  let ?K = "fst ` set adjacency"
  assume *: "v \<in> ?K" "x \<in> ?K - {v}" "y \<in> ?K - {v}"
  have "card {v, x, y} \<le> card ?K" using * by (intro card_mono) auto
  also have "\<dots> \<le> 2" using assms card_length [of "map fst adjacency"] by simp
  finally have "x = y" using * by (auto simp: card_insert_if split: if_splits)
  then show "conn (linked adjacency) (?K - {v}) x y" using * by (simp add: conn_refl)
qed

lemma no_articulation_points:
  assumes wf: "bm_wf adjacency" and closed: "\<And>x y. linked adjacency x y \<Longrightarrow> y \<in> fst ` set adjacency"
  shows "\<exists>b. graph_has_no_articulation_points adjacency = Some b \<and> (b \<longrightarrow> survives_any_failure adjacency)"
proof (cases "length adjacency \<le> 2")
  case True
  then show ?thesis by (auto simp: graph_has_no_articulation_points_def survives_small)
next
  case False
  then obtain root ns adj where adj: "adjacency = (root, ns) # adj" by (cases adjacency) auto
  let ?start = "\<lparr>df_discovery = [], df_low = [], df_time = 0\<rparr>" and ?K = "fst ` set adjacency"
  have start: "dfs_inv adjacency ?start root False 0 (dfs_enter root ?start)"
    by (rule dfs_inv_enter) (simp_all add: clocked_def bm_wf_def)
  have ns: "neighbors_of adjacency root = ns" by (simp add: neighbors_of_def adj)
  obtain found t where run: "articulation_dfs root None adjacency ?start = Some (found, t)"
    and inv: "\<not> found \<Longrightarrow> \<exists>k \<le> 1. dfs_inv adjacency ?start root False k t"
    using articulation_neighbors_ends [of adjacency ?start root None 0 "dfs_enter root ?start" ns] start ns
    by (auto simp: articulation_dfs_def adj)
  have "graph_has_no_articulation_points adjacency = Some (\<not> found \<and> length (df_discovery t) = length adjacency)"
    using False run by (simp add: graph_has_no_articulation_points_def adj)
  moreover have "survives_any_failure adjacency"
    if ok: "\<not> found" "length (df_discovery t) = length adjacency"
  proof -
    from inv [OF ok(1)] obtain k where k: "k \<le> 1" and i: "dfs_inv adjacency ?start root False k t" by blast
    let ?S = "new_nodes ?start t"
    note i = dfs_invD [OF i]
    have root: "root \<in> ?K" by (simp add: adj)
    have sub: "?S \<subseteq> ?K" using i(6) conn_in_keys [OF _ root closed] by (auto simp: robust_def)
    have "card ?S = length (df_discovery t)"
      using i(1) by (simp add: new_nodes_def clocked_def bm.length_dom)
    moreover have "card ?K = length adjacency"
      using bm.wf_keys [OF wf] by (metis distinct_card length_map set_map)
    ultimately have S: "?S = ?K" using sub ok(2) by (intro card_subset_eq) auto
    have "?S \<noteq> {root}" using S False \<open>card ?K = length adjacency\<close> by auto
    with k i(8,9) obtain c where "\<forall>x \<in> ?K - {root}. conn (linked adjacency) (?K - {root}) c x"
      unfolding S by (cases k) auto
    then show ?thesis using robust_root [of "linked adjacency" root ?K c] i(6)
      unfolding survives_any_failure_def S by (simp add: new_nodes_def)
  qed
  ultimately show ?thesis by auto
qed

subsection \<open>Inspection and diameter\<close>

lemma linked_neighbors: "bm_wf adjacency \<Longrightarrow> (x, ns) \<in> set adjacency \<Longrightarrow> neighbors_of adjacency x = ns"
  by (simp add: neighbors_of_def bm.in_entries)

lemma linked_entry: "linked adjacency x y \<Longrightarrow> \<exists>ns. (x, ns) \<in> set adjacency \<and> y \<in> set ns"
  by (cases "am_get adjacency x") (auto simp: linked_def neighbors_of_def dest: map_of_SomeD)

lemma has_neighbor_linked: "has_neighbor adjacency x y = linked adjacency x y"
  by (cases "am_get adjacency x") (simp_all add: has_neighbor_def linked_def neighbors_of_def)

lemma fold_max_ge: "(b :: nat) \<le> fold max xs b"
  by (induction xs arbitrary: b) (auto intro: le_trans [OF max.cobounded2])

lemma fold_max_member: "x \<in> set xs \<Longrightarrow> (x :: nat) \<le> fold max xs b"
  by (induction xs arbitrary: b) (auto intro: le_trans [OF max.cobounded1 fold_max_ge])

lemma graph_is_connected_total: "\<exists>b. graph_is_connected adjacency = Some b"
proof (cases adjacency)
  case (Cons e adj)
  obtain m where "distances_from (fst e) adjacency = Some m" using distances_from_correct by blast
  then show ?thesis by (cases e) (auto simp: graph_is_connected_def Cons)
qed (auto simp: graph_is_connected_def)

lemma reachable_in_keys:
  assumes "(linked adjacency)\<^sup>*\<^sup>* x y" and "x \<in> fst ` set adjacency"
    and "\<And>x y. linked adjacency x y \<Longrightarrow> y \<in> fst ` set adjacency"
  shows "y \<in> fst ` set adjacency"
  using assms(1) by (cases rule: rtranclp.cases) (use assms(2,3) in blast)+

lemma length_keys: "bm_wf m \<Longrightarrow> length m = card (fst ` set m)"
  by (simp add: bm.length_dom dom_map_of_conv_image_fst)

lemma distances_cover:
  assumes wf: "bm_wf adjacency" and closed: "\<And>x y. linked adjacency x y \<Longrightarrow> y \<in> fst ` set adjacency"
    and s: "s \<in> fst ` set adjacency" and m: "distances_from s adjacency = Some m"
  shows "length m = length adjacency \<longleftrightarrow> (\<forall>x \<in> fst ` set adjacency. (linked adjacency)\<^sup>*\<^sup>* s x)"
proof -
  let ?K = "fst ` set adjacency"
  from distances_from_correct [of s adjacency] m
  have m: "bm_wf m" "x \<in> fst ` set m \<longleftrightarrow> (linked adjacency)\<^sup>*\<^sup>* s x" for x by (simp_all only: option.inject, blast+)
  note len = length_keys [OF m(1)] length_keys [OF wf]
  have keys: "fst ` set m = {x. (linked adjacency)\<^sup>*\<^sup>* s x}" using m(2) by auto
  have sub: "{x. (linked adjacency)\<^sup>*\<^sup>* s x} \<subseteq> ?K"
    by (intro subsetI reachable_in_keys [OF _ s closed]) simp_all
  then have "length m = length adjacency \<longleftrightarrow> {x. (linked adjacency)\<^sup>*\<^sup>* s x} = ?K"
    unfolding len keys using card_subset_eq [of ?K "{x. (linked adjacency)\<^sup>*\<^sup>* s x}"] by auto
  also have "\<dots> \<longleftrightarrow> (\<forall>x \<in> ?K. (linked adjacency)\<^sup>*\<^sup>* s x)" using sub by auto
  finally show ?thesis .
qed

definition undirected :: "adjacency \<Rightarrow> bool" where
  "undirected adjacency \<longleftrightarrow> bm_wf adjacency \<and> (\<forall>x y. linked adjacency x y \<longrightarrow> linked adjacency y x)"

lemma undirected_closed: "undirected adjacency \<Longrightarrow> linked adjacency x y \<Longrightarrow> y \<in> fst ` set adjacency"
  unfolding undirected_def using linked_source by blast

lemma undirected_reach:
  assumes "undirected adjacency" and "x \<in> fst ` set adjacency" and "(linked adjacency)\<^sup>*\<^sup>* x y"
  shows "y \<in> fst ` set adjacency"
  by (rule reachable_in_keys [OF assms(3,2)]) (rule undirected_closed [OF assms(1)])

lemma undirected_sym: "undirected adjacency \<Longrightarrow> (linked adjacency)\<^sup>*\<^sup>* x y \<Longrightarrow> (linked adjacency)\<^sup>*\<^sup>* y x"
  using symp_rtranclp [of "linked adjacency"] by (auto simp: undirected_def intro: sympI dest: sympD)

definition all_connected :: "adjacency \<Rightarrow> bool" where
  "all_connected adjacency \<longleftrightarrow>
     (\<forall>x \<in> fst ` set adjacency. \<forall>y \<in> fst ` set adjacency. (linked adjacency)\<^sup>*\<^sup>* x y)"

lemma start_connected:
  assumes "undirected adjacency" and "s \<in> fst ` set adjacency"
  shows "(\<forall>x \<in> fst ` set adjacency. (linked adjacency)\<^sup>*\<^sup>* s x) \<longleftrightarrow> all_connected adjacency"
proof
  assume s: "\<forall>x \<in> fst ` set adjacency. (linked adjacency)\<^sup>*\<^sup>* s x"
  show "all_connected adjacency"
    unfolding all_connected_def
  proof (intro ballI)
    fix x y
    assume "x \<in> fst ` set adjacency" "y \<in> fst ` set adjacency"
    then show "(linked adjacency)\<^sup>*\<^sup>* x y"
      using s undirected_sym [OF assms(1)] rtranclp_trans [of "linked adjacency" x s y] by blast
  qed
qed (use assms(2) in \<open>auto simp: all_connected_def\<close>)

lemma graph_is_connected_correct:
  assumes "undirected adjacency"
  shows "graph_is_connected adjacency = Some (all_connected adjacency)"
proof (cases adjacency)
  case (Cons e adj)
  obtain m where m: "distances_from (fst e) adjacency = Some m" using distances_from_correct by blast
  have s: "fst e \<in> fst ` set adjacency" by (simp add: Cons)
  have "length m = length adjacency \<longleftrightarrow> all_connected adjacency"
    using distances_cover [OF _ undirected_closed [OF assms] s m] start_connected [OF assms s] assms
    by (simp add: undirected_def)
  with m show ?thesis by (cases e) (simp add: graph_is_connected_def Cons)
qed (simp add: graph_is_connected_def all_connected_def)

lemma inspect_invariants_total: "\<exists>i. inspect_invariants adjacency max_degree = Some i"
  using graph_is_connected_total [of adjacency] by (auto simp: inspect_invariants_def Let_def)

lemma inspect_invariants_correct:
  assumes wf: "bm_wf adjacency" and i: "inspect_invariants adjacency max_degree = Some i"
  shows "ti_symmetric i \<longleftrightarrow> undirected adjacency"
    and "ti_no_self_loops i \<longleftrightarrow> (\<forall>x. \<not> linked adjacency x x)"
    and "ti_within_degree_bound i \<Longrightarrow> length (neighbors_of adjacency x) \<le> max_degree"
    and "undirected adjacency \<Longrightarrow> ti_connected i \<longleftrightarrow> all_connected adjacency"
proof -
  from i obtain b where b: "graph_is_connected adjacency = Some b"
    and sym: "ti_symmetric i \<longleftrightarrow> (\<forall>(x, ns) \<in> set adjacency. \<forall>y \<in> set ns. linked adjacency y x)"
    and loop: "ti_no_self_loops i \<longleftrightarrow> (\<forall>(x, ns) \<in> set adjacency. x \<notin> set ns)"
    and deg: "ti_within_degree_bound i \<longleftrightarrow> fold max (map (length \<circ> snd) adjacency) 0 \<le> max_degree"
    and con: "ti_connected i = b"
    by (auto simp: inspect_invariants_def Let_def list_all_iff has_neighbor_linked)
  have entry: "linked adjacency x y \<longleftrightarrow> (\<exists>ns. (x, ns) \<in> set adjacency \<and> y \<in> set ns)" for x y
    using linked_entry linked_neighbors [OF wf] by (auto simp: linked_def)
  show "ti_symmetric i \<longleftrightarrow> undirected adjacency"
    unfolding sym undirected_def using wf entry by blast
  show "ti_no_self_loops i \<longleftrightarrow> (\<forall>x. \<not> linked adjacency x x)"
    unfolding loop using entry by blast
  show "length (neighbors_of adjacency x) \<le> max_degree" if "ti_within_degree_bound i"
  proof (cases "am_get adjacency x")
    case (Some ns)
    then have "length ns \<in> set (map (length \<circ> snd) adjacency)" by (force dest: map_of_SomeD)
    then have "length ns \<le> fold max (map (length \<circ> snd) adjacency) 0" by (rule fold_max_member)
    with Some that deg show ?thesis by (simp add: neighbors_of_def)
  qed (simp add: neighbors_of_def)
  show "ti_connected i \<longleftrightarrow> all_connected adjacency" if "undirected adjacency"
    using graph_is_connected_correct [OF that] b con by simp
qed

lemma farthest_entry: "farthest m = Some e \<Longrightarrow> e \<in> set m"
  by (induction m arbitrary: e rule: farthest.induct) (auto split: option.splits if_splits)

lemma farthest_None: "farthest m = None \<longleftrightarrow> m = []"
  by (cases m) (auto split: option.splits)

definition is_distance :: "adjacency \<Rightarrow> nat \<Rightarrow> bool" where
  "is_distance adjacency d \<longleftrightarrow>
     (\<exists>x \<in> fst ` set adjacency. \<exists>y \<in> fst ` set adjacency. at_distance adjacency x y d)"

lemma diameter_sweeps_correct:
  assumes u: "undirected adjacency" and "s \<in> fst ` set adjacency" and "is_distance adjacency b"
  shows "\<exists>r. diameter_sweeps n adjacency s b = Some r \<and>
    (case r of None \<Rightarrow> \<not> all_connected adjacency | Some d \<Rightarrow> b \<le> d \<and> is_distance adjacency d)"
  using assms(2,3)
proof (induction n arbitrary: s b)
  case (Suc n)
  obtain m where m: "distances_from s adjacency = Some m" "bm_wf m"
    and dist: "\<And>x d. am_get m x = Some d \<longleftrightarrow> at_distance adjacency s x d"
    and reach: "\<And>x. x \<in> fst ` set m \<longleftrightarrow> (linked adjacency)\<^sup>*\<^sup>* s x"
    using distances_from_correct [of s adjacency] by blast
  have all: "length m = length adjacency \<longleftrightarrow> all_connected adjacency"
    using distances_cover [OF _ undirected_closed [OF u] Suc.prems(1) m(1)] start_connected [OF u Suc.prems(1)] u
    by (simp add: undirected_def)
  show ?case
  proof (cases "length m = length adjacency")
    case True
    then have "m \<noteq> []" using Suc.prems(1) by auto
    then obtain y d where y: "farthest m = Some (y, d)" using farthest_None [of m] by force
    then have mem: "(y, d) \<in> set m" by (rule farthest_entry)
    then have "y \<in> fst ` set m" by force
    moreover have "at_distance adjacency s y d" using mem dist m(2) by (simp add: bm.in_entries)
    ultimately have key: "y \<in> fst ` set adjacency" and "is_distance adjacency d"
      using undirected_reach [OF u Suc.prems(1), of y] reach [of y] Suc.prems(1)
      unfolding is_distance_def by blast+
    from Suc.IH [OF this] Suc.prems(2) True m(1) y show ?thesis
      by (fastforce split: option.splits)
  qed (use m all in auto)
qed simp

end
