(* ===== verification/TopologySynthesis.thy ===== *)
theory TopologySynthesis
  imports TopologyGraph Overlay "HOL-Library.Multiset"
begin

text \<open>
  Synthesis of the relay backbone (\<open>crates/ipars-control-plane/src/bounded_topology.rs\<close>): the members
  are placed in a hierarchy by the digits of a hash, every leaf is a cycle, every group below the root
  has two representatives, and the children of a group are joined to a ring through them. The result is
  inspected before it is handed out. SHA-256 is the parameter \<open>sha256\<close>. \<open>None\<close> stands for a call that
  does not return: it diverges, or it panics at an index. The lemmas show that the call always returns,
  and what an accepted topology guarantees.
\<close>

subsection \<open>Configuration and errors\<close>

definition TOPOLOGY_ALGORITHM_VERSION :: rstring where
  "TOPOLOGY_ALGORITHM_VERSION = str ''recursive-hash-prefix-block-ring-v3''"

definition DEFAULT_PERMUTATION_SEED :: rstring where
  "DEFAULT_PERMUTATION_SEED = str ''ipars-bounded-backbone''"

definition MIN_OVERLAY_BLOCK_SIZE :: nat where [simp]: "MIN_OVERLAY_BLOCK_SIZE = 4"
definition MAX_OVERLAY_BLOCK_SIZE :: nat where [simp]: "MAX_OVERLAY_BLOCK_SIZE = 64"
definition DEFAULT_OVERLAY_BLOCK_SIZE :: nat where [simp]: "DEFAULT_OVERLAY_BLOCK_SIZE = 4"
definition MIN_HIERARCHICAL_BLOCK_SIZE :: nat where [simp]: "MIN_HIERARCHICAL_BLOCK_SIZE = 4"
definition MAX_HASH_PREFIX_PROBES :: nat where [simp]: "MAX_HASH_PREFIX_PROBES = 256"
definition SUPPORTED_MAX_DEGREES :: "nat list" where [simp]: "SUPPORTED_MAX_DEGREES = [4, 6]"

record bounded_topology_config =
  tc_max_degree :: nat
  tc_block_size :: nat
  tc_permutation_seed :: rstring

definition bounded_topology_config_new :: "nat \<Rightarrow> bounded_topology_config" where
  "bounded_topology_config_new max_degree =
     \<lparr>tc_max_degree = max_degree, tc_block_size = DEFAULT_OVERLAY_BLOCK_SIZE,
      tc_permutation_seed = DEFAULT_PERMUTATION_SEED\<rparr>"

definition with_block_size :: "nat \<Rightarrow> bounded_topology_config \<Rightarrow> bounded_topology_config" where
  "with_block_size block_size config = config\<lparr>tc_block_size := block_size\<rparr>"

definition with_permutation_seed :: "rstring \<Rightarrow> bounded_topology_config \<Rightarrow> bounded_topology_config" where
  "with_permutation_seed seed config = config\<lparr>tc_permutation_seed := seed\<rparr>"

definition bounded_topology_config_default :: bounded_topology_config where
  "bounded_topology_config_default = bounded_topology_config_new 4"

datatype invariant_reason =
    Disconnected
  | Asymmetric
  | SelfLoop
  | DegreeExceeded
  | SingleNodeFailureDisconnects
  | CannotSplitLeaf

datatype bounded_topology_error =
    UnsupportedMaxDegree nat
  | InvalidBlockSize nat nat nat
  | DuplicateNodeId node_id
  | InvariantViolation invariant_reason
  | RepresentativeCapacity rstring

datatype topology_edge_kind = LeafCycle | HierarchyLink

datatype topology_edge_placement =
  TopologyEdgePlacement (pl_level: nat) (pl_plane: nat) (pl_kind: topology_edge_kind) (pl_group_id: rstring)

record topology_representative =
  rp_node_id :: node_id
  rp_plane :: nat

record hierarchy_group =
  hg_block_id :: rstring
  hg_node_ids :: "node_id list"
  hg_parent_block_id :: "rstring option"
  hg_child_block_ids :: "rstring list"
  hg_depth :: nat
  hg_representatives :: "topology_representative list"

record topology_group =
  tg_group_id :: rstring
  tg_node_ids :: "node_id list"
  tg_parent_group_id :: "rstring option"
  tg_child_group_ids :: "rstring list"
  tg_depth :: nat
  tg_representatives :: "topology_representative list"

definition is_leaf :: "topology_group \<Rightarrow> bool" where
  "is_leaf g \<longleftrightarrow> tg_child_group_ids g = []"

definition into_group :: "hierarchy_group \<Rightarrow> topology_group" where
  "into_group g =
     \<lparr>tg_group_id = hg_block_id g, tg_node_ids = hg_node_ids g, tg_parent_group_id = hg_parent_block_id g,
      tg_child_group_ids = hg_child_block_ids g, tg_depth = hg_depth g, tg_representatives = hg_representatives g\<rparr>"

subsection \<open>Order of the placements\<close>

fun edge_kind_index :: "topology_edge_kind \<Rightarrow> nat" where
  "edge_kind_index LeafCycle = 0"
| "edge_kind_index HierarchyLink = 1"

definition placement_key :: "topology_edge_placement \<Rightarrow> nat \<times> nat \<times> nat \<times> rstring" where
  "placement_key p = (pl_level p, pl_plane p, edge_kind_index (pl_kind p), pl_group_id p)"

lemma edge_kind_index_inj: "edge_kind_index a = edge_kind_index b \<Longrightarrow> a = b"
  by (cases a; cases b) simp_all

lemma placement_key_inj: "placement_key a = placement_key b \<Longrightarrow> a = b"
  by (cases a; cases b) (auto simp: placement_key_def dest: edge_kind_index_inj)

instantiation topology_edge_placement :: linorder
begin

definition less_eq_topology_edge_placement :: "topology_edge_placement \<Rightarrow> topology_edge_placement \<Rightarrow> bool" where
  "less_eq_topology_edge_placement a b \<longleftrightarrow> placement_key a \<le> placement_key b"

definition less_topology_edge_placement :: "topology_edge_placement \<Rightarrow> topology_edge_placement \<Rightarrow> bool" where
  "less_topology_edge_placement a b \<longleftrightarrow> placement_key a < placement_key b"

instance
proof
  fix a b c :: topology_edge_placement
  show "(a < b) = (a \<le> b \<and> \<not> b \<le> a)"
    unfolding less_eq_topology_edge_placement_def less_topology_edge_placement_def by (rule less_le_not_le)
  show "a \<le> a" unfolding less_eq_topology_edge_placement_def by (rule order_refl)
  show "a \<le> b \<or> b \<le> a" unfolding less_eq_topology_edge_placement_def by (rule linear)
  show "a \<le> b \<Longrightarrow> b \<le> c \<Longrightarrow> a \<le> c"
    unfolding less_eq_topology_edge_placement_def by (rule order_trans)
  show "a \<le> b \<Longrightarrow> b \<le> a \<Longrightarrow> a = b"
    unfolding less_eq_topology_edge_placement_def by (rule placement_key_inj [OF order_antisym])
qed

end

subsection \<open>Hashes\<close>

definition HEX_DIGITS :: rstring where
  "HEX_DIGITS = str ''0123456789abcdef''"

definition hex_encode :: "bytes \<Rightarrow> rstring" where
  "hex_encode bs = concat (map (\<lambda>b. [HEX_DIGITS ! (unat b div 16), HEX_DIGITS ! (unat b mod 16)]) bs)"

definition node_id_from_public_key :: "(bytes \<Rightarrow> bytes) \<Rightarrow> bytes \<Rightarrow> node_id" where
  "node_id_from_public_key sha256 public_key = str ''node-'' @ hex_encode (take 16 (sha256 public_key))"

text \<open>\<open>u64::from_str_radix(text, 16)\<close> on a text without a sign.\<close>

definition hex_value :: "u8 \<Rightarrow> nat option" where
  "hex_value c =
     (if 48 \<le> c \<and> c \<le> 57 then Some (unat c - 48)
      else if 97 \<le> c \<and> c \<le> 102 then Some (unat c - 87)
      else if 65 \<le> c \<and> c \<le> 70 then Some (unat c - 55)
      else None)"

fun parse_hex :: "nat \<Rightarrow> rstring \<Rightarrow> nat option" where
  "parse_hex acc [] = Some acc"
| "parse_hex acc (c # cs) =
     Option.bind (hex_value c) (\<lambda>d. if 16 * acc + d < 2 ^ 64 then parse_hex (16 * acc + d) cs else None)"

definition cryptographic_hash_u64 :: "(bytes \<Rightarrow> bytes) \<Rightarrow> bytes \<Rightarrow> u64" where
  "cryptographic_hash_u64 sha256 material =
     (let digest = node_id_from_public_key sha256 material in
      if take 5 digest \<noteq> str ''node-'' \<or> length (drop 5 digest) < 16 then 0
      else case parse_hex 0 (take 16 (drop 5 digest)) of None \<Rightarrow> 0 | Some v \<Rightarrow> word_of_nat v)"

definition append_hash_field :: "bytes \<Rightarrow> bytes \<Rightarrow> bytes" where
  "append_hash_field material fld = material @ to_be_bytes (word_of_nat (length fld) :: u64) @ fld"

fun decimal :: "nat \<Rightarrow> rstring" where
  "decimal n = (if n < 10 then [word_of_nat (48 + n)] else decimal (n div 10) @ [word_of_nat (48 + n mod 10)])"

declare decimal.simps [simp del]

definition topology_epoch :: "(bytes \<Rightarrow> bytes) \<Rightarrow> node_id list \<Rightarrow> bounded_topology_config \<Rightarrow> u64" where
  "topology_epoch sha256 node_ids config =
     cryptographic_hash_u64 sha256
       (foldl append_hash_field [] ([TOPOLOGY_ALGORITHM_VERSION, decimal (tc_max_degree config),
          decimal (tc_block_size config), tc_permutation_seed config, decimal (length node_ids)] @ node_ids))"

definition hash_prefix_digit :: "(bytes \<Rightarrow> bytes) \<Rightarrow> node_id \<Rightarrow> nat \<Rightarrow> bounded_topology_config \<Rightarrow> nat" where
  "hash_prefix_digit sha256 node_id hash_depth config =
     unat (cryptographic_hash_u64 sha256
       (foldl append_hash_field [] [str ''ipars-hierarchy-prefix'', TOPOLOGY_ALGORITHM_VERSION,
          tc_permutation_seed config, decimal hash_depth, node_id])) mod tc_block_size config"

definition hierarchy_group_id :: "(bytes \<Rightarrow> bytes) \<Rightarrow> (nat \<times> nat) list \<Rightarrow> bounded_topology_config \<Rightarrow> rstring" where
  "hierarchy_group_id sha256 prefix config =
     str ''group-'' @ hex_encode (to_be_bytes (cryptographic_hash_u64 sha256
       (foldl append_hash_field [] ([str ''ipars-hierarchy-group'', TOPOLOGY_ALGORITHM_VERSION,
          tc_permutation_seed config] @ concat (map (\<lambda>(depth, digit). [decimal depth, decimal digit]) prefix)))))"

definition representative_score ::
  "(bytes \<Rightarrow> bytes) \<Rightarrow> rstring \<Rightarrow> nat \<Rightarrow> node_id \<Rightarrow> bounded_topology_config \<Rightarrow> u64" where
  "representative_score sha256 group_id plane node_id config =
     cryptographic_hash_u64 sha256
       (foldl append_hash_field [] [str ''ipars-hierarchy-representative'', TOPOLOGY_ALGORITHM_VERSION,
          tc_permutation_seed config, group_id, decimal plane, node_id])"

subsection \<open>Hierarchy\<close>

fun first_duplicate :: "node_id list \<Rightarrow> node_id option" where
  "first_duplicate (a # b # rest) = (if a = b then Some a else first_duplicate (b # rest))"
| "first_duplicate _ = None"

definition canonical_node_ids :: "node_record list \<Rightarrow> bounded_topology_error + node_id list" where
  "canonical_node_ids nodes =
     (let node_ids = sort (map nr_node_id nodes) in
      case first_duplicate node_ids of
        Some node_id \<Rightarrow> Inl (DuplicateNodeId node_id)
      | None \<Rightarrow> Inr node_ids)"

definition bucket :: "(node_id \<Rightarrow> nat) \<Rightarrow> node_id \<Rightarrow> (nat, node_id list) amap \<Rightarrow> (nat, node_id list) amap" where
  "bucket digit node_id buckets =
     bm_insert (digit node_id)
       ((case am_get buckets (digit node_id) of None \<Rightarrow> [] | Some members \<Rightarrow> members) @ [node_id]) buckets"

definition bucket_all :: "(node_id \<Rightarrow> nat) \<Rightarrow> node_id list \<Rightarrow> (nat, node_id list) amap" where
  "bucket_all digit node_ids = fold (bucket digit) node_ids []"

definition split_buckets ::
  "(bytes \<Rightarrow> bytes) \<Rightarrow> bounded_topology_config \<Rightarrow> nat \<Rightarrow> node_id list \<Rightarrow> (nat \<times> (nat, node_id list) amap) option" where
  "split_buckets sha256 config hash_depth node_ids =
     map_option (\<lambda>probe. (probe, bucket_all (\<lambda>node_id. hash_prefix_digit sha256 node_id probe config) node_ids))
       (List.find (\<lambda>probe. 1 < length (bucket_all (\<lambda>node_id. hash_prefix_digit sha256 node_id probe config) node_ids))
         [hash_depth..<hash_depth + MAX_HASH_PREFIX_PROBES])"

lemma bucket_all_get:
  "am_get (bucket_all digit xs) d =
     (if d \<in> digit ` set xs then Some (filter (\<lambda>x. digit x = d) xs) else None)"
proof -
  have "am_get (fold (bucket digit) ys (bucket_all digit xs)) d =
      (if d \<in> digit ` set (xs @ ys) then Some (filter (\<lambda>x. digit x = d) (xs @ ys)) else None)"
    if "am_get (bucket_all digit xs) = (\<lambda>d. if d \<in> digit ` set xs then Some (filter (\<lambda>x. digit x = d) xs) else None)"
    for xs ys d
    using that
  proof (induction ys arbitrary: xs)
    case (Cons y ys)
    have "bucket digit y (bucket_all digit xs) = bucket_all digit (xs @ [y])"
      by (simp add: bucket_all_def)
    moreover have "am_get (bucket digit y (bucket_all digit xs)) =
        (\<lambda>d. if d \<in> digit ` set (xs @ [y]) then Some (filter (\<lambda>x. digit x = d) (xs @ [y])) else None)"
    proof
      fix e
      show "am_get (bucket digit y (bucket_all digit xs)) e =
          (if e \<in> digit ` set (xs @ [y]) then Some (filter (\<lambda>x. digit x = e) (xs @ [y])) else None)"
      proof (cases "digit y \<in> digit ` set xs")
        case True
        then show ?thesis by (simp add: bucket_def bm_get_insert Cons.prems)
      next
        case False
        then have "filter (\<lambda>x. digit x = digit y) xs = []"
          by (metis (mono_tags, lifting) filter_False imageI)
        then show ?thesis by (simp add: bucket_def bm_get_insert Cons.prems False)
      qed
    qed
    ultimately show ?case using Cons.IH [of "xs @ [y]"] by simp
  qed simp
  from this [of "[]" xs d] show ?thesis by (simp add: bucket_all_def fun_eq_iff)
qed

lemma bucket_all_wf: "bm_wf (bucket_all digit xs)"
proof -
  have "bm_wf m \<Longrightarrow> bm_wf (fold (bucket digit) xs m)" for m
    by (induction xs arbitrary: m) (simp_all add: bucket_def bm_wf_insert)
  then show ?thesis by (simp add: bucket_all_def bm.wf_empty)
qed

lemma bucket_smaller:
  assumes "1 < length (bucket_all digit xs)" and "(d, members) \<in> set (bucket_all digit xs)"
  shows "length members < length xs"
proof -
  have members: "members = filter (\<lambda>x. digit x = d) xs"
    using assms(2) by (simp add: bm.in_entries [OF bucket_all_wf] bucket_all_get split: if_splits)
  have "\<exists>e \<in> set (bucket_all digit xs). fst e \<noteq> d"
  proof (rule ccontr)
    assume "\<not> ?thesis"
    then have "fst ` set (bucket_all digit xs) \<subseteq> {d}" by blast
    then have "card (fst ` set (bucket_all digit xs)) \<le> 1" using card_mono [of "{d}"] by fastforce
    with assms(1) show False by (simp add: length_keys [OF bucket_all_wf])
  qed
  then obtain d' ms where "(d', ms) \<in> set (bucket_all digit xs)" "d' \<noteq> d" by auto
  then have "d' \<in> digit ` set xs"
    by (simp add: bm.in_entries [OF bucket_all_wf] bucket_all_get split: if_splits)
  then show ?thesis using \<open>d' \<noteq> d\<close> unfolding members by (auto intro: length_filter_less)
qed

lemma split_buckets_smaller:
  assumes "split_buckets sha256 config hash_depth xs = Some (probe, buckets)" and "(d, members) \<in> set buckets"
  shows "length members < length xs"
  using assms by (auto simp: split_buckets_def find_Some_iff intro: bucket_smaller)

function build_hierarchy_group ::
  "(bytes \<Rightarrow> bytes) \<Rightarrow> bounded_topology_config \<Rightarrow> node_id list \<Rightarrow> rstring option \<Rightarrow> rstring \<Rightarrow> nat \<Rightarrow> nat \<Rightarrow>
     (nat \<times> nat) list \<Rightarrow> hierarchy_group list \<Rightarrow> bounded_topology_error + hierarchy_group list" where
  "build_hierarchy_group sha256 config node_ids parent_block_id block_id depth hash_depth prefix groups =
     (let node_ids = sort node_ids in
      if length node_ids \<le> tc_block_size config
      then Inr (groups @ [\<lparr>hg_block_id = block_id, hg_node_ids = node_ids, hg_parent_block_id = parent_block_id,
                           hg_child_block_ids = [], hg_depth = depth, hg_representatives = []\<rparr>])
      else case split_buckets sha256 config hash_depth node_ids of
        None \<Rightarrow> Inl (InvariantViolation CannotSplitLeaf)
      | Some (split_depth, buckets) \<Rightarrow>
          let child_specs = map (\<lambda>(digit, members).
                let child_prefix = prefix @ [(split_depth, digit)]
                in (hierarchy_group_id sha256 child_prefix config, child_prefix, members)) buckets
          in for_each (\<lambda>(child_id, child_prefix, members).
               build_hierarchy_group sha256 config members (Some block_id) child_id (depth + 1) (split_depth + 1) child_prefix)
               child_specs
               (groups @ [\<lparr>hg_block_id = block_id, hg_node_ids = node_ids, hg_parent_block_id = parent_block_id,
                           hg_child_block_ids = map fst child_specs, hg_depth = depth, hg_representatives = []\<rparr>]))"
  by pat_completeness auto

termination
proof (relation "measure (\<lambda>(_, _, node_ids, _). length node_ids)")
qed (auto simp: Let_def dest: split_buckets_smaller)

declare build_hierarchy_group.simps [simp del]

definition build_hierarchy ::
  "(bytes \<Rightarrow> bytes) \<Rightarrow> node_id list \<Rightarrow> bounded_topology_config \<Rightarrow> bounded_topology_error + hierarchy_group list" where
  "build_hierarchy sha256 node_ids config =
     (if node_ids = [] then Inr []
      else and_then (build_hierarchy_group sha256 config node_ids None (str ''group-root'') 0 0 [] [])
        (\<lambda>groups. Inr (sort_key (\<lambda>group. (hg_depth group, hg_block_id group)) groups)))"

subsection \<open>Edges\<close>

type_synonym placements = "(topology_edge, topology_edge_placement list) amap"

definition place_edge :: "topology_edge_placement \<Rightarrow> node_id \<Rightarrow> node_id \<Rightarrow> adjacency \<times> placements \<Rightarrow> adjacency \<times> placements" where
  "place_edge placement first second = (\<lambda>(adjacency, edge_placements).
     (add_undirected_edge first second adjacency,
      case topology_edge_new first second of
        None \<Rightarrow> edge_placements
      | Some edge \<Rightarrow>
          bm_insert edge
            (insort_insert placement (case am_get edge_placements edge of None \<Rightarrow> [] | Some placed \<Rightarrow> placed))
            edge_placements))"

definition add_placed_cycle :: "node_id list \<Rightarrow> topology_edge_placement \<Rightarrow> adjacency \<times> placements \<Rightarrow> adjacency \<times> placements" where
  "add_placed_cycle cycle placement edges =
     (if length cycle < 2 then edges
      else
        let edge_count = (if length cycle = 2 then 1 else length cycle)
        in fold (\<lambda>index. place_edge placement (cycle ! index) (cycle ! ((index + 1) mod length cycle)))
             [0..<edge_count] edges)"

definition add_leaf_cycles :: "hierarchy_group list \<Rightarrow> adjacency \<times> placements \<Rightarrow> adjacency \<times> placements" where
  "add_leaf_cycles hierarchy =
     fold (\<lambda>group. add_placed_cycle (hg_node_ids group)
         (TopologyEdgePlacement (hg_depth group) 0 LeafCycle (hg_block_id group)))
       (filter (\<lambda>group. hg_child_block_ids group = []) hierarchy)"

subsection \<open>Representatives\<close>

text \<open>\<open>max_by_key\<close>: the last of the greatest elements.\<close>

fun max_by_key :: "('a \<Rightarrow> 'k::linorder) \<Rightarrow> 'a list \<Rightarrow> 'a option" where
  "max_by_key key [] = None"
| "max_by_key key (x # xs) =
     (case max_by_key key xs of None \<Rightarrow> Some x | Some y \<Rightarrow> if key x \<le> key y then Some y else Some x)"

definition reserved_degree :: "(node_id, nat) amap \<Rightarrow> node_id \<Rightarrow> nat" where
  "reserved_degree reserved node_id = (case am_get reserved node_id of None \<Rightarrow> 0 | Some n \<Rightarrow> n)"

definition select_group_representatives ::
  "(bytes \<Rightarrow> bytes) \<Rightarrow> rstring \<Rightarrow> node_id list \<Rightarrow> nat \<Rightarrow> (node_id, nat) amap \<Rightarrow> adjacency \<Rightarrow> bounded_topology_config \<Rightarrow>
     bounded_topology_error + topology_representative list" where
  "select_group_representatives sha256 group_id candidates role_degree reserved adjacency config =
     (if length candidates = 1 then
        let node_id = hd candidates;
            degree = length (neighbors_of adjacency node_id)
        in if degree + reserved_degree reserved node_id + 2 * role_degree > tc_max_degree config
           then Inl (RepresentativeCapacity group_id)
           else Inr [\<lparr>rp_node_id = node_id, rp_plane = 0\<rparr>, \<lparr>rp_node_id = node_id, rp_plane = 1\<rparr>]
      else for_each (\<lambda>plane selected.
          case max_by_key (\<lambda>node_id. (representative_score sha256 group_id plane node_id config, node_id))
              (filter (\<lambda>node_id.
                 length (neighbors_of adjacency node_id) + reserved_degree reserved node_id + role_degree \<le> tc_max_degree config)
                (filter (\<lambda>node_id. \<not> list_ex (\<lambda>representative. rp_node_id representative = node_id) selected) candidates)) of
            None \<Rightarrow> Inl (RepresentativeCapacity group_id)
          | Some candidate \<Rightarrow> Inr (selected @ [\<lparr>rp_node_id = candidate, rp_plane = plane\<rparr>]))
        [0, 1] [])"

definition reserve_degree :: "nat \<Rightarrow> topology_representative \<Rightarrow> (node_id, nat) amap \<Rightarrow> (node_id, nat) amap" where
  "reserve_degree role_degree representative reserved =
     bm_insert (rp_node_id representative) (reserved_degree reserved (rp_node_id representative) + role_degree) reserved"

definition allocate_group ::
  "(bytes \<Rightarrow> bytes) \<Rightarrow> bounded_topology_config \<Rightarrow> adjacency \<Rightarrow> nat \<Rightarrow> hierarchy_group list \<times> (node_id, nat) amap \<Rightarrow>
     bounded_topology_error + hierarchy_group list \<times> (node_id, nat) amap" where
  "allocate_group sha256 config adjacency group_index = (\<lambda>(hierarchy, reserved).
     let group = hierarchy ! group_index; role_degree = 1 in
     and_then (select_group_representatives sha256 (hg_block_id group) (hg_node_ids group) role_degree reserved adjacency config)
       (\<lambda>representatives. Inr
         (hierarchy[group_index := group\<lparr>hg_representatives := representatives\<rparr>],
          fold (reserve_degree role_degree) representatives reserved)))"

definition group_order :: "hierarchy_group list \<Rightarrow> nat list" where
  "group_order hierarchy =
     map fst (sort_key (\<lambda>(_, group). (- int (hg_depth group), hg_block_id group))
       (filter (\<lambda>(_, group). hg_parent_block_id group \<noteq> None) (List.enumerate 0 hierarchy)))"

definition representative_for_plane :: "hierarchy_group \<Rightarrow> nat \<Rightarrow> bounded_topology_error + node_id" where
  "representative_for_plane g plane =
     ok_or (map_option rp_node_id (List.find (\<lambda>representative. rp_plane representative = plane) (hg_representatives g)))
       (RepresentativeCapacity (hg_block_id g))"

text \<open>\<open>&hierarchy[index_by_id[id]]\<close>: an unknown identifier panics, which is \<open>Inl None\<close>.\<close>

definition group_by_id ::
  "hierarchy_group list \<Rightarrow> (rstring, nat) amap \<Rightarrow> rstring \<Rightarrow> bounded_topology_error option + hierarchy_group" where
  "group_by_id hierarchy index_by_id group_id =
     (case am_get index_by_id group_id of
        None \<Rightarrow> Inl None
      | Some index \<Rightarrow> if index < length hierarchy then Inr (hierarchy ! index) else Inl None)"

definition add_hierarchy_block_ring ::
  "hierarchy_group list \<Rightarrow> (rstring, nat) amap \<Rightarrow> rstring list \<Rightarrow> topology_edge_placement \<Rightarrow> adjacency \<times> placements \<Rightarrow>
     bounded_topology_error option + adjacency \<times> placements" where
  "add_hierarchy_block_ring hierarchy index_by_id child_ids placement =
     for_each (\<lambda>index edges.
         and_then (group_by_id hierarchy index_by_id (child_ids ! index)) (\<lambda>source_child.
         and_then (group_by_id hierarchy index_by_id (child_ids ! ((index + 1) mod length child_ids))) (\<lambda>target_child.
         and_then (map_err Some (representative_for_plane source_child 1)) (\<lambda>source.
         and_then (map_err Some (representative_for_plane target_child 0)) (\<lambda>target.
           Inr (place_edge placement source target edges))))))
       [0..<length child_ids]"

definition allocate_representatives_and_hierarchy_edges ::
  "(bytes \<Rightarrow> bytes) \<Rightarrow> bounded_topology_config \<Rightarrow> hierarchy_group list \<Rightarrow> adjacency \<times> placements \<Rightarrow>
     bounded_topology_error option + hierarchy_group list \<times> adjacency \<times> placements" where
  "allocate_representatives_and_hierarchy_edges sha256 config hierarchy edges =
     (let index_by_id = fold (\<lambda>(index, group). bm_insert (hg_block_id group) index) (List.enumerate 0 hierarchy) [] in
      and_then (map_err Some (for_each (allocate_group sha256 config (fst edges)) (group_order hierarchy) (hierarchy, [])))
        (\<lambda>(hierarchy, reserved).
      and_then
        (for_each (\<lambda>parent_id edges.
            and_then (group_by_id hierarchy index_by_id parent_id) (\<lambda>parent.
              add_hierarchy_block_ring hierarchy index_by_id (hg_child_block_ids parent)
                (TopologyEdgePlacement (hg_depth parent) 0 HierarchyLink parent_id) edges))
          (map hg_block_id (filter (\<lambda>group. 2 \<le> length (hg_child_block_ids group)) hierarchy)) edges)
        (\<lambda>edges. Inr (hierarchy, edges))))"

subsection \<open>Synthesis\<close>

record bounded_topology =
  bt_topology_epoch :: u64
  bt_max_degree :: nat
  bt_fanout :: nat
  bt_groups :: "topology_group list"
  bt_edge_placements :: placements
  bt_adjacency :: adjacency
  bt_invariants :: topology_invariants
  bt_diameter_lower_bound :: "nat option"
  bt_routing_node_ids :: "node_id list"
  bt_routing_node_indexes :: "(node_id, nat) amap"
  bt_indexed_adjacency :: "nat list list"

definition check_config :: "bounded_topology_config \<Rightarrow> bounded_topology_error + unit" where
  "check_config config =
     (let minimum_block_size = max MIN_OVERLAY_BLOCK_SIZE MIN_HIERARCHICAL_BLOCK_SIZE;
          maximum_block_size = MAX_OVERLAY_BLOCK_SIZE in
      if tc_max_degree config \<notin> set SUPPORTED_MAX_DEGREES then Inl (UnsupportedMaxDegree (tc_max_degree config))
      else if \<not> (minimum_block_size \<le> tc_block_size config \<and> tc_block_size config \<le> maximum_block_size)
      then Inl (InvalidBlockSize (tc_block_size config) minimum_block_size maximum_block_size)
      else Inr ())"

definition check_invariants :: "topology_invariants \<Rightarrow> bool \<Rightarrow> bounded_topology_error + unit" where
  "check_invariants invariants no_articulation_points =
     (if \<not> ti_connected invariants then Inl (InvariantViolation Disconnected)
      else if \<not> ti_symmetric invariants then Inl (InvariantViolation Asymmetric)
      else if \<not> ti_no_self_loops invariants then Inl (InvariantViolation SelfLoop)
      else if \<not> ti_within_degree_bound invariants then Inl (InvariantViolation DegreeExceeded)
      else if \<not> no_articulation_points then Inl (InvariantViolation SingleNodeFailureDisconnects)
      else Inr ())"

definition node_indexes :: "node_id list \<Rightarrow> (node_id, nat) amap" where
  "node_indexes node_ids = fold (\<lambda>(index, node_id). bm_insert node_id index) (List.enumerate 0 node_ids) []"

definition index_adjacency :: "node_id list \<Rightarrow> adjacency \<Rightarrow> nat list list" where
  "index_adjacency node_ids adjacency =
     map (\<lambda>node_id. List.map_filter (am_get (node_indexes node_ids)) (neighbors_of adjacency node_id)) node_ids"

definition assemble ::
  "(bytes \<Rightarrow> bytes) \<Rightarrow> bounded_topology_config \<Rightarrow> node_id list \<Rightarrow> hierarchy_group list \<Rightarrow> adjacency \<times> placements \<Rightarrow>
     (bounded_topology_error + bounded_topology) option" where
  "assemble sha256 config node_ids hierarchy = (\<lambda>(adjacency, edge_placements).
     Option.bind (inspect_invariants adjacency (tc_max_degree config)) (\<lambda>invariants.
     Option.bind (graph_has_no_articulation_points adjacency) (\<lambda>no_articulation_points.
     Option.bind (calculate_diameter_lower_bound adjacency) (\<lambda>diameter_lower_bound.
       Some (and_then (check_invariants invariants no_articulation_points) (\<lambda>_. Inr
         \<lparr>bt_topology_epoch = topology_epoch sha256 node_ids config,
          bt_max_degree = tc_max_degree config,
          bt_fanout = tc_block_size config,
          bt_groups = map into_group hierarchy,
          bt_edge_placements = edge_placements,
          bt_adjacency = adjacency,
          bt_invariants = invariants,
          bt_diameter_lower_bound = diameter_lower_bound,
          bt_routing_node_ids = node_ids,
          bt_routing_node_indexes = node_indexes node_ids,
          bt_indexed_adjacency = index_adjacency node_ids adjacency\<rparr>))))))"

definition synthesize ::
  "(bytes \<Rightarrow> bytes) \<Rightarrow> node_record list \<Rightarrow> bounded_topology_config \<Rightarrow> (bounded_topology_error + bounded_topology) option" where
  "synthesize sha256 nodes config =
     (case and_then (check_config config) (\<lambda>_.
           and_then (canonical_node_ids nodes) (\<lambda>node_ids.
           and_then (build_hierarchy sha256 node_ids config) (\<lambda>hierarchy. Inr (node_ids, hierarchy)))) of
        Inl e \<Rightarrow> Some (Inl e)
      | Inr (node_ids, hierarchy) \<Rightarrow>
          let edges = add_leaf_cycles hierarchy (map (\<lambda>node_id. (node_id, [])) node_ids, []) in
          case allocate_representatives_and_hierarchy_edges sha256 config hierarchy edges of
            Inl None \<Rightarrow> None
          | Inl (Some e) \<Rightarrow> Some (Inl e)
          | Inr (hierarchy, edges) \<Rightarrow> assemble sha256 config node_ids hierarchy edges)"

subsection \<open>The hierarchy\<close>

definition leaves :: "hierarchy_group list \<Rightarrow> hierarchy_group list" where
  "leaves gs = filter (\<lambda>g. hg_child_block_ids g = []) gs"

text \<open>
  The groups that one call adds for some members: its leaves hold exactly these members, no leaf and no
  group is larger than the fanout, and every child of a group is among them.
\<close>

definition hierarchy_ok :: "nat \<Rightarrow> node_id list \<Rightarrow> hierarchy_group list \<Rightarrow> bool" where
  "hierarchy_ok fanout node_ids gs \<longleftrightarrow>
     mset (concat (map hg_node_ids (leaves gs))) = mset node_ids \<and>
     (\<forall>g \<in> set gs. length (hg_child_block_ids g) \<le> fanout \<and>
        (hg_child_block_ids g = [] \<longrightarrow> length (hg_node_ids g) \<le> fanout) \<and>
        set (hg_child_block_ids g) \<subseteq> hg_block_id ` set gs \<and> set (hg_node_ids g) \<subseteq> set node_ids)"

lemma am_remove_Cons: "am_remove k (e # m) = (if fst e = k then am_remove k m else e # am_remove k m)"
  by (simp add: am_remove_def)

lemma am_remove_absent: "k \<notin> fst ` set m \<Longrightarrow> am_remove k m = m"
  unfolding am_remove_def by (intro filter_True) force

lemma bm_insert_mset:
  assumes "bm_wf m"
  shows "mset (bm_insert k v m) = add_mset (k, v) (mset (am_remove k m))"
  using assms
proof (induction k v m rule: bm_insert.induct)
  case (2 k v k' v' m)
  have wf: "bm_wf m" and less: "\<forall>e \<in> set m. k' < fst e" using 2(2) by (auto simp: bm_wf_def)
  consider "k < k'" | "k = k'" | "k' < k" by fastforce
  then show ?case
  proof cases
    case 1
    with less have "k \<notin> fst ` set m" by fastforce
    with 1 show ?thesis by (simp add: am_remove_Cons am_remove_absent)
  next
    case 2
    with less have "k \<notin> fst ` set m" by fastforce
    with 2 show ?thesis by (simp add: am_remove_Cons am_remove_absent)
  next
    case 3
    then have "\<not> k < k'" "k \<noteq> k'" "k' \<noteq> k" by auto
    then show ?thesis using "2.IH" wf by (simp add: am_remove_Cons)
  qed
qed (simp add: am_remove_def)

lemma mset_concat_snd: "mset (concat (map snd m)) = (\<Sum>e \<in># mset m. mset (snd e))"
  by (induction m) auto

lemma bucket_mset:
  assumes "bm_wf m"
  shows "mset (concat (map snd (bucket digit x m))) = add_mset x (mset (concat (map snd m)))"
proof (cases "am_get m (digit x)")
  case None
  then have "am_remove (digit x) m = m" by (intro am_remove_absent) (auto simp: map_of_eq_None_iff)
  then show ?thesis by (simp add: bucket_def None mset_concat_snd bm_insert_mset assms)
next
  case (Some ms)
  have "mset m = add_mset (digit x, ms) (mset (am_remove (digit x) m))"
  proof -
    have "set m = insert (digit x, ms) (set (am_remove (digit x) m))" "(digit x, ms) \<notin> set (am_remove (digit x) m)"
      using Some assms by (auto simp: am_remove_def bm.in_entries)
    moreover have "distinct m" "distinct (am_remove (digit x) m)"
      using bm.wf_keys [OF assms] by (auto simp: am_remove_def distinct_map)
    ultimately show ?thesis by (metis distinct.simps(2) list.simps(15) mset.simps(2) set_eq_iff_mset_eq_distinct)
  qed
  then show ?thesis by (simp add: bucket_def Some mset_concat_snd bm_insert_mset assms)
qed

lemma bucket_all_mset: "mset (concat (map snd (bucket_all digit xs))) = mset xs"
proof -
  have "mset (concat (map snd (fold (bucket digit) xs m))) = mset xs + mset (concat (map snd m))" if "bm_wf m" for m
    using that
  proof (induction xs arbitrary: m)
    case (Cons x xs)
    have "bm_wf (bucket digit x m)" using Cons.prems by (simp add: bucket_def bm_wf_insert)
    from Cons.IH [OF this] show ?case by (simp add: bucket_mset [OF Cons.prems])
  qed simp
  from this [of "[]"] show ?thesis by (simp add: bucket_all_def bm.wf_empty)
qed

lemma for_each_extends:
  assumes "for_each f xs s = Inr r" and "\<And>x s r. x \<in> set xs \<Longrightarrow> f x s = Inr r \<Longrightarrow> \<exists>new. r = s @ new \<and> Q x new"
  shows "\<exists>news. r = s @ concat news \<and> list_all2 Q xs news"
  using assms
proof (induction xs arbitrary: s)
  case (Cons x xs)
  from Cons.prems(1) obtain t where t: "f x s = Inr t" "for_each f xs t = Inr r"
    by (auto simp: and_then_eq_Inr)
  from Cons.prems(2) [OF _ t(1)] obtain new where new: "t = s @ new" "Q x new" by auto
  have "\<exists>news. r = t @ concat news \<and> list_all2 Q xs news"
    by (rule Cons.IH [OF t(2)]) (use Cons.prems(2) in simp)
  then obtain news where "r = t @ concat news" "list_all2 Q xs news" by blast
  with new show ?case by (intro exI [of _ "new # news"]) simp
qed simp

lemma leaves_concat: "leaves (concat gss) = concat (map leaves gss)"
  by (induction gss) (simp_all add: leaves_def)

lemma bucket_all_entry:
  assumes "(d, ms) \<in> set (bucket_all digit xs)"
  shows "ms = filter (\<lambda>x. digit x = d) xs" and "d \<in> digit ` set xs"
  using assms by (simp_all add: bm.in_entries [OF bucket_all_wf] bucket_all_get split: if_splits)

lemma bucket_all_fanout:
  assumes "\<And>x. digit x < (n :: nat)"
  shows "length (bucket_all digit xs) \<le> n"
proof -
  have "fst ` set (bucket_all digit xs) \<subseteq> {..<n}" using assms bucket_all_entry(2) by fastforce
  then have "card (fst ` set (bucket_all digit xs)) \<le> n" using card_mono [of "{..<n}"] by fastforce
  then show ?thesis by (simp add: length_keys [OF bucket_all_wf])
qed

lemma hierarchy_ok_leaf:
  "length (hg_node_ids g) \<le> n \<Longrightarrow> hg_child_block_ids g = [] \<Longrightarrow> mset (hg_node_ids g) = mset ids \<Longrightarrow> hierarchy_ok n ids [g]"
  using mset_eq_setD [of "hg_node_ids g" ids] by (auto simp: hierarchy_ok_def leaves_def)

lemma hierarchy_ok_node:
  assumes g: "hg_child_block_ids g \<noteq> []" "length (hg_child_block_ids g) \<le> n" "set (hg_node_ids g) = set ids"
    and ids: "hg_child_block_ids g = map fst specs"
    and parts: "mset (concat (map (snd \<circ> snd) specs)) = mset ids"
    and news: "list_all2 (\<lambda>(child_id, _, members) gs. hierarchy_ok n members gs \<and> child_id \<in> hg_block_id ` set gs) specs news"
  shows "hierarchy_ok n ids (g # concat news)"
proof -
  have len: "length specs = length news" using news by (rule list_all2_lengthD)
  have nth: "hierarchy_ok n (snd (snd (specs ! i))) (news ! i)" "fst (specs ! i) \<in> hg_block_id ` set (news ! i)"
    if "i < length specs" for i
    using list_all2_nthD [OF news that] by (auto split: prod.splits)
  have "map (mset \<circ> concat \<circ> map hg_node_ids \<circ> leaves) news = map (mset \<circ> snd \<circ> snd) specs"
    using nth len by (intro nth_equalityI) (auto simp: hierarchy_ok_def)
  moreover have "mset (concat (map hg_node_ids (concat (map leaves gss)))) =
      sum_list (map (mset \<circ> concat \<circ> map hg_node_ids \<circ> leaves) gss)" for gss
    by (induction gss) simp_all
  ultimately have "mset (concat (map hg_node_ids (concat (map leaves news)))) = mset (concat (map (snd \<circ> snd) specs))"
    by (simp only: mset_concat map_map comp_assoc)
  then have "mset (concat (map hg_node_ids (leaves (g # concat news)))) = mset ids"
    using g(1) parts by (simp add: leaves_concat [symmetric] leaves_def)
  moreover have "set (hg_child_block_ids g) \<subseteq> hg_block_id ` set (concat news)"
    unfolding ids using nth(2) len by (fastforce simp: in_set_conv_nth)
  moreover have "length (hg_child_block_ids h) \<le> n \<and> (hg_child_block_ids h = [] \<longrightarrow> length (hg_node_ids h) \<le> n) \<and>
      set (hg_child_block_ids h) \<subseteq> hg_block_id ` set (concat news) \<and> set (hg_node_ids h) \<subseteq> set ids"
    if "h \<in> set (concat news)" for h
  proof -
    from that obtain gs where "gs \<in> set news" "h \<in> set gs" by auto
    then obtain i where i: "i < length news" "h \<in> set (news ! i)" by (metis in_set_conv_nth)
    have "specs ! i \<in> set specs" using i len by simp
    then have "set (snd (snd (specs ! i))) \<subseteq> set (concat (map (snd \<circ> snd) specs))" by auto
    then have "set (snd (snd (specs ! i))) \<subseteq> set ids" unfolding mset_eq_setD [OF parts] .
    moreover have "set (news ! i) \<subseteq> set (concat news)" using nth_mem [OF i(1)] by auto
    moreover have "length (hg_child_block_ids h) \<le> n" "hg_child_block_ids h = [] \<longrightarrow> length (hg_node_ids h) \<le> n"
      "set (hg_child_block_ids h) \<subseteq> hg_block_id ` set (news ! i)" "set (hg_node_ids h) \<subseteq> set (snd (snd (specs ! i)))"
      using nth(1) [of i] i len by (auto simp: hierarchy_ok_def)
    ultimately show ?thesis by (meson image_mono subset_trans)
  qed
  ultimately show ?thesis using g unfolding hierarchy_ok_def by auto
qed

lemma hash_prefix_digit_less: "0 < tc_block_size config \<Longrightarrow> hash_prefix_digit sha256 node_id probe config < tc_block_size config"
  by (simp add: hash_prefix_digit_def)

lemma split_buckets_Some:
  assumes "split_buckets sha256 config hash_depth ids = Some (probe, buckets)"
  shows "buckets = bucket_all (\<lambda>node_id. hash_prefix_digit sha256 node_id probe config) ids" and "1 < length buckets"
  using assms by (auto simp: split_buckets_def find_Some_iff)

lemma build_hierarchy_group_ok:
  assumes "build_hierarchy_group sha256 config ids parent block_id depth hash_depth prefix groups = Inr r"
    and size: "0 < tc_block_size config"
  shows "\<exists>new. r = groups @ new \<and> hierarchy_ok (tc_block_size config) ids new \<and> block_id \<in> hg_block_id ` set new"
  using assms(1)
proof (induction "length ids" arbitrary: ids parent block_id depth hash_depth prefix groups r rule: less_induct)
  case less
  note unfold = less.prems [unfolded build_hierarchy_group.simps [of sha256 config ids] Let_def]
  show ?case
  proof (cases "length ids \<le> tc_block_size config")
    case True
    let ?g = "\<lparr>hg_block_id = block_id, hg_node_ids = sort ids, hg_parent_block_id = parent,
      hg_child_block_ids = [], hg_depth = depth, hg_representatives = []\<rparr>"
    have "r = groups @ [?g]" using unfold True by simp
    moreover have "hierarchy_ok (tc_block_size config) ids [?g]" using True by (intro hierarchy_ok_leaf) simp_all
    ultimately show ?thesis by (intro exI [of _ "[?g]"]) simp
  next
    case False
    with unfold obtain probe buckets where split: "split_buckets sha256 config hash_depth (sort ids) = Some (probe, buckets)"
      by (auto split: option.splits)
    let ?specs = "map (\<lambda>(digit, members). (hierarchy_group_id sha256 (prefix @ [(probe, digit)]) config,
        prefix @ [(probe, digit)], members)) buckets"
    let ?g = "\<lparr>hg_block_id = block_id, hg_node_ids = sort ids, hg_parent_block_id = parent,
      hg_child_block_ids = map fst ?specs, hg_depth = depth, hg_representatives = []\<rparr>"
    let ?Q = "\<lambda>(child_id, _ :: (nat \<times> nat) list, members) gs.
      hierarchy_ok (tc_block_size config) members gs \<and> child_id \<in> hg_block_id ` set gs"
    have "for_each (\<lambda>(child_id, child_prefix, members).
        build_hierarchy_group sha256 config members (Some block_id) child_id (depth + 1) (probe + 1) child_prefix)
        ?specs (groups @ [?g]) = Inr r"
      using unfold False split by simp
    moreover have "\<exists>new. t = s @ new \<and> ?Q spec new"
      if "spec \<in> set ?specs" "(\<lambda>(child_id, child_prefix, members).
        build_hierarchy_group sha256 config members (Some block_id) child_id (depth + 1) (probe + 1) child_prefix) spec s = Inr t"
      for spec s t
    proof -
      from that(1) obtain d members where spec: "(d, members) \<in> set buckets"
        "spec = (hierarchy_group_id sha256 (prefix @ [(probe, d)]) config, prefix @ [(probe, d)], members)" by auto
      have "length members < length ids" using split_buckets_smaller [OF split spec(1)] by simp
      from less.hyps [OF this] that(2) show ?thesis by (simp add: spec(2))
    qed
    ultimately have "\<exists>news. r = (groups @ [?g]) @ concat news \<and> list_all2 ?Q ?specs news"
      by (rule for_each_extends)
    then obtain news where r: "r = groups @ ?g # concat news" and news: "list_all2 ?Q ?specs news" by auto
    note b = split_buckets_Some [OF split]
    have "hierarchy_ok (tc_block_size config) ids (?g # concat news)"
    proof (rule hierarchy_ok_node [OF _ _ _ _ _ news])
      show "hg_child_block_ids ?g \<noteq> []" using b(2) by auto
      show "length (hg_child_block_ids ?g) \<le> tc_block_size config"
        unfolding b(1) using bucket_all_fanout [OF hash_prefix_digit_less [OF size]] by simp
      have "map (snd \<circ> snd) ?specs = map snd buckets" by auto
      then show "mset (concat (map (snd \<circ> snd) ?specs)) = mset ids"
        by (simp only: b(1) bucket_all_mset mset_sort)
    qed simp_all
    then show ?thesis using r by (intro exI [of _ "?g # concat news"]) simp
  qed
qed

lemma build_hierarchy_ok:
  assumes "build_hierarchy sha256 ids config = Inr gs" and "0 < tc_block_size config"
  shows "hierarchy_ok (tc_block_size config) ids gs"
proof (cases "ids = []")
  case True
  then show ?thesis using assms(1) by (simp add: build_hierarchy_def hierarchy_ok_def leaves_def)
next
  case False
  with assms(1) obtain hs where hs: "build_hierarchy_group sha256 config ids None (str ''group-root'') 0 0 [] [] = Inr hs"
    "gs = sort_key (\<lambda>group. (hg_depth group, hg_block_id group)) hs"
    by (auto simp: build_hierarchy_def and_then_eq_Inr)
  from build_hierarchy_group_ok [OF hs(1) assms(2)] have ok: "hierarchy_ok (tc_block_size config) ids hs" by auto
  have "mset (leaves gs) = mset (leaves hs)" by (simp add: leaves_def hs(2) mset_filter)
  then have "mset (concat (map hg_node_ids (leaves gs))) = mset (concat (map hg_node_ids (leaves hs)))"
    by (metis (no_types, lifting) mset_concat mset_map sum_mset_sum_list)
  moreover have "set gs = set hs" by (simp add: hs(2))
  ultimately show ?thesis using ok by (simp add: hierarchy_ok_def)
qed

subsection \<open>Edges and representatives\<close>

definition adjacency_over :: "node_id set \<Rightarrow> adjacency \<Rightarrow> bool" where
  "adjacency_over K adjacency \<longleftrightarrow> bm_wf adjacency \<and> fst ` set adjacency = K \<and> (\<forall>(_, ns) \<in> set adjacency. distinct ns)"

lemma adjacency_over_set:
  assumes "adjacency_over K adjacency" and "am_get adjacency x = Some ns" and "distinct ns"
  shows "adjacency_over K (bm_insert x (insort_insert y ns) adjacency)"
proof -
  have wf: "bm_wf adjacency" "bm_wf (bm_insert x (insort_insert y ns) adjacency)"
    using assms(1) by (simp_all add: adjacency_over_def bm_wf_insert)
  have "x \<in> K" using assms by (force simp: adjacency_over_def dest: map_of_SomeD)
  moreover have "distinct ms" if "(z, ms) \<in> set (bm_insert x (insort_insert y ns) adjacency)" for z ms
    using that assms wf
    by (auto simp: bm.in_entries bm_get_insert adjacency_over_def distinct_insort_insert split: if_splits)
  ultimately show ?thesis using assms(1) by (auto simp: adjacency_over_def bm_wf_insert bm_insert_keys)
qed

lemma adjacency_over_distinct:
  assumes "adjacency_over K adjacency" and "am_get adjacency x = Some ns"
  shows "distinct ns"
  using assms map_of_SomeD [OF assms(2)] by (auto simp: adjacency_over_def)

lemma adjacency_over_half_edge:
  assumes "adjacency_over K adjacency"
  shows "adjacency_over K (case am_get adjacency x of None \<Rightarrow> adjacency | Some ns \<Rightarrow> bm_insert x (insort_insert y ns) adjacency)"
proof (cases "am_get adjacency x")
  case (Some ns)
  show ?thesis unfolding Some option.case by (rule adjacency_over_set [OF assms Some adjacency_over_distinct [OF assms Some]])
qed (simp add: assms)

lemma adjacency_over_edge: "adjacency_over K adjacency \<Longrightarrow> adjacency_over K (add_undirected_edge x y adjacency)"
  unfolding add_undirected_edge_def Let_def by (cases "x = y") (simp_all only: if_True if_False adjacency_over_half_edge simp_thms)

lemma adjacency_over_place: "adjacency_over K (fst edges) \<Longrightarrow> adjacency_over K (fst (place_edge placement x y edges))"
  by (cases edges) (simp add: place_edge_def adjacency_over_edge)

lemma adjacency_over_fold:
  assumes "\<And>x e. adjacency_over K (fst e) \<Longrightarrow> adjacency_over K (fst (f x e))" and "adjacency_over K (fst e)"
  shows "adjacency_over K (fst (fold f xs e))"
  using assms(2) by (induction xs arbitrary: e) (simp_all add: assms(1))

lemma adjacency_over_cycle:
  "adjacency_over K (fst edges) \<Longrightarrow> adjacency_over K (fst (add_placed_cycle cycle placement edges))"
  unfolding add_placed_cycle_def Let_def by (simp add: adjacency_over_fold adjacency_over_place)

lemma adjacency_over_leaves:
  "adjacency_over K (fst edges) \<Longrightarrow> adjacency_over K (fst (add_leaf_cycles hierarchy edges))"
  unfolding add_leaf_cycles_def by (simp add: adjacency_over_fold adjacency_over_cycle)

text \<open>Allocation changes nothing of the groups but their representatives.\<close>

definition same_groups :: "hierarchy_group list \<Rightarrow> hierarchy_group list \<Rightarrow> bool" where
  "same_groups gs hs \<longleftrightarrow> map (\<lambda>g. g\<lparr>hg_representatives := []\<rparr>) gs = map (\<lambda>g. g\<lparr>hg_representatives := []\<rparr>) hs"

lemma same_groups_nth:
  assumes "same_groups gs hs" and "i < length gs"
  shows "hg_block_id (hs ! i) = hg_block_id (gs ! i) \<and> hg_child_block_ids (hs ! i) = hg_child_block_ids (gs ! i)"
proof -
  have "length gs = length hs" using assms(1) unfolding same_groups_def by (metis length_map)
  then have "(gs ! i)\<lparr>hg_representatives := []\<rparr> = (hs ! i)\<lparr>hg_representatives := []\<rparr>"
    using assms unfolding same_groups_def by (metis (no_types, lifting) nth_map)
  then have "hg_block_id ((gs ! i)\<lparr>hg_representatives := []\<rparr>) = hg_block_id ((hs ! i)\<lparr>hg_representatives := []\<rparr>)"
    "hg_child_block_ids ((gs ! i)\<lparr>hg_representatives := []\<rparr>) = hg_child_block_ids ((hs ! i)\<lparr>hg_representatives := []\<rparr>)"
    by simp_all
  then show ?thesis by simp
qed

lemma same_groups_length: "same_groups gs hs \<Longrightarrow> length gs = length hs"
  unfolding same_groups_def by (metis length_map)

lemma allocate_group_same:
  assumes "allocate_group sha256 config adjacency i (gs, reserved) = Inr (hs, reserved')"
  shows "same_groups gs hs"
proof -
  obtain reps where "hs = gs[i := (gs ! i)\<lparr>hg_representatives := reps\<rparr>]"
    using assms by (auto simp: allocate_group_def Let_def and_then_eq_Inr)
  moreover have "map (\<lambda>g. g\<lparr>hg_representatives := []\<rparr>) (gs[i := (gs ! i)\<lparr>hg_representatives := reps\<rparr>]) =
      map (\<lambda>g. g\<lparr>hg_representatives := []\<rparr>) gs"
    by (cases "i < length gs") (simp_all add: map_update list_update_same_conv list_update_beyond)
  ultimately show ?thesis by (simp add: same_groups_def)
qed

lemma allocate_groups_same:
  assumes "for_each (allocate_group sha256 config adjacency) order (gs, reserved) = Inr (hs, reserved')"
  shows "same_groups gs hs"
  using assms
proof (induction order arbitrary: gs reserved)
  case (Cons i order)
  from Cons.prems obtain ks r where "allocate_group sha256 config adjacency i (gs, reserved) = Inr (ks, r)"
    "for_each (allocate_group sha256 config adjacency) order (ks, r) = Inr (hs, reserved')"
    by (auto simp: and_then_eq_Inr)
  with Cons.IH allocate_group_same show ?case unfolding same_groups_def by metis
qed (simp add: same_groups_def)

definition index_groups :: "hierarchy_group list \<Rightarrow> (rstring, nat) amap" where
  "index_groups hierarchy = fold (\<lambda>(index, group). bm_insert (hg_block_id group) index) (List.enumerate 0 hierarchy) []"

lemma index_groups_get:
  assumes "g \<in> set hierarchy"
  shows "\<exists>i < length hierarchy. am_get (index_groups hierarchy) (hg_block_id g) = Some i"
proof -
  have "\<exists>i < n + length gs. am_get (fold (\<lambda>(index, group). bm_insert (hg_block_id group) index) (List.enumerate n gs) m) k = Some i"
    if "(\<exists>g \<in> set gs. hg_block_id g = k) \<or> (\<exists>i < n. am_get m k = Some i)" for n gs m k
    using that
  proof (induction gs arbitrary: n m)
    case (Cons g gs)
    have "\<exists>i < Suc n + length gs. am_get (fold (\<lambda>(index, group). bm_insert (hg_block_id group) index)
        (List.enumerate (Suc n) gs) (bm_insert (hg_block_id g) n m)) k = Some i"
      by (rule Cons.IH) (use Cons.prems in \<open>auto simp: bm_get_insert intro: less_SucI\<close>)
    then show ?case by simp
  qed simp
  from this [of hierarchy "hg_block_id g" 0 "[]"] assms show ?thesis by (auto simp: index_groups_def)
qed

lemma group_by_id_found:
  assumes "same_groups gs hs" and "k \<in> hg_block_id ` set gs"
  shows "\<exists>h. group_by_id hs (index_groups gs) k = Inr h \<and> h \<in> set hs"
proof -
  from assms(2) obtain i where "i < length gs" "am_get (index_groups gs) k = Some i" using index_groups_get by blast
  then show ?thesis using same_groups_length [OF assms(1)] by (auto simp: group_by_id_def)
qed

lemma same_groups_children:
  assumes "same_groups gs hs" and "\<And>g. g \<in> set gs \<Longrightarrow> set (hg_child_block_ids g) \<subseteq> hg_block_id ` set gs" and "h \<in> set hs"
  shows "set (hg_child_block_ids h) \<subseteq> hg_block_id ` set gs" and "hg_block_id h \<in> hg_block_id ` set gs"
proof -
  from assms(3) obtain i where "i < length gs" "h = hs ! i"
    using same_groups_length [OF assms(1)] by (metis in_set_conv_nth)
  then show "set (hg_child_block_ids h) \<subseteq> hg_block_id ` set gs" "hg_block_id h \<in> hg_block_id ` set gs"
    using same_groups_nth [OF assms(1), of i] assms(2) [of "gs ! i"] by auto
qed

definition returns :: "('e option + 'a) \<Rightarrow> ('a \<Rightarrow> bool) \<Rightarrow> bool" where
  "returns m P \<longleftrightarrow> m \<noteq> Inl None \<and> (\<forall>x. m = Inr x \<longrightarrow> P x)"

lemma returns_then:
  "returns m P \<Longrightarrow> (\<And>x. P x \<Longrightarrow> m = Inr x \<Longrightarrow> returns (f x) Q) \<Longrightarrow> returns (and_then m f) Q"
  by (cases m) (auto simp: returns_def)

lemma returns_map_err: "returns (map_err Some m) (\<lambda>x. m = Inr x)"
  by (cases m) (auto simp: returns_def)

lemma returns_for_each:
  assumes "P s" and "\<And>x s. x \<in> set xs \<Longrightarrow> P s \<Longrightarrow> returns (f x s) P"
  shows "returns (for_each f xs s) P"
  using assms
proof (induction xs arbitrary: s)
  case (Cons x xs)
  then show ?case by (auto intro!: returns_then [where P = P])
qed (simp add: returns_def)

lemma ring_returns:
  assumes "same_groups gs hs" and "set child_ids \<subseteq> hg_block_id ` set gs" and "adjacency_over K (fst edges)"
  shows "returns (add_hierarchy_block_ring hs (index_groups gs) child_ids placement edges) (\<lambda>e. adjacency_over K (fst e))"
  unfolding add_hierarchy_block_ring_def
proof (rule returns_for_each)
  show "adjacency_over K (fst edges)" by (rule assms(3))
  fix i and e :: "adjacency \<times> placements"
  assume "i \<in> set [0..<length child_ids]" and e: "adjacency_over K (fst e)"
  then have i: "i < length child_ids" by simp
  then have "(i + 1) mod length child_ids < length child_ids" by (intro mod_less_divisor) linarith
  with i have ids: "child_ids ! i \<in> set child_ids" "child_ids ! ((i + 1) mod length child_ids) \<in> set child_ids"
    by (simp_all only: nth_mem)
  from group_by_id_found [OF assms(1) subsetD [OF assms(2) ids(1)]] obtain g
    where g: "group_by_id hs (index_groups gs) (child_ids ! i) = Inr g" by blast
  from group_by_id_found [OF assms(1) subsetD [OF assms(2) ids(2)]] obtain h
    where h: "group_by_id hs (index_groups gs) (child_ids ! ((i + 1) mod length child_ids)) = Inr h" by blast
  show "returns (and_then (group_by_id hs (index_groups gs) (child_ids ! i)) (\<lambda>source_child.
      and_then (group_by_id hs (index_groups gs) (child_ids ! ((i + 1) mod length child_ids))) (\<lambda>target_child.
      and_then (map_err Some (representative_for_plane source_child 1)) (\<lambda>source.
      and_then (map_err Some (representative_for_plane target_child 0)) (\<lambda>target.
        Inr (place_edge placement source target e)))))) (\<lambda>e. adjacency_over K (fst e))"
    unfolding g h and_then_Inr
    by (intro returns_then [OF returns_map_err]) (simp add: returns_def adjacency_over_place e)
qed

lemma allocation_returns:
  assumes "\<And>g. g \<in> set gs \<Longrightarrow> set (hg_child_block_ids g) \<subseteq> hg_block_id ` set gs" and "adjacency_over K (fst edges)"
  shows "returns (allocate_representatives_and_hierarchy_edges sha256 config gs edges) (\<lambda>(_, e). adjacency_over K (fst e))"
  unfolding allocate_representatives_and_hierarchy_edges_def index_groups_def [symmetric] Let_def
proof (rule returns_then [OF returns_map_err], clarify)
  fix hs reserved
  assume "for_each (allocate_group sha256 config (fst edges)) (group_order gs) (gs, []) = Inr (hs, reserved)"
  then have same: "same_groups gs hs" by (rule allocate_groups_same)
  let ?parents = "map hg_block_id (filter (\<lambda>group. 2 \<le> length (hg_child_block_ids group)) hs)"
  have "returns (for_each (\<lambda>parent_id edges.
      and_then (group_by_id hs (index_groups gs) parent_id) (\<lambda>parent.
        add_hierarchy_block_ring hs (index_groups gs) (hg_child_block_ids parent)
          (TopologyEdgePlacement (hg_depth parent) 0 HierarchyLink parent_id) edges)) ?parents edges) (\<lambda>e. adjacency_over K (fst e))"
  proof (rule returns_for_each)
    show "adjacency_over K (fst edges)" by (rule assms(2))
    fix k and e :: "adjacency \<times> placements"
    assume "k \<in> set ?parents" and e: "adjacency_over K (fst e)"
    then have "k \<in> hg_block_id ` set gs" using same_groups_children(2) [OF same assms(1)] by auto
    from group_by_id_found [OF same this] obtain h
      where h: "group_by_id hs (index_groups gs) k = Inr h" "h \<in> set hs" by blast
    show "returns (and_then (group_by_id hs (index_groups gs) k) (\<lambda>parent.
        add_hierarchy_block_ring hs (index_groups gs) (hg_child_block_ids parent)
          (TopologyEdgePlacement (hg_depth parent) 0 HierarchyLink k) e)) (\<lambda>e. adjacency_over K (fst e))"
      using ring_returns [OF same same_groups_children(1) [OF same assms(1) h(2)] e] h(1) by simp
  qed
  then show "returns (and_then (for_each (\<lambda>parent_id edges.
      and_then (group_by_id hs (index_groups gs) parent_id) (\<lambda>parent.
        add_hierarchy_block_ring hs (index_groups gs) (hg_child_block_ids parent)
          (TopologyEdgePlacement (hg_depth parent) 0 HierarchyLink parent_id) edges)) ?parents edges)
      (\<lambda>edges. Inr (hs, edges))) (\<lambda>(_, e). adjacency_over K (fst e))"
    by (rule returns_then) (simp add: returns_def)
qed

subsection \<open>Synthesis\<close>

lemma diameter_correct:
  assumes "undirected adjacency"
  shows "\<exists>r. calculate_diameter_lower_bound adjacency = Some r \<and>
    (case r of None \<Rightarrow> adjacency = [] \<or> \<not> all_connected adjacency | Some d \<Rightarrow> is_distance adjacency d)"
proof (cases adjacency)
  case (Cons e adj)
  have s: "fst e \<in> fst ` set adjacency" by (simp add: Cons)
  then have "is_distance adjacency 0" by (auto simp: is_distance_def at_distance_def)
  from diameter_sweeps_correct [OF assms s this, of 4] show ?thesis
    by (cases e) (auto simp: calculate_diameter_lower_bound_def Cons split: option.splits)
qed (simp add: calculate_diameter_lower_bound_def)

lemma diameter_total: "\<exists>r. calculate_diameter_lower_bound adjacency = Some r"
proof -
  have "\<exists>r. diameter_sweeps n adjacency s b = Some r" for n s b
  proof (induction n arbitrary: s b)
    case (Suc n)
    obtain m where "distances_from s adjacency = Some m" using distances_from_correct by blast
    with Suc show ?case by (auto split: option.split)
  qed simp
  then show ?thesis by (auto simp: calculate_diameter_lower_bound_def split: list.split)
qed

lemma articulation_total: "\<exists>b. graph_has_no_articulation_points adjacency = Some b"
proof (cases "length adjacency \<le> 2")
  case False
  then obtain root ns adj where adj: "adjacency = (root, ns) # adj" by (cases adjacency) auto
  let ?start = "\<lparr>df_discovery = [], df_low = [], df_time = 0\<rparr>"
  have "dfs_inv adjacency ?start root False 0 (dfs_enter root ?start)"
    by (rule dfs_inv_enter) (simp_all add: clocked_def bm_wf_def)
  then obtain found t where "articulation_dfs root None adjacency ?start = Some (found, t)"
    using articulation_neighbors_ends [of adjacency ?start root None 0 "dfs_enter root ?start" ns]
    by (auto simp: articulation_dfs_def adj neighbors_of_def)
  then show ?thesis using False by (simp add: graph_has_no_articulation_points_def adj)
qed (auto simp: graph_has_no_articulation_points_def)

lemma first_duplicate_None: "sorted xs \<Longrightarrow> first_duplicate xs = None \<longleftrightarrow> distinct xs"
  by (induction xs rule: first_duplicate.induct) (auto split: if_splits)

lemma canonical_node_ids_ok:
  assumes "canonical_node_ids nodes = Inr ids"
  shows "ids = sort (map nr_node_id nodes)" and "distinct (map nr_node_id nodes)"
  using assms first_duplicate_None [of "sort (map nr_node_id nodes)"]
  by (auto simp: canonical_node_ids_def Let_def split: option.splits)

lemma initial_adjacency:
  assumes "distinct ids" and "sorted ids"
  shows "adjacency_over (set ids) (map (\<lambda>node_id. (node_id, [])) ids)"
  using assms by (simp add: adjacency_over_def bm_wf_def comp_def strict_sorted_iff image_image)

lemma synthesize_steps:
  assumes "check_config config = Inr ()" and "canonical_node_ids nodes = Inr ids" and "build_hierarchy sha256 ids config = Inr hierarchy"
  shows "synthesize sha256 nodes config =
    (case allocate_representatives_and_hierarchy_edges sha256 config hierarchy
        (add_leaf_cycles hierarchy (map (\<lambda>node_id. (node_id, [])) ids, [])) of
       Inl None \<Rightarrow> None
     | Inl (Some e) \<Rightarrow> Some (Inl e)
     | Inr (hierarchy, edges) \<Rightarrow> assemble sha256 config ids hierarchy edges)"
  using assms by (simp add: synthesize_def Let_def)

lemma synthesize_allocates:
  assumes "check_config config = Inr ()" and "canonical_node_ids nodes = Inr ids" and "build_hierarchy sha256 ids config = Inr hierarchy"
  shows "returns (allocate_representatives_and_hierarchy_edges sha256 config hierarchy
      (add_leaf_cycles hierarchy (map (\<lambda>node_id. (node_id, [])) ids, [])))
    (\<lambda>(_, edges). adjacency_over (nr_node_id ` set nodes) (fst edges))"
proof (rule allocation_returns)
  have "0 < tc_block_size config" using assms(1) by (auto simp: check_config_def Let_def split: if_splits)
  from build_hierarchy_ok [OF assms(3) this]
  show "set (hg_child_block_ids g) \<subseteq> hg_block_id ` set hierarchy" if "g \<in> set hierarchy" for g
    using that by (simp add: hierarchy_ok_def)
  note ids = canonical_node_ids_ok [OF assms(2)]
  have "adjacency_over (set ids) (map (\<lambda>node_id. (node_id, [])) ids)"
    using ids by (intro initial_adjacency) simp_all
  then show "adjacency_over (nr_node_id ` set nodes)
      (fst (add_leaf_cycles hierarchy (map (\<lambda>node_id. (node_id, [])) ids, [])))"
    using ids(1) by (intro adjacency_over_leaves) simp
qed

lemma assemble_total: "\<exists>r. assemble sha256 config ids hierarchy edges = Some r"
proof (cases edges)
  case (Pair adjacency edge_placements)
  obtain i b d where "inspect_invariants adjacency (tc_max_degree config) = Some i"
    "graph_has_no_articulation_points adjacency = Some b" "calculate_diameter_lower_bound adjacency = Some d"
    using inspect_invariants_total articulation_total diameter_total by meson
  then show ?thesis by (simp add: assemble_def Pair)
qed

lemma synthesize_ok:
  assumes "synthesize sha256 nodes config = Some (Inr t)"
  obtains ids hierarchy groups adjacency edge_placements
  where "check_config config = Inr ()" and "canonical_node_ids nodes = Inr ids" and "build_hierarchy sha256 ids config = Inr hierarchy"
    and "allocate_representatives_and_hierarchy_edges sha256 config hierarchy
      (add_leaf_cycles hierarchy (map (\<lambda>node_id. (node_id, [])) ids, [])) = Inr (groups, adjacency, edge_placements)"
    and "assemble sha256 config ids groups (adjacency, edge_placements) = Some (Inr t)"
proof -
  from assms obtain ids hierarchy where s: "check_config config = Inr ()" "canonical_node_ids nodes = Inr ids"
    "build_hierarchy sha256 ids config = Inr hierarchy"
    by (cases "check_config config"; cases "canonical_node_ids nodes"; fastforce simp: synthesize_def and_then_def split: sum.splits)
  with assms [unfolded synthesize_steps [OF s]] that show ?thesis
    by (auto split: sum.splits option.splits prod.splits)
qed

lemma assemble_ok:
  assumes "assemble sha256 config ids groups (adjacency, edge_placements) = Some (Inr t)" and "bm_wf adjacency"
  shows "bt_adjacency t = adjacency" and "bt_routing_node_ids t = ids" and "bt_max_degree t = tc_max_degree config"
    and "bt_fanout t = tc_block_size config" and "bt_groups t = map into_group groups"
    and "bt_routing_node_indexes t = node_indexes ids" and "bt_indexed_adjacency t = index_adjacency ids adjacency"
    and "undirected adjacency" and "\<not> linked adjacency x x" and "length (neighbors_of adjacency x) \<le> tc_max_degree config"
    and "all_connected adjacency" and "survives_any_failure adjacency"
    and "adjacency \<noteq> [] \<Longrightarrow> \<exists>d. bt_diameter_lower_bound t = Some d \<and> is_distance adjacency d"
proof -
  from assms(1) obtain i b r where *: "inspect_invariants adjacency (tc_max_degree config) = Some i"
    "graph_has_no_articulation_points adjacency = Some b" "calculate_diameter_lower_bound adjacency = Some r"
    "check_invariants i b = Inr ()" and
    t: "bt_adjacency t = adjacency" "bt_routing_node_ids t = ids" "bt_max_degree t = tc_max_degree config"
      "bt_fanout t = tc_block_size config" "bt_groups t = map into_group groups"
      "bt_routing_node_indexes t = node_indexes ids" "bt_indexed_adjacency t = index_adjacency ids adjacency"
      "bt_diameter_lower_bound t = r"
    by (auto simp: assemble_def bind_eq_Some_conv and_then_eq_Inr)
  show "bt_adjacency t = adjacency" "bt_routing_node_ids t = ids" "bt_max_degree t = tc_max_degree config"
    "bt_fanout t = tc_block_size config" "bt_groups t = map into_group groups"
    "bt_routing_node_indexes t = node_indexes ids" "bt_indexed_adjacency t = index_adjacency ids adjacency"
    using t by simp_all
  have c: "ti_connected i" "ti_symmetric i" "ti_no_self_loops i" "ti_within_degree_bound i" b
    using *(4) by (simp_all add: check_invariants_def split: if_splits)
  note inspected = inspect_invariants_correct [OF assms(2) *(1)]
  show u: "undirected adjacency" using inspected(1) c(2) by simp
  show "\<not> linked adjacency x x" "length (neighbors_of adjacency x) \<le> tc_max_degree config"
    using inspected(2,3) c(3,4) by simp_all
  show con: "all_connected adjacency" using inspected(4) [OF u] c(1) by simp
  have "\<exists>b. graph_has_no_articulation_points adjacency = Some b \<and> (b \<longrightarrow> survives_any_failure adjacency)"
    by (rule no_articulation_points [OF assms(2)]) (rule undirected_closed [OF u])
  then show "survives_any_failure adjacency" using *(2) c(5) by auto
  show "\<exists>d. bt_diameter_lower_bound t = Some d \<and> is_distance adjacency d" if "adjacency \<noteq> []"
    using diameter_correct [OF u] *(3) con that t(8) by (auto split: option.splits)
qed

lemma same_groups_ok:
  assumes "hierarchy_ok n ids gs" and "same_groups gs hs"
  shows "hierarchy_ok n ids hs"
proof -
  let ?strip = "\<lambda>g. g\<lparr>hg_representatives := []\<rparr>"
  have strip: "hierarchy_ok n ids (map ?strip ks) = hierarchy_ok n ids ks" for ks
  proof -
    have "map hg_node_ids (leaves (map ?strip ks)) = map hg_node_ids (leaves ks)"
      by (induction ks) (simp_all add: leaves_def)
    then show ?thesis by (simp add: hierarchy_ok_def image_image)
  qed
  show ?thesis using assms strip [of gs] strip [of hs] by (simp add: same_groups_def)
qed

subsection \<open>Properties\<close>


text \<open>
  C11. A topology that synthesis hands out spans exactly the members, is symmetric and free of loops,
  keeps every node within the configured degree of four or six, connects any two members, keeps any two
  remaining members connected when any one member fails, and reports as its diameter bound the distance
  of two of its members.
\<close>

theorem synthesized_topology_resilient:
  assumes "synthesize sha256 nodes config = Some (Inr t)"
  shows "distinct (map nr_node_id nodes) \<and> fst ` set (bt_adjacency t) = nr_node_id ` set nodes \<and>
    undirected (bt_adjacency t) \<and>
    (\<forall>x. \<not> linked (bt_adjacency t) x x \<and> length (neighbors_of (bt_adjacency t) x) \<le> bt_max_degree t) \<and>
    bt_max_degree t = tc_max_degree config \<and> tc_max_degree config \<in> {4, 6} \<and>
    all_connected (bt_adjacency t) \<and> survives_any_failure (bt_adjacency t) \<and>
    (nodes = [] \<or> (\<exists>d. bt_diameter_lower_bound t = Some d \<and> is_distance (bt_adjacency t) d))"
proof -
  obtain ids hierarchy groups adjacency edge_placements where s: "check_config config = Inr ()" "canonical_node_ids nodes = Inr ids"
    "build_hierarchy sha256 ids config = Inr hierarchy"
    and edges: "allocate_representatives_and_hierarchy_edges sha256 config hierarchy
      (add_leaf_cycles hierarchy (map (\<lambda>node_id. (node_id, [])) ids, [])) = Inr (groups, adjacency, edge_placements)"
    and t: "assemble sha256 config ids groups (adjacency, edge_placements) = Some (Inr t)"
    by (rule synthesize_ok [OF assms])
  have over: "adjacency_over (nr_node_id ` set nodes) adjacency"
    using synthesize_allocates [OF s] edges by (simp add: returns_def)
  then have wf: "bm_wf adjacency" and keys: "fst ` set adjacency = nr_node_id ` set nodes"
    by (simp_all add: adjacency_over_def)
  have "tc_max_degree config \<in> {4, 6}" using s(1) by (auto simp: check_config_def Let_def split: if_splits)
  moreover have "adjacency \<noteq> []" if "nodes \<noteq> []" using keys that by auto
  ultimately show ?thesis
    using canonical_node_ids_ok(2) [OF s(2)] keys assemble_ok [OF t wf] by auto
qed

text \<open>
  C21. The groups of a synthesized topology are a hierarchy over the members: the leaves hold every member
  exactly once, no leaf has more members and no group more children than the fanout, and every child of a
  group is a group.
\<close>

theorem synthesized_hierarchy_partitions:
  assumes "synthesize sha256 nodes config = Some (Inr t)"
  shows "mset (concat (map tg_node_ids (filter is_leaf (bt_groups t)))) = mset (map nr_node_id nodes) \<and>
    (\<forall>g \<in> set (bt_groups t). length (tg_child_group_ids g) \<le> bt_fanout t \<and>
       (is_leaf g \<longrightarrow> length (tg_node_ids g) \<le> bt_fanout t) \<and>
       set (tg_child_group_ids g) \<subseteq> tg_group_id ` set (bt_groups t))"
proof -
  obtain ids hierarchy groups adjacency edge_placements where s: "check_config config = Inr ()" "canonical_node_ids nodes = Inr ids"
    "build_hierarchy sha256 ids config = Inr hierarchy"
    and edges: "allocate_representatives_and_hierarchy_edges sha256 config hierarchy
      (add_leaf_cycles hierarchy (map (\<lambda>node_id. (node_id, [])) ids, [])) = Inr (groups, adjacency, edge_placements)"
    and t: "assemble sha256 config ids groups (adjacency, edge_placements) = Some (Inr t)"
    by (rule synthesize_ok [OF assms])
  have "0 < tc_block_size config" using s(1) by (auto simp: check_config_def Let_def split: if_splits)
  then have "hierarchy_ok (tc_block_size config) ids hierarchy" by (rule build_hierarchy_ok [OF s(3)])
  moreover have "same_groups hierarchy groups" using edges allocate_groups_same
    by (auto simp: allocate_representatives_and_hierarchy_edges_def Let_def and_then_eq_Inr map_err_eq_Inr)
  ultimately have ok: "hierarchy_ok (tc_block_size config) ids groups" by (rule same_groups_ok)
  have "bm_wf adjacency" using synthesize_allocates [OF s] edges by (simp add: returns_def adjacency_over_def)
  note t = assemble_ok(4,5) [OF t this]
  have "concat (map tg_node_ids (filter is_leaf (bt_groups t))) = concat (map hg_node_ids (leaves groups))"
    unfolding t(2) leaves_def by (induction groups) (simp_all add: is_leaf_def into_group_def)
  then show ?thesis
    using ok canonical_node_ids_ok(1) [OF s(2)] unfolding hierarchy_ok_def t
    by (auto simp: into_group_def is_leaf_def image_image)
qed

definition topology_members :: "node_record list" where
  "topology_members = map (\<lambda>name. sample_node name 1) [[3], [1], [2], [4]]"

lemma topology_members_synthesized:
  "case synthesize (\<lambda>_. []) topology_members bounded_topology_config_default of Some (Inr t) \<Rightarrow> True | _ \<Rightarrow> False"
  by code_simp

lemma topology_members_topology:
  obtains t where "synthesize (\<lambda>_. []) topology_members bounded_topology_config_default = Some (Inr t)"
  using topology_members_synthesized by (auto split: option.splits sum.splits)

theorem synthesized_topology_resilient_witness:
  "\<exists>t. synthesize (\<lambda>_. []) topology_members bounded_topology_config_default = Some (Inr t) \<and>
     fst ` set (bt_adjacency t) = {[1], [2], [3], [4]} \<and> survives_any_failure (bt_adjacency t)"
proof -
  obtain t where t: "synthesize (\<lambda>_. []) topology_members bounded_topology_config_default = Some (Inr t)"
    by (rule topology_members_topology)
  show ?thesis
    using t synthesized_topology_resilient [OF t] by (auto simp: topology_members_def sample_node_def)
qed

theorem synthesized_hierarchy_partitions_witness:
  "\<exists>t. synthesize (\<lambda>_. []) topology_members bounded_topology_config_default = Some (Inr t) \<and>
     mset (concat (map tg_node_ids (filter is_leaf (bt_groups t)))) = {#[3], [1], [2], [4]#}"
proof -
  obtain t where t: "synthesize (\<lambda>_. []) topology_members bounded_topology_config_default = Some (Inr t)"
    by (rule topology_members_topology)
  show ?thesis
    using t synthesized_hierarchy_partitions [OF t] by (auto simp: topology_members_def sample_node_def)
qed

end
