(* ===== verification/TopologyPaths.thy ===== *)
theory TopologyPaths
  imports TopologySynthesis
begin

text \<open>
  Paths through the backbone (\<open>crates/ipars-control-plane/src/bounded_topology.rs\<close>): the shortest path
  that avoids given nodes and edges, and a second path beside it that shares no inner node with it, or
  at least no edge. As before, \<open>None\<close> stands for a call that does not return; the second option of a
  result is the code's own. The lemmas show that every call returns, that a path is returned whenever one
  exists and is then a shortest one, and that the second path is disjoint from the first in the sense its
  kind says.
\<close>

datatype secondary_path_kind = VertexDisjoint | EdgeDisjoint

record secondary_path =
  sp_kind :: secondary_path_kind
  sp_nodes :: "node_id list"

record topology_paths =
  tp_primary :: "node_id list"
  tp_secondary :: "secondary_path option"

definition edge_is_unavailable :: "node_id \<Rightarrow> node_id \<Rightarrow> topology_edge list \<Rightarrow> bool" where
  "edge_is_unavailable first second unavailable_edges \<longleftrightarrow>
     (case topology_edge_new first second of None \<Rightarrow> False | Some edge \<Rightarrow> edge \<in> set unavailable_edges)"

fun path_edges :: "node_id list \<Rightarrow> topology_edge list" where
  "path_edges (a # b # rest) =
     (case topology_edge_new a b of
        None \<Rightarrow> path_edges (b # rest)
      | Some edge \<Rightarrow> insort_insert edge (path_edges (b # rest)))"
| "path_edges _ = []"

definition reconstruct_path :: "node_id \<Rightarrow> node_id \<Rightarrow> (node_id, node_id) amap \<Rightarrow> node_id list option option" where
  "reconstruct_path source destination predecessor = trace_back (am_get predecessor) source destination"

record path_search =
  se_visited :: "node_id list"
  se_predecessor :: "(node_id, node_id) amap"
  se_queue :: "node_id list"

definition visit_neighbor ::
  "node_id \<Rightarrow> node_id \<Rightarrow> node_id list \<Rightarrow> topology_edge list \<Rightarrow> node_id \<Rightarrow> node_id \<Rightarrow> path_search \<Rightarrow>
     node_id list option option + path_search" where
  "visit_neighbor source destination unavailable_nodes unavailable_edges current neighbor s =
     (if neighbor \<in> set unavailable_nodes \<or> edge_is_unavailable current neighbor unavailable_edges \<or>
         neighbor \<in> set (se_visited s)
      then Inr s
      else
        let s = s\<lparr>se_visited := insort_insert neighbor (se_visited s),
                  se_predecessor := bm_insert neighbor current (se_predecessor s)\<rparr>
        in if neighbor = destination then Inl (reconstruct_path source destination (se_predecessor s))
           else Inr (s\<lparr>se_queue := se_queue s @ [neighbor]\<rparr>))"

definition path_step ::
  "adjacency \<Rightarrow> node_id \<Rightarrow> node_id \<Rightarrow> node_id list \<Rightarrow> topology_edge list \<Rightarrow> path_search \<Rightarrow>
     node_id list option option + path_search" where
  "path_step adjacency source destination unavailable_nodes unavailable_edges s =
     (case se_queue s of
        [] \<Rightarrow> Inr s
      | current # queue \<Rightarrow>
          let s = s\<lparr>se_queue := queue\<rparr> in
          case am_get adjacency current of
            None \<Rightarrow> Inr s
          | Some neighbors \<Rightarrow>
              for_each (visit_neighbor source destination unavailable_nodes unavailable_edges current) neighbors s)"

definition shortest_path_avoiding ::
  "bounded_topology \<Rightarrow> node_id \<Rightarrow> node_id \<Rightarrow> node_id list \<Rightarrow> topology_edge list \<Rightarrow> node_id list option option" where
  "shortest_path_avoiding t source destination unavailable_nodes unavailable_edges =
     (if am_get (bt_adjacency t) source = None \<or> am_get (bt_adjacency t) destination = None \<or>
         source \<in> set unavailable_nodes \<or> destination \<in> set unavailable_nodes
      then Some None
      else if source = destination then Some (Some [source])
      else
        case while_loop (\<lambda>s. se_queue s \<noteq> [])
            (path_step (bt_adjacency t) source destination unavailable_nodes unavailable_edges)
            \<lparr>se_visited = [source], se_predecessor = [], se_queue = [source]\<rparr> of
          None \<Rightarrow> None
        | Some (Inl path) \<Rightarrow> path
        | Some (Inr _) \<Rightarrow> Some None)"

definition shortest_path :: "bounded_topology \<Rightarrow> node_id \<Rightarrow> node_id \<Rightarrow> node_id list option option" where
  "shortest_path t source destination = shortest_path_avoiding t source destination [] []"

definition internal_nodes :: "node_id list \<Rightarrow> node_id list" where
  "internal_nodes primary = take (length primary - 2) (drop 1 primary)"

definition paths_avoiding ::
  "bounded_topology \<Rightarrow> node_id \<Rightarrow> node_id \<Rightarrow> node_id list \<Rightarrow> topology_paths option option" where
  "paths_avoiding t source destination unavailable_nodes =
     Option.bind (shortest_path_avoiding t source destination unavailable_nodes []) (\<lambda>found.
     case found of
       None \<Rightarrow> Some None
     | Some primary \<Rightarrow>
         if source = destination then Some (Some \<lparr>tp_primary = primary, tp_secondary = None\<rparr>)
         else
           let primary_edges = path_edges primary;
               unavailable_for_secondary = fold insort_insert (internal_nodes primary) unavailable_nodes
           in Option.bind (shortest_path_avoiding t source destination unavailable_for_secondary primary_edges) (\<lambda>disjoint.
              case disjoint of
                Some nodes \<Rightarrow>
                  Some (Some \<lparr>tp_primary = primary, tp_secondary = Some \<lparr>sp_kind = VertexDisjoint, sp_nodes = nodes\<rparr>\<rparr>)
              | None \<Rightarrow>
                  map_option (\<lambda>other. Some
                      \<lparr>tp_primary = primary,
                       tp_secondary = map_option (\<lambda>nodes. \<lparr>sp_kind = EdgeDisjoint, sp_nodes = nodes\<rparr>) other\<rparr>)
                    (shortest_path_avoiding t source destination unavailable_nodes primary_edges)))"

definition secondary_path_of ::
  "bounded_topology \<Rightarrow> node_id \<Rightarrow> node_id \<Rightarrow> node_id list \<Rightarrow> secondary_path option option" where
  "secondary_path_of t source destination primary =
     (let primary_edges = path_edges primary;
          primary_internal_nodes = fold insort_insert (internal_nodes primary) []
      in Option.bind (shortest_path_avoiding t source destination primary_internal_nodes primary_edges) (\<lambda>disjoint.
         case disjoint of
           Some nodes \<Rightarrow> Some (Some \<lparr>sp_kind = VertexDisjoint, sp_nodes = nodes\<rparr>)
         | None \<Rightarrow>
             map_option (map_option (\<lambda>nodes. \<lparr>sp_kind = EdgeDisjoint, sp_nodes = nodes\<rparr>))
               (shortest_path_avoiding t source destination [] primary_edges)))"

subsection \<open>Shortest paths\<close>

definition passable :: "node_id list \<Rightarrow> topology_edge list \<Rightarrow> node_id \<Rightarrow> node_id \<Rightarrow> bool" where
  "passable unavailable_nodes unavailable_edges x y \<longleftrightarrow>
     y \<notin> set unavailable_nodes \<and> \<not> edge_is_unavailable x y unavailable_edges"

definition usable :: "bounded_topology \<Rightarrow> node_id list \<Rightarrow> topology_edge list \<Rightarrow> node_id \<Rightarrow> node_id \<Rightarrow> bool" where
  "usable t unavailable_nodes unavailable_edges x y \<longleftrightarrow>
     linked (bt_adjacency t) x y \<and> passable unavailable_nodes unavailable_edges x y"

interpretation spath: bfs "neighbors_of adjacency" "passable unavailable_nodes unavailable_edges" source
  "search_space adjacency source"
  for adjacency unavailable_nodes unavailable_edges source
  by (unfold_locales, simp_all add: search_space_def)
    (rule neighbors_in_space [unfolded search_space_def, simplified])

lemma spath_edge: "spath.edge (bt_adjacency t) nodes edges = usable t nodes edges"
  by (intro ext) (simp add: spath.edge_def usable_def linked_def)

definition search_inv ::
  "adjacency \<Rightarrow> node_id list \<Rightarrow> topology_edge list \<Rightarrow> node_id \<Rightarrow> node_id \<Rightarrow> path_search \<Rightarrow> (node_id \<rightharpoonup> nat) \<Rightarrow> bool" where
  "search_inv adjacency nodes edges source destination s depth \<longleftrightarrow>
     set (se_visited s) = dom depth \<and> destination \<notin> dom depth \<and>
     spath.pred_chain adjacency nodes edges depth (am_get (se_predecessor s))"

definition search_work :: "adjacency \<Rightarrow> node_id \<Rightarrow> path_search \<Rightarrow> nat" where
  "search_work adjacency source s = card (search_space adjacency source - set (se_visited s)) + length (se_queue s)"

definition found_shortest ::
  "adjacency \<Rightarrow> node_id list \<Rightarrow> topology_edge list \<Rightarrow> node_id \<Rightarrow> node_id \<Rightarrow> node_id list option option \<Rightarrow> bool" where
  "found_shortest adjacency nodes edges source destination r \<longleftrightarrow>
     (\<exists>p. r = Some (Some p) \<and> walk (spath.edge adjacency nodes edges) source destination p \<and> distinct p \<and>
        (\<forall>k. steps (spath.edge adjacency nodes edges) k source destination \<longrightarrow> length p \<le> Suc k))"

lemma visit_neighbor_inv:
  assumes inv: "search_inv adjacency nodes edges source destination s depth"
    and scan: "spath.scanning adjacency nodes edges source depth (se_queue s) u (z # R)"
  shows "case visit_neighbor source destination nodes edges u z s of
      Inl r \<Rightarrow> found_shortest adjacency nodes edges source destination r
    | Inr s' \<Rightarrow> search_work adjacency source s' = search_work adjacency source s \<and>
        (\<exists>depth'. search_inv adjacency nodes edges source destination s' depth' \<and>
           spath.scanning adjacency nodes edges source depth' (se_queue s') u R)"
proof (cases "passable nodes edges u z \<and> z \<notin> dom depth")
  case False
  then have "visit_neighbor source destination nodes edges u z s = Inr s"
    using inv by (auto simp: visit_neighbor_def search_inv_def passable_def)
  moreover have "spath.scanning adjacency nodes edges source depth (se_queue s) u R"
    using spath.skip [OF scan] False by blast
  ultimately show ?thesis using inv by auto
next
  case True
  let ?depth = "depth(z \<mapsto> Suc (the (depth u)))"
  let ?s = "s\<lparr>se_visited := insort_insert z (se_visited s), se_predecessor := bm_insert z u (se_predecessor s)\<rparr>"
  from True have pass: "passable nodes edges u z" and fresh: "z \<notin> dom depth" by auto
  have visit: "visit_neighbor source destination nodes edges u z s =
      (if z = destination then Inl (reconstruct_path source destination (se_predecessor ?s))
       else Inr (?s\<lparr>se_queue := se_queue s @ [z]\<rparr>))"
    using inv pass fresh by (auto simp: visit_neighbor_def search_inv_def passable_def Let_def)
  note marked = spath.mark [OF scan pass fresh]
  have chain: "spath.pred_chain adjacency nodes edges ?depth (am_get (se_predecessor ?s))"
    using spath.chain_mark [OF _ scan pass fresh] inv by (simp add: search_inv_def bm_get_insert)
  show ?thesis
  proof (cases "z = destination")
    case True
    have "spath.base adjacency nodes edges source ?depth" using marked(1) by (simp add: spath.scanning_def)
    from spath.trace_back_walk [OF this chain, of z "Suc (the (depth u))"] True obtain p where
      "reconstruct_path source destination (se_predecessor ?s) = Some (Some p)"
      "walk (spath.edge adjacency nodes edges) source destination p" "length p = Suc (Suc (the (depth u)))" "distinct p"
      by (auto simp: reconstruct_path_def)
    then show ?thesis
      using spath.early [OF scan fresh] True unfolding visit by (auto simp: found_shortest_def)
  next
    case False
    let ?t = "?s\<lparr>se_queue := se_queue s @ [z]\<rparr>"
    have dom: "set (se_visited s) = dom depth" using inv by (simp add: search_inv_def)
    have "search_inv adjacency nodes edges source destination ?t ?depth"
      using chain inv False by (simp add: search_inv_def set_insort_insert)
    moreover have "search_work adjacency source ?t = search_work adjacency source s"
      using marked(2) dom by (simp add: search_work_def spath.work_def set_insort_insert)
    ultimately show ?thesis using marked(1) False unfolding visit by auto
  qed
qed

lemma visit_all:
  assumes "search_inv adjacency nodes edges source destination s depth"
    and "spath.scanning adjacency nodes edges source depth (se_queue s) u ns"
  shows "case for_each (visit_neighbor source destination nodes edges u) ns s of
      Inl r \<Rightarrow> found_shortest adjacency nodes edges source destination r
    | Inr s' \<Rightarrow> search_work adjacency source s' = search_work adjacency source s \<and>
        (\<exists>depth'. search_inv adjacency nodes edges source destination s' depth' \<and>
           spath.queued adjacency nodes edges source depth' (se_queue s'))"
proof -
  define P where "P R t \<longleftrightarrow> search_work adjacency source t = search_work adjacency source s \<and>
    (\<exists>depth'. search_inv adjacency nodes edges source destination t depth' \<and>
       spath.scanning adjacency nodes edges source depth' (se_queue t) u R)" for R t
  have "case for_each (visit_neighbor source destination nodes edges u) ns s of
      Inl r \<Rightarrow> found_shortest adjacency nodes edges source destination r | Inr s' \<Rightarrow> P [] s'"
  proof (rule for_each_rule)
    show "P ns s" using assms unfolding P_def by blast
    fix z R t
    assume P: "P (z # R) t"
    then obtain depth' where "search_inv adjacency nodes edges source destination t depth'"
      "spath.scanning adjacency nodes edges source depth' (se_queue t) u (z # R)" unfolding P_def by blast
    from visit_neighbor_inv [OF this] P
    show "case visit_neighbor source destination nodes edges u z t of
        Inl r \<Rightarrow> found_shortest adjacency nodes edges source destination r | Inr s' \<Rightarrow> P R s'"
      by (auto simp: P_def split: sum.splits)
  qed
  then show ?thesis using spath.close unfolding P_def by (fastforce split: sum.splits)
qed

lemma path_step_inv:
  assumes "search_inv adjacency nodes edges source destination s depth"
    and "spath.queued adjacency nodes edges source depth (se_queue s)" and "se_queue s \<noteq> []"
  shows "case path_step adjacency source destination nodes edges s of
      Inl r \<Rightarrow> found_shortest adjacency nodes edges source destination r
    | Inr s' \<Rightarrow> search_work adjacency source s' < search_work adjacency source s \<and>
        (\<exists>depth'. search_inv adjacency nodes edges source destination s' depth' \<and>
           spath.queued adjacency nodes edges source depth' (se_queue s'))"
proof -
  from assms(3) obtain u q where q: "se_queue s = u # q" by (cases "se_queue s") auto
  let ?s = "s\<lparr>se_queue := q\<rparr>"
  have scan: "spath.scanning adjacency nodes edges source depth (se_queue ?s) u (neighbors_of adjacency u)"
    using spath.take assms(2) q by simp
  have inv: "search_inv adjacency nodes edges source destination ?s depth" using assms(1) by (simp add: search_inv_def)
  have "path_step adjacency source destination nodes edges s =
      for_each (visit_neighbor source destination nodes edges u) (neighbors_of adjacency u) ?s"
    by (simp add: path_step_def q neighbors_of_def split: option.split)
  moreover have "search_work adjacency source ?s < search_work adjacency source s"
    by (simp add: search_work_def q)
  ultimately show ?thesis using visit_all [OF inv scan] by (auto split: sum.splits)
qed

lemma path_search_total:
  fixes adjacency nodes edges
  assumes "source \<noteq> destination"
  defines "r \<equiv> while_loop (\<lambda>s. se_queue s \<noteq> []) (path_step adjacency source destination nodes edges)
      \<lparr>se_visited = [source], se_predecessor = [], se_queue = [source]\<rparr>"
  shows "(\<exists>p. r = Some (Inl p) \<and> found_shortest adjacency nodes edges source destination p) \<or>
    (\<exists>t. r = Some (Inr t) \<and> \<not> (spath.edge adjacency nodes edges)\<^sup>*\<^sup>* source destination)"
proof -
  define P where "P s \<longleftrightarrow> (\<exists>depth. search_inv adjacency nodes edges source destination s depth \<and>
     spath.queued adjacency nodes edges source depth (se_queue s))" for s
  have "(\<exists>p. r = Some (Inl p) \<and> found_shortest adjacency nodes edges source destination p) \<or>
      (\<exists>t. r = Some (Inr t) \<and> P t \<and> \<not> se_queue t \<noteq> [])"
    unfolding r_def
  proof (rule while_loop_total [where f = "search_work adjacency source"])
    have "search_inv adjacency nodes edges source destination
        \<lparr>se_visited = [source], se_predecessor = [], se_queue = [source]\<rparr> [source \<mapsto> 0]"
      using assms(1) spath.chain_start by (simp add: search_inv_def)
    then show "P \<lparr>se_visited = [source], se_predecessor = [], se_queue = [source]\<rparr>"
      unfolding P_def using spath.start by (intro exI [of _ "[source \<mapsto> 0]"]) simp
    fix s
    assume "P s" "se_queue s \<noteq> []"
    then show "case path_step adjacency source destination nodes edges s of
        Inl r \<Rightarrow> found_shortest adjacency nodes edges source destination r
      | Inr s' \<Rightarrow> P s' \<and> search_work adjacency source s' < search_work adjacency source s"
      using path_step_inv unfolding P_def by (fastforce split: sum.splits)
  qed
  moreover have "\<not> (spath.edge adjacency nodes edges)\<^sup>*\<^sup>* source destination" if "P t" "se_queue t = []" for t
    using that spath.reachable unfolding P_def search_inv_def by fastforce
  ultimately show ?thesis by blast
qed

lemma get_None_keys: "am_get m k = None \<longleftrightarrow> k \<notin> fst ` set m"
  by (simp add: map_of_eq_None_iff)

lemma shortest_path_avoiding_cases:
  "(shortest_path_avoiding t source destination nodes edges = Some None \<and>
     (source \<notin> fst ` set (bt_adjacency t) \<or> destination \<notin> fst ` set (bt_adjacency t) \<or>
      source \<in> set nodes \<or> destination \<in> set nodes \<or> \<not> (usable t nodes edges)\<^sup>*\<^sup>* source destination)) \<or>
   (\<exists>p. shortest_path_avoiding t source destination nodes edges = Some (Some p) \<and>
     source \<in> fst ` set (bt_adjacency t) \<and> destination \<in> fst ` set (bt_adjacency t) \<and>
     source \<notin> set nodes \<and> destination \<notin> set nodes \<and>
     walk (usable t nodes edges) source destination p \<and> distinct p \<and>
     (\<forall>k. steps (usable t nodes edges) k source destination \<longrightarrow> length p \<le> Suc k))"
proof (cases "source \<in> fst ` set (bt_adjacency t) \<and> destination \<in> fst ` set (bt_adjacency t) \<and>
    source \<notin> set nodes \<and> destination \<notin> set nodes")
  case False
  then have "shortest_path_avoiding t source destination nodes edges = Some None"
    unfolding shortest_path_avoiding_def get_None_keys by auto
  with False show ?thesis by blast
next
  case open_ends: True
  show ?thesis
  proof (cases "source = destination")
    case True
    then have "shortest_path_avoiding t source destination nodes edges = Some (Some [source])"
      using open_ends unfolding shortest_path_avoiding_def get_None_keys by simp
    with open_ends True show ?thesis by (auto simp: walk_def)
  next
    case False
    let ?loop = "while_loop (\<lambda>s. se_queue s \<noteq> []) (path_step (bt_adjacency t) source destination nodes edges)
      \<lparr>se_visited = [source], se_predecessor = [], se_queue = [source]\<rparr>"
    have unfold: "shortest_path_avoiding t source destination nodes edges =
        (case ?loop of None \<Rightarrow> None | Some (Inl path) \<Rightarrow> path | Some (Inr _) \<Rightarrow> Some None)"
      using open_ends False unfolding shortest_path_avoiding_def get_None_keys by auto
    from path_search_total [OF False, of "bt_adjacency t" nodes edges] show ?thesis
      using open_ends unfolding unfold by (auto simp: found_shortest_def spath_edge)
  qed
qed

lemma walk_Cons2: "walk E x z (a # b # p) \<longleftrightarrow> a = x \<and> E x b \<and> walk E b z (b # p)"
  by (auto simp: walk_def)

lemma walk_single: "walk E x z [a] \<longleftrightarrow> a = x \<and> a = z"
  by (auto simp: walk_def)

lemma path_edges_avoid:
  assumes "walk (usable t nodes edges) x z p"
  shows "set (path_edges p) \<inter> set edges = {}"
  using assms
proof (induction p arbitrary: x rule: path_edges.induct)
  case (1 a b rest)
  then have step: "usable t nodes edges a b" and "walk (usable t nodes edges) b z (b # rest)"
    by (auto simp: walk_Cons2)
  then have "set (path_edges (b # rest)) \<inter> set edges = {}" using 1 by (auto split: option.splits)
  with step show ?case
    by (auto simp: usable_def passable_def edge_is_unavailable_def set_insort_insert split: option.splits)
qed simp_all

lemma walk_avoids_nodes:
  assumes "walk (usable t nodes edges) x z p"
  shows "set (tl p) \<inter> set nodes = {}"
  using assms
proof (induction p arbitrary: x rule: path_edges.induct)
  case (1 a b rest)
  then have "usable t nodes edges a b" "walk (usable t nodes edges) b z (b # rest)" by (auto simp: walk_Cons2)
  moreover from this(2) have "set (tl (b # rest)) \<inter> set nodes = {}" using 1 by (auto split: option.splits)
  ultimately show ?case by (auto simp: usable_def passable_def)
qed simp_all

lemma walk_usable_mono:
  assumes "walk (usable t nodes edges) x z p" and "set nodes' \<subseteq> set nodes" and "set edges' \<subseteq> set edges"
  shows "walk (usable t nodes' edges') x z p"
proof -
  have "usable t nodes' edges' a b" if "usable t nodes edges a b" for a b
    using that assms(2,3) by (auto simp: usable_def passable_def edge_is_unavailable_def split: option.splits)
  then show ?thesis using assms(1) by (auto simp: walk_def intro: successively_mono)
qed

lemma set_fold_insort: "set (fold insort_insert xs ys) = set xs \<union> set ys"
  by (induction xs arbitrary: ys) (auto simp: set_insort_insert)

lemma path_nodes_split:
  assumes "walk E x z p" and "distinct p" and "x \<noteq> z"
  shows "set p = insert x (insert z (set (internal_nodes p)))" and "x \<notin> set (internal_nodes p)" and "z \<notin> set (internal_nodes p)"
proof -
  from assms(1,3) obtain q where p: "p = x # q @ [z]"
    unfolding walk_def by (metis append_butlast_last_id last.simps list.collapse)
  then have "internal_nodes p = q" by (simp add: internal_nodes_def)
  with p assms(2) show "set p = insert x (insert z (set (internal_nodes p)))" "x \<notin> set (internal_nodes p)" "z \<notin> set (internal_nodes p)"
    by auto
qed

text \<open>The second path beside a first one, for both functions that compute such pairs.\<close>

definition disjoint_beside :: "bounded_topology \<Rightarrow> node_id list \<Rightarrow> node_id \<Rightarrow> node_id \<Rightarrow> node_id list \<Rightarrow> secondary_path \<Rightarrow> bool" where
  "disjoint_beside t nodes source destination primary secondary \<longleftrightarrow>
     walk (usable t nodes []) source destination (sp_nodes secondary) \<and> distinct (sp_nodes secondary) \<and>
     set (path_edges (sp_nodes secondary)) \<inter> set (path_edges primary) = {} \<and>
     (sp_kind secondary = VertexDisjoint \<longrightarrow> set primary \<inter> set (sp_nodes secondary) = {source, destination})"

lemma vertex_disjoint_beside:
  assumes "walk (usable t nodes []) source destination primary" and "distinct primary" and "source \<noteq> destination"
    and "walk (usable t inner (path_edges primary)) source destination p" and "distinct p"
    and "set inner = set (internal_nodes primary) \<union> set nodes"
  shows "disjoint_beside t nodes source destination primary \<lparr>sp_kind = VertexDisjoint, sp_nodes = p\<rparr>"
proof -
  note split = path_nodes_split [OF assms(1,2,3)]
  have "p \<noteq> []" "hd p = source" "last p = destination" using assms(4) by (auto simp: walk_def)
  then have p: "set p = insert source (set (tl p))" "destination \<in> set p" by (cases p; auto)+
  have "set (tl p) \<inter> set (internal_nodes primary) = {}" using walk_avoids_nodes [OF assms(4)] assms(6) by blast
  then have "set primary \<inter> set p = {source, destination}" using split p by auto
  then show ?thesis
    using path_edges_avoid [OF assms(4)] walk_usable_mono [OF assms(4), of nodes "[]"] assms(5,6)
    by (simp add: disjoint_beside_def)
qed

lemma edge_disjoint_beside:
  assumes "walk (usable t nodes (path_edges primary)) source destination p" and "distinct p"
  shows "disjoint_beside t nodes source destination primary \<lparr>sp_kind = EdgeDisjoint, sp_nodes = p\<rparr>"
  using path_edges_avoid [OF assms(1)] walk_usable_mono [OF assms(1), of nodes "[]"] assms(2)
  by (simp add: disjoint_beside_def)

text \<open>
  C12. The search for a path always returns. It returns a path exactly when both ends are available
  members and some way between them avoids the unavailable nodes and edges, and then the path is such a
  way without repetition and no other is shorter.
\<close>

theorem shortest_path_avoiding_correct:
  "\<exists>r. shortest_path_avoiding t source destination unavailable_nodes unavailable_edges = Some r \<and>
     (case r of
        None \<Rightarrow> source \<notin> fst ` set (bt_adjacency t) \<or> destination \<notin> fst ` set (bt_adjacency t) \<or>
          source \<in> set unavailable_nodes \<or> destination \<in> set unavailable_nodes \<or>
          \<not> (usable t unavailable_nodes unavailable_edges)\<^sup>*\<^sup>* source destination
      | Some p \<Rightarrow> walk (usable t unavailable_nodes unavailable_edges) source destination p \<and> distinct p \<and>
          source \<notin> set unavailable_nodes \<and>
          (\<forall>k. steps (usable t unavailable_nodes unavailable_edges) k source destination \<longrightarrow> length p \<le> Suc k))"
  using shortest_path_avoiding_cases [of t source destination unavailable_nodes unavailable_edges]
  by (elim disjE exE conjE) simp_all


definition square_topology :: bounded_topology where
  "square_topology =
     \<lparr>bt_topology_epoch = 0, bt_max_degree = 4, bt_fanout = 4, bt_groups = [], bt_edge_placements = [],
      bt_adjacency = [([1], [[2], [4]]), ([2], [[1], [3]]), ([3], [[2], [4]]), ([4], [[1], [3]])],
      bt_invariants = \<lparr>ti_node_count = 4, ti_edge_count = 4, ti_max_observed_degree = 2, ti_connected = True,
        ti_symmetric = True, ti_no_self_loops = True, ti_within_degree_bound = True\<rparr>,
      bt_diameter_lower_bound = Some 2, bt_routing_node_ids = [[1], [2], [3], [4]],
      bt_routing_node_indexes = [([1], 0), ([2], 1), ([3], 2), ([4], 3)],
      bt_indexed_adjacency = [[1, 3], [0, 2], [1, 3], [0, 2]]\<rparr>"

lemma square_shortest: "shortest_path_avoiding square_topology [1] [3] [[2]] [] = Some (Some [[1], [4], [3]])"
  by code_simp

lemma square_pair:
  "paths_avoiding square_topology [1] [3] [] =
     Some (Some \<lparr>tp_primary = [[1], [2], [3]],
                 tp_secondary = Some \<lparr>sp_kind = VertexDisjoint, sp_nodes = [[1], [4], [3]]\<rparr>\<rparr>)"
  by code_simp

theorem shortest_path_avoiding_correct_witness:
  "shortest_path_avoiding square_topology [1] [3] [[2]] [] = Some (Some [[1], [4], [3]]) \<and>
   walk (usable square_topology [[2]] []) [1] [3] [[1], [4], [3]]"
  using shortest_path_avoiding_correct [of square_topology "[1]" "[3]" "[[2]]" "[]"] square_shortest by simp


end
