(* ===== verification/TopologyRouting.thy ===== *)
theory TopologyRouting
  imports TopologyPaths
begin

text \<open>
  Next hops over the backbone (\<open>crates/ipars-control-plane/src/bounded_topology.rs\<close>): for every
  destination a first hop and, where there is one, an alternate first hop whose route does not depend on
  the first. The searches work on indexes into the list of members; \<open>None\<close> stands for a call that does
  not return, because it diverges or panics at an index. The lemmas show that on a synthesized topology
  every call returns, that both hops lead to the destination, the alternate one without the first, and
  that from three members on every destination has an alternate hop.
\<close>

subsection \<open>Searches over indexes\<close>

record 'm mark_search =
  ms_marks :: "'m option list"
  ms_queue :: "nat list"

definition mark_neighbor :: "(nat \<Rightarrow> bool) \<Rightarrow> 'm option \<Rightarrow> nat \<Rightarrow> 'm mark_search \<Rightarrow> unit + 'm mark_search" where
  "mark_neighbor skip mark neighbor s =
     (if skip neighbor then Inr s
      else if length (ms_marks s) \<le> neighbor then Inl ()
      else if ms_marks s ! neighbor \<noteq> None then Inr s
      else case mark of
        None \<Rightarrow> Inr s
      | Some m \<Rightarrow> Inr (s\<lparr>ms_marks := (ms_marks s)[neighbor := Some m], ms_queue := ms_queue s @ [neighbor]\<rparr>))"

definition mark_step ::
  "nat list list \<Rightarrow> (nat \<Rightarrow> bool) \<Rightarrow> (nat \<Rightarrow> bool) \<Rightarrow> (nat \<Rightarrow> 'm \<Rightarrow> 'm option) \<Rightarrow> 'm mark_search \<Rightarrow> unit + 'm mark_search" where
  "mark_step adjacency stop skip mark s =
     (case ms_queue s of
        [] \<Rightarrow> Inr s
      | current # queue \<Rightarrow>
          let s = s\<lparr>ms_queue := queue\<rparr> in
          if stop current then Inr s
          else if length (ms_marks s) \<le> current then Inl ()
          else case ms_marks s ! current of
            None \<Rightarrow> Inr s
          | Some m \<Rightarrow>
              if length adjacency \<le> current then Inl ()
              else for_each (mark_neighbor skip (mark current m)) (adjacency ! current) s)"

text \<open>
  The loop that the searches have in common. They differ in the nodes they do not go on from, the
  neighbours they skip and the mark they write.
\<close>

definition mark_loop ::
  "nat list list \<Rightarrow> (nat \<Rightarrow> bool) \<Rightarrow> (nat \<Rightarrow> bool) \<Rightarrow> (nat \<Rightarrow> 'm \<Rightarrow> 'm option) \<Rightarrow> 'm mark_search \<Rightarrow> 'm option list option" where
  "mark_loop adjacency stop skip mark s =
     (case while_loop (\<lambda>s. ms_queue s \<noteq> []) (mark_step adjacency stop skip mark) s of
        Some (Inr t) \<Rightarrow> Some (ms_marks t)
      | _ \<Rightarrow> None)"

definition indexed_distances_from_avoiding :: "bounded_topology \<Rightarrow> nat \<Rightarrow> nat \<Rightarrow> u32 option list option" where
  "indexed_distances_from_avoiding t source_index unavailable_index =
     (let n = length (bt_routing_node_ids t) in
      if n \<le> source_index then None
      else mark_loop (bt_indexed_adjacency t) (\<lambda>_. False) (\<lambda>neighbor. neighbor = unavailable_index)
             (\<lambda>_ distance. checked_add distance 1)
             \<lparr>ms_marks = (replicate n None)[source_index := Some 0], ms_queue = [source_index]\<rparr>)"

text \<open>\<open>u32::try_from(index).ok()\<close>.\<close>

definition u32_try_from :: "nat \<Rightarrow> u32 option" where
  "u32_try_from index = (if index < 2 ^ 32 then Some (word_of_nat index) else None)"

definition label_neighbor :: "nat \<Rightarrow> nat \<Rightarrow> u32 mark_search \<Rightarrow> u32 option list option + u32 mark_search" where
  "label_neighbor terminal_index neighbor s =
     (if neighbor = terminal_index then Inr s
      else case u32_try_from neighbor of
        None \<Rightarrow> Inl (Some (ms_marks s))
      | Some label \<Rightarrow>
          if length (ms_marks s) \<le> neighbor then Inl None
          else Inr (s\<lparr>ms_marks := (ms_marks s)[neighbor := Some label], ms_queue := ms_queue s @ [neighbor]\<rparr>))"

definition alternate_first_hop_labels :: "bounded_topology \<Rightarrow> nat \<Rightarrow> nat \<Rightarrow> u32 option list option" where
  "alternate_first_hop_labels t source_index terminal_index =
     (if length (bt_indexed_adjacency t) \<le> source_index then None
      else case for_each (label_neighbor terminal_index) (bt_indexed_adjacency t ! source_index)
          \<lparr>ms_marks = replicate (length (bt_routing_node_ids t)) None, ms_queue = []\<rparr> of
        Inl result \<Rightarrow> result
      | Inr s \<Rightarrow>
          mark_loop (bt_indexed_adjacency t) (\<lambda>current. current = terminal_index) (\<lambda>neighbor. neighbor = source_index)
            (\<lambda>_ label. Some label) s)"

subsection \<open>Next hops\<close>

record compact_next_hops =
  nh_primary :: u32
  nh_secondary :: "u32 option"

definition with_neighbors :: "(nat \<Rightarrow> 'a option) \<Rightarrow> nat list \<Rightarrow> (u32 \<times> 'a) list option" where
  "with_neighbors f neighbors =
     those (map (\<lambda>neighbor. map_option (Pair (word_of_nat neighbor)) (f neighbor))
       (filter (\<lambda>neighbor. u32_try_from neighbor \<noteq> None) neighbors))"

definition candidates_for :: "(u32 \<times> u32 option list) list \<Rightarrow> nat \<Rightarrow> (u32 \<times> u32) list" where
  "candidates_for candidate_distances destination_index =
     sort (List.map_filter (\<lambda>(neighbor, distances). map_option (\<lambda>distance. (distance + 1, neighbor)) (distances ! destination_index))
       candidate_distances)"

definition reliable_hops :: "(u32, u32 option list) amap \<Rightarrow> nat \<Rightarrow> u32 \<times> u32 \<Rightarrow> (u32 \<times> u32) option" where
  "reliable_hops alternate_labels destination_index = (\<lambda>(_, primary).
     Option.bind (am_get alternate_labels primary) (\<lambda>labels.
     Option.bind (if destination_index < length labels then labels ! destination_index else None) (\<lambda>secondary.
       if secondary \<noteq> primary then Some (primary, secondary) else None)))"

definition next_hops_for ::
  "(u32 \<times> u32 option list) list \<Rightarrow> (u32, u32 option list) amap \<Rightarrow> nat \<Rightarrow> compact_next_hops option" where
  "next_hops_for candidate_distances alternate_labels destination_index =
     (case candidates_for candidate_distances destination_index of
        [] \<Rightarrow> None
      | (distance, fallback_primary) # rest \<Rightarrow>
          Some (case List.map_filter (reliable_hops alternate_labels destination_index) ((distance, fallback_primary) # rest) of
              (primary, secondary) # _ \<Rightarrow> \<lparr>nh_primary = primary, nh_secondary = Some secondary\<rparr>
            | [] \<Rightarrow> \<lparr>nh_primary = fallback_primary, nh_secondary = None\<rparr>))"

definition compute_next_hops_from :: "bounded_topology \<Rightarrow> nat \<Rightarrow> compact_next_hops option list option option" where
  "compute_next_hops_from t source_index =
     (if length (bt_indexed_adjacency t) \<le> source_index then Some None
      else
        let source_neighbors = bt_indexed_adjacency t ! source_index in
        Option.bind (with_neighbors (\<lambda>neighbor. indexed_distances_from_avoiding t neighbor source_index) source_neighbors)
          (\<lambda>candidate_distances.
        Option.bind (with_neighbors (alternate_first_hop_labels t source_index) source_neighbors) (\<lambda>labels.
          let alternate_labels = fold (\<lambda>(neighbor, label). bm_insert neighbor label) labels [] in
          Some (those (map (\<lambda>destination_index.
              if destination_index = source_index then Some None
              else map_option Some (next_hops_for candidate_distances alternate_labels destination_index))
            [0..<length (bt_routing_node_ids t)])))))"

definition next_hop_table_get ::
  "bounded_topology \<Rightarrow> compact_next_hops option list \<Rightarrow> node_id \<Rightarrow> (node_id \<times> node_id option) option" where
  "next_hop_table_get t compact destination =
     Option.bind (am_get (bt_routing_node_indexes t) destination) (\<lambda>destination_index.
     Option.bind (if destination_index < length compact then compact ! destination_index else None) (\<lambda>next_hops.
       let node_at = (\<lambda>index :: u32. if unat index < length (bt_routing_node_ids t)
             then Some (bt_routing_node_ids t ! unat index) else None) in
       map_option (\<lambda>primary. (primary, Option.bind (nh_secondary next_hops) node_at)) (node_at (nh_primary next_hops))))"

text \<open>
  The cache of computed tables. It is locked twice, once to look a table up and once to store a computed
  one; \<open>others\<close> is what other threads do to the cache between the two. A thread never panics while it
  holds the lock, so that the lock is never poisoned.
\<close>

type_synonym next_hop_cache = "(nat, compact_next_hops option list) amap"

definition cached_next_hops_from ::
  "bounded_topology \<Rightarrow> (next_hop_cache \<Rightarrow> next_hop_cache) \<Rightarrow> nat \<Rightarrow> next_hop_cache \<Rightarrow>
     (compact_next_hops option list option \<times> next_hop_cache) option" where
  "cached_next_hops_from t others source_index cache =
     (case am_get cache source_index of
        Some cached \<Rightarrow> Some (Some cached, cache)
      | None \<Rightarrow>
          map_option (\<lambda>result.
              let cache = others cache in
              case result of
                None \<Rightarrow> (None, cache)
              | Some computed \<Rightarrow>
                  (case am_get cache source_index of
                     Some cached \<Rightarrow> (Some cached, cache)
                   | None \<Rightarrow> (Some computed, bm_insert source_index computed cache)))
            (compute_next_hops_from t source_index))"

definition next_hop_table ::
  "bounded_topology \<Rightarrow> (next_hop_cache \<Rightarrow> next_hop_cache) \<Rightarrow> node_id \<Rightarrow> next_hop_cache \<Rightarrow>
     (compact_next_hops option list option \<times> next_hop_cache) option" where
  "next_hop_table t others source cache =
     (case am_get (bt_routing_node_indexes t) source of
        None \<Rightarrow> Some (None, cache)
      | Some source_index \<Rightarrow> cached_next_hops_from t others source_index cache)"

definition next_hops_from ::
  "bounded_topology \<Rightarrow> (next_hop_cache \<Rightarrow> next_hop_cache) \<Rightarrow> node_id \<Rightarrow> next_hop_cache \<Rightarrow>
     ((node_id, node_id \<times> node_id option) amap option \<times> next_hop_cache) option" where
  "next_hops_from t others source cache =
     map_option (\<lambda>(table, cache). (map_option (\<lambda>compact.
         fold (\<lambda>destination next_hops.
             case next_hop_table_get t compact destination of
               None \<Rightarrow> next_hops
             | Some hops \<Rightarrow> bm_insert destination hops next_hops)
           (bt_routing_node_ids t) []) table, cache))
       (next_hop_table t others source cache)"

subsection \<open>The common loop\<close>

definition marked :: "'m option list \<Rightarrow> nat set" where
  "marked marks = {z. z < length marks \<and> marks ! z \<noteq> None}"

text \<open>
  What a search has to keep: \<open>Q M z m\<close> says that the mark \<open>m\<close> of \<open>z\<close> is right when the nodes \<open>M\<close> are
  marked. A neighbour can always be marked, and its mark is right.
\<close>

definition mark_spec ::
  "nat \<Rightarrow> nat list list \<Rightarrow> (nat \<Rightarrow> bool) \<Rightarrow> (nat \<Rightarrow> bool) \<Rightarrow> (nat \<Rightarrow> 'm \<Rightarrow> 'm option) \<Rightarrow> (nat set \<Rightarrow> nat \<Rightarrow> 'm \<Rightarrow> bool) \<Rightarrow> bool" where
  "mark_spec n adj stop skip mark Q \<longleftrightarrow>
     length adj = n \<and> (\<forall>u < n. set (adj ! u) \<subseteq> {..<n}) \<and>
     (\<forall>M M' z m. Q M z m \<longrightarrow> M \<subseteq> M' \<longrightarrow> Q M' z m) \<and>
     (\<forall>M u m z. M \<subseteq> {..<n} \<longrightarrow> u \<in> M \<longrightarrow> Q M u m \<longrightarrow> \<not> stop u \<longrightarrow> z \<in> set (adj ! u) \<longrightarrow> \<not> skip z \<longrightarrow> z \<notin> M \<longrightarrow>
        (\<exists>m'. mark u m = Some m' \<and> Q (insert z M) z m'))"

definition right_marks :: "(nat set \<Rightarrow> nat \<Rightarrow> 'm \<Rightarrow> bool) \<Rightarrow> 'm option list \<Rightarrow> bool" where
  "right_marks Q marks \<longleftrightarrow> (\<forall>z m. z < length marks \<longrightarrow> marks ! z = Some m \<longrightarrow> Q (marked marks) z m)"

definition searched :: "nat list list \<Rightarrow> (nat \<Rightarrow> bool) \<Rightarrow> (nat \<Rightarrow> bool) \<Rightarrow> 'm option list \<Rightarrow> nat set \<Rightarrow> bool" where
  "searched adj stop skip marks X \<longleftrightarrow>
     (\<forall>u z. u \<in> marked marks - X \<longrightarrow> \<not> stop u \<longrightarrow> z \<in> set (adj ! u) \<longrightarrow> skip z \<or> z \<in> marked marks)"

definition mark_inv ::
  "nat \<Rightarrow> nat list list \<Rightarrow> (nat \<Rightarrow> bool) \<Rightarrow> (nat \<Rightarrow> bool) \<Rightarrow> (nat set \<Rightarrow> nat \<Rightarrow> 'm \<Rightarrow> bool) \<Rightarrow> nat set \<Rightarrow> 'm mark_search \<Rightarrow> bool" where
  "mark_inv n adj stop skip Q X s \<longleftrightarrow> length (ms_marks s) = n \<and> set (ms_queue s) \<subseteq> marked (ms_marks s) \<and>
     right_marks Q (ms_marks s) \<and> searched adj stop skip (ms_marks s) (set (ms_queue s) \<union> X)"

definition mark_work :: "nat \<Rightarrow> 'm mark_search \<Rightarrow> nat" where
  "mark_work n s = card ({..<n} - marked (ms_marks s)) + length (ms_queue s)"

lemma marked_update: "z < length marks \<Longrightarrow> marked (marks[z := Some m]) = insert z (marked marks)"
  by (auto simp: marked_def nth_list_update)

lemma marked_bound: "marked marks \<subseteq> {..<length marks}"
  by (auto simp: marked_def)

lemma mark_specD:
  assumes "mark_spec n adj stop skip mark Q"
  shows "length adj = n" and "u < n \<Longrightarrow> set (adj ! u) \<subseteq> {..<n}"
    and "Q M z m \<Longrightarrow> M \<subseteq> M' \<Longrightarrow> Q M' z m"
    and "M \<subseteq> {..<n} \<Longrightarrow> u \<in> M \<Longrightarrow> Q M u m \<Longrightarrow> \<not> stop u \<Longrightarrow> z \<in> set (adj ! u) \<Longrightarrow> \<not> skip z \<Longrightarrow> z \<notin> M \<Longrightarrow>
      \<exists>m'. mark u m = Some m' \<and> Q (insert z M) z m'"
  using assms unfolding mark_spec_def by simp_all

lemma mark_neighbor_inv:
  assumes spec: "mark_spec n adj stop skip mark Q" and inv: "mark_inv n adj stop skip Q {u} s"
    and u: "u < n" "ms_marks s ! u = Some m" "\<not> stop u" and z: "z \<in> set (adj ! u)"
  shows "\<exists>s'. mark_neighbor skip (mark u m) z s = Inr s' \<and> mark_inv n adj stop skip Q {u} s' \<and>
    ms_marks s' ! u = Some m \<and> marked (ms_marks s) \<subseteq> marked (ms_marks s') \<and> (skip z \<or> z \<in> marked (ms_marks s')) \<and>
    mark_work n s' = mark_work n s"
proof (cases "skip z \<or> z \<in> marked (ms_marks s)")
  case True
  have "z < length (ms_marks s)" using spec inv u(1) z by (auto simp: mark_spec_def mark_inv_def)
  then have "mark_neighbor skip (mark u m) z s = Inr s" using True by (auto simp: mark_neighbor_def marked_def)
  with True inv u show ?thesis by auto
next
  case False
  let ?M = "marked (ms_marks s)"
  have len: "length (ms_marks s) = n" using inv by (simp add: mark_inv_def)
  have zn: "z < n" using mark_specD(2) [OF spec u(1)] z by auto
  have uM: "u \<in> ?M" "?M \<subseteq> {..<n}" using u len by (auto simp: marked_def)
  have "Q ?M u m" using inv u len by (auto simp: mark_inv_def right_marks_def)
  from mark_specD(4) [OF spec uM(2,1) this u(3) z] False
  obtain m' where m': "mark u m = Some m'" "Q (insert z ?M) z m'" by blast
  let ?s = "s\<lparr>ms_marks := (ms_marks s)[z := Some m'], ms_queue := ms_queue s @ [z]\<rparr>"
  have new: "marked (ms_marks ?s) = insert z ?M" using zn len by (simp add: marked_update)
  have step: "mark_neighbor skip (mark u m) z s = Inr ?s"
    using False zn len m'(1) by (auto simp: mark_neighbor_def marked_def)
  have mono: "Q (insert z ?M) y k" if "Q ?M y k" for y k
    by (rule mark_specD(3) [OF spec that]) blast
  have "right_marks Q (ms_marks ?s)"
    unfolding right_marks_def new
  proof (intro allI impI)
    fix y k
    assume y: "y < length (ms_marks ?s)" "ms_marks ?s ! y = Some k"
    show "Q (insert z ?M) y k"
    proof (cases "y = z")
      case True
      then show ?thesis using y m'(2) by simp
    next
      case False
      then show ?thesis using y inv by (intro mono) (auto simp: mark_inv_def right_marks_def)
    qed
  qed
  moreover have "searched adj stop skip (ms_marks ?s) (set (ms_queue ?s) \<union> {u})"
    using inv unfolding mark_inv_def searched_def new by auto
  moreover have "set (ms_queue ?s) \<subseteq> marked (ms_marks ?s)" using inv unfolding new by (auto simp: mark_inv_def)
  ultimately have "mark_inv n adj stop skip Q {u} ?s" using len by (simp add: mark_inv_def)
  moreover have "u \<noteq> z" using uM False by blast
  then have "ms_marks ?s ! u = Some m" using u(2) by simp
  moreover have "mark_work n ?s = mark_work n s"
  proof -
    have "{..<n} - insert z ?M = ({..<n} - ?M) - {z}" by blast
    then show ?thesis
      using card_Suc_Diff1 [of "{..<n} - ?M" z] zn False unfolding mark_work_def new by simp
  qed
  ultimately show ?thesis using step new by auto
qed

lemma mark_neighbors_inv:
  assumes spec: "mark_spec n adj stop skip mark Q" and "mark_inv n adj stop skip Q {u} s"
    and "u < n" "ms_marks s ! u = Some m" "\<not> stop u" and "set R \<subseteq> set (adj ! u)"
  shows "\<exists>s'. for_each (mark_neighbor skip (mark u m)) R s = Inr s' \<and> mark_inv n adj stop skip Q {u} s' \<and>
    marked (ms_marks s) \<subseteq> marked (ms_marks s') \<and>
    (\<forall>z \<in> set R. skip z \<or> z \<in> marked (ms_marks s')) \<and> mark_work n s' = mark_work n s"
  using assms(2-)
proof (induction R arbitrary: s)
  case (Cons z R)
  have z: "z \<in> set (adj ! u)" using Cons.prems(5) by simp
  from mark_neighbor_inv [OF spec Cons.prems(1,2,3,4) z] obtain t where
    t: "mark_neighbor skip (mark u m) z s = Inr t" "mark_inv n adj stop skip Q {u} t" "ms_marks t ! u = Some m"
      "marked (ms_marks s) \<subseteq> marked (ms_marks t)" "skip z \<or> z \<in> marked (ms_marks t)" "mark_work n t = mark_work n s"
    by auto
  from Cons.IH [OF t(2) Cons.prems(2) t(3) Cons.prems(4)] Cons.prems(5) obtain s' where
    "for_each (mark_neighbor skip (mark u m)) R t = Inr s'" "mark_inv n adj stop skip Q {u} s'"
    "marked (ms_marks t) \<subseteq> marked (ms_marks s')" "\<forall>z \<in> set R. skip z \<or> z \<in> marked (ms_marks s')" "mark_work n s' = mark_work n t"
    by auto
  with t show ?case by (intro exI [of _ s']) auto
qed auto

lemma mark_step_inv:
  assumes spec: "mark_spec n adj stop skip mark Q" and inv: "mark_inv n adj stop skip Q {} s" and q: "ms_queue s \<noteq> []"
  shows "\<exists>s'. mark_step adj stop skip mark s = Inr s' \<and> mark_inv n adj stop skip Q {} s' \<and>
    marked (ms_marks s) \<subseteq> marked (ms_marks s') \<and> mark_work n s' < mark_work n s"
proof -
  from q obtain u q' where q: "ms_queue s = u # q'" by (cases "ms_queue s") auto
  let ?s = "s\<lparr>ms_queue := q'\<rparr>"
  have work: "mark_work n ?s < mark_work n s" by (simp add: mark_work_def q)
  have inv': "mark_inv n adj stop skip Q {u} ?s" using inv by (auto simp: mark_inv_def q)
  from inv obtain m where u: "u < n" "ms_marks ?s ! u = Some m" by (auto simp: mark_inv_def marked_def q)
  show ?thesis
  proof (cases "stop u")
    case True
    then have "mark_step adj stop skip mark s = Inr ?s" by (simp add: mark_step_def q)
    moreover have "mark_inv n adj stop skip Q {} ?s" using inv' True by (auto simp: mark_inv_def searched_def)
    ultimately show ?thesis using work by auto
  next
    case False
    have "mark_step adj stop skip mark s = for_each (mark_neighbor skip (mark u m)) (adj ! u) ?s"
      using inv spec u False by (simp add: mark_step_def q mark_inv_def mark_spec_def)
    with mark_neighbors_inv [OF spec inv' u False subset_refl] obtain s' where
      s': "mark_step adj stop skip mark s = Inr s'" "mark_inv n adj stop skip Q {u} s'"
        "marked (ms_marks s) \<subseteq> marked (ms_marks s')" "\<forall>z \<in> set (adj ! u). skip z \<or> z \<in> marked (ms_marks s')"
        "mark_work n s' = mark_work n ?s" by auto
    then have "mark_inv n adj stop skip Q {} s'" by (auto simp: mark_inv_def searched_def)
    with s' work show ?thesis by auto
  qed
qed

lemma mark_loop_total:
  assumes spec: "mark_spec n adj stop skip mark Q" and inv: "mark_inv n adj stop skip Q {} s"
  shows "\<exists>marks. mark_loop adj stop skip mark s = Some marks \<and> length marks = n \<and>
    marked (ms_marks s) \<subseteq> marked marks \<and> right_marks Q marks \<and> searched adj stop skip marks {}"
proof -
  define P where "P t \<longleftrightarrow> mark_inv n adj stop skip Q {} t \<and> marked (ms_marks s) \<subseteq> marked (ms_marks t)" for t
  have "(\<exists>r. while_loop (\<lambda>s. ms_queue s \<noteq> []) (mark_step adj stop skip mark) s = Some (Inl r) \<and> False) \<or>
    (\<exists>t. while_loop (\<lambda>s. ms_queue s \<noteq> []) (mark_step adj stop skip mark) s = Some (Inr t) \<and> P t \<and> \<not> ms_queue t \<noteq> [])"
  proof (rule while_loop_total [where f = "mark_work n"])
    show "P s" using inv by (simp add: P_def)
    fix t
    assume t: "P t" "ms_queue t \<noteq> []"
    then have "mark_inv n adj stop skip Q {} t" by (simp add: P_def)
    from mark_step_inv [OF spec this t(2)] t(1) show "case mark_step adj stop skip mark t of
        Inl r \<Rightarrow> False | Inr t' \<Rightarrow> P t' \<and> mark_work n t' < mark_work n t"
      by (auto simp: P_def)
  qed
  then obtain t where "while_loop (\<lambda>s. ms_queue s \<noteq> []) (mark_step adj stop skip mark) s = Some (Inr t)" "P t" "ms_queue t = []"
    by auto
  then show ?thesis by (simp add: mark_loop_def P_def mark_inv_def)
qed

subsection \<open>Distances and labels\<close>

definition ilink :: "bounded_topology \<Rightarrow> nat \<Rightarrow> nat \<Rightarrow> bool" where
  "ilink t i j \<longleftrightarrow> i < length (bt_indexed_adjacency t) \<and> j \<in> set (bt_indexed_adjacency t ! i)"

definition indexed_ok :: "bounded_topology \<Rightarrow> bool" where
  "indexed_ok t \<longleftrightarrow> length (bt_indexed_adjacency t) = length (bt_routing_node_ids t) \<and>
     (\<forall>i j. ilink t i j \<longrightarrow> j < length (bt_routing_node_ids t) \<and> j \<noteq> i) \<and> length (bt_routing_node_ids t) < 2 ^ 32"

lemma indexed_okD:
  assumes "indexed_ok t"
  shows "length (bt_indexed_adjacency t) = length (bt_routing_node_ids t)"
    and "ilink t i j \<Longrightarrow> i < length (bt_routing_node_ids t)" and "ilink t i j \<Longrightarrow> j < length (bt_routing_node_ids t)"
    and "ilink t i j \<Longrightarrow> j \<noteq> i" and "length (bt_routing_node_ids t) < 2 ^ 32"
    and "u < length (bt_routing_node_ids t) \<Longrightarrow> set (bt_indexed_adjacency t ! u) \<subseteq> {..<length (bt_routing_node_ids t)}"
    and "u < length (bt_routing_node_ids t) \<Longrightarrow> z \<in> set (bt_indexed_adjacency t ! u) \<longleftrightarrow> ilink t u z"
  using assms by (auto simp: indexed_ok_def ilink_def)

lemma searched_closed:
  assumes "searched adj stop skip marks {}" and "x \<in> marked marks"
    and "(\<lambda>a b. b \<in> set (adj ! a) \<and> \<not> stop a \<and> \<not> skip b)\<^sup>*\<^sup>* x y"
  shows "y \<in> marked marks"
  using assms(3,2)
proof (induction rule: rtranclp_induct)
  case (step y z)
  then show ?case using assms(1) by (auto simp: searched_def)
qed simp

text \<open>A route that stays clear of \<open>s\<close>, and one that also does not go on from \<open>p\<close>.\<close>

definition clear_of :: "bounded_topology \<Rightarrow> nat \<Rightarrow> nat \<Rightarrow> nat \<Rightarrow> bool" where
  "clear_of t s = (\<lambda>x y. ilink t x y \<and> y \<noteq> s)\<^sup>*\<^sup>*"

definition clear_of_both :: "bounded_topology \<Rightarrow> nat \<Rightarrow> nat \<Rightarrow> nat \<Rightarrow> nat \<Rightarrow> bool" where
  "clear_of_both t s p = (\<lambda>x y. ilink t x y \<and> x \<noteq> p \<and> y \<noteq> s)\<^sup>*\<^sup>*"

definition distance_mark :: "bounded_topology \<Rightarrow> nat \<Rightarrow> nat \<Rightarrow> nat set \<Rightarrow> nat \<Rightarrow> u32 \<Rightarrow> bool" where
  "distance_mark t source unavailable M z d \<longleftrightarrow>
     (\<exists>p. walk (\<lambda>x y. ilink t x y \<and> y \<noteq> unavailable) source z p \<and> distinct p \<and> set p \<subseteq> M \<and> length p = Suc (unat d))"

lemma walk_snoc: "walk E x y p \<Longrightarrow> E y z \<Longrightarrow> walk E x z (p @ [z])"
  by (auto simp: walk_def successively_append_iff)

lemma walk_rtranclp: "walk E x y p \<Longrightarrow> E\<^sup>*\<^sup>* x y"
  using walk_steps steps_rtranclp by metis

lemma distance_spec:
  assumes ok: "indexed_ok t"
  shows "mark_spec (length (bt_routing_node_ids t)) (bt_indexed_adjacency t) (\<lambda>_. False) (\<lambda>z. z = unavailable)
    (\<lambda>_ d. checked_add d 1) (distance_mark t source unavailable)"
  unfolding mark_spec_def
proof (intro conjI allI impI)
  let ?n = "length (bt_routing_node_ids t)"
  show "length (bt_indexed_adjacency t) = ?n" by (rule indexed_okD(1) [OF ok])
  show "set (bt_indexed_adjacency t ! u) \<subseteq> {..<?n}" if "u < ?n" for u by (rule indexed_okD(6) [OF ok that])
  show "distance_mark t source unavailable M' z m" if "distance_mark t source unavailable M z m" "M \<subseteq> M'" for M M' z m
    using that unfolding distance_mark_def by (meson subset_trans)
  fix M u m z
  assume M: "M \<subseteq> {..<?n}" "u \<in> M" "distance_mark t source unavailable M u m" "z \<in> set (bt_indexed_adjacency t ! u)"
    "\<not> z = unavailable" "z \<notin> M"
  from M(3) obtain p where p: "walk (\<lambda>x y. ilink t x y \<and> y \<noteq> unavailable) source u p" "distinct p" "set p \<subseteq> M"
    "length p = Suc (unat m)" by (auto simp: distance_mark_def)
  have "u < ?n" using M(1,2) by auto
  then have link: "ilink t u z" using indexed_okD(7) [OF ok] M(4) by blast
  have "Suc (unat m) = card (set p)" using p(2,4) by (simp add: distinct_card)
  also have "\<dots> \<le> card {..<?n}" using p(3) M(1) by (intro card_mono) auto
  finally have small: "unat m + 1 < 2 ^ 32" using indexed_okD(5) [OF ok] by simp
  then have "checked_add m 1 = Some (m + 1)" and next_m: "unat (m + 1) = Suc (unat m)"
    by (simp_all add: checked_add_def unat_word_ariths unsigned_1)
  moreover have "distance_mark t source unavailable (insert z M) z (m + 1)"
    unfolding distance_mark_def
  proof (intro exI conjI)
    show "walk (\<lambda>x y. ilink t x y \<and> y \<noteq> unavailable) source z (p @ [z])"
      by (rule walk_snoc [OF p(1)]) (use link M(5) in simp)
    show "distinct (p @ [z])" using p(2,3) M(6) by auto
    show "set (p @ [z]) \<subseteq> insert z M" using p(3) by auto
    show "length (p @ [z]) = Suc (unat (m + 1))" using p(4) next_m by simp
  qed
  ultimately show "\<exists>m'. checked_add m 1 = Some m' \<and> distance_mark t source unavailable (insert z M) z m'" by blast
qed

lemma indexed_distances:
  assumes ok: "indexed_ok t" and s: "source < length (bt_routing_node_ids t)"
  shows "\<exists>ds. indexed_distances_from_avoiding t source unavailable = Some ds \<and> length ds = length (bt_routing_node_ids t) \<and>
    (\<forall>z < length ds. ds ! z \<noteq> None \<longleftrightarrow> clear_of t unavailable source z)"
proof -
  let ?n = "length (bt_routing_node_ids t)"
  let ?s = "\<lparr>ms_marks = (replicate ?n None)[source := Some 0], ms_queue = [source]\<rparr> :: u32 mark_search"
  have m: "marked (ms_marks ?s) = {source}" using s by (auto simp: marked_def nth_list_update)
  have "distance_mark t source unavailable {source} source 0"
    unfolding distance_mark_def by (rule exI [of _ "[source]"]) (simp add: walk_def)
  then have "mark_inv ?n (bt_indexed_adjacency t) (\<lambda>_. False) (\<lambda>z. z = unavailable) (distance_mark t source unavailable) {} ?s"
    using m s by (auto simp: mark_inv_def right_marks_def searched_def nth_list_update split: if_splits)
  from mark_loop_total [OF distance_spec [OF ok] this] obtain ds where
    ds: "mark_loop (bt_indexed_adjacency t) (\<lambda>_. False) (\<lambda>z. z = unavailable) (\<lambda>_ d. checked_add d 1) ?s = Some ds"
      "length ds = ?n" "source \<in> marked ds" "right_marks (distance_mark t source unavailable) ds"
      "searched (bt_indexed_adjacency t) (\<lambda>_. False) (\<lambda>z. z = unavailable) ds {}"
    using m by auto
  have "ds ! z \<noteq> None \<longleftrightarrow> clear_of t unavailable source z" if z: "z < length ds" for z
  proof
    assume "ds ! z \<noteq> None"
    then obtain d where "ds ! z = Some d" by auto
    with ds(4) z have "distance_mark t source unavailable (marked ds) z d" by (simp add: right_marks_def)
    then obtain p where "walk (\<lambda>x y. ilink t x y \<and> y \<noteq> unavailable) source z p" unfolding distance_mark_def by blast
    then show "clear_of t unavailable source z" unfolding clear_of_def by (rule walk_rtranclp)
  next
    assume "clear_of t unavailable source z"
    then have "(\<lambda>a b. b \<in> set (bt_indexed_adjacency t ! a) \<and> \<not> False \<and> \<not> b = unavailable)\<^sup>*\<^sup>* source z"
      unfolding clear_of_def by (rule rtranclp_mono [THEN predicate2D, rotated]) (auto simp: ilink_def)
    from searched_closed [OF ds(5,3) this] show "ds ! z \<noteq> None" by (simp add: marked_def)
  qed
  then show ?thesis using ds s by (simp add: indexed_distances_from_avoiding_def Let_def)
qed

definition label_mark :: "bounded_topology \<Rightarrow> nat \<Rightarrow> nat \<Rightarrow> nat set \<Rightarrow> nat \<Rightarrow> u32 \<Rightarrow> bool" where
  "label_mark t source terminal M z l \<longleftrightarrow>
     ilink t source (unat l) \<and> unat l \<noteq> terminal \<and> clear_of_both t source terminal (unat l) z"

lemma label_spec:
  assumes ok: "indexed_ok t"
  shows "mark_spec (length (bt_routing_node_ids t)) (bt_indexed_adjacency t) (\<lambda>u. u = terminal) (\<lambda>z. z = source)
    (\<lambda>_ l. Some l) (label_mark t source terminal)"
  unfolding mark_spec_def
proof (intro conjI allI impI)
  let ?n = "length (bt_routing_node_ids t)"
  show "length (bt_indexed_adjacency t) = ?n" by (rule indexed_okD(1) [OF ok])
  show "set (bt_indexed_adjacency t ! u) \<subseteq> {..<?n}" if "u < ?n" for u by (rule indexed_okD(6) [OF ok that])
  show "label_mark t source terminal M' z m" if "label_mark t source terminal M z m" for M M' z m
    using that by (simp add: label_mark_def)
  fix M u m z
  assume M: "M \<subseteq> {..<?n}" "u \<in> M" "label_mark t source terminal M u m" "\<not> u = terminal"
    "z \<in> set (bt_indexed_adjacency t ! u)" "\<not> z = source"
  have "u < ?n" using M(1,2) by auto
  then have "ilink t u z" using indexed_okD(7) [OF ok] M(5) by blast
  with M(3,4,6) have "label_mark t source terminal (insert z M) z m"
    unfolding label_mark_def clear_of_both_def by (auto intro: rtranclp.rtrancl_into_rtrancl)
  then show "\<exists>m'. Some m = Some m' \<and> label_mark t source terminal (insert z M) z m'" by blast
qed

lemma u32_try_from_index:
  assumes "i < 2 ^ 32"
  shows "u32_try_from i = Some (word_of_nat i)" and "unat (word_of_nat i :: u32) = i"
  using assms by (simp_all add: u32_try_from_def unsigned_of_nat take_bit_eq_mod)

lemma label_neighbors:
  assumes ok: "indexed_ok t" and s: "source < length (bt_routing_node_ids t)" and R: "\<And>z. z \<in> set R \<Longrightarrow> ilink t source z"
    and inv: "length (ms_marks s0) = length (bt_routing_node_ids t)" "set (ms_queue s0) = marked (ms_marks s0)"
      "right_marks (label_mark t source terminal) (ms_marks s0)"
  shows "\<exists>s. for_each (label_neighbor terminal) R s0 = Inr s \<and> length (ms_marks s) = length (bt_routing_node_ids t) \<and>
    set (ms_queue s) = marked (ms_marks s) \<and> right_marks (label_mark t source terminal) (ms_marks s) \<and>
    marked (ms_marks s) = marked (ms_marks s0) \<union> {z \<in> set R. z \<noteq> terminal}"
  using R inv
proof (induction R arbitrary: s0)
  case (Cons z R)
  show ?case
  proof (cases "z = terminal")
    case True
    then have "label_neighbor terminal z s0 = Inr s0" by (simp add: label_neighbor_def)
    moreover have "{x \<in> set (z # R). x \<noteq> terminal} = {x \<in> set R. x \<noteq> terminal}" using True by auto
    ultimately show ?thesis using Cons.IH [OF _ Cons.prems(2,3,4)] Cons.prems(1) by simp
  next
    case False
    let ?n = "length (bt_routing_node_ids t)"
    have link: "ilink t source z" using Cons.prems(1) by simp
    then have z: "z < ?n" "z < 2 ^ 32" using indexed_okD(3,5) [OF ok] by (auto intro: less_trans)
    note w = u32_try_from_index [OF z(2)]
    let ?s = "s0\<lparr>ms_marks := (ms_marks s0)[z := Some (word_of_nat z)], ms_queue := ms_queue s0 @ [z]\<rparr>"
    have new: "marked (ms_marks ?s) = insert z (marked (ms_marks s0))" using z Cons.prems(2) by (simp add: marked_update)
    have "label_mark t source terminal M z (word_of_nat z)" for M
      using link False w by (simp add: label_mark_def clear_of_both_def)
    then have "right_marks (label_mark t source terminal) (ms_marks ?s)"
      using Cons.prems(2,4) z by (auto simp: right_marks_def nth_list_update label_mark_def split: if_splits)
    then have "\<exists>s. for_each (label_neighbor terminal) R ?s = Inr s \<and> length (ms_marks s) = ?n \<and>
        set (ms_queue s) = marked (ms_marks s) \<and> right_marks (label_mark t source terminal) (ms_marks s) \<and>
        marked (ms_marks s) = marked (ms_marks ?s) \<union> {z \<in> set R. z \<noteq> terminal}"
      using Cons.prems new by (intro Cons.IH) auto
    moreover have "label_neighbor terminal z s0 = Inr ?s"
      using False w(1) z(1) Cons.prems(2) by (simp add: label_neighbor_def)
    moreover have "marked (ms_marks ?s) \<union> {x \<in> set R. x \<noteq> terminal} =
        marked (ms_marks s0) \<union> {x \<in> set (z # R). x \<noteq> terminal}"
      unfolding new using False by auto
    ultimately show ?thesis by (simp only: for_each.simps and_then_Inr)
  qed
qed simp

lemma alternate_labels:
  assumes ok: "indexed_ok t" and s: "source < length (bt_routing_node_ids t)"
  shows "\<exists>ls. alternate_first_hop_labels t source terminal = Some ls \<and> length ls = length (bt_routing_node_ids t) \<and>
    (\<forall>z l. z < length ls \<longrightarrow> ls ! z = Some l \<longrightarrow> label_mark t source terminal {} z l) \<and>
    (\<forall>z q. ilink t source q \<longrightarrow> q \<noteq> terminal \<longrightarrow> clear_of_both t source terminal q z \<longrightarrow> ls ! z \<noteq> None)"
proof -
  let ?n = "length (bt_routing_node_ids t)" and ?adj = "bt_indexed_adjacency t"
  let ?s0 = "\<lparr>ms_marks = replicate ?n None, ms_queue = []\<rparr> :: u32 mark_search"
  have "marked (ms_marks ?s0) = {}" by (simp add: marked_def)
  then obtain s1 where s1: "for_each (label_neighbor terminal) (?adj ! source) ?s0 = Inr s1" "length (ms_marks s1) = ?n"
    "set (ms_queue s1) = marked (ms_marks s1)" "right_marks (label_mark t source terminal) (ms_marks s1)"
    "marked (ms_marks s1) = {z \<in> set (?adj ! source). z \<noteq> terminal}"
    using label_neighbors [OF ok s, of "?adj ! source" ?s0 terminal] indexed_okD(7) [OF ok s]
    by (auto simp: right_marks_def)
  then have "mark_inv ?n ?adj (\<lambda>u. u = terminal) (\<lambda>z. z = source) (label_mark t source terminal) {} s1"
    by (auto simp: mark_inv_def searched_def)
  from mark_loop_total [OF label_spec [OF ok] this] obtain ls where
    ls: "mark_loop ?adj (\<lambda>u. u = terminal) (\<lambda>z. z = source) (\<lambda>_ l. Some l) s1 = Some ls" "length ls = ?n"
      "marked (ms_marks s1) \<subseteq> marked ls" "right_marks (label_mark t source terminal) ls"
      "searched ?adj (\<lambda>u. u = terminal) (\<lambda>z. z = source) ls {}" by blast
  have "alternate_first_hop_labels t source terminal = Some ls"
    using s1(1) ls(1) s indexed_okD(1) [OF ok] by (simp add: alternate_first_hop_labels_def)
  moreover have "ls ! z \<noteq> None" if q: "ilink t source q" "q \<noteq> terminal" "clear_of_both t source terminal q z" for z q
  proof -
    have "q \<in> marked ls" using q(1,2) s1(5) ls(3) indexed_okD(7) [OF ok s] by auto
    moreover have "(\<lambda>a b. b \<in> set (?adj ! a) \<and> \<not> a = terminal \<and> \<not> b = source)\<^sup>*\<^sup>* q z"
      using q(3) unfolding clear_of_both_def by (rule rtranclp_mono [THEN predicate2D, rotated]) (auto simp: ilink_def)
    ultimately have "z \<in> marked ls" by (rule searched_closed [OF ls(5)])
    then show ?thesis by (simp add: marked_def)
  qed
  moreover have "label_mark t source terminal {} z l" if "z < length ls" "ls ! z = Some l" for z l
    using ls(4) that by (auto simp: right_marks_def label_mark_def)
  ultimately show ?thesis using ls(2) by blast
qed

subsection \<open>Next hops over indexes\<close>

definition first_hop :: "bounded_topology \<Rightarrow> nat \<Rightarrow> nat \<Rightarrow> nat \<Rightarrow> bool" where
  "first_hop t s d p \<longleftrightarrow> ilink t s p \<and> clear_of t s p d"

definition alternate_hop :: "bounded_topology \<Rightarrow> nat \<Rightarrow> nat \<Rightarrow> nat \<Rightarrow> nat \<Rightarrow> bool" where
  "alternate_hop t s d p q \<longleftrightarrow> ilink t s q \<and> q \<noteq> p \<and> clear_of_both t s p q d"

lemma those_map_Some:
  assumes "\<And>x. x \<in> set xs \<Longrightarrow> f x = Some (g x)"
  shows "those (map f xs) = Some (map g xs)"
  using assms by (induction xs) simp_all

lemma with_neighbors_Some:
  assumes "\<And>x. x \<in> set ns \<Longrightarrow> x < 2 ^ 32 \<and> f x = Some (g x)"
  shows "with_neighbors f ns = Some (map (\<lambda>x. (word_of_nat x, g x)) ns)"
proof -
  have "filter (\<lambda>x. u32_try_from x \<noteq> None) ns = ns" using assms by (simp add: filter_id_conv u32_try_from_def)
  then show ?thesis using assms by (simp add: with_neighbors_def those_map_Some)
qed

lemma fold_bm_insert_get:
  "am_get (fold (\<lambda>(k, v). bm_insert k v) (map (\<lambda>x. (g x, H (g x))) xs) m) k = (if k \<in> g ` set xs then Some (H k) else am_get m k)"
  by (induction xs arbitrary: m) (auto simp: bm_get_insert)

lemma candidates_set:
  "set (candidates_for (map (\<lambda>x. (word_of_nat x, D x)) ns) d) =
     {(e + 1, word_of_nat x) | e x. x \<in> set ns \<and> D x ! d = Some e}"
  unfolding candidates_for_def by (force simp: map_filter_def image_iff)

lemma map_filter_eq_Cons_D: "List.map_filter f xs = y # ys \<Longrightarrow> \<exists>x \<in> set xs. f x = Some y"
proof -
  assume "List.map_filter f xs = y # ys"
  then have "y \<in> set (List.map_filter f xs)" by simp
  then show ?thesis by (auto simp: map_filter_def)
qed

lemma map_filter_eq_Nil: "List.map_filter f xs = [] \<longleftrightarrow> (\<forall>x \<in> set xs. f x = None)"
  by (auto simp: map_filter_def filter_empty_conv)

lemma next_hops_for_cases:
  assumes "candidates_for cd d \<noteq> []"
  shows "\<exists>h. next_hops_for cd labels d = Some h \<and> (\<exists>e. (e, nh_primary h) \<in> set (candidates_for cd d) \<and>
    (case nh_secondary h of
       Some q \<Rightarrow> reliable_hops labels d (e, nh_primary h) = Some (nh_primary h, q)
     | None \<Rightarrow> \<forall>c \<in> set (candidates_for cd d). reliable_hops labels d c = None))"
proof -
  from assms obtain e p rest where C: "candidates_for cd d = (e, p) # rest" by (cases "candidates_for cd d") auto
  show ?thesis
  proof (cases "List.map_filter (reliable_hops labels d) ((e, p) # rest)")
    case Nil
    then have "next_hops_for cd labels d = Some \<lparr>nh_primary = p, nh_secondary = None\<rparr>" by (simp add: next_hops_for_def C del: map_filter_simps)
    moreover have "\<forall>c \<in> set (candidates_for cd d). reliable_hops labels d c = None"
      using Nil unfolding C map_filter_eq_Nil .
    ultimately show ?thesis using C by auto
  next
    case (Cons hop others)
    obtain p' q where hop: "hop = (p', q)" by (cases hop)
    from map_filter_eq_Cons_D [OF Cons] obtain c where c: "c \<in> set (candidates_for cd d)" "reliable_hops labels d c = Some (p', q)"
      using C hop by auto
    obtain e' x where ce: "c = (e', x)" by (cases c)
    with c(2) have "x = p'" by (auto simp: reliable_hops_def bind_eq_Some_conv split: if_splits)
    moreover have "next_hops_for cd labels d = Some \<lparr>nh_primary = p', nh_secondary = Some q\<rparr>"
      using Cons hop by (simp add: next_hops_for_def C del: map_filter_simps)
    ultimately show ?thesis using c ce by auto
  qed
qed

lemma hops_for_destination:
  fixes D L :: "nat \<Rightarrow> u32 option list"
  assumes ns: "\<And>x. x \<in> set ns \<longleftrightarrow> ilink t s x" and small: "\<And>x. ilink t s x \<Longrightarrow> x < 2 ^ 32"
    and D: "\<And>x. ilink t s x \<Longrightarrow> D x ! d \<noteq> None \<longleftrightarrow> clear_of t s x d"
    and get: "\<And>x. ilink t s x \<Longrightarrow> am_get labels (word_of_nat x) = Some (L x)"
    and L: "\<And>x. d < length (L x)" "\<And>x l. L x ! d = Some l \<Longrightarrow> label_mark t s x {} d l"
      "\<And>x q. alternate_hop t s d x q \<Longrightarrow> L x ! d \<noteq> None"
    and reach: "\<exists>p. first_hop t s d p"
  defines "cd \<equiv> map (\<lambda>x. (word_of_nat x :: u32, D x)) ns"
  shows "\<exists>h. next_hops_for cd labels d = Some h \<and> first_hop t s d (unat (nh_primary h)) \<and>
    (case nh_secondary h of
       Some q \<Rightarrow> alternate_hop t s d (unat (nh_primary h)) (unat q)
     | None \<Rightarrow> \<forall>p q. first_hop t s d p \<longrightarrow> \<not> alternate_hop t s d p q)"
proof -
  have cand: "\<exists>e. (e, word_of_nat p) \<in> set (candidates_for cd d)" if "first_hop t s d p" for p
    using that ns D unfolding cd_def candidates_set first_hop_def by blast
  have hop_of: "first_hop t s d (unat w)" if c: "(e, w) \<in> set (candidates_for cd d)" for e w
  proof -
    from c obtain e' x where x: "ilink t s x" "D x ! d = Some e'" "w = word_of_nat x"
      using ns unfolding cd_def candidates_set by blast
    then show ?thesis using D [OF x(1)] u32_try_from_index(2) [OF small [OF x(1)]] by (simp add: first_hop_def)
  qed
  have rel: "reliable_hops labels d (e, w) = (case L (unat w) ! d of None \<Rightarrow> None | Some q \<Rightarrow> if q \<noteq> w then Some (w, q) else None)"
    if "first_hop t s d (unat w)" for e w
    using get [of "unat w"] that L(1) by (auto simp: reliable_hops_def first_hop_def split: option.split)
  from reach cand have "candidates_for cd d \<noteq> []" by fastforce
  from next_hops_for_cases [OF this, of labels] obtain h e where h: "next_hops_for cd labels d = Some h"
    "(e, nh_primary h) \<in> set (candidates_for cd d)"
    "case nh_secondary h of Some q \<Rightarrow> reliable_hops labels d (e, nh_primary h) = Some (nh_primary h, q)
     | None \<Rightarrow> \<forall>c \<in> set (candidates_for cd d). reliable_hops labels d c = None" by blast
  note prim = hop_of [OF h(2)]
  have "case nh_secondary h of
       Some q \<Rightarrow> alternate_hop t s d (unat (nh_primary h)) (unat q)
     | None \<Rightarrow> \<forall>p q. first_hop t s d p \<longrightarrow> \<not> alternate_hop t s d p q"
  proof (cases "nh_secondary h")
    case (Some q)
    with h(3) rel [OF prim] have "L (unat (nh_primary h)) ! d = Some q" by (simp split: option.splits if_splits)
    from L(2) [OF this] show ?thesis using Some by (simp add: label_mark_def alternate_hop_def)
  next
    case None
    have "\<not> alternate_hop t s d p q" if p: "first_hop t s d p" for p q
    proof
      assume alt: "alternate_hop t s d p q"
      then obtain l where l: "L p ! d = Some l" using L(3) by blast
      have u: "unat (word_of_nat p :: u32) = p" using p small u32_try_from_index(2) by (simp add: first_hop_def)
      from cand [OF p] obtain e where e: "(e, word_of_nat p) \<in> set (candidates_for cd d)" by blast
      have "l \<noteq> word_of_nat p" using L(2) [OF l] u by (auto simp: label_mark_def)
      with rel [of "word_of_nat p" e] u p l have "reliable_hops labels d (e, word_of_nat p) \<noteq> None" by simp
      with h(3) None e show False by auto
    qed
    then show ?thesis using None by simp
  qed
  with h(1) prim show ?thesis by blast
qed

lemma compute_next_hops_correct:
  assumes ok: "indexed_ok t" and s: "s < length (bt_routing_node_ids t)"
    and reach: "\<And>d. d < length (bt_routing_node_ids t) \<Longrightarrow> d \<noteq> s \<Longrightarrow> \<exists>p. first_hop t s d p"
  shows "\<exists>table. compute_next_hops_from t s = Some (Some table) \<and> length table = length (bt_routing_node_ids t) \<and>
    table ! s = None \<and>
    (\<forall>d < length table. d \<noteq> s \<longrightarrow> (\<exists>h. table ! d = Some h \<and> first_hop t s d (unat (nh_primary h)) \<and>
       (case nh_secondary h of
          Some q \<Rightarrow> alternate_hop t s d (unat (nh_primary h)) (unat q)
        | None \<Rightarrow> \<forall>p q. first_hop t s d p \<longrightarrow> \<not> alternate_hop t s d p q)))"
proof -
  let ?n = "length (bt_routing_node_ids t)" and ?ns = "bt_indexed_adjacency t ! s"
  note len = indexed_okD(1) [OF ok] and ilk = indexed_okD(7) [OF ok s]
  have small: "x < 2 ^ 32" if "ilink t s x" for x using indexed_okD(3,5) [OF ok] that by (meson less_trans)
  define D where "D x = the (indexed_distances_from_avoiding t x s)" for x
  define L where "L x = the (alternate_first_hop_labels t s x)" for x
  have D: "indexed_distances_from_avoiding t x s = Some (D x)" "length (D x) = ?n"
    "\<And>d. d < ?n \<Longrightarrow> D x ! d \<noteq> None \<longleftrightarrow> clear_of t s x d" if "ilink t s x" for x
    using indexed_distances [OF ok indexed_okD(3) [OF ok that], of s] unfolding D_def by auto
  have L: "alternate_first_hop_labels t s x = Some (L x)" "length (L x) = ?n"
    "\<And>d l. d < ?n \<Longrightarrow> L x ! d = Some l \<Longrightarrow> label_mark t s x {} d l"
    "\<And>d q. alternate_hop t s d x q \<Longrightarrow> L x ! d \<noteq> None" for x
    using alternate_labels [OF ok s, of x] unfolding L_def alternate_hop_def by auto
  let ?cd = "map (\<lambda>x. (word_of_nat x :: u32, D x)) ?ns"
  define H where "H k = L (unat (k :: u32))" for k
  let ?labels = "fold (\<lambda>(k, v). bm_insert k v) (map (\<lambda>x. (word_of_nat x :: u32, H (word_of_nat x))) ?ns) []"
  have cd: "with_neighbors (\<lambda>x. indexed_distances_from_avoiding t x s) ?ns = Some ?cd"
    using D small ilk by (intro with_neighbors_Some) blast
  have "with_neighbors (alternate_first_hop_labels t s) ?ns = Some (map (\<lambda>x. (word_of_nat x, L x)) ?ns)"
    using L small ilk by (intro with_neighbors_Some) blast
  moreover have "map (\<lambda>x. (word_of_nat x :: u32, L x)) ?ns = map (\<lambda>x. (word_of_nat x :: u32, H (word_of_nat x))) ?ns"
    using small ilk u32_try_from_index(2) by (intro map_cong) (auto simp: H_def)
  ultimately have labels: "with_neighbors (alternate_first_hop_labels t s) ?ns =
      Some (map (\<lambda>x. (word_of_nat x :: u32, H (word_of_nat x))) ?ns)" by simp
  have get: "am_get ?labels (word_of_nat x) = Some (L x)" if "ilink t s x" for x
  proof -
    have "am_get ?labels (word_of_nat x) = Some (H (word_of_nat x))"
      using fold_bm_insert_get [of word_of_nat H ?ns "[]" "word_of_nat x"] that ilk by simp
    then show ?thesis by (simp add: H_def u32_try_from_index(2) [OF small [OF that]])
  qed
  have hop: "\<exists>h. next_hops_for ?cd ?labels d = Some h \<and> first_hop t s d (unat (nh_primary h)) \<and>
      (case nh_secondary h of
         Some q \<Rightarrow> alternate_hop t s d (unat (nh_primary h)) (unat q)
       | None \<Rightarrow> \<forall>p q. first_hop t s d p \<longrightarrow> \<not> alternate_hop t s d p q)"
    if d: "d < ?n" "d \<noteq> s" for d
  proof (rule hops_for_destination)
    show "x \<in> set ?ns \<longleftrightarrow> ilink t s x" for x by (rule ilk)
    show "d < length (L x)" for x using d(1) L(2) by simp
    show "label_mark t s x {} d l" if "L x ! d = Some l" for x l by (rule L(3) [OF d(1) that])
  qed (use small D d(1) get L(4) reach [OF d] in \<open>blast+\<close>)
  let ?table = "map (\<lambda>d. if d = s then None else next_hops_for ?cd ?labels d) [0..<?n]"
  have "those (map (\<lambda>d. if d = s then Some None else map_option Some (next_hops_for ?cd ?labels d)) [0..<?n]) = Some ?table"
    using hop by (intro those_map_Some) fastforce
  then have "compute_next_hops_from t s = Some (Some ?table)"
    using cd labels s len by (simp add: compute_next_hops_from_def Let_def)
  then show ?thesis using hop s by (intro exI [of _ ?table]) auto
qed

subsection \<open>Routes of a resilient graph\<close>

lemma leave_source:
  assumes "(\<lambda>a b. E a b \<and> P a b)\<^sup>*\<^sup>* s d" and "s \<noteq> d"
  shows "\<exists>q. E s q \<and> P s q \<and> q \<noteq> s \<and> (\<lambda>a b. E a b \<and> P a b \<and> b \<noteq> s)\<^sup>*\<^sup>* q d"
proof -
  have "d = s \<or> (\<exists>q. E s q \<and> P s q \<and> q \<noteq> s \<and> (\<lambda>a b. E a b \<and> P a b \<and> b \<noteq> s)\<^sup>*\<^sup>* q d)"
    using assms(1)
  proof (induction rule: rtranclp_induct)
    case (step y z)
    then show ?case by (cases "z = s") (auto intro: rtranclp.rtrancl_into_rtrancl)
  qed simp
  with assms(2) show ?thesis by blast
qed

lemma stop_at_target:
  assumes "E\<^sup>*\<^sup>* q d"
  shows "(\<lambda>a b. E a b \<and> a \<noteq> d)\<^sup>*\<^sup>* q d"
  using assms
proof (induction rule: converse_rtranclp_induct)
  case (step x y)
  then show ?case by (cases "x = d") (auto intro: converse_rtranclp_into_rtranclp)
qed simp

definition route_clear_of :: "adjacency \<Rightarrow> node_id \<Rightarrow> node_id \<Rightarrow> node_id \<Rightarrow> bool" where
  "route_clear_of adjacency s = (\<lambda>x y. linked adjacency x y \<and> y \<noteq> s)\<^sup>*\<^sup>*"

definition route_clear_of_both :: "adjacency \<Rightarrow> node_id \<Rightarrow> node_id \<Rightarrow> node_id \<Rightarrow> node_id \<Rightarrow> bool" where
  "route_clear_of_both adjacency s p = (\<lambda>x y. linked adjacency x y \<and> x \<noteq> p \<and> y \<noteq> s)\<^sup>*\<^sup>*"

lemma connected_first_hop:
  assumes "all_connected adjacency" and "s \<in> fst ` set adjacency" and "d \<in> fst ` set adjacency" and "s \<noteq> d"
  shows "\<exists>p. linked adjacency s p \<and> route_clear_of adjacency s p d"
proof -
  have "(\<lambda>a b. linked adjacency a b \<and> True)\<^sup>*\<^sup>* s d" using assms unfolding all_connected_def by auto
  from leave_source [OF this assms(4)] show ?thesis by (auto simp: route_clear_of_def)
qed

lemma conn_undirected:
  assumes "undirected adjacency" and "conn (linked adjacency) X x y"
  shows "(\<lambda>a b. linked adjacency a b \<and> a \<in> X \<and> b \<in> X)\<^sup>*\<^sup>* x y"
proof -
  have "(\<lambda>a b. (linked adjacency a b \<or> linked adjacency b a) \<and> a \<in> X \<and> b \<in> X) = (\<lambda>a b. linked adjacency a b \<and> a \<in> X \<and> b \<in> X)"
    using assms(1) by (auto simp: undirected_def fun_eq_iff)
  then show ?thesis using assms(2) by (simp add: conn_def)
qed

text \<open>Of any two nodes, when a third one has failed.\<close>

lemma survives_route:
  assumes "undirected adjacency" and "survives_any_failure adjacency" and "v \<in> fst ` set adjacency"
    and "x \<in> fst ` set adjacency" and "y \<in> fst ` set adjacency" and "x \<noteq> v" and "y \<noteq> v"
  shows "(\<lambda>a b. linked adjacency a b \<and> a \<noteq> v \<and> b \<noteq> v)\<^sup>*\<^sup>* x y"
proof -
  have "conn (linked adjacency) (fst ` set adjacency - {v}) x y" using assms unfolding survives_any_failure_def by blast
  from conn_undirected [OF assms(1) this] show ?thesis
    by (rule rtranclp_mono [THEN predicate2D, rotated]) auto
qed

lemma resilient_alternate:
  assumes u: "undirected adjacency" and r: "survives_any_failure adjacency" and size: "2 < length adjacency"
    and s: "s \<in> fst ` set adjacency" and d: "d \<in> fst ` set adjacency" "s \<noteq> d"
    and p: "linked adjacency s p" "p \<noteq> s"
  shows "\<exists>q. linked adjacency s q \<and> q \<noteq> p \<and> route_clear_of_both adjacency s p q d"
proof -
  let ?K = "fst ` set adjacency"
  have pK: "p \<in> ?K" by (rule undirected_closed [OF u p(1)])
  show ?thesis
  proof (cases "p = d")
    case False
    have "(\<lambda>a b. linked adjacency a b \<and> (a \<noteq> p \<and> b \<noteq> p))\<^sup>*\<^sup>* s d"
      using survives_route [OF u r pK s d(1)] p(2) False by simp
    from leave_source [OF this d(2)] obtain q where q: "linked adjacency s q" "q \<noteq> p"
      "(\<lambda>a b. linked adjacency a b \<and> (a \<noteq> p \<and> b \<noteq> p) \<and> b \<noteq> s)\<^sup>*\<^sup>* q d" by blast
    from q(3) have "route_clear_of_both adjacency s p q d"
      unfolding route_clear_of_both_def by (rule rtranclp_mono [THEN predicate2D, rotated]) auto
    with q show ?thesis by blast
  next
    case True
    have "card ?K = length adjacency" using length_keys [of adjacency] u by (simp add: undirected_def)
    then have "\<not> ?K \<subseteq> {s, d}" using size card_mono [of "{s, d}" ?K] by (auto simp: card_insert_if split: if_splits)
    then obtain c where c: "c \<in> ?K" "c \<noteq> s" "c \<noteq> d" by blast
    have "(\<lambda>a b. linked adjacency a b \<and> (a \<noteq> d \<and> b \<noteq> d))\<^sup>*\<^sup>* s c"
      using survives_route [OF u r d(1) s c(1)] c(3) d(2) by simp
    from leave_source [OF this] c(2) obtain q where q: "linked adjacency s q" "q \<noteq> d" "q \<noteq> s" by blast
    have "(\<lambda>a b. linked adjacency a b \<and> a \<noteq> s \<and> b \<noteq> s)\<^sup>*\<^sup>* q d"
      using survives_route [OF u r s undirected_closed [OF u q(1)] d(1)] q(3) d(2) by simp
    from stop_at_target [OF this] have "route_clear_of_both adjacency s p q d"
      unfolding route_clear_of_both_def True by (rule rtranclp_mono [THEN predicate2D, rotated]) auto
    with q True show ?thesis by blast
  qed
qed

subsection \<open>Members and their indexes\<close>

lemma node_indexes_get:
  assumes "distinct ids"
  shows "am_get (node_indexes ids) x = Some i \<longleftrightarrow> i < length ids \<and> ids ! i = x"
proof -
  have "am_get (fold (\<lambda>(index, node_id). bm_insert node_id index) (List.enumerate n xs) m) x =
      (if x \<in> set xs then Some (n + (LEAST i. i < length xs \<and> xs ! i = x)) else am_get m x)" if "distinct xs" for n xs m
    using that
  proof (induction xs arbitrary: n m)
    case (Cons y xs)
    show ?case
    proof (cases "x = y")
      case True
      then have "x \<notin> set xs" using Cons.prems by simp
      moreover have "(LEAST i. i < length (y # xs) \<and> (y # xs) ! i = x) = 0" using True by (intro Least_equality) auto
      ultimately show ?thesis using Cons True by (simp add: bm_get_insert)
    next
      case False
      have "(LEAST i. i < length (y # xs) \<and> (y # xs) ! i = x) = Suc (LEAST i. i < length xs \<and> xs ! i = x)" if mem: "x \<in> set xs"
      proof -
        from mem obtain j where j: "j < length xs" "xs ! j = x" by (metis in_set_conv_nth)
        have "(LEAST i. i < length (y # xs) \<and> (y # xs) ! i = x) = Suc (LEAST i. Suc i < length (y # xs) \<and> (y # xs) ! Suc i = x)"
          by (rule Least_Suc [of _ "Suc j"]) (use j False in auto)
        then show ?thesis by simp
      qed
      with Cons False show ?thesis by (simp add: bm_get_insert)
    qed
  qed simp
  from this [OF assms, of 0 "[]"] have get: "am_get (node_indexes ids) x =
      (if x \<in> set ids then Some (LEAST i. i < length ids \<and> ids ! i = x) else None)" by (simp add: node_indexes_def)
  show ?thesis
  proof (cases "x \<in> set ids")
    case True
    then obtain j where j: "j < length ids" "ids ! j = x" by (metis in_set_conv_nth)
    have "(LEAST i. i < length ids \<and> ids ! i = x) = j"
      using j assms by (intro Least_equality) (auto simp: nth_eq_iff_index_eq)
    then show ?thesis using get True j assms by (auto simp: nth_eq_iff_index_eq)
  next
    case False
    then show ?thesis using get by auto
  qed
qed

definition over_members :: "bounded_topology \<Rightarrow> bool" where
  "over_members t \<longleftrightarrow> distinct (bt_routing_node_ids t) \<and> fst ` set (bt_adjacency t) = set (bt_routing_node_ids t) \<and>
     length (bt_adjacency t) = length (bt_routing_node_ids t) \<and>
     bt_routing_node_indexes t = node_indexes (bt_routing_node_ids t) \<and> undirected (bt_adjacency t) \<and>
     bt_indexed_adjacency t = index_adjacency (bt_routing_node_ids t) (bt_adjacency t) \<and>
     (\<forall>x. \<not> linked (bt_adjacency t) x x)"

lemma ilink_linked:
  assumes "over_members t" and "i < length (bt_routing_node_ids t)"
  shows "ilink t i j \<longleftrightarrow> j < length (bt_routing_node_ids t) \<and>
    linked (bt_adjacency t) (bt_routing_node_ids t ! i) (bt_routing_node_ids t ! j)"
proof -
  let ?ids = "bt_routing_node_ids t"
  have d: "distinct ?ids" using assms(1) by (simp add: over_members_def)
  have "ilink t i j \<longleftrightarrow> j \<in> set (List.map_filter (am_get (node_indexes ?ids)) (neighbors_of (bt_adjacency t) (?ids ! i)))"
    using assms by (simp add: ilink_def over_members_def index_adjacency_def)
  also have "\<dots> \<longleftrightarrow> (\<exists>x. linked (bt_adjacency t) (?ids ! i) x \<and> am_get (node_indexes ?ids) x = Some j)"
    by (force simp: map_filter_def linked_def)
  also have "\<dots> \<longleftrightarrow> j < length ?ids \<and> linked (bt_adjacency t) (?ids ! i) (?ids ! j)"
    unfolding node_indexes_get [OF d] by blast
  finally show ?thesis .
qed

lemma index_walks:
  assumes ov: "over_members t" and i: "i < length (bt_routing_node_ids t)"
  shows "(\<lambda>x y. ilink t x y \<and> R (bt_routing_node_ids t ! x) (bt_routing_node_ids t ! y))\<^sup>*\<^sup>* i j \<longleftrightarrow>
    j < length (bt_routing_node_ids t) \<and>
    (\<lambda>x y. linked (bt_adjacency t) x y \<and> R x y)\<^sup>*\<^sup>* (bt_routing_node_ids t ! i) (bt_routing_node_ids t ! j)"
proof -
  let ?ids = "bt_routing_node_ids t" and ?A = "bt_adjacency t"
  let ?I = "\<lambda>x y. ilink t x y \<and> R (?ids ! x) (?ids ! y)" and ?N = "\<lambda>x y. linked ?A x y \<and> R x y"
  have out: "j < length ?ids \<and> ?N\<^sup>*\<^sup>* (?ids ! i) (?ids ! j)" if "?I\<^sup>*\<^sup>* i j"
    using that
  proof (induction rule: rtranclp_induct)
    case (step y z)
    then have z: "z < length ?ids" "?N (?ids ! y) (?ids ! z)" using ilink_linked [OF ov, of y z] by simp_all
    have "?N\<^sup>*\<^sup>* (?ids ! i) (?ids ! z)" by (rule rtranclp.rtrancl_into_rtrancl [OF conjunct2 [OF step.IH] z(2)])
    with z(1) show ?case by simp
  qed (simp add: i)
  have "\<exists>j < length ?ids. ?ids ! j = y \<and> ?I\<^sup>*\<^sup>* i j" if "?N\<^sup>*\<^sup>* (?ids ! i) y" for y
    using that
  proof (induction rule: rtranclp_induct)
    case (step y z)
    from step.IH obtain j where j: "j < length ?ids" "?ids ! j = y" "?I\<^sup>*\<^sup>* i j" by blast
    have "z \<in> set ?ids" using ov undirected_closed [of ?A y z] step.hyps(2) by (simp add: over_members_def)
    then obtain k where k: "k < length ?ids" "?ids ! k = z" by (metis in_set_conv_nth)
    have "?I j k" using ilink_linked [OF ov j(1), of k] j k step.hyps(2) by simp
    with j(3) have "?I\<^sup>*\<^sup>* i k" by (rule rtranclp.rtrancl_into_rtrancl)
    with k show ?case by blast
  qed (use i in auto)
  note into = this
  have "?I\<^sup>*\<^sup>* i j" if j: "j < length ?ids" and w: "?N\<^sup>*\<^sup>* (?ids ! i) (?ids ! j)"
  proof -
    from into [OF w] obtain k where k: "k < length ?ids" "?ids ! k = ?ids ! j" "?I\<^sup>*\<^sup>* i k" by blast
    have "distinct ?ids" using ov by (simp add: over_members_def)
    from nth_eq_iff_index_eq [OF this k(1) j] k(2) have "k = j" by simp
    with k(3) show ?thesis by simp
  qed
  with out show ?thesis by blast
qed

lemma over_members_nth:
  assumes "over_members t" and "i < length (bt_routing_node_ids t)" and "j < length (bt_routing_node_ids t)"
  shows "bt_routing_node_ids t ! i = bt_routing_node_ids t ! j \<longleftrightarrow> i = j"
  using assms by (simp add: over_members_def nth_eq_iff_index_eq)

lemma over_members_ilink:
  assumes "over_members t" and "ilink t i j"
  shows "i < length (bt_routing_node_ids t)" and "j < length (bt_routing_node_ids t)"
proof -
  show "i < length (bt_routing_node_ids t)" using assms by (simp add: ilink_def over_members_def index_adjacency_def)
  from ilink_linked [OF assms(1) this] assms(2) show "j < length (bt_routing_node_ids t)" by simp
qed

lemma clear_of_members:
  assumes ov: "over_members t" and s: "s < length (bt_routing_node_ids t)" and x: "x < length (bt_routing_node_ids t)"
    and y: "y < length (bt_routing_node_ids t)"
  shows "clear_of t s x y \<longleftrightarrow> route_clear_of (bt_adjacency t)
    (bt_routing_node_ids t ! s) (bt_routing_node_ids t ! x) (bt_routing_node_ids t ! y)"
proof -
  have "(\<lambda>a b. ilink t a b \<and> b \<noteq> s) = (\<lambda>a b. ilink t a b \<and> bt_routing_node_ids t ! b \<noteq> bt_routing_node_ids t ! s)"
    using over_members_nth [OF ov _ s] over_members_ilink(2) [OF ov] by (intro ext) blast
  then show ?thesis using index_walks [OF ov x, of "\<lambda>_ b. b \<noteq> bt_routing_node_ids t ! s" y] y
    by (simp add: clear_of_def route_clear_of_def)
qed

lemma clear_of_both_members:
  assumes ov: "over_members t" and s: "s < length (bt_routing_node_ids t)" and p: "p < length (bt_routing_node_ids t)"
    and x: "x < length (bt_routing_node_ids t)" and y: "y < length (bt_routing_node_ids t)"
  shows "clear_of_both t s p x y \<longleftrightarrow> route_clear_of_both (bt_adjacency t)
    (bt_routing_node_ids t ! s) (bt_routing_node_ids t ! p) (bt_routing_node_ids t ! x) (bt_routing_node_ids t ! y)"
proof -
  have "(\<lambda>a b. ilink t a b \<and> a \<noteq> p \<and> b \<noteq> s) = (\<lambda>a b. ilink t a b \<and>
      bt_routing_node_ids t ! a \<noteq> bt_routing_node_ids t ! p \<and> bt_routing_node_ids t ! b \<noteq> bt_routing_node_ids t ! s)"
    using over_members_nth [OF ov _ s] over_members_nth [OF ov _ p] over_members_ilink [OF ov] by (intro ext) blast
  then show ?thesis
    using index_walks [OF ov x, of "\<lambda>a b. a \<noteq> bt_routing_node_ids t ! p \<and> b \<noteq> bt_routing_node_ids t ! s" y] y
    by (simp add: clear_of_both_def route_clear_of_both_def)
qed

lemma over_members_ok:
  assumes "over_members t" and "length (bt_routing_node_ids t) < 2 ^ 32"
  shows "indexed_ok t"
  unfolding indexed_ok_def
proof (intro conjI allI impI)
  show "length (bt_indexed_adjacency t) = length (bt_routing_node_ids t)"
    using assms(1) by (simp add: over_members_def index_adjacency_def)
  fix i j
  assume l: "ilink t i j"
  note b = over_members_ilink [OF assms(1) l]
  from b show "j < length (bt_routing_node_ids t)" by simp
  show "j \<noteq> i" using ilink_linked [OF assms(1) b(1), of j] l assms(1) by (auto simp: over_members_def)
qed (rule assms(2))

lemma neighbors_of_distinct:
  assumes "adjacency_over K adjacency"
  shows "distinct (neighbors_of adjacency x)"
proof (cases "am_get adjacency x")
  case (Some ns)
  from adjacency_over_distinct [OF assms Some] show ?thesis by (simp add: neighbors_of_def Some)
qed (simp add: neighbors_of_def)

lemma synthesized_members:
  assumes "synthesize sha256 nodes config = Some (Inr t)"
  shows "over_members t" and "set (bt_routing_node_ids t) = nr_node_id ` set nodes"
    and "length (bt_routing_node_ids t) = length nodes" and "all_connected (bt_adjacency t)"
    and "survives_any_failure (bt_adjacency t)" and "distinct (neighbors_of (bt_adjacency t) x)"
proof -
  obtain ids hierarchy groups adjacency edge_placements where s: "check_config config = Inr ()" "canonical_node_ids nodes = Inr ids"
    "build_hierarchy sha256 ids config = Inr hierarchy"
    and edges: "allocate_representatives_and_hierarchy_edges sha256 config hierarchy
      (add_leaf_cycles hierarchy (map (\<lambda>node_id. (node_id, [])) ids, [])) = Inr (groups, adjacency, edge_placements)"
    and t: "assemble sha256 config ids groups (adjacency, edge_placements) = Some (Inr t)"
    by (rule synthesize_ok [OF assms])
  note ids = canonical_node_ids_ok [OF s(2)]
  have over: "adjacency_over (nr_node_id ` set nodes) adjacency"
    using synthesize_allocates [OF s] edges by (simp add: returns_def)
  then have wf: "bm_wf adjacency" and keys: "fst ` set adjacency = nr_node_id ` set nodes"
    by (simp_all add: adjacency_over_def)
  show "distinct (neighbors_of (bt_adjacency t) x)"
    unfolding assemble_ok(1) [OF t wf] by (rule neighbors_of_distinct [OF over])
  have "length adjacency = length ids"
    unfolding length_keys [OF wf] keys using distinct_card [OF ids(2)] by (simp add: ids(1))
  then show "over_members t" unfolding over_members_def using assemble_ok [OF t wf] keys ids by simp
  show "set (bt_routing_node_ids t) = nr_node_id ` set nodes" "length (bt_routing_node_ids t) = length nodes"
    "all_connected (bt_adjacency t)" "survives_any_failure (bt_adjacency t)"
    using assemble_ok [OF t wf] ids by simp_all
qed

text \<open>What the entry \<open>(p, alternate)\<close> of a next-hop table promises for the destination \<open>d\<close>.\<close>

definition reliable_entry :: "bounded_topology \<Rightarrow> node_id \<Rightarrow> node_id \<Rightarrow> node_id \<times> node_id option \<Rightarrow> bool" where
  "reliable_entry t s d = (\<lambda>(p, alternate).
     linked (bt_adjacency t) s p \<and> route_clear_of (bt_adjacency t) s p d \<and>
     (case alternate of
        None \<Rightarrow> length (bt_adjacency t) = 2
      | Some q \<Rightarrow> linked (bt_adjacency t) s q \<and> q \<noteq> p \<and> route_clear_of_both (bt_adjacency t) s p q d))"

lemma member_first_hop:
  assumes ov: "over_members t" and conn: "all_connected (bt_adjacency t)" and s: "s < length (bt_routing_node_ids t)"
    and d: "d < length (bt_routing_node_ids t)" "d \<noteq> s"
  shows "\<exists>p. first_hop t s d p"
proof -
  let ?ids = "bt_routing_node_ids t" and ?A = "bt_adjacency t"
  have keys: "fst ` set ?A = set ?ids" and u: "undirected ?A" using ov by (simp_all add: over_members_def)
  obtain p where p: "linked ?A (?ids ! s) p" "route_clear_of ?A (?ids ! s) p (?ids ! d)"
    using connected_first_hop [OF conn, of "?ids ! s" "?ids ! d"] keys s d over_members_nth [OF ov s d(1)] by auto
  have "p \<in> set ?ids" using undirected_closed [OF u p(1)] keys by simp
  then obtain k where k: "k < length ?ids" "?ids ! k = p" by (metis in_set_conv_nth)
  have "first_hop t s d k"
    using p k ilink_linked [OF ov s, of k] clear_of_members [OF ov s k(1) d(1)] by (simp add: first_hop_def)
  then show ?thesis by blast
qed

lemma member_alternate_hop:
  assumes ov: "over_members t" and res: "survives_any_failure (bt_adjacency t)" and size: "2 < length (bt_adjacency t)"
    and s: "s < length (bt_routing_node_ids t)" and d: "d < length (bt_routing_node_ids t)" "d \<noteq> s" and p: "first_hop t s d p"
  shows "\<exists>q. alternate_hop t s d p q"
proof -
  let ?ids = "bt_routing_node_ids t" and ?A = "bt_adjacency t"
  have keys: "fst ` set ?A = set ?ids" and u: "undirected ?A" and irr: "\<And>x. \<not> linked ?A x x"
    using ov by (simp_all add: over_members_def)
  have pn: "p < length ?ids" and pl: "linked ?A (?ids ! s) (?ids ! p)"
    using p ilink_linked [OF ov s, of p] by (simp_all add: first_hop_def)
  have "\<exists>q. linked ?A (?ids ! s) q \<and> q \<noteq> ?ids ! p \<and> route_clear_of_both ?A (?ids ! s) (?ids ! p) q (?ids ! d)"
  proof (rule resilient_alternate [OF u res size])
    show "?ids ! s \<noteq> ?ids ! d" using over_members_nth [OF ov s d(1)] d(2) by simp
    show "?ids ! p \<noteq> ?ids ! s" using pl irr by metis
  qed (use s d pl keys in simp_all)
  then obtain q where q: "linked ?A (?ids ! s) q" "q \<noteq> ?ids ! p" "route_clear_of_both ?A (?ids ! s) (?ids ! p) q (?ids ! d)" by blast
  have "q \<in> set ?ids" using undirected_closed [OF u q(1)] keys by simp
  then obtain k where k: "k < length ?ids" "?ids ! k = q" by (metis in_set_conv_nth)
  have "alternate_hop t s d p k"
    using q k ilink_linked [OF ov s, of k] clear_of_both_members [OF ov s pn k(1) d(1)] by (auto simp: alternate_hop_def)
  then show ?thesis by blast
qed

lemma table_entry:
  assumes ov: "over_members t" and conn: "all_connected (bt_adjacency t)" and res: "survives_any_failure (bt_adjacency t)"
    and s: "s < length (bt_routing_node_ids t)" and d: "d < length (bt_routing_node_ids t)" "d \<noteq> s"
    and len: "length table = length (bt_routing_node_ids t)"
    and h: "table ! d = Some h" and p: "first_hop t s d (unat (nh_primary h))"
    and q: "case nh_secondary h of Some q \<Rightarrow> alternate_hop t s d (unat (nh_primary h)) (unat q)
        | None \<Rightarrow> \<forall>p q. first_hop t s d p \<longrightarrow> \<not> alternate_hop t s d p q"
  shows "\<exists>e. next_hop_table_get t table (bt_routing_node_ids t ! d) = Some e \<and>
    reliable_entry t (bt_routing_node_ids t ! s) (bt_routing_node_ids t ! d) e"
proof -
  let ?ids = "bt_routing_node_ids t" and ?A = "bt_adjacency t" and ?p = "unat (nh_primary h)"
  have idx: "am_get (bt_routing_node_indexes t) (?ids ! d) = Some d"
    using ov d node_indexes_get [of ?ids "?ids ! d" d] by (simp add: over_members_def)
  have pn: "?p < length ?ids" and pr: "linked ?A (?ids ! s) (?ids ! ?p)" "route_clear_of ?A (?ids ! s) (?ids ! ?p) (?ids ! d)"
    using p ilink_linked [OF ov s, of ?p] clear_of_members [OF ov s _ d(1), of ?p] by (auto simp: first_hop_def)
  show ?thesis
  proof (cases "nh_secondary h")
    case None
    have "\<not> 2 < length ?A" using member_alternate_hop [OF ov res _ s d p] q p None by auto
    moreover have "2 \<le> length ?A"
      using ov s d by (cases "length ?ids" rule: nat.exhaust) (auto simp: over_members_def)
    ultimately have "length ?A = 2" by simp
    then show ?thesis using pn pr None idx h len d by (simp add: next_hop_table_get_def reliable_entry_def)
  next
    case (Some q')
    let ?q = "unat q'"
    have a: "alternate_hop t s d ?p ?q" using q Some by simp
    then have qn: "?q < length ?ids" and "linked ?A (?ids ! s) (?ids ! ?q)" "?ids ! ?q \<noteq> ?ids ! ?p"
      using ilink_linked [OF ov s, of ?q] over_members_nth [OF ov _ pn, of ?q] by (auto simp: alternate_hop_def)
    moreover have "route_clear_of_both ?A (?ids ! s) (?ids ! ?p) (?ids ! ?q) (?ids ! d)"
      using a clear_of_both_members [OF ov s pn qn d(1)] by (simp add: alternate_hop_def)
    ultimately show ?thesis using pn pr Some idx h len d by (simp add: next_hop_table_get_def reliable_entry_def)
  qed
qed

lemma fold_insert_found:
  assumes "bm_wf m"
  shows "bm_wf (fold (\<lambda>x m. case f x of None \<Rightarrow> m | Some y \<Rightarrow> bm_insert x y m) xs m)"
    and "am_get (fold (\<lambda>x m. case f x of None \<Rightarrow> m | Some y \<Rightarrow> bm_insert x y m) xs m) d =
      (if d \<in> set xs \<and> f d \<noteq> None then f d else am_get m d)"
  using assms by (induction xs arbitrary: m) (auto simp: bm_wf_insert bm_get_insert split: option.split)

definition table_hops :: "bounded_topology \<Rightarrow> compact_next_hops option list \<Rightarrow> (node_id, node_id \<times> node_id option) amap" where
  "table_hops t compact = fold (\<lambda>destination next_hops. case next_hop_table_get t compact destination of
     None \<Rightarrow> next_hops | Some hops \<Rightarrow> bm_insert destination hops next_hops) (bt_routing_node_ids t) []"

lemma table_hops_members:
  assumes ov: "over_members t" and conn: "all_connected (bt_adjacency t)" and res: "survives_any_failure (bt_adjacency t)"
    and small: "length (bt_routing_node_ids t) < 2 ^ 32" and i: "i < length (bt_routing_node_ids t)" "bt_routing_node_ids t ! i = s"
  shows "\<exists>table. compute_next_hops_from t i = Some (Some table) \<and> bm_wf (table_hops t table) \<and>
    (\<forall>d. case am_get (table_hops t table) d of
        None \<Rightarrow> d \<notin> set (bt_routing_node_ids t) - {s}
      | Some e \<Rightarrow> d \<in> set (bt_routing_node_ids t) - {s} \<and> reliable_entry t s d e)"
proof -
  let ?ids = "bt_routing_node_ids t"
  have get: "am_get (bt_routing_node_indexes t) (?ids ! k) = Some k" if "k < length ?ids" for k
    using that ov node_indexes_get [of ?ids "?ids ! k" k] by (simp add: over_members_def)
  obtain table where table: "compute_next_hops_from t i = Some (Some table)" "length table = length ?ids" "table ! i = None"
    and entry: "\<And>d. d < length table \<Longrightarrow> d \<noteq> i \<Longrightarrow> \<exists>h. table ! d = Some h \<and> first_hop t i d (unat (nh_primary h)) \<and>
       (case nh_secondary h of Some q \<Rightarrow> alternate_hop t i d (unat (nh_primary h)) (unat q)
        | None \<Rightarrow> \<forall>p q. first_hop t i d p \<longrightarrow> \<not> alternate_hop t i d p q)"
    using compute_next_hops_correct [OF over_members_ok [OF ov small] i(1) member_first_hop [OF ov conn i(1)]] by blast
  have "bm_wf (table_hops t table)" unfolding table_hops_def by (rule fold_insert_found) (simp add: bm_wf_def)
  moreover have "case am_get (table_hops t table) d of
        None \<Rightarrow> d \<notin> set ?ids - {s}
      | Some e \<Rightarrow> d \<in> set ?ids - {s} \<and> reliable_entry t s d e" for d
  proof -
    have found: "am_get (table_hops t table) d = (if d \<in> set ?ids then next_hop_table_get t table d else None)"
      unfolding table_hops_def by (cases "next_hop_table_get t table d") (simp_all add: fold_insert_found(2) bm_wf_def)
    have self: "next_hop_table_get t table s = None"
      using get [OF i(1)] i table by (simp add: next_hop_table_get_def)
    have "\<exists>e. next_hop_table_get t table d = Some e \<and> reliable_entry t s d e" if d: "d \<in> set ?ids" "d \<noteq> s"
    proof -
      from d(1) obtain k where k: "k < length ?ids" "?ids ! k = d" by (metis in_set_conv_nth)
      with d(2) i(2) have ki: "k \<noteq> i" by blast
      from entry [of k] k(1) ki table(2) obtain h where h: "table ! k = Some h" "first_hop t i k (unat (nh_primary h))"
        "case nh_secondary h of Some q \<Rightarrow> alternate_hop t i k (unat (nh_primary h)) (unat q)
        | None \<Rightarrow> \<forall>p q. first_hop t i k p \<longrightarrow> \<not> alternate_hop t i k p q" by auto
      show ?thesis using table_entry [OF ov conn res i(1) k(1) ki table(2) h] i(2) k(2) by simp
    qed
    with found self show ?thesis by (cases "d = s") (auto split: option.split)
  qed
  ultimately show ?thesis using table(1) by blast
qed

definition next_hop_cache_ok :: "bounded_topology \<Rightarrow> next_hop_cache \<Rightarrow> bool" where
  "next_hop_cache_ok t cache \<longleftrightarrow> bm_wf cache \<and>
     (\<forall>i table. am_get cache i = Some table \<longrightarrow> compute_next_hops_from t i = Some (Some table))"

lemma cached_next_hops:
  assumes cache: "next_hop_cache_ok t cache" and others: "\<forall>c. next_hop_cache_ok t c \<longrightarrow> next_hop_cache_ok t (others c)"
    and table: "compute_next_hops_from t i = Some (Some table)"
  shows "\<exists>cache'. cached_next_hops_from t others i cache = Some (Some table, cache') \<and> next_hop_cache_ok t cache'"
proof (cases "am_get cache i")
  case (Some cached)
  then have "cached = table" using cache table by (simp add: next_hop_cache_ok_def)
  with Some cache show ?thesis by (simp add: cached_next_hops_from_def)
next
  case None
  have others: "next_hop_cache_ok t (others cache)" using others cache by blast
  show ?thesis
  proof (cases "am_get (others cache) i")
    case (Some cached)
    then have "cached = table" using others table by (simp add: next_hop_cache_ok_def)
    with Some None others table show ?thesis by (simp add: cached_next_hops_from_def Let_def)
  next
    case fresh: None
    have "next_hop_cache_ok t (bm_insert i table (others cache))"
      using others table by (auto simp: next_hop_cache_ok_def bm_wf_insert bm_get_insert)
    with fresh None table show ?thesis by (simp add: cached_next_hops_from_def Let_def)
  qed
qed

text \<open>
  C16. Every member of a synthesized topology of fewer than two to the thirty-two nodes gets a next-hop table, and a
  node that is no member gets none, from any cache that holds computed tables and whatever such tables other threads
  store meanwhile; the cache is again one that holds computed tables. The table has one entry for every other member
  and no more: its primary hop is a neighbour from which the destination is reached without coming back to the source,
  and its secondary hop is another neighbour from which the destination is reached without coming back to the source
  and without going on from the primary hop. Only a topology of two nodes has entries with no secondary hop.
\<close>

theorem next_hops_reliable:
  assumes "synthesize sha256 nodes config = Some (Inr t)" and "length nodes < 2 ^ 32"
    and "next_hop_cache_ok t cache" and "\<forall>c. next_hop_cache_ok t c \<longrightarrow> next_hop_cache_ok t (others c)"
  shows "\<exists>r cache'. next_hops_from t others s cache = Some (r, cache') \<and> next_hop_cache_ok t cache' \<and>
    (case r of
       None \<Rightarrow> s \<notin> nr_node_id ` set nodes
     | Some hops \<Rightarrow> s \<in> nr_node_id ` set nodes \<and> bm_wf hops \<and>
         (\<forall>d. case am_get hops d of
             None \<Rightarrow> d \<notin> nr_node_id ` set nodes - {s}
           | Some e \<Rightarrow> d \<in> nr_node_id ` set nodes - {s} \<and> reliable_entry t s d e))"
proof (cases "s \<in> nr_node_id ` set nodes")
  case True
  note m = synthesized_members [OF assms(1)]
  have "s \<in> set (bt_routing_node_ids t)" using True m(2) by simp
  then obtain i where i: "i < length (bt_routing_node_ids t)" "bt_routing_node_ids t ! i = s" by (metis in_set_conv_nth)
  have ix: "am_get (bt_routing_node_indexes t) s = Some i"
    using m(1) i node_indexes_get [of "bt_routing_node_ids t" s i] by (simp add: over_members_def)
  have small: "length (bt_routing_node_ids t) < 2 ^ 32" using assms(2) m(3) by simp
  from table_hops_members [OF m(1,4,5) small i] obtain table where table: "compute_next_hops_from t i = Some (Some table)"
    "bm_wf (table_hops t table)" "\<forall>d. case am_get (table_hops t table) d of None \<Rightarrow> d \<notin> nr_node_id ` set nodes - {s}
      | Some e \<Rightarrow> d \<in> nr_node_id ` set nodes - {s} \<and> reliable_entry t s d e" unfolding m(2) by blast
  from cached_next_hops [OF assms(3,4) table(1)] obtain cache' where
    c: "cached_next_hops_from t others i cache = Some (Some table, cache')" "next_hop_cache_ok t cache'" by blast
  have "next_hops_from t others s cache = Some (Some (table_hops t table), cache')"
    using ix c(1) by (simp add: next_hops_from_def next_hop_table_def table_hops_def)
  with c(2) table(2,3) True show ?thesis by simp
next
  case False
  note m = synthesized_members [OF assms(1)]
  have "am_get (bt_routing_node_indexes t) s = None"
  proof (cases "am_get (bt_routing_node_indexes t) s")
    case (Some i)
    then have "s \<in> set (bt_routing_node_ids t)"
      using m(1) node_indexes_get [of "bt_routing_node_ids t" s i] by (auto simp: over_members_def)
    with False m(2) show ?thesis by simp
  qed
  with False assms(3) show ?thesis by (simp add: next_hops_from_def next_hop_table_def)
qed

theorem next_hops_reliable_witness:
  "\<exists>t hops cache. synthesize (\<lambda>_. []) topology_members bounded_topology_config_default = Some (Inr t) \<and>
     next_hops_from t (\<lambda>c. c) [1] [] = Some (Some hops, cache) \<and> reliable_entry t [1] [3] (the (am_get hops [3]))"
proof -
  obtain t where t: "synthesize (\<lambda>_. []) topology_members bounded_topology_config_default = Some (Inr t)"
    by (rule topology_members_topology)
  have m: "[1] \<in> nr_node_id ` set topology_members" "[3] \<in> nr_node_id ` set topology_members - {[1]}"
    by (simp_all add: topology_members_def sample_node_def)
  have size: "length topology_members < 2 ^ 32" by (simp add: topology_members_def)
  have empty: "next_hop_cache_ok t []" by (simp add: next_hop_cache_ok_def bm_wf_def)
  from next_hops_reliable [OF t size empty, of "\<lambda>c. c" "[1]"] obtain r cache where r: "next_hops_from t (\<lambda>c. c) [1] [] = Some (r, cache)"
    "case r of None \<Rightarrow> [1] \<notin> nr_node_id ` set topology_members | Some hops \<Rightarrow> [1] \<in> nr_node_id ` set topology_members \<and>
       bm_wf hops \<and> (\<forall>d. case am_get hops d of None \<Rightarrow> d \<notin> nr_node_id ` set topology_members - {[1]}
         | Some e \<Rightarrow> d \<in> nr_node_id ` set topology_members - {[1]} \<and> reliable_entry t [1] d e)" by blast
  from r(2) m(1) obtain hops where hops: "r = Some hops" and all: "\<forall>d. case am_get hops d of
      None \<Rightarrow> d \<notin> nr_node_id ` set topology_members - {[1]}
    | Some e \<Rightarrow> d \<in> nr_node_id ` set topology_members - {[1]} \<and> reliable_entry t [1] d e" by (cases r) simp_all
  from spec [OF all, of "[3]"] m(2) have "reliable_entry t [1] [3] (the (am_get hops [3]))"
    by (cases "am_get hops [3]") simp_all
  with t r(1) hops show ?thesis by blast
qed

end
