(* ===== verification/TopologyFlow.thy ===== *)
theory TopologyFlow
  imports TopologyRouting
begin

text \<open>
  Unit flow in a residual graph (\<open>crates/ipars-control-plane/src/bounded_topology.rs\<close>, from
  \<open>ResidualEdge\<close> to \<open>extract_flow_path\<close>). The graph keeps the two directions of an edge at two places that
  point at each other, as in the code, and \<open>None\<close> stands for a call that does not return, because it
  diverges, panics at an index or overflows. The lemmas show that a round of augmentation returns, moves
  one unit from the source to the sink and conserves the flow elsewhere, or that no capacity is left on
  the way to the sink, and that the flow out of a set of nodes is what leaves it over its border.
\<close>

subsection \<open>Residual graphs\<close>

record residual_edge =
  re_to :: nat
  re_reverse_index :: nat
  re_capacity :: u8
  re_initial_capacity :: u8

type_synonym residual_graph = "residual_edge list list"

definition add_residual_edge :: "residual_graph \<Rightarrow> nat \<Rightarrow> nat \<Rightarrow> u8 \<Rightarrow> residual_graph option" where
  "add_residual_edge graph from to capacity =
     (if length graph \<le> to \<or> length graph \<le> from then None
      else
        let forward_reverse_index = length (graph ! to);
            reverse_reverse_index = length (graph ! from);
            graph = graph[from := graph ! from @
              [\<lparr>re_to = to, re_reverse_index = forward_reverse_index, re_capacity = capacity, re_initial_capacity = capacity\<rparr>]]
        in Some (graph[to := graph ! to @
              [\<lparr>re_to = from, re_reverse_index = reverse_reverse_index, re_capacity = 0, re_initial_capacity = 0\<rparr>]]))"

subsection \<open>The search that both loops share\<close>

text \<open>
  \<open>augment_unit_flow\<close> and \<open>extract_flow_path\<close> search in the same way and differ in the edges that are
  \<open>spent\<close>. An \<open>Inl\<close> leaves a loop, by a \<open>break\<close> with the state or by a panic.
\<close>

record flow_search =
  fs_predecessor :: "(nat \<times> nat) option list"
  fs_queue :: "nat list"

definition scan_edge ::
  "(nat \<Rightarrow> residual_edge \<Rightarrow> bool option) \<Rightarrow> nat \<Rightarrow> nat \<Rightarrow> nat \<times> residual_edge \<Rightarrow> flow_search \<Rightarrow>
     flow_search option + flow_search" where
  "scan_edge spent sink current = (\<lambda>(edge_index, edge) s.
     case spent edge_index edge of
       None \<Rightarrow> Inl None
     | Some True \<Rightarrow> Inr s
     | Some False \<Rightarrow>
         if length (fs_predecessor s) \<le> re_to edge then Inl None
         else if fs_predecessor s ! re_to edge \<noteq> None then Inr s
         else
           let s = s\<lparr>fs_predecessor := (fs_predecessor s)[re_to edge := Some (current, edge_index)]\<rparr> in
           if re_to edge = sink then Inl (Some s)
           else Inr (s\<lparr>fs_queue := fs_queue s @ [re_to edge]\<rparr>))"

definition flow_step ::
  "(nat \<Rightarrow> nat \<Rightarrow> residual_edge \<Rightarrow> bool option) \<Rightarrow> residual_graph \<Rightarrow> nat \<Rightarrow> flow_search \<Rightarrow> flow_search option + flow_search" where
  "flow_step spent graph sink s =
     (case fs_queue s of
        [] \<Rightarrow> Inr s
      | current # queue \<Rightarrow>
          if length graph \<le> current then Inl None
          else
            let scanned = for_each (scan_edge (spent current) sink current) (List.enumerate 0 (graph ! current))
                  (s\<lparr>fs_queue := queue\<rparr>);
                next = (\<lambda>s. if length (fs_predecessor s) \<le> sink then Inl None
                  else if fs_predecessor s ! sink \<noteq> None then Inl (Some s) else Inr s)
            in case scanned of
                Inl None \<Rightarrow> Inl None
              | Inl (Some s) \<Rightarrow> next s
              | Inr s \<Rightarrow> next s)"

definition flow_predecessors ::
  "(nat \<Rightarrow> nat \<Rightarrow> residual_edge \<Rightarrow> bool option) \<Rightarrow> residual_graph \<Rightarrow> nat \<Rightarrow> nat \<Rightarrow> (nat \<times> nat) option list option" where
  "flow_predecessors spent graph source sink =
     (if length graph \<le> source then None
      else case while_loop (\<lambda>s. fs_queue s \<noteq> []) (flow_step spent graph sink)
          \<lparr>fs_predecessor = (replicate (length graph) None)[source := Some (source, 2 ^ 64 - 1)], fs_queue = [source]\<rparr> of
        Some (Inl (Some s)) \<Rightarrow> Some (fs_predecessor s)
      | Some (Inr s) \<Rightarrow> Some (fs_predecessor s)
      | _ \<Rightarrow> None)"

subsection \<open>Augmenting and extracting\<close>

text \<open>A capacity below zero or above 255 is a panic of a build with overflow checks.\<close>

definition push_unit ::
  "(nat \<times> nat) option list \<Rightarrow> nat \<times> residual_graph \<Rightarrow> (bool \<times> residual_graph) option + nat \<times> residual_graph" where
  "push_unit predecessor = (\<lambda>(cursor, graph).
     if length predecessor \<le> cursor then Inl None
     else case predecessor ! cursor of
       None \<Rightarrow> Inl (Some (False, graph))
     | Some (previous, edge_index) \<Rightarrow>
         if length graph \<le> previous \<or> length (graph ! previous) \<le> edge_index then Inl None
         else
           let edge = graph ! previous ! edge_index; reverse_index = re_reverse_index edge in
           if re_capacity edge = 0 then Inl None
           else
             let graph = graph[previous := (graph ! previous)[edge_index := edge\<lparr>re_capacity := re_capacity edge - 1\<rparr>]] in
             if length graph \<le> cursor \<or> length (graph ! cursor) \<le> reverse_index then Inl None
             else
               let reverse = graph ! cursor ! reverse_index in
               case checked_add (re_capacity reverse) 1 of
                 None \<Rightarrow> Inl None
               | Some capacity \<Rightarrow>
                   Inr (previous, graph[cursor := (graph ! cursor)[reverse_index := reverse\<lparr>re_capacity := capacity\<rparr>]]))"

definition augment_unit_flow :: "residual_graph \<Rightarrow> nat \<Rightarrow> nat \<Rightarrow> (bool \<times> residual_graph) option" where
  "augment_unit_flow graph source sink =
     Option.bind (flow_predecessors (\<lambda>_ _ edge. Some (re_capacity edge = 0)) graph source sink) (\<lambda>predecessor.
       if length predecessor \<le> sink then None
       else if predecessor ! sink = None then Some (False, graph)
       else case while_loop (\<lambda>(cursor, _). cursor \<noteq> source) (push_unit predecessor) (sink, graph) of
           Some (Inl r) \<Rightarrow> r
         | Some (Inr (_, graph)) \<Rightarrow> Some (True, graph)
         | None \<Rightarrow> None)"

definition take_unit ::
  "(nat \<times> nat) option list \<Rightarrow> nat \<times> nat list \<times> u8 list list \<Rightarrow>
     (nat list option \<times> u8 list list) option + nat \<times> nat list \<times> u8 list list" where
  "take_unit predecessor = (\<lambda>(cursor, reversed, remaining_flow).
     if length predecessor \<le> cursor then Inl None
     else case predecessor ! cursor of
       None \<Rightarrow> Inl (Some (None, remaining_flow))
     | Some (previous, edge_index) \<Rightarrow>
         if length remaining_flow \<le> previous \<or> length (remaining_flow ! previous) \<le> edge_index then Inl None
         else if remaining_flow ! previous ! edge_index = 0 then Inl None
         else Inr (previous, reversed @ [previous],
           remaining_flow[previous := (remaining_flow ! previous)[edge_index := remaining_flow ! previous ! edge_index - 1]]))"

definition extract_flow_path ::
  "residual_graph \<Rightarrow> u8 list list \<Rightarrow> nat \<Rightarrow> nat \<Rightarrow> (nat list option \<times> u8 list list) option" where
  "extract_flow_path graph remaining_flow source sink =
     Option.bind (flow_predecessors (\<lambda>current edge_index _.
           if length remaining_flow \<le> current \<or> length (remaining_flow ! current) \<le> edge_index then None
           else Some (remaining_flow ! current ! edge_index = 0)) graph source sink) (\<lambda>predecessor.
       if length predecessor \<le> sink then None
       else if predecessor ! sink = None then Some (None, remaining_flow)
       else case while_loop (\<lambda>(cursor, _, _). cursor \<noteq> source) (take_unit predecessor) (sink, [sink], remaining_flow) of
           Some (Inl r) \<Rightarrow> r
         | Some (Inr (_, reversed, remaining_flow)) \<Rightarrow> Some (Some (rev reversed), remaining_flow)
         | None \<Rightarrow> None)"

subsection \<open>What the search finds\<close>

definition open_edge ::
  "(nat \<Rightarrow> nat \<Rightarrow> residual_edge \<Rightarrow> bool option) \<Rightarrow> residual_graph \<Rightarrow> nat \<Rightarrow> nat \<Rightarrow> bool" where
  "open_edge spent graph u i \<longleftrightarrow> u < length graph \<and> i < length (graph ! u) \<and> spent u i (graph ! u ! i) = Some False"

definition open_link ::
  "(nat \<Rightarrow> nat \<Rightarrow> residual_edge \<Rightarrow> bool option) \<Rightarrow> residual_graph \<Rightarrow> nat \<Rightarrow> nat \<Rightarrow> bool" where
  "open_link spent graph u z \<longleftrightarrow> (\<exists>i. open_edge spent graph u i \<and> re_to (graph ! u ! i) = z)"

definition open_ends :: "(nat \<Rightarrow> residual_edge \<Rightarrow> bool option) \<Rightarrow> (nat \<times> residual_edge) list \<Rightarrow> nat list" where
  "open_ends spent edges = map (re_to \<circ> snd) (filter (\<lambda>(i, edge). spent i edge = Some False) edges)"

definition open_neighbors ::
  "(nat \<Rightarrow> nat \<Rightarrow> residual_edge \<Rightarrow> bool option) \<Rightarrow> residual_graph \<Rightarrow> nat \<Rightarrow> nat list" where
  "open_neighbors spent graph u =
     (if u < length graph then open_ends (spent u) (List.enumerate 0 (graph ! u)) else [])"

definition flow_space :: "residual_graph \<Rightarrow> nat \<Rightarrow> nat set" where
  "flow_space graph source = insert source (\<Union>(set ` (map re_to) ` set graph))"

definition searchable :: "(nat \<Rightarrow> nat \<Rightarrow> residual_edge \<Rightarrow> bool option) \<Rightarrow> residual_graph \<Rightarrow> bool" where
  "searchable spent graph \<longleftrightarrow> (\<forall>u < length graph. \<forall>i < length (graph ! u).
     spent u i (graph ! u ! i) \<noteq> None \<and> re_to (graph ! u ! i) < length graph)"

lemma open_neighbors_set: "z \<in> set (open_neighbors spent graph u) \<longleftrightarrow> open_link spent graph u z"
  by (auto simp: open_neighbors_def open_ends_def open_link_def open_edge_def in_set_enumerate_eq image_iff)

lemma open_link_space:
  assumes "z \<in> set (open_neighbors spent graph u)"
  shows "z = source \<or> (\<exists>edges \<in> set graph. z \<in> re_to ` set edges)"
proof -
  from assms obtain i where "u < length graph" "i < length (graph ! u)" "re_to (graph ! u ! i) = z"
    by (auto simp: open_neighbors_set open_link_def open_edge_def)
  then have "z \<in> re_to ` set (graph ! u)" "graph ! u \<in> set graph" by auto
  then show ?thesis by blast
qed

interpretation flow: bfs "open_neighbors spent graph" "\<lambda>_ _. True" source "flow_space graph source"
  for spent graph source
  by unfold_locales (simp_all add: flow_space_def open_link_space)

lemma flow_edge: "flow.edge spent graph = open_link spent graph"
  by (intro ext) (simp add: flow.edge_def open_neighbors_set)

lemma flow_space_bounded:
  assumes "searchable spent graph" and "source < length graph"
  shows "flow_space graph source \<subseteq> {..<length graph}"
  using assms by (fastforce simp: flow_space_def searchable_def in_set_conv_nth)

definition found_by :: "(nat \<times> nat) option list \<Rightarrow> nat \<rightharpoonup> nat" where
  "found_by predecessor z = (if z < length predecessor then map_option fst (predecessor ! z) else None)"

definition flow_inv ::
  "(nat \<Rightarrow> nat \<Rightarrow> residual_edge \<Rightarrow> bool option) \<Rightarrow> residual_graph \<Rightarrow> nat \<Rightarrow> (nat \<times> nat) option list \<Rightarrow> (nat \<rightharpoonup> nat) \<Rightarrow> bool" where
  "flow_inv spent graph source predecessor depth \<longleftrightarrow>
     length predecessor = length graph \<and> dom (found_by predecessor) = dom depth \<and>
     flow.pred_chain spent graph depth (found_by predecessor) \<and>
     (\<forall>z u i. z \<noteq> source \<longrightarrow> z < length predecessor \<longrightarrow> predecessor ! z = Some (u, i) \<longrightarrow>
        open_edge spent graph u i \<and> re_to (graph ! u ! i) = z)"

lemma found_by_update:
  "z < length predecessor \<Longrightarrow> found_by (predecessor[z := Some (u, i)]) = (found_by predecessor)(z \<mapsto> u)"
  by (auto simp: found_by_def)

lemma scan_edge_inv:
  assumes ok: "searchable spent graph" and src: "source < length graph" and inv: "flow_inv spent graph source (fs_predecessor s) depth"
    and sink: "sink \<notin> dom depth"
    and scan: "flow.scanning spent graph source depth (fs_queue s) u (open_ends (spent u) ((i, e) # R))"
    and mem: "u < length graph" "i < length (graph ! u)" "e = graph ! u ! i"
  shows "case scan_edge (spent u) sink u (i, e) s of
      Inl r \<Rightarrow> (\<exists>s' depth'. r = Some s' \<and> flow_inv spent graph source (fs_predecessor s') depth' \<and> sink \<in> dom depth' \<and>
         flow.base spent graph source depth')
    | Inr s' \<Rightarrow> \<exists>depth'. flow_inv spent graph source (fs_predecessor s') depth' \<and> sink \<notin> dom depth' \<and>
         flow.work graph source depth' (fs_queue s') = flow.work graph source depth (fs_queue s) \<and>
         flow.scanning spent graph source depth' (fs_queue s') u (open_ends (spent u) R)"
proof (cases "spent u i e = Some False")
  case False
  moreover have "spent u i e \<noteq> None" using ok mem by (simp add: searchable_def)
  ultimately have "spent u i e = Some True" by (cases "spent u i e") auto
  with False scan inv sink show ?thesis by (auto simp: scan_edge_def open_ends_def)
next
  case True
  let ?z = "re_to e"
  have z: "?z < length graph" using ok mem by (simp add: searchable_def)
  have len: "length (fs_predecessor s) = length graph" using inv by (simp add: flow_inv_def)
  have "?z \<in> dom (found_by (fs_predecessor s)) \<longleftrightarrow> ?z \<in> dom depth" using inv by (simp add: flow_inv_def)
  then have known: "fs_predecessor s ! ?z \<noteq> None \<longleftrightarrow> ?z \<in> dom depth"
    using z len by (simp add: found_by_def domIff)
  have scan': "flow.scanning spent graph source depth (fs_queue s) u (?z # open_ends (spent u) R)"
    using scan True by (simp add: open_ends_def)
  show ?thesis
  proof (cases "?z \<in> dom depth")
    case old: True
    then show ?thesis using flow.skip [OF scan'] True known z len inv sink by (auto simp: scan_edge_def)
  next
    case False
    let ?depth = "depth(?z \<mapsto> Suc (the (depth u)))" and ?p = "(fs_predecessor s)[?z := Some (u, i)]"
    note marked = flow.mark [OF scan' TrueI False]
    have "flow.pred_chain spent graph ?depth (found_by ?p)"
      using flow.chain_mark [OF _ scan' TrueI False] inv z len by (simp add: flow_inv_def found_by_update)
    moreover have "open_edge spent graph u i" using True mem by (simp add: open_edge_def)
    ultimately have inv': "flow_inv spent graph source ?p ?depth"
      using inv z len mem by (auto simp: flow_inv_def found_by_update nth_list_update)
    show ?thesis
    proof (cases "?z = sink")
      case True
      then show ?thesis using inv' marked(1) \<open>spent u i e = Some False\<close> known False z len
        by (auto simp: scan_edge_def flow.scanning_def intro!: exI [of _ ?depth])
    next
      case other: False
      then show ?thesis using inv' marked sink \<open>spent u i e = Some False\<close> known False z len
        by (auto simp: scan_edge_def intro!: exI [of _ ?depth])
    qed
  qed
qed

definition reached :: "(nat \<Rightarrow> nat \<Rightarrow> residual_edge \<Rightarrow> bool option) \<Rightarrow> residual_graph \<Rightarrow> nat \<Rightarrow> nat \<Rightarrow> flow_search option \<Rightarrow> bool" where
  "reached spent graph source sink r \<longleftrightarrow> (\<exists>s depth. r = Some s \<and> flow_inv spent graph source (fs_predecessor s) depth \<and>
     sink \<in> dom depth \<and> flow.base spent graph source depth)"

lemma scan_all:
  assumes ok: "searchable spent graph" and src: "source < length graph" and inv: "flow_inv spent graph source (fs_predecessor s) depth"
    and sink: "sink \<notin> dom depth" and u: "u < length graph"
    and scan: "flow.scanning spent graph source depth (fs_queue s) u (open_neighbors spent graph u)"
  shows "case for_each (scan_edge (spent u) sink u) (List.enumerate 0 (graph ! u)) s of
      Inl r \<Rightarrow> reached spent graph source sink r
    | Inr s' \<Rightarrow> \<exists>depth'. flow_inv spent graph source (fs_predecessor s') depth' \<and> sink \<notin> dom depth' \<and>
         flow.work graph source depth' (fs_queue s') = flow.work graph source depth (fs_queue s) \<and>
         flow.queued spent graph source depth' (fs_queue s')"
proof -
  define P where "P R t \<longleftrightarrow> set R \<subseteq> set (List.enumerate 0 (graph ! u)) \<and>
    (\<exists>depth'. flow_inv spent graph source (fs_predecessor t) depth' \<and> sink \<notin> dom depth' \<and>
       flow.work graph source depth' (fs_queue t) = flow.work graph source depth (fs_queue s) \<and>
       flow.scanning spent graph source depth' (fs_queue t) u (open_ends (spent u) R))" for R and t :: flow_search
  have "case for_each (scan_edge (spent u) sink u) (List.enumerate 0 (graph ! u)) s of
      Inl r \<Rightarrow> reached spent graph source sink r | Inr s' \<Rightarrow> P [] s'"
  proof (rule for_each_rule)
    show "P (List.enumerate 0 (graph ! u)) s"
      using inv sink scan u unfolding P_def by (auto simp: open_neighbors_def)
    fix x R t
    assume P: "P (x # R) t"
    obtain i e where x: "x = (i, e)" by force
    from P obtain depth' where d: "flow_inv spent graph source (fs_predecessor t) depth'" "sink \<notin> dom depth'"
      "flow.work graph source depth' (fs_queue t) = flow.work graph source depth (fs_queue s)"
      "flow.scanning spent graph source depth' (fs_queue t) u (open_ends (spent u) ((i, e) # R))"
      unfolding P_def x by blast
    have mem: "i < length (graph ! u)" "e = graph ! u ! i"
      using P unfolding P_def x by (auto simp: in_set_enumerate_eq)
    show "case scan_edge (spent u) sink u x t of Inl r \<Rightarrow> reached spent graph source sink r | Inr s' \<Rightarrow> P R s'"
      using scan_edge_inv [OF ok src d(1,2,4) u mem] P d(3) unfolding x P_def reached_def
      by (cases "scan_edge (spent u) sink u (i, e) t") auto
  qed
  then show ?thesis using flow.close unfolding P_def by (fastforce simp: open_ends_def split: sum.splits)
qed

lemma flow_step_inv:
  assumes ok: "searchable spent graph" and src: "source < length graph" and inv: "flow_inv spent graph source (fs_predecessor s) depth"
    and sink: "sink \<notin> dom depth" "sink < length graph"
    and q: "flow.queued spent graph source depth (fs_queue s)" "fs_queue s \<noteq> []"
  shows "case flow_step spent graph sink s of
      Inl r \<Rightarrow> reached spent graph source sink r
    | Inr s' \<Rightarrow> \<exists>depth'. flow_inv spent graph source (fs_predecessor s') depth' \<and> sink \<notin> dom depth' \<and>
         flow.queued spent graph source depth' (fs_queue s') \<and>
         flow.work graph source depth' (fs_queue s') < flow.work graph source depth (fs_queue s)"
proof -
  from q(2) obtain u rest where s: "fs_queue s = u # rest" by (cases "fs_queue s") auto
  let ?s = "s\<lparr>fs_queue := rest\<rparr>"
  let ?f = "for_each (scan_edge (spent u) sink u) (List.enumerate 0 (graph ! u)) ?s"
  have "u \<in> flow_space graph source" using q(1) s by (auto simp: flow.queued_def flow.base_def)
  then have u: "u < length graph" using flow_space_bounded [OF ok src] by auto
  have inv': "flow_inv spent graph source (fs_predecessor ?s) depth" using inv by simp
  have scan: "flow.scanning spent graph source depth (fs_queue ?s) u (open_neighbors spent graph u)"
    using flow.take q(1) s by simp
  have known: "length p = length graph \<and> (p ! sink \<noteq> None \<longleftrightarrow> sink \<in> dom d)" if "flow_inv spent graph source p d" for p d
  proof -
    have "sink \<in> dom (found_by p) \<longleftrightarrow> sink \<in> dom d" "length p = length graph" using that by (simp_all add: flow_inv_def)
    then show ?thesis using sink(2) by (simp add: found_by_def domIff)
  qed
  have less: "flow.work graph source depth rest < flow.work graph source depth (fs_queue s)"
    using flow.work_take [of graph source depth rest u] s by simp
  show ?thesis
  proof (cases ?f)
    case (Inl r)
    with scan_all [OF ok src inv' sink(1) u scan] have r: "reached spent graph source sink r" by simp
    then obtain s' depth' where s': "r = Some s'" "flow_inv spent graph source (fs_predecessor s') depth'" "sink \<in> dom depth'"
      by (auto simp: reached_def)
    have "flow_step spent graph sink s = Inl r"
      using Inl s u s'(1,3) known [OF s'(2)] sink(2) by (simp add: flow_step_def Let_def)
    with r show ?thesis by simp
  next
    case (Inr s')
    with scan_all [OF ok src inv' sink(1) u scan] obtain depth' where s': "flow_inv spent graph source (fs_predecessor s') depth'"
      "sink \<notin> dom depth'" "flow.queued spent graph source depth' (fs_queue s')"
      "flow.work graph source depth' (fs_queue s') = flow.work graph source depth rest" by auto
    have "flow_step spent graph sink s = Inr s'"
      using Inr s u s'(2) known [OF s'(1)] sink(2) by (simp add: flow_step_def Let_def)
    with s' less show ?thesis by auto
  qed
qed

text \<open>
  The depths of the search: they fall along the predecessors, and only the source has depth zero.
\<close>

definition pred_tree ::
  "(nat \<Rightarrow> nat \<Rightarrow> residual_edge \<Rightarrow> bool option) \<Rightarrow> residual_graph \<Rightarrow> nat \<Rightarrow> (nat \<times> nat) option list \<Rightarrow> (nat \<rightharpoonup> nat) \<Rightarrow> bool" where
  "pred_tree spent graph source predecessor depth \<longleftrightarrow>
     depth source = Some 0 \<and> length predecessor = length graph \<and> dom depth \<subseteq> {..<length graph} \<and>
     (\<forall>z \<in> dom depth. z \<noteq> source \<longrightarrow> (\<exists>u i. predecessor ! z = Some (u, i) \<and> open_edge spent graph u i \<and>
        re_to (graph ! u ! i) = z \<and> u \<in> dom depth \<and> the (depth z) = Suc (the (depth u))))"

lemma flow_inv_tree:
  assumes ok: "searchable spent graph" and src: "source < length graph" and inv: "flow_inv spent graph source p depth"
    and base: "flow.base spent graph source depth"
  shows "pred_tree spent graph source p depth"
proof -
  have dom: "dom depth \<subseteq> {..<length graph}"
    using base flow_space_bounded [OF ok src] by (auto simp: flow.base_def)
  have "\<exists>u i. p ! z = Some (u, i) \<and> open_edge spent graph u i \<and>
        re_to (graph ! u ! i) = z \<and> u \<in> dom depth \<and> the (depth z) = Suc (the (depth u))"
    if z: "z \<in> dom depth" "z \<noteq> source" for z
  proof -
    from z(1) obtain n where n: "depth z = Some n" by auto
    then obtain m where m: "depth z = Some (Suc m)"
      using flow.depth_0 [OF base] z(2) by (cases n) auto
    have len: "length p = length graph" "z < length p" using inv dom z(1) by (auto simp: flow_inv_def)
    have "flow.pred_chain spent graph depth (found_by p)" using inv by (simp add: flow_inv_def)
    with m obtain y where y: "found_by p z = Some y" "depth y = Some m" unfolding flow.pred_chain_def by blast
    then obtain i where i: "p ! z = Some (y, i)" using len by (auto simp: found_by_def)
    with inv len z(2) y m show ?thesis by (auto simp: flow_inv_def)
  qed
  then show ?thesis using inv base dom by (simp add: pred_tree_def flow_inv_def flow.base_def)
qed

lemma flow_predecessors_total:
  assumes ok: "searchable spent graph" and src: "source < length graph" and sink: "sink < length graph" "source \<noteq> sink"
  shows "\<exists>p. flow_predecessors spent graph source sink = Some p \<and> length p = length graph \<and>
    (if p ! sink = None then \<not> (open_link spent graph)\<^sup>*\<^sup>* source sink
     else \<exists>depth. pred_tree spent graph source p depth \<and> sink \<in> dom depth)"
proof -
  let ?i = "\<lparr>fs_predecessor = (replicate (length graph) None)[source := Some (source, 2 ^ 64 - 1)], fs_queue = [source]\<rparr>"
  let ?loop = "while_loop (\<lambda>s. fs_queue s \<noteq> []) (flow_step spent graph sink) ?i"
  define P where "P s \<longleftrightarrow> (\<exists>depth. flow_inv spent graph source (fs_predecessor s) depth \<and> sink \<notin> dom depth \<and>
     flow.queued spent graph source depth (fs_queue s))" for s :: flow_search
  define w where "w s = card (flow_space graph source - dom (found_by (fs_predecessor s))) + length (fs_queue s)" for s :: flow_search
  have w: "w s = flow.work graph source depth (fs_queue s)" if "flow_inv spent graph source (fs_predecessor s) depth" for s depth
    using that by (simp add: w_def flow.work_def flow_inv_def)
  have "(\<exists>r. ?loop = Some (Inl r) \<and> reached spent graph source sink r) \<or> (\<exists>t. ?loop = Some (Inr t) \<and> P t \<and> \<not> fs_queue t \<noteq> [])"
  proof (rule while_loop_total [where f = w])
    have "found_by (fs_predecessor ?i) = [source \<mapsto> source]"
      using src by (auto simp: found_by_def fun_eq_iff nth_list_update)
    then have "flow_inv spent graph source (fs_predecessor ?i) [source \<mapsto> 0]"
      using src by (simp add: flow_inv_def flow.chain_start nth_list_update)
    then show "P ?i" unfolding P_def using flow.start sink(2) by (intro exI [of _ "[source \<mapsto> 0]"]) simp
    fix s
    assume "P s" and q: "fs_queue s \<noteq> []"
    then obtain depth where d: "flow_inv spent graph source (fs_predecessor s) depth" "sink \<notin> dom depth"
      "flow.queued spent graph source depth (fs_queue s)" unfolding P_def by blast
    show "case flow_step spent graph sink s of Inl r \<Rightarrow> reached spent graph source sink r | Inr s' \<Rightarrow> P s' \<and> w s' < w s"
      using flow_step_inv [OF ok src d(1,2) sink(1) d(3) q] w d(1) unfolding P_def by (fastforce split: sum.splits)
  qed
  then show ?thesis
  proof
    assume "\<exists>r. ?loop = Some (Inl r) \<and> reached spent graph source sink r"
    then obtain s depth where s: "?loop = Some (Inl (Some s))" "flow_inv spent graph source (fs_predecessor s) depth"
      "sink \<in> dom depth" "flow.base spent graph source depth" by (auto simp: reached_def)
    have "sink \<in> dom (found_by (fs_predecessor s))" using s(2,3) by (simp add: flow_inv_def)
    then have "fs_predecessor s ! sink \<noteq> None" by (auto simp: found_by_def split: if_splits)
    with s flow_inv_tree [OF ok src s(2,4)] src show ?thesis
      by (auto simp: flow_predecessors_def flow_inv_def)
  next
    assume "\<exists>t. ?loop = Some (Inr t) \<and> P t \<and> \<not> fs_queue t \<noteq> []"
    then obtain t where loop: "?loop = Some (Inr t)" and P: "P t" and empty: "fs_queue t = []" by blast
    from P obtain depth where "flow_inv spent graph source (fs_predecessor t) depth" "sink \<notin> dom depth"
      "flow.queued spent graph source depth (fs_queue t)" unfolding P_def by blast
    note t = loop this(1,2) this(3) [unfolded empty]
    have "sink \<notin> dom (found_by (fs_predecessor t))" "length (fs_predecessor t) = length graph"
      using t(2,3) by (simp_all add: flow_inv_def)
    then have "fs_predecessor t ! sink = None" using sink(1) by (cases "fs_predecessor t ! sink") (simp_all add: found_by_def domIff)
    moreover have "\<not> (open_link spent graph)\<^sup>*\<^sup>* source sink"
      using flow.reachable [OF t(4)] t(3) by (simp add: flow_edge)
    ultimately show ?thesis using t(1,2) src by (simp add: flow_predecessors_def flow_inv_def)
  qed
qed

subsection \<open>Flow in a residual graph\<close>

text \<open>
  Every edge has its counterpart at the other end, and between the two there is one unit of capacity.
\<close>

definition counterpart :: "residual_graph \<Rightarrow> nat \<Rightarrow> nat \<Rightarrow> residual_edge" where
  "counterpart G u i = G ! re_to (G ! u ! i) ! re_reverse_index (G ! u ! i)"

definition paired :: "residual_graph \<Rightarrow> bool" where
  "paired G \<longleftrightarrow> (\<forall>u < length G. \<forall>i < length (G ! u).
     re_to (G ! u ! i) < length G \<and> re_to (G ! u ! i) \<noteq> u \<and>
     re_reverse_index (G ! u ! i) < length (G ! re_to (G ! u ! i)) \<and>
     re_to (counterpart G u i) = u \<and> re_reverse_index (counterpart G u i) = i \<and>
     unat (re_initial_capacity (G ! u ! i)) + unat (re_initial_capacity (counterpart G u i)) = 1)"

definition unit_flow :: "residual_graph \<Rightarrow> bool" where
  "unit_flow G \<longleftrightarrow> paired G \<and> (\<forall>u < length G. \<forall>i < length (G ! u).
     unat (re_capacity (G ! u ! i)) + unat (re_capacity (counterpart G u i)) = 1)"

definition edge_flow :: "residual_edge \<Rightarrow> int" where
  "edge_flow e = uint (re_initial_capacity e) - uint (re_capacity e)"

definition excess :: "residual_graph \<Rightarrow> nat \<Rightarrow> int" where
  "excess G v = (\<Sum>e \<leftarrow> G ! v. edge_flow e)"

definition same_shape :: "residual_graph \<Rightarrow> residual_graph \<Rightarrow> bool" where
  "same_shape G H \<longleftrightarrow> map (map (re_capacity_update (\<lambda>_. 0))) G = map (map (re_capacity_update (\<lambda>_. 0))) H"

lemma pairedD:
  assumes "paired G" and "u < length G" and "i < length (G ! u)"
  shows "re_to (G ! u ! i) < length G" and "re_to (G ! u ! i) \<noteq> u"
    and "re_reverse_index (G ! u ! i) < length (G ! re_to (G ! u ! i))"
    and "re_to (G ! re_to (G ! u ! i) ! re_reverse_index (G ! u ! i)) = u"
    and "re_reverse_index (G ! re_to (G ! u ! i) ! re_reverse_index (G ! u ! i)) = i"
    and "unat (re_initial_capacity (G ! u ! i)) + unat (re_initial_capacity (counterpart G u i)) = 1"
  using assms by (simp_all add: paired_def counterpart_def)

lemma same_shape_nth:
  assumes "same_shape G H"
  shows "length H = length G" and "u < length G \<Longrightarrow> length (H ! u) = length (G ! u)"
    and "u < length G \<Longrightarrow> i < length (G ! u) \<Longrightarrow> re_to (H ! u ! i) = re_to (G ! u ! i)"
    and "u < length G \<Longrightarrow> i < length (G ! u) \<Longrightarrow> re_reverse_index (H ! u ! i) = re_reverse_index (G ! u ! i)"
    and "u < length G \<Longrightarrow> i < length (G ! u) \<Longrightarrow> re_initial_capacity (H ! u ! i) = re_initial_capacity (G ! u ! i)"
proof -
  have eq: "map (map (re_capacity_update (\<lambda>_. 0))) G = map (map (re_capacity_update (\<lambda>_. 0))) H"
    using assms by (simp add: same_shape_def)
  show len: "length H = length G" using arg_cong [OF eq, of length] by simp
  have row: "map (re_capacity_update (\<lambda>_. 0)) (G ! u) = map (re_capacity_update (\<lambda>_. 0)) (H ! u)" if "u < length G" for u
    using arg_cong [OF eq, of "\<lambda>xs. xs ! u"] that len by simp
  show rows: "length (H ! u) = length (G ! u)" if "u < length G" for u
    using arg_cong [OF row [OF that], of length] by simp
  have edge: "(G ! u ! i)\<lparr>re_capacity := 0\<rparr> = (H ! u ! i)\<lparr>re_capacity := 0\<rparr>" if "u < length G" "i < length (G ! u)" for u i
    using arg_cong [OF row [OF that(1)], of "\<lambda>xs. xs ! i"] that rows by simp
  show "re_to (H ! u ! i) = re_to (G ! u ! i)" if "u < length G" "i < length (G ! u)" for u i
    using arg_cong [OF edge [OF that], of re_to] by simp
  show "re_reverse_index (H ! u ! i) = re_reverse_index (G ! u ! i)" if "u < length G" "i < length (G ! u)" for u i
    using arg_cong [OF edge [OF that], of re_reverse_index] by simp
  show "re_initial_capacity (H ! u ! i) = re_initial_capacity (G ! u ! i)" if "u < length G" "i < length (G ! u)" for u i
    using arg_cong [OF edge [OF that], of re_initial_capacity] by simp
qed

lemma same_shape_trans: "same_shape G H \<Longrightarrow> same_shape H K \<Longrightarrow> same_shape G K"
  by (simp add: same_shape_def)

lemma same_shape_paired:
  assumes "same_shape G H" and "paired G"
  shows "paired H"
  unfolding paired_def counterpart_def
  using same_shape_nth [OF assms(1)] pairedD [OF assms(2)] by (simp add: counterpart_def)

text \<open>One unit moved along an edge.\<close>

definition moved :: "residual_graph \<Rightarrow> nat \<Rightarrow> nat \<Rightarrow> residual_graph" where
  "moved G u i = (let e = G ! u ! i; v = re_to e; j = re_reverse_index e in
     G[u := (G ! u)[i := e\<lparr>re_capacity := 0\<rparr>], v := (G ! v)[j := (G ! v ! j)\<lparr>re_capacity := 1\<rparr>]])"

lemma sum_list_map_update:
  fixes f :: "'a \<Rightarrow> int"
  shows "i < length xs \<Longrightarrow> (\<Sum>x \<leftarrow> xs[i := y]. f x) = (\<Sum>x \<leftarrow> xs. f x) - f (xs ! i) + f y"
  by (induction xs arbitrary: i) (auto split: nat.splits)

lemma moved_rows:
  assumes "paired G" and "u < length G" and "i < length (G ! u)"
  shows "length (moved G u i) = length G"
    and "moved G u i ! u = (G ! u)[i := (G ! u ! i)\<lparr>re_capacity := 0\<rparr>]"
    and "moved G u i ! re_to (G ! u ! i) = (G ! re_to (G ! u ! i))[re_reverse_index (G ! u ! i) := (counterpart G u i)\<lparr>re_capacity := 1\<rparr>]"
    and "v \<noteq> u \<Longrightarrow> v \<noteq> re_to (G ! u ! i) \<Longrightarrow> moved G u i ! v = G ! v"
  using assms pairedD [OF assms] by (simp_all add: moved_def counterpart_def Let_def)

lemma moved_shape:
  assumes "paired G" and "u < length G" and "i < length (G ! u)"
  shows "same_shape G (moved G u i)"
proof -
  let ?z = "re_capacity_update (\<lambda>_. 0 :: u8)"
  let ?v = "re_to (G ! u ! i)" and ?j = "re_reverse_index (G ! u ! i)"
  note p = pairedD [OF assms]
  have r1: "map ?z ((G ! u)[i := (G ! u ! i)\<lparr>re_capacity := 0\<rparr>]) = map ?z (G ! u)"
    using assms(3) by (simp add: map_update list_update_same_conv)
  have r2: "map ?z ((G ! ?v)[?j := (G ! ?v ! ?j)\<lparr>re_capacity := 1\<rparr>]) = map ?z (G ! ?v)"
    using p(3) by (simp add: map_update list_update_same_conv)
  show ?thesis unfolding same_shape_def
  proof (rule nth_equalityI)
    fix w
    assume "w < length (map (map ?z) G)"
    then show "map (map ?z) G ! w = map (map ?z) (moved G u i) ! w"
      using moved_rows [OF assms] r1 r2 assms(2) p(1)
      by (cases "w = u"; cases "w = ?v") (simp_all add: counterpart_def)
  qed (simp add: moved_rows [OF assms])
qed

lemma moved_nth:
  assumes "paired G" and "u < length G" and "i < length (G ! u)" and "v < length G" and "j < length (G ! v)"
  shows "re_capacity (moved G u i ! v ! j) =
    (if v = u \<and> j = i then 0 else if v = re_to (G ! u ! i) \<and> j = re_reverse_index (G ! u ! i) then 1 else re_capacity (G ! v ! j))"
  using moved_rows [OF assms(1-3)] pairedD(2) [OF assms(1-3)] assms(4,5)
  by (cases "v = u"; cases "v = re_to (G ! u ! i)") (auto simp: nth_list_update)

lemma moved_unit_flow:
  assumes "unit_flow G" and "u < length G" and "i < length (G ! u)"
  shows "unit_flow (moved G u i)"
proof -
  have p: "paired G" using assms(1) by (simp add: unit_flow_def)
  note s = same_shape_nth [OF moved_shape [OF p assms(2,3)]]
  have "unat (re_capacity (moved G u i ! v ! j)) + unat (re_capacity (counterpart (moved G u i) v j)) = 1"
    if v: "v < length G" "j < length (G ! v)" for v j
  proof -
    note q = pairedD [OF p v] and q' = pairedD [OF p assms(2,3)]
    have "unat (re_capacity (G ! v ! j)) + unat (re_capacity (counterpart G v j)) = 1" using assms(1) v by (simp add: unit_flow_def)
    then show ?thesis
      unfolding counterpart_def s(3,4) [OF v] moved_nth [OF p assms(2,3) v] moved_nth [OF p assms(2,3) q(1,3)]
      using q q' by (auto simp: counterpart_def)
  qed
  then show ?thesis using same_shape_paired [OF moved_shape [OF p assms(2,3)] p] s(1,2) by (simp add: unit_flow_def)
qed

lemma moved_excess:
  assumes "unit_flow G" and "u < length G" and "i < length (G ! u)" and "re_capacity (G ! u ! i) \<noteq> 0" and "v < length G"
  shows "excess (moved G u i) v = excess G v + (if v = u then 1 else 0) - (if v = re_to (G ! u ! i) then 1 else 0)"
proof -
  have p: "paired G" using assms(1) by (simp add: unit_flow_def)
  note q = pairedD [OF p assms(2,3)]
  have "unat (re_capacity (G ! u ! i)) + unat (re_capacity (counterpart G u i)) = 1" using assms by (simp add: unit_flow_def)
  moreover have "unat (re_capacity (G ! u ! i)) \<noteq> 0" using assms(4) by (simp add: unat_eq_0)
  ultimately have "unat (re_capacity (G ! u ! i)) = 1" "unat (re_capacity (counterpart G u i)) = 0" by simp_all
  then have cap: "re_capacity (G ! u ! i) = 1" "re_capacity (counterpart G u i) = 0"
    by (simp_all add: word_unat_eq_iff)
  show ?thesis
    using moved_rows [OF p assms(2,3)] q assms(3) cap
    by (cases "v = u"; cases "v = re_to (G ! u ! i)")
      (simp_all add: excess_def sum_list_map_update edge_flow_def counterpart_def)
qed

abbreviation no_capacity :: "nat \<Rightarrow> nat \<Rightarrow> residual_edge \<Rightarrow> bool option" where
  "no_capacity \<equiv> \<lambda>_ _ edge. Some (re_capacity edge = 0)"

lemma push_unit_moves:
  assumes "unit_flow G" and "length p = length G" and "z < length G" and "p ! z = Some (u, i)"
    and "u < length G" and "i < length (G ! u)" and "re_to (G ! u ! i) = z" and "re_capacity (G ! u ! i) \<noteq> 0"
  shows "push_unit p (z, G) = Inr (u, moved G u i)"
proof -
  have pa: "paired G" using assms(1) by (simp add: unit_flow_def)
  note q = pairedD [OF pa assms(5,6)]
  have "unat (re_capacity (G ! u ! i)) + unat (re_capacity (counterpart G u i)) = 1" using assms by (simp add: unit_flow_def)
  moreover have "unat (re_capacity (G ! u ! i)) \<noteq> 0" using assms(8) by (simp add: unat_eq_0)
  ultimately have "unat (re_capacity (G ! u ! i)) = 1" "unat (re_capacity (counterpart G u i)) = 0" by simp_all
  then have cap: "re_capacity (G ! u ! i) = 1" "re_capacity (G ! z ! re_reverse_index (G ! u ! i)) = 0"
    using assms(7) by (simp_all add: word_unat_eq_iff counterpart_def)
  have "checked_add (0 :: u8) 1 = Some 1" by (simp add: checked_add_def)
  then show ?thesis
    using assms(2-7) q cap by (simp add: push_unit_def moved_def Let_def)
qed

lemma pred_tree_step:
  assumes "pred_tree spent G source p depth" and "z \<in> dom depth" and "z \<noteq> source"
  obtains u i where "p ! z = Some (u, i)" and "open_edge spent G u i" and "re_to (G ! u ! i) = z"
    and "u \<in> dom depth" and "the (depth z) = Suc (the (depth u))"
  using assms unfolding pred_tree_def by blast

lemma augment_push:
  assumes flow: "unit_flow G" and tree: "pred_tree no_capacity G source p depth" and sink: "sink \<in> dom depth"
  shows "\<exists>H. while_loop (\<lambda>(cursor, _). cursor \<noteq> source) (push_unit p) (sink, G) = Some (Inr (source, H)) \<and>
    unit_flow H \<and> same_shape G H \<and>
    (\<forall>v < length G. excess H v = excess G v + (if v = source then 1 else 0) - (if v = sink then 1 else 0))"
proof -
  let ?b = "\<lambda>(cursor, _ :: residual_graph). cursor \<noteq> source"
  define P where "P = (\<lambda>(c, H). c \<in> dom depth \<and> unit_flow H \<and> same_shape G H \<and>
    (\<forall>v < length G. excess H v = excess G v + (if v = c then 1 else 0) - (if v = sink then 1 else 0)) \<and>
    (\<forall>v \<in> dom depth. the (depth v) < the (depth c) \<longrightarrow> H ! v = G ! v))"
  have "(\<exists>r. while_loop ?b (push_unit p) (sink, G) = Some (Inl r) \<and> False) \<or>
      (\<exists>t. while_loop ?b (push_unit p) (sink, G) = Some (Inr t) \<and> P t \<and> \<not> ?b t)"
  proof (rule while_loop_total [where f = "\<lambda>(c, _). the (depth c)"])
    show "P (sink, G)" using flow sink by (simp add: P_def same_shape_def)
    fix s
    assume "P s" "?b s"
    then obtain c H where s: "s = (c, H)" "c \<noteq> source" "c \<in> dom depth" "unit_flow H" "same_shape G H"
      "\<forall>v < length G. excess H v = excess G v + (if v = c then 1 else 0) - (if v = sink then 1 else 0)"
      "\<forall>v \<in> dom depth. the (depth v) < the (depth c) \<longrightarrow> H ! v = G ! v" by (auto simp: P_def)
    obtain u i where u: "p ! c = Some (u, i)" "open_edge no_capacity G u i" "re_to (G ! u ! i) = c"
      "u \<in> dom depth" "the (depth c) = Suc (the (depth u))" by (rule pred_tree_step [OF tree s(3,2)])
    have len: "length H = length G" "length p = length G" "c < length G"
      using same_shape_nth(1) [OF s(5)] tree s(3) by (auto simp: pred_tree_def)
    have row: "H ! u = G ! u" using s(7) u(4,5) by simp
    have ui: "u < length H" "i < length (H ! u)" "re_to (H ! u ! i) = c" "re_capacity (H ! u ! i) \<noteq> 0"
      using u(2,3) row len by (simp_all add: open_edge_def)
    have step: "push_unit p s = Inr (u, moved H u i)"
      unfolding s(1) by (rule push_unit_moves) (use s(4) len u(1) ui in simp_all)
    have pa: "paired H" using s(4) by (simp add: unit_flow_def)
    have ex: "excess (moved H u i) v = excess G v + (if v = u then 1 else 0) - (if v = sink then 1 else 0)" if "v < length G" for v
      using s(6) moved_excess [OF s(4) ui(1,2,4), of v] that len ui(3) pairedD(2) [OF pa ui(1,2)] by auto
    have rows: "moved H u i ! v = G ! v" if "v \<in> dom depth" "the (depth v) < the (depth u)" for v
    proof -
      have "v \<noteq> u" "v \<noteq> c" "the (depth v) < the (depth c)" using that(2) u(5) by auto
      then show ?thesis using s(7) moved_rows(4) [OF pa ui(1,2), of v] that(1) ui(3) by simp
    qed
    show "case push_unit p s of Inl r \<Rightarrow> False | Inr s' \<Rightarrow> P s' \<and> (\<lambda>(c, _). the (depth c)) s' < (\<lambda>(c, _). the (depth c)) s"
      using moved_unit_flow [OF s(4) ui(1,2)] same_shape_trans [OF s(5) moved_shape [OF pa ui(1,2)]] ex rows u(4,5)
      unfolding step by (simp add: P_def s(1))
  qed
  then show ?thesis by (auto simp: P_def)
qed

lemma searchable_capacity: "paired G \<Longrightarrow> searchable no_capacity G"
  by (simp add: searchable_def pairedD)

lemma augment_unit_flow_correct:
  assumes flow: "unit_flow G" and ends: "source < length G" "sink < length G" "source \<noteq> sink"
  shows "\<exists>b H. augment_unit_flow G source sink = Some (b, H) \<and> unit_flow H \<and> same_shape G H \<and>
    (if b then \<forall>v < length G. excess H v = excess G v + (if v = source then 1 else 0) - (if v = sink then 1 else 0)
     else \<not> (open_link no_capacity G)\<^sup>*\<^sup>* source sink)"
proof -
  have pa: "paired G" using flow by (simp add: unit_flow_def)
  from flow_predecessors_total [OF searchable_capacity [OF pa] ends] obtain p
    where p: "flow_predecessors no_capacity G source sink = Some p" "length p = length G"
      "if p ! sink = None then \<not> (open_link no_capacity G)\<^sup>*\<^sup>* source sink
       else \<exists>depth. pred_tree no_capacity G source p depth \<and> sink \<in> dom depth" by blast
  show ?thesis
  proof (cases "p ! sink = None")
    case True
    then have "augment_unit_flow G source sink = Some (False, G)" using p(1,2) ends by (simp add: augment_unit_flow_def)
    then show ?thesis using flow p(3) True
      by (intro exI [of _ False] exI [of _ G]) (simp add: same_shape_def)
  next
    case False
    with p(3) obtain depth where "pred_tree no_capacity G source p depth" "sink \<in> dom depth" by auto
    from augment_push [OF flow this] obtain H where H: "unit_flow H" "same_shape G H"
      "while_loop (\<lambda>(cursor, _). cursor \<noteq> source) (push_unit p) (sink, G) = Some (Inr (source, H))"
      "\<forall>v < length G. excess H v = excess G v + (if v = source then 1 else 0) - (if v = sink then 1 else 0)" by blast
    then have "augment_unit_flow G source sink = Some (True, H)" using p(1,2) False ends by (simp add: augment_unit_flow_def)
    then show ?thesis using H by (intro exI [of _ True] exI [of _ H]) simp
  qed
qed

subsection \<open>Cuts\<close>

text \<open>What flows within a set of nodes cancels: the excess of the set is what leaves it.\<close>

lemma cut_sum:
  fixes g :: "nat \<Rightarrow> nat \<Rightarrow> int"
  assumes pa: "paired G" and R: "R \<subseteq> {..<length G}"
    and anti: "\<And>u i. u < length G \<Longrightarrow> i < length (G ! u) \<Longrightarrow> g (re_to (G ! u ! i)) (re_reverse_index (G ! u ! i)) = - g u i"
  shows "(\<Sum>u \<in> R. \<Sum>i < length (G ! u). g u i) =
    (\<Sum>(u, i) \<in> {(u, i). u \<in> R \<and> i < length (G ! u) \<and> re_to (G ! u ! i) \<notin> R}. g u i)"
proof -
  have fin: "finite R" using R finite_subset by blast
  let ?A = "SIGMA u : R. {..<length (G ! u)}"
  let ?I = "{(u, i). u \<in> R \<and> i < length (G ! u) \<and> re_to (G ! u ! i) \<in> R}"
  let ?O = "{(u, i). u \<in> R \<and> i < length (G ! u) \<and> re_to (G ! u ! i) \<notin> R}"
  let ?\<rho> = "\<lambda>(u, i). (re_to (G ! u ! i), re_reverse_index (G ! u ! i))"
  have split: "?A = ?I \<union> ?O" "?I \<inter> ?O = {}" by auto
  have finA: "finite ?A" using fin by simp
  then have f: "finite ?I" "finite ?O" unfolding split(1) by simp_all
  have "(\<Sum>(u, i) \<in> ?I. g u i) = (\<Sum>(u, i) \<in> ?I. - g u i)"
    by (rule sum.reindex_bij_witness [of _ ?\<rho> ?\<rho>]) (use R pairedD [OF pa] anti in auto)
  also have "\<dots> = - (\<Sum>(u, i) \<in> ?I. g u i)" by (simp add: case_prod_unfold sum_negf)
  finally have zero: "(\<Sum>(u, i) \<in> ?I. g u i) = 0" by simp
  have "(\<Sum>u \<in> R. \<Sum>i < length (G ! u). g u i) = (\<Sum>(u, i) \<in> ?A. g u i)" using fin by (subst sum.Sigma) auto
  also have "\<dots> = (\<Sum>(u, i) \<in> ?I. g u i) + (\<Sum>(u, i) \<in> ?O. g u i)"
    unfolding split(1) using f split(2) by (rule sum.union_disjoint)
  finally show ?thesis using zero by simp
qed

end
