(* ===== verification/TopologyNetwork.thy ===== *)
theory TopologyNetwork
  imports TopologyFlow
begin

text \<open>
  Two paths with no inner node in common, by two rounds of unit flow through a network in which every
  inner node is split into an entry and an exit (\<open>two_internally_vertex_disjoint_paths\<close> of
  \<open>crates/ipars-control-plane/src/bounded_topology.rs\<close>). The lemmas show that the paths are walks of the
  graph from the source to the destination that share no inner node, and that a cut which lets only one unit
  through is a node whose failure parts the graph: on a graph that survives any failure the two paths
  are always found.
\<close>

subsection \<open>Two disjoint paths\<close>

abbreviation in_index :: "nat \<Rightarrow> nat" where
  "in_index index \<equiv> index * 2"

abbreviation out_index :: "nat \<Rightarrow> nat" where
  "out_index index \<equiv> index * 2 + 1"

text \<open>
  The loops that build the network. They leave with \<open>Inl (Some ())\<close> where the function returns without
  paths and with \<open>Inl None\<close> where it panics.
\<close>

definition add_split_edge :: "nat \<Rightarrow> nat \<Rightarrow> nat \<Rightarrow> residual_graph \<Rightarrow> unit option + residual_graph" where
  "add_split_edge source_index destination_index index graph =
     (if index \<noteq> source_index \<and> index \<noteq> destination_index
      then ok_or (add_residual_edge graph (in_index index) (out_index index) 1) None
      else Inr graph)"

definition add_link_edges ::
  "(node_id, nat) amap \<Rightarrow> nat \<Rightarrow> nat \<Rightarrow> node_id \<times> node_id list \<Rightarrow> residual_graph \<Rightarrow> unit option + residual_graph" where
  "add_link_edges indexes source_index destination_index = (\<lambda>(node_id, neighbors) graph.
     case am_get indexes node_id of
       None \<Rightarrow> Inl (Some ())
     | Some from_index \<Rightarrow>
         if from_index = destination_index then Inr graph
         else for_each (\<lambda>neighbor graph.
             case am_get indexes neighbor of
               None \<Rightarrow> Inl (Some ())
             | Some to_index \<Rightarrow>
                 if to_index = source_index then Inr graph
                 else ok_or (add_residual_edge graph (out_index from_index) (in_index to_index) 1) None)
           neighbors graph)"

definition flow_network :: "adjacency \<Rightarrow> (node_id, nat) amap \<Rightarrow> nat \<Rightarrow> nat \<Rightarrow> unit option + residual_graph" where
  "flow_network adjacency indexes source_index destination_index =
     and_then (for_each (add_split_edge source_index destination_index) [0..<length adjacency]
         (replicate (length adjacency * 2) []))
       (for_each (add_link_edges indexes source_index destination_index) adjacency)"

definition flow_of :: "residual_graph \<Rightarrow> u8 list list" where
  "flow_of graph = map (map (\<lambda>edge. saturating_sub (re_initial_capacity edge) (re_capacity edge))) graph"

text \<open>The nodes that a path through the network enters, in order; \<open>None\<close> at an index out of range.\<close>

definition node_path_of :: "node_id list \<Rightarrow> node_id \<Rightarrow> nat list \<Rightarrow> node_id list option" where
  "node_path_of node_ids source flow_path =
     map_option ((#) source)
       (those (map (\<lambda>(_, b). if b div 2 < length node_ids then Some (node_ids ! (b div 2)) else None)
         (filter (\<lambda>(a, b). a mod 2 = 1 \<and> b mod 2 = 0) (zip flow_path (tl flow_path)))))"

definition next_flow_path ::
  "residual_graph \<Rightarrow> node_id list \<Rightarrow> node_id \<Rightarrow> node_id \<Rightarrow> nat \<Rightarrow> nat \<Rightarrow> u8 list list \<times> node_id list list \<Rightarrow>
     unit option + u8 list list \<times> node_id list list" where
  "next_flow_path graph node_ids source destination flow_source flow_sink = (\<lambda>(remaining_flow, paths).
     case extract_flow_path graph remaining_flow flow_source flow_sink of
       None \<Rightarrow> Inl None
     | Some (None, _) \<Rightarrow> Inl (Some ())
     | Some (Some flow_path, remaining_flow) \<Rightarrow>
         (case node_path_of node_ids source flow_path of
            None \<Rightarrow> Inl None
          | Some node_path \<Rightarrow>
              if last node_path \<noteq> destination then Inl (Some ())
              else Inr (remaining_flow, paths @ [node_path])))"

definition flow_paths ::
  "residual_graph \<Rightarrow> node_id list \<Rightarrow> node_id \<Rightarrow> node_id \<Rightarrow> nat \<Rightarrow> nat \<Rightarrow> (node_id list \<times> node_id list) option option" where
  "flow_paths graph node_ids source destination flow_source flow_sink =
     (case for_each (\<lambda>_. next_flow_path graph node_ids source destination flow_source flow_sink) [0..<2] (flow_of graph, []) of
        Inl None \<Rightarrow> None
      | Inl (Some ()) \<Rightarrow> Some None
      | Inr (_, paths) \<Rightarrow>
          Some (case rev (sort_key (\<lambda>path. (length path, path)) paths) of
              secondary # primary # _ \<Rightarrow> Some (primary, secondary)
            | _ \<Rightarrow> None))"

definition two_internally_vertex_disjoint_paths ::
  "adjacency \<Rightarrow> node_id \<Rightarrow> node_id \<Rightarrow> (node_id list \<times> node_id list) option option" where
  "two_internally_vertex_disjoint_paths adjacency source destination =
     (if source = destination \<or> length adjacency < 3 then Some None
      else
        let node_ids = map fst adjacency; indexes = node_indexes node_ids in
        case (am_get indexes source, am_get indexes destination) of
          (Some source_index, Some destination_index) \<Rightarrow>
            (case flow_network adjacency indexes source_index destination_index of
               Inl None \<Rightarrow> None
             | Inl (Some ()) \<Rightarrow> Some None
             | Inr graph \<Rightarrow>
                 let flow_source = out_index source_index; flow_sink = in_index destination_index in
                 Option.bind (augment_unit_flow graph flow_source flow_sink) (\<lambda>(augmented, graph).
                   if \<not> augmented then Some None
                   else Option.bind (augment_unit_flow graph flow_source flow_sink) (\<lambda>(augmented, graph).
                     if \<not> augmented then Some None
                     else flow_paths graph node_ids source destination flow_source flow_sink)))
        | _ \<Rightarrow> Some None)"

subsection \<open>The network\<close>

text \<open>
  A network over given arcs: its edges are paired, nothing flows yet, and the edges with a capacity at a
  node are its arcs, in order.
\<close>

definition network :: "residual_graph \<Rightarrow> (nat \<times> nat) list \<Rightarrow> bool" where
  "network G as \<longleftrightarrow> paired G \<and> (\<forall>u < length G. \<forall>i < length (G ! u). re_capacity (G ! u ! i) = re_initial_capacity (G ! u ! i)) \<and>
     (\<forall>u < length G. map re_to (filter (\<lambda>e. re_initial_capacity e = 1) (G ! u)) = map snd (filter (\<lambda>a. fst a = u) as))"

definition add_arc :: "nat \<times> nat \<Rightarrow> residual_graph \<Rightarrow> unit option + residual_graph" where
  "add_arc = (\<lambda>(from, to) graph. ok_or (add_residual_edge graph from to 1) None)"

lemma network_empty: "network (replicate n []) []"
  by (simp add: network_def paired_def)

lemma network_add:
  assumes net: "network G as" and a: "from < length G" "to < length G" "from \<noteq> to"
  shows "\<exists>H. add_residual_edge G from to 1 = Some H \<and> length H = length G \<and> network H (as @ [(from, to)])"
proof -
  let ?f = "\<lparr>re_to = to, re_reverse_index = length (G ! to), re_capacity = 1, re_initial_capacity = 1\<rparr>"
  let ?r = "\<lparr>re_to = from, re_reverse_index = length (G ! from), re_capacity = 0, re_initial_capacity = 0\<rparr>"
  define H where "H = G[from := G ! from @ [?f], to := G ! to @ [?r]]"
  have add: "add_residual_edge G from to 1 = Some H"
    using a by (simp add: add_residual_edge_def H_def Let_def)
  have len: "length H = length G" by (simp add: H_def)
  have rows: "H ! from = G ! from @ [?f]" "H ! to = G ! to @ [?r]" "\<And>u. u \<noteq> from \<Longrightarrow> u \<noteq> to \<Longrightarrow> H ! u = G ! u"
    using a by (simp_all add: H_def)
  have pa: "paired G" using net by (simp add: network_def)
  have old: "H ! u ! i = G ! u ! i \<and> i < length (H ! u)" if "u < length G" "i < length (G ! u)" for u i
    using that rows by (cases "u = from"; cases "u = to") (simp_all add: nth_append)
  have split: "(u < length G \<and> i < length (G ! u)) \<or> (u = from \<and> i = length (G ! from)) \<or> (u = to \<and> i = length (G ! to))"
    if "u < length H" "i < length (H ! u)" for u i
    using that rows len by (cases "u = from"; cases "u = to") (auto simp: less_Suc_eq)
  have new: "H ! from ! length (G ! from) = ?f" "H ! to ! length (G ! to) = ?r" using rows by simp_all
  have "paired H"
    unfolding paired_def counterpart_def
  proof (intro allI impI)
    fix u i
    assume ui: "u < length H" "i < length (H ! u)"
    let ?P = "\<lambda>e r. re_to e < length H \<and> re_to e \<noteq> u \<and> re_reverse_index e < length (H ! re_to e) \<and>
      re_to r = u \<and> re_reverse_index r = i \<and> unat (re_initial_capacity e) + unat (re_initial_capacity r) = 1"
    from split [OF ui] consider "u < length G" "i < length (G ! u)" | "u = from" "i = length (G ! from)" | "u = to" "i = length (G ! to)"
      by blast
    then show "?P (H ! u ! i) (H ! re_to (H ! u ! i) ! re_reverse_index (H ! u ! i))"
    proof cases
      case 1
      note p = pairedD [OF pa 1]
      from old [OF 1] old [OF p(1,3)] p len show ?thesis by (simp add: counterpart_def)
    next
      case 2
      then show ?thesis using new rows a len by simp
    next
      case 3
      then show ?thesis using new rows a len by simp
    qed
  qed
  moreover have "re_capacity (H ! u ! i) = re_initial_capacity (H ! u ! i)" if "u < length H" "i < length (H ! u)" for u i
    using split [OF that] old [of u i] net new by (auto simp: network_def)
  moreover have "map re_to (filter (\<lambda>e. re_initial_capacity e = 1) (H ! u)) = map snd (filter (\<lambda>a. fst a = u) (as @ [(from, to)]))"
    if "u < length H" for u
    using net that rows len a by (cases "u = from"; cases "u = to") (auto simp: network_def)
  ultimately show ?thesis using add len by (auto simp: network_def)
qed

lemma network_arcs:
  assumes "network G bs" and "\<And>a b. (a, b) \<in> set as \<Longrightarrow> a < length G \<and> b < length G \<and> a \<noteq> b"
  shows "\<exists>H. for_each add_arc as G = Inr H \<and> length H = length G \<and> network H (bs @ as)"
  using assms
proof (induction as arbitrary: G bs)
  case (Cons x as)
  obtain a b where x: "x = (a, b)" by force
  from Cons.prems(2) [of a b] have ab: "a < length G" "b < length G" "a \<noteq> b" by (simp_all add: x)
  from network_add [OF Cons.prems(1) ab] obtain H where H: "add_residual_edge G a b 1 = Some H" "length H = length G"
    "network H (bs @ [(a, b)])" by blast
  from Cons.IH [OF H(3)] Cons.prems(2) H(2) obtain K where "for_each add_arc as H = Inr K" "length K = length G"
    "network K ((bs @ [(a, b)]) @ as)" by (metis list.set_intros(2))
  then show ?case using H(1) by (simp add: x add_arc_def)
qed simp

text \<open>The arcs that the two loops add.\<close>

definition split_arcs :: "nat \<Rightarrow> nat \<Rightarrow> nat list \<Rightarrow> (nat \<times> nat) list" where
  "split_arcs s d indexes = map (\<lambda>index. (in_index index, out_index index)) (filter (\<lambda>index. index \<noteq> s \<and> index \<noteq> d) indexes)"

definition link_arcs :: "(node_id \<rightharpoonup> nat) \<Rightarrow> nat \<Rightarrow> nat \<Rightarrow> node_id \<times> node_id list \<Rightarrow> (nat \<times> nat) list" where
  "link_arcs index s d = (\<lambda>(node_id, neighbors).
     if the (index node_id) = d then []
     else map (\<lambda>neighbor. (out_index (the (index node_id)), in_index (the (index neighbor))))
       (filter (\<lambda>neighbor. the (index neighbor) \<noteq> s) neighbors))"

lemma for_each_split: "for_each (add_split_edge s d) xs G = for_each add_arc (split_arcs s d xs) G"
proof (induction xs arbitrary: G)
  case (Cons x xs)
  have "add_split_edge s d x G = for_each add_arc (split_arcs s d [x]) G"
    by (simp add: add_split_edge_def split_arcs_def add_arc_def and_then_def split: sum.split)
  moreover have "split_arcs s d (x # xs) = split_arcs s d [x] @ split_arcs s d xs" by (simp add: split_arcs_def)
  moreover have "for_each (add_split_edge s d) xs = for_each add_arc (split_arcs s d xs)" by (intro ext Cons.IH)
  ultimately show ?case by (simp add: for_each_append)
qed (simp add: split_arcs_def)

lemma add_link_edges_arcs:
  assumes "am_get indexes node_id \<noteq> None" and "\<And>x. x \<in> set neighbors \<Longrightarrow> am_get indexes x \<noteq> None"
  shows "add_link_edges indexes s d (node_id, neighbors) G = for_each add_arc (link_arcs (am_get indexes) s d (node_id, neighbors)) G"
proof (cases "the (am_get indexes node_id) = d")
  case False
  obtain k where f: "am_get indexes node_id = Some k" using assms(1) by auto
  have "for_each (\<lambda>neighbor graph. case am_get indexes neighbor of None \<Rightarrow> Inl (Some ())
      | Some to \<Rightarrow> if to = s then Inr graph else ok_or (add_residual_edge graph (out_index k) (in_index to) 1) None) xs G =
    for_each add_arc (map (\<lambda>neighbor. (out_index k, in_index (the (am_get indexes neighbor))))
       (filter (\<lambda>neighbor. the (am_get indexes neighbor) \<noteq> s) xs)) G" if "set xs \<subseteq> set neighbors" for xs G
    using that
  proof (induction xs arbitrary: G)
    case (Cons x xs)
    then obtain to where t: "am_get indexes x = Some to" using assms(2) by fastforce
    have IH: "for_each (\<lambda>neighbor graph. case am_get indexes neighbor of None \<Rightarrow> Inl (Some ())
      | Some to \<Rightarrow> if to = s then Inr graph else ok_or (add_residual_edge graph (out_index k) (in_index to) 1) None) xs H =
    for_each add_arc (map (\<lambda>neighbor. (out_index k, in_index (the (am_get indexes neighbor))))
       (filter (\<lambda>neighbor. the (am_get indexes neighbor) \<noteq> s) xs)) H" for H using Cons by simp
    show ?case by (cases "to = s") (simp_all add: t IH add_arc_def and_then_def split: sum.split)
  qed simp
  from this [of neighbors G] False f show ?thesis by (simp add: add_link_edges_def link_arcs_def)
qed (use assms(1) in \<open>auto simp: add_link_edges_def link_arcs_def\<close>)

lemma for_each_links:
  assumes "\<And>x ns. (x, ns) \<in> set entries \<Longrightarrow> am_get indexes x \<noteq> None \<and> (\<forall>y \<in> set ns. am_get indexes y \<noteq> None)"
  shows "for_each (add_link_edges indexes s d) entries G = for_each add_arc (concat (map (link_arcs (am_get indexes) s d) entries)) G"
  using assms
proof (induction entries arbitrary: G)
  case (Cons e entries)
  obtain x ns where e: "e = (x, ns)" by force
  have "am_get indexes x \<noteq> None" "\<And>y. y \<in> set ns \<Longrightarrow> am_get indexes y \<noteq> None" using Cons.prems [of x ns] by (simp_all add: e)
  from add_link_edges_arcs [OF this] have step: "add_link_edges indexes s d e G = for_each add_arc (link_arcs (am_get indexes) s d e) G"
    by (simp add: e)
  have IH: "for_each (add_link_edges indexes s d) entries = for_each add_arc (concat (map (link_arcs (am_get indexes) s d) entries))"
    by (intro ext Cons.IH) (use Cons.prems in auto)
  show ?case by (simp add: step IH for_each_append)
qed simp

definition split_arc :: "nat \<Rightarrow> nat \<Rightarrow> nat \<Rightarrow> nat \<times> nat \<Rightarrow> bool" where
  "split_arc n s d a \<longleftrightarrow> (\<exists>k < n. k \<noteq> s \<and> k \<noteq> d \<and> a = (in_index k, out_index k))"

definition link_arc :: "adjacency \<Rightarrow> nat \<Rightarrow> nat \<Rightarrow> nat \<times> nat \<Rightarrow> bool" where
  "link_arc adjacency s d a \<longleftrightarrow> (\<exists>x < length adjacency. \<exists>y < length adjacency. x \<noteq> d \<and> y \<noteq> s \<and>
     linked adjacency (map fst adjacency ! x) (map fst adjacency ! y) \<and> a = (out_index x, in_index y))"

definition simple_graph :: "adjacency \<Rightarrow> bool" where
  "simple_graph adjacency \<longleftrightarrow> undirected adjacency \<and> (\<forall>x. \<not> linked adjacency x x \<and> distinct (neighbors_of adjacency x))"

lemma distinct_concat_map:
  assumes "distinct xs" and "\<And>x. x \<in> set xs \<Longrightarrow> distinct (f x)"
    and "\<And>x y. x \<in> set xs \<Longrightarrow> y \<in> set xs \<Longrightarrow> x \<noteq> y \<Longrightarrow> set (f x) \<inter> set (f y) = {}"
  shows "distinct (concat (map f xs))"
  using assms
proof (induction xs)
  case (Cons x xs)
  have "set (f x) \<inter> set (f y) = {}" if "y \<in> set xs" for y
    using Cons.prems(1) that by (intro Cons.prems(3)) auto
  moreover have "distinct (concat (map f xs))" by (rule Cons.IH) (use Cons.prems in auto)
  ultimately show ?case using Cons.prems(2) by auto
qed simp

lemma adjacency_entries:
  assumes "simple_graph adjacency" and "(x, ns) \<in> set adjacency"
  shows "am_get adjacency x = Some ns" and "neighbors_of adjacency x = ns" and "distinct ns"
    and "y \<in> set ns \<Longrightarrow> linked adjacency x y \<and> y \<in> fst ` set adjacency"
proof -
  have u: "undirected adjacency" using assms(1) by (simp add: simple_graph_def)
  then show get: "am_get adjacency x = Some ns" using assms(2) by (simp add: undirected_def bm.in_entries)
  then show n: "neighbors_of adjacency x = ns" by (simp add: neighbors_of_def)
  have "distinct (neighbors_of adjacency x)" using assms(1) by (simp add: simple_graph_def)
  then show "distinct ns" by (simp add: n)
  show "linked adjacency x y \<and> y \<in> fst ` set adjacency" if "y \<in> set ns"
    using that undirected_closed [OF u, of x y] by (simp add: linked_def n)
qed

lemma simple_graph_index:
  assumes "simple_graph adjacency"
  shows "distinct (map fst adjacency)"
    and "am_get (node_indexes (map fst adjacency)) x = Some k \<longleftrightarrow> k < length adjacency \<and> map fst adjacency ! k = x"
    and "x \<in> fst ` set adjacency \<Longrightarrow> am_get (node_indexes (map fst adjacency)) x \<noteq> None"
proof -
  show d: "distinct (map fst adjacency)" using assms by (simp add: simple_graph_def undirected_def bm_wf_def strict_sorted_iff)
  show get: "am_get (node_indexes (map fst adjacency)) x = Some k \<longleftrightarrow> k < length adjacency \<and> map fst adjacency ! k = x" for k
    using node_indexes_get [OF d] by simp
  show "am_get (node_indexes (map fst adjacency)) x \<noteq> None" if "x \<in> fst ` set adjacency"
  proof -
    have "x \<in> set (map fst adjacency)" using that by simp
    then obtain k where "k < length (map fst adjacency)" "map fst adjacency ! k = x" unfolding in_set_conv_nth by blast
    then have "am_get (node_indexes (map fst adjacency)) x = Some k" unfolding get by simp
    then show ?thesis by simp
  qed
qed

lemma link_arcs_set:
  assumes g: "simple_graph adjacency"
  shows "a \<in> set (concat (map (link_arcs (am_get (node_indexes (map fst adjacency))) s d) adjacency)) \<longleftrightarrow> link_arc adjacency s d a"
proof -
  let ?ids = "map fst adjacency" and ?ix = "\<lambda>x. the (am_get (node_indexes (map fst adjacency)) x)"
  have at: "?ix (?ids ! k) = k" if "k < length adjacency" for k
  proof -
    have "am_get (node_indexes ?ids) (?ids ! k) = Some k" unfolding simple_graph_index(2) [OF g] using that by simp
    then show ?thesis by simp
  qed
  have key: "\<exists>k < length adjacency. x = ?ids ! k" if "x \<in> fst ` set adjacency" for x
  proof -
    have "x \<in> set ?ids" using that by simp
    then show ?thesis unfolding in_set_conv_nth by auto
  qed
  have "a \<in> set (concat (map (link_arcs (am_get (node_indexes ?ids)) s d) adjacency)) \<longleftrightarrow>
      (\<exists>x ns. (x, ns) \<in> set adjacency \<and> ?ix x \<noteq> d \<and> (\<exists>y \<in> set ns. ?ix y \<noteq> s \<and> a = (out_index (?ix x), in_index (?ix y))))"
    by (fastforce simp: link_arcs_def split: if_splits)
  also have "\<dots> \<longleftrightarrow> link_arc adjacency s d a"
  proof
    assume "\<exists>x ns. (x, ns) \<in> set adjacency \<and> ?ix x \<noteq> d \<and> (\<exists>y \<in> set ns. ?ix y \<noteq> s \<and> a = (out_index (?ix x), in_index (?ix y)))"
    then obtain x ns y where x: "(x, ns) \<in> set adjacency" "?ix x \<noteq> d" "y \<in> set ns" "?ix y \<noteq> s" "a = (out_index (?ix x), in_index (?ix y))"
      by blast
    note y = adjacency_entries(4) [OF g x(1,3)]
    from key [of x] x(1) obtain k where k: "k < length adjacency" "x = ?ids ! k" by force
    from key [of y] y obtain j where j: "j < length adjacency" "y = ?ids ! j" by blast
    show "link_arc adjacency s d a" unfolding link_arc_def
      using x(2,4,5) y k j at by (intro exI [of _ k] exI [of _ j] conjI) simp_all
  next
    assume "link_arc adjacency s d a"
    then obtain k j where kj: "k < length adjacency" "j < length adjacency" "k \<noteq> d" "j \<noteq> s" "linked adjacency (?ids ! k) (?ids ! j)"
      "a = (out_index k, in_index j)" unfolding link_arc_def by blast
    have e: "(?ids ! k, snd (adjacency ! k)) \<in> set adjacency" using kj(1) by simp
    have "?ids ! j \<in> set (snd (adjacency ! k))" using kj(5) adjacency_entries(2) [OF g e] by (simp add: linked_def)
    with e kj at show "\<exists>x ns. (x, ns) \<in> set adjacency \<and> ?ix x \<noteq> d \<and> (\<exists>y \<in> set ns. ?ix y \<noteq> s \<and> a = (out_index (?ix x), in_index (?ix y)))"
      by (intro exI [of _ "?ids ! k"] exI [of _ "snd (adjacency ! k)"] conjI bexI [of _ "?ids ! j"]) simp_all
  qed
  finally show ?thesis .
qed

lemma link_arcs_distinct:
  assumes g: "simple_graph adjacency"
  shows "distinct (concat (map (link_arcs (am_get (node_indexes (map fst adjacency))) s d) adjacency))"
proof (rule distinct_concat_map)
  let ?ids = "map fst adjacency" and ?ix = "\<lambda>x. the (am_get (node_indexes (map fst adjacency)) x)"
  have inj: "x = y" if "x \<in> fst ` set adjacency" "y \<in> fst ` set adjacency" "?ix x = ?ix y" for x y
  proof -
    from simple_graph_index(3) [OF g that(1)] simple_graph_index(3) [OF g that(2)] obtain i j
      where i: "am_get (node_indexes ?ids) x = Some i" "am_get (node_indexes ?ids) y = Some j" by blast
    with that(3) have "i = j" by simp
    with i show ?thesis unfolding simple_graph_index(2) [OF g] by blast
  qed
  show "distinct adjacency" using simple_graph_index(1) [OF g] by (simp add: distinct_map)
  fix e
  assume e: "e \<in> set adjacency"
  obtain x ns where x: "e = (x, ns)" by force
  have "inj_on ?ix (set ns)" by (rule inj_onI, rule inj) (use adjacency_entries(4) [OF g e [unfolded x]] in auto)
  then have "inj_on (\<lambda>y. (out_index (?ix x), in_index (?ix y))) (set ns)" by (auto simp: inj_on_def)
  then show "distinct (link_arcs (am_get (node_indexes ?ids)) s d e)"
    using adjacency_entries(3) [OF g e [unfolded x]] by (auto simp: x link_arcs_def distinct_map intro: inj_on_subset)
  fix e'
  assume e': "e' \<in> set adjacency" "e \<noteq> e'"
  have "fst e \<noteq> fst e'"
    using e e' simple_graph_index(1) [OF g] by (metis eq_key_imp_eq_value prod.collapse)
  then have "?ix (fst e) \<noteq> ?ix (fst e')" using inj [of "fst e" "fst e'"] e e'(1) by blast
  then show "set (link_arcs (am_get (node_indexes ?ids)) s d e) \<inter> set (link_arcs (am_get (node_indexes ?ids)) s d e') = {}"
    by (auto simp: link_arcs_def split: prod.splits if_splits)
qed

lemma flow_network_correct:
  assumes g: "simple_graph adjacency"
  shows "\<exists>G as. flow_network adjacency (node_indexes (map fst adjacency)) s d = Inr G \<and> length G = length adjacency * 2 \<and>
    network G as \<and> distinct as \<and> (\<forall>a. a \<in> set as \<longleftrightarrow> split_arc (length adjacency) s d a \<or> link_arc adjacency s d a)"
proof -
  let ?n = "length adjacency" and ?ix = "am_get (node_indexes (map fst adjacency))"
  let ?sp = "split_arcs s d [0..<?n]" and ?li = "concat (map (link_arcs ?ix s d) adjacency)"
  have known: "?ix x \<noteq> None \<and> (\<forall>y \<in> set ns. ?ix y \<noteq> None)" if "(x, ns) \<in> set adjacency" for x ns
    using simple_graph_index(3) [OF g] adjacency_entries(4) [OF g that] that by (metis fst_conv image_eqI)
  have sp: "a \<in> set ?sp \<longleftrightarrow> split_arc ?n s d a" for a by (auto simp: split_arcs_def split_arc_def)
  have li: "a \<in> set ?li \<longleftrightarrow> link_arc adjacency s d a" for a by (rule link_arcs_set [OF g])
  have "flow_network adjacency (node_indexes (map fst adjacency)) s d = for_each add_arc (?sp @ ?li) (replicate (?n * 2) [])"
    unfolding flow_network_def for_each_split for_each_append
    by (rule arg_cong [where f = "and_then _"], intro ext, rule for_each_links, rule known)
  moreover have "\<exists>H. for_each add_arc (?sp @ ?li) (replicate (?n * 2) []) = Inr H \<and> length H = length (replicate (?n * 2) ([] :: residual_edge list)) \<and>
      network H ([] @ (?sp @ ?li))"
  proof (rule network_arcs [OF network_empty])
    fix a b
    assume "(a, b) \<in> set (?sp @ ?li)"
    then have "split_arc ?n s d (a, b) \<or> link_arc adjacency s d (a, b)" using sp [of "(a, b)"] li [of "(a, b)"] by auto
    then show "a < length (replicate (?n * 2) ([] :: residual_edge list)) \<and> b < length (replicate (?n * 2) ([] :: residual_edge list)) \<and> a \<noteq> b"
      by (auto simp: split_arc_def link_arc_def) presburger+
  qed
  moreover have "distinct (?sp @ ?li)"
  proof -
    have "distinct ?sp" by (auto simp: split_arcs_def distinct_map inj_on_def)
    moreover have "\<not> (split_arc ?n s d a \<and> link_arc adjacency s d a)" for a
      by (auto simp: split_arc_def link_arc_def) presburger
    then have "set ?sp \<inter> set ?li = {}" unfolding disjoint_iff sp li by blast
    ultimately show ?thesis using link_arcs_distinct [OF g] by simp
  qed
  moreover have "a \<in> set (?sp @ ?li) \<longleftrightarrow> split_arc ?n s d a \<or> link_arc adjacency s d a" for a
    unfolding set_append Un_iff sp li ..
  ultimately show ?thesis by (metis (no_types) append_Nil length_replicate)
qed

subsection \<open>Arcs of a network with flow\<close>

definition has_arcs :: "residual_graph \<Rightarrow> (nat \<times> nat) list \<Rightarrow> bool" where
  "has_arcs G as \<longleftrightarrow> (\<forall>u < length G. map re_to (filter (\<lambda>e. re_initial_capacity e = 1) (G ! u)) = map snd (filter (\<lambda>a. fst a = u) as))"

lemma same_shape_arcs:
  assumes "same_shape G H" and "has_arcs G as"
  shows "has_arcs H as"
  unfolding has_arcs_def
proof (intro allI impI)
  fix u
  assume u: "u < length H"
  let ?z = "re_capacity_update (\<lambda>_. 0 :: u8)"
  have arcs: "map re_to (filter (\<lambda>e. re_initial_capacity e = 1) (map ?z xs)) = map re_to (filter (\<lambda>e. re_initial_capacity e = 1) xs)" for xs
    by (simp add: filter_map comp_def)
  have "map ?z (G ! u) = map ?z (H ! u)"
    using assms(1) u same_shape_nth(1) [OF assms(1)] nth_map [of u G "map ?z"] nth_map [of u H "map ?z"] by (simp add: same_shape_def)
  then have "map re_to (filter (\<lambda>e. re_initial_capacity e = 1) (H ! u)) = map re_to (filter (\<lambda>e. re_initial_capacity e = 1) (G ! u))"
    by (metis arcs)
  then show "map re_to (filter (\<lambda>e. re_initial_capacity e = 1) (H ! u)) = map snd (filter (\<lambda>a. fst a = u) as)"
    using assms u same_shape_nth(1) [OF assms(1)] by (simp add: has_arcs_def)
qed

lemma filter_index_unique:
  assumes "distinct (map f (filter P xs))" and "i < length xs" and "j < length xs" and "P (xs ! i)" and "P (xs ! j)" and "f (xs ! i) = f (xs ! j)"
  shows "i = j"
  using assms
proof (induction xs arbitrary: i j)
  case (Cons x xs)
  have "f (xs ! k) \<noteq> f x" if "k < length xs" "P (xs ! k)" "P x" for k
  proof -
    have "f x \<notin> f ` {y \<in> set xs. P y}" using Cons.prems(1) that(3) by simp
    moreover have "f (xs ! k) \<in> f ` {y \<in> set xs. P y}" using that(1,2) by simp
    ultimately show ?thesis by metis
  qed
  note head = this
  have "distinct (map f (filter P xs))" using Cons.prems(1) by (simp split: if_splits)
  note IH = Cons.IH [OF this]
  show ?case using Cons.prems(2-) head IH by (cases i; cases j) fastforce+
qed simp

lemma arc_edges:
  assumes "has_arcs G as" and u: "u < length G"
  shows "i < length (G ! u) \<Longrightarrow> re_initial_capacity (G ! u ! i) = 1 \<Longrightarrow> (u, re_to (G ! u ! i)) \<in> set as"
    and "(u, v) \<in> set as \<Longrightarrow> \<exists>i < length (G ! u). re_initial_capacity (G ! u ! i) = 1 \<and> re_to (G ! u ! i) = v"
    and "distinct as \<Longrightarrow> i < length (G ! u) \<Longrightarrow> j < length (G ! u) \<Longrightarrow> re_initial_capacity (G ! u ! i) = 1 \<Longrightarrow>
      re_initial_capacity (G ! u ! j) = 1 \<Longrightarrow> re_to (G ! u ! i) = re_to (G ! u ! j) \<Longrightarrow> i = j"
proof -
  have row: "map re_to (filter (\<lambda>e. re_initial_capacity e = 1) (G ! u)) = map snd (filter (\<lambda>a. fst a = u) as)"
    using assms by (simp add: has_arcs_def)
  have "re_to ` {e \<in> set (G ! u). re_initial_capacity e = 1} = snd ` {a \<in> set as. fst a = u}"
    using arg_cong [OF row, of set] by simp
  then have mem: "v \<in> re_to ` {e \<in> set (G ! u). re_initial_capacity e = 1} \<longleftrightarrow> (u, v) \<in> set as" for v by force
  show "(u, re_to (G ! u ! i)) \<in> set as" if "i < length (G ! u)" "re_initial_capacity (G ! u ! i) = 1"
    using that mem [of "re_to (G ! u ! i)"] by auto
  show "\<exists>i < length (G ! u). re_initial_capacity (G ! u ! i) = 1 \<and> re_to (G ! u ! i) = v" if "(u, v) \<in> set as"
    using that mem [of v] by (auto simp: in_set_conv_nth)
  show "i = j" if "distinct as" and ij: "i < length (G ! u)" "j < length (G ! u)" "re_initial_capacity (G ! u ! i) = 1"
    "re_initial_capacity (G ! u ! j) = 1" "re_to (G ! u ! i) = re_to (G ! u ! j)"
  proof (rule filter_index_unique [where P = "\<lambda>e. re_initial_capacity e = 1" and f = re_to])
    have "inj_on snd (set (filter (\<lambda>a. fst a = u) as))" by (auto simp: inj_on_def)
    then show "distinct (map re_to (filter (\<lambda>e. re_initial_capacity e = 1) (G ! u)))"
      unfolding row using that(1) by (simp add: distinct_map)
  qed (use ij in simp_all)
qed

subsection \<open>The capacity of a cut\<close>

definition flow_value :: "residual_graph \<Rightarrow> nat \<Rightarrow> nat \<Rightarrow> int \<Rightarrow> bool" where
  "flow_value G source sink k \<longleftrightarrow>
     (\<forall>v < length G. excess G v = (if v = source then k else 0) - (if v = sink then k else 0))"

lemma excess_sum: "excess G v = (\<Sum>i < length (G ! v). edge_flow (G ! v ! i))"
  unfolding excess_def by (simp add: sum_list_sum_nth atLeast0LessThan)

lemma sum_source:
  fixes k :: int
  assumes "finite R" and "source \<in> R" and "sink \<notin> R"
  shows "(\<Sum>v \<in> R. (if v = source then k else 0) - (if v = sink then k else 0)) = k"
proof -
  have "(\<Sum>v \<in> R. (if v = source then k else 0) - (if v = sink then k else 0)) = (\<Sum>v \<in> R. if v = source then k else 0)"
    using assms(3) by (intro sum.cong) auto
  then show ?thesis using assms by simp
qed

lemma cut_capacity:
  assumes flow: "unit_flow G" and arcs: "has_arcs G as" "distinct as" and val: "flow_value G source sink k"
    and R: "R \<subseteq> {..<length G}" "source \<in> R" "sink \<notin> R"
    and closed: "\<And>u z. u \<in> R \<Longrightarrow> open_link no_capacity G u z \<Longrightarrow> z \<in> R"
  shows "k = int (card {a \<in> set as. fst a \<in> R \<and> snd a \<notin> R})"
proof -
  have pa: "paired G" using flow by (simp add: unit_flow_def)
  let ?O = "{(u, i). u \<in> R \<and> i < length (G ! u) \<and> re_to (G ! u ! i) \<notin> R}"
  let ?A = "{(u, i). u \<in> R \<and> i < length (G ! u) \<and> re_to (G ! u ! i) \<notin> R \<and> re_initial_capacity (G ! u ! i) = 1}"
  have fin: "finite R" using R(1) finite_subset by blast
  have "?O \<subseteq> (SIGMA u : R. {..<length (G ! u)})" by auto
  then have finO: "finite ?O" by (rule finite_subset) (use fin in simp)
  have one: "re_initial_capacity (G ! u ! i) = 0 \<or> re_initial_capacity (G ! u ! i) = 1" if "u < length G" "i < length (G ! u)" for u i
  proof -
    from pairedD(6) [OF pa that] have "unat (re_initial_capacity (G ! u ! i)) = 0 \<or> unat (re_initial_capacity (G ! u ! i)) = 1" by linarith
    then show ?thesis by (auto simp: word_unat_eq_iff)
  qed
  have anti: "edge_flow (G ! re_to (G ! u ! i) ! re_reverse_index (G ! u ! i)) = - edge_flow (G ! u ! i)"
    if "u < length G" "i < length (G ! u)" for u i
  proof -
    have "unat (re_capacity (G ! u ! i)) + unat (re_capacity (counterpart G u i)) =
        unat (re_initial_capacity (G ! u ! i)) + unat (re_initial_capacity (counterpart G u i))"
      using flow that pairedD(6) [OF pa that] by (simp add: unit_flow_def)
    from arg_cong [OF this, of int] show ?thesis by (simp add: edge_flow_def counterpart_def)
  qed
  have "k = (\<Sum>v \<in> R. (if v = source then k else 0) - (if v = sink then k else 0))" using sum_source [OF fin R(2,3)] by simp
  also have "\<dots> = (\<Sum>v \<in> R. \<Sum>i < length (G ! v). edge_flow (G ! v ! i))"
    using val R(1) by (intro sum.cong) (auto simp: flow_value_def excess_sum [symmetric])
  also have "\<dots> = (\<Sum>(u, i) \<in> ?O. edge_flow (G ! u ! i))" by (rule cut_sum [OF pa R(1), where g = "\<lambda>u i. edge_flow (G ! u ! i)", OF anti])
  also have "\<dots> = (\<Sum>(u, i) \<in> ?O. if re_initial_capacity (G ! u ! i) = 1 then 1 else 0)"
  proof (rule sum.cong [OF refl], clarify)
    fix u i
    assume u: "u \<in> R" "i < length (G ! u)" "re_to (G ! u ! i) \<notin> R"
    then have "u < length G" using R(1) by auto
    with u closed [of u "re_to (G ! u ! i)"] have "re_capacity (G ! u ! i) = 0" by (auto simp: open_link_def open_edge_def)
    with one [OF \<open>u < length G\<close> u(2)] show "edge_flow (G ! u ! i) = (if re_initial_capacity (G ! u ! i) = 1 then 1 else 0)"
      by (auto simp: edge_flow_def)
  qed
  also have "\<dots> = (\<Sum>(u, i) \<in> ?A. 1)"
    by (rule sum.mono_neutral_cong_right) (use finO in \<open>auto split: if_splits\<close>)
  also have "\<dots> = int (card ?A)" by (simp add: case_prod_unfold)
  also have "card ?A = card {a \<in> set as. fst a \<in> R \<and> snd a \<notin> R}"
  proof (rule bij_betw_same_card [of "\<lambda>(u, i). (u, re_to (G ! u ! i))"])
    have len: "u < length G" if "u \<in> R" for u using that R(1) by auto
    show "bij_betw (\<lambda>(u, i). (u, re_to (G ! u ! i))) ?A {a \<in> set as. fst a \<in> R \<and> snd a \<notin> R}"
    proof (rule bij_betwI')
      fix x y
      assume "x \<in> ?A" "y \<in> ?A"
      then show "(case x of (u, i) \<Rightarrow> (u, re_to (G ! u ! i))) = (case y of (u, i) \<Rightarrow> (u, re_to (G ! u ! i))) \<longleftrightarrow> x = y"
        using arc_edges(3) [OF arcs(1) len arcs(2)] by auto
    next
      fix x
      assume "x \<in> ?A"
      then show "(case x of (u, i) \<Rightarrow> (u, re_to (G ! u ! i))) \<in> {a \<in> set as. fst a \<in> R \<and> snd a \<notin> R}"
        using arc_edges(1) [OF arcs(1) len] by auto
    next
      fix a
      assume "a \<in> {a \<in> set as. fst a \<in> R \<and> snd a \<notin> R}"
      then show "\<exists>x \<in> ?A. a = (case x of (u, i) \<Rightarrow> (u, re_to (G ! u ! i)))"
        using arc_edges(2) [OF arcs(1) len, of "fst a" "snd a"] by (cases a) auto
    qed
  qed
  finally show ?thesis .
qed

text \<open>No single arc lies on every way from the source to the destination.\<close>

definition off_arc :: "adjacency \<Rightarrow> nat \<times> nat \<Rightarrow> node_id \<Rightarrow> node_id \<Rightarrow> bool" where
  "off_arc adjacency a x y \<longleftrightarrow> (\<forall>k < length adjacency. \<forall>j < length adjacency.
     map fst adjacency ! k = x \<longrightarrow> map fst adjacency ! j = y \<longrightarrow> a \<noteq> (in_index k, out_index k) \<and> a \<noteq> (out_index k, in_index j))"

definition way_off :: "adjacency \<Rightarrow> node_id \<Rightarrow> node_id \<Rightarrow> nat \<times> nat \<Rightarrow> node_id \<Rightarrow> bool" where
  "way_off adjacency source destination a q \<longleftrightarrow> linked adjacency source q \<and>
     (\<lambda>x y. linked adjacency x y \<and> y \<noteq> source \<and> x \<noteq> destination \<and> off_arc adjacency a x y)\<^sup>*\<^sup>* q destination"

lemma way_off_node:
  assumes g: "simple_graph adjacency" and r: "survives_any_failure adjacency"
    and s: "s \<in> fst ` set adjacency" and d: "d \<in> fst ` set adjacency" "s \<noteq> d"
    and v: "v \<in> fst ` set adjacency" "v \<noteq> s" "v \<noteq> d"
    and off: "\<And>x y. x \<noteq> v \<Longrightarrow> y \<noteq> v \<Longrightarrow> x \<noteq> s \<Longrightarrow> y \<noteq> s \<Longrightarrow> off_arc adjacency a x y"
  shows "\<exists>q. q \<noteq> v \<and> way_off adjacency s d a q"
proof -
  have u: "undirected adjacency" and irr: "\<And>x. \<not> linked adjacency x x" using g by (simp_all add: simple_graph_def)
  have "(\<lambda>x y. linked adjacency x y \<and> (x \<noteq> v \<and> y \<noteq> v))\<^sup>*\<^sup>* s d"
    using survives_route [OF u r v(1) s d(1)] v(2,3) by auto
  from leave_source [OF this d(2)] obtain q where q: "linked adjacency s q" "q \<noteq> v" "q \<noteq> s"
    "(\<lambda>x y. linked adjacency x y \<and> (x \<noteq> v \<and> y \<noteq> v) \<and> y \<noteq> s)\<^sup>*\<^sup>* q d" by blast
  have "(\<lambda>x y. (linked adjacency x y \<and> (x \<noteq> v \<and> y \<noteq> v) \<and> y \<noteq> s) \<and> x \<noteq> s)\<^sup>*\<^sup>* q d"
    using q(4,3)
  proof (induction rule: converse_rtranclp_induct)
    case (step x y)
    have rest: "(\<lambda>x y. (linked adjacency x y \<and> (x \<noteq> v \<and> y \<noteq> v) \<and> y \<noteq> s) \<and> x \<noteq> s)\<^sup>*\<^sup>* y d"
      using step.IH step.hyps(1) by blast
    show ?case by (rule converse_rtranclp_into_rtranclp [OF _ rest]) (use step.hyps(1) step.prems in blast)
  qed simp
  from stop_at_target [OF this] have "way_off adjacency s d a q"
    unfolding way_off_def using q(1) off by (auto elim!: rtranclp_mono [THEN predicate2D, rotated])
  with q(2) show ?thesis by blast
qed

lemma way_off_edge:
  assumes g: "simple_graph adjacency" and r: "survives_any_failure adjacency" and size: "2 < length adjacency"
    and s: "s \<in> fst ` set adjacency" and d: "d \<in> fst ` set adjacency" "s \<noteq> d"
    and off: "\<And>x y. x \<noteq> s \<Longrightarrow> y \<noteq> s \<Longrightarrow> off_arc adjacency a x y"
  shows "\<exists>q. q \<noteq> d \<and> way_off adjacency s d a q"
proof -
  let ?K = "fst ` set adjacency"
  have u: "undirected adjacency" using g by (simp add: simple_graph_def)
  have "card ?K = length adjacency" using length_keys [of adjacency] u by (simp add: undirected_def)
  then have "\<not> ?K \<subseteq> {s, d}" using size card_mono [of "{s, d}" ?K] by (auto simp: card_insert_if split: if_splits)
  then obtain c where c: "c \<in> ?K" "c \<noteq> s" "c \<noteq> d" by blast
  have "(\<lambda>x y. linked adjacency x y \<and> (x \<noteq> d \<and> y \<noteq> d))\<^sup>*\<^sup>* s c"
    using survives_route [OF u r d(1) s c(1)] c(3) d(2) by simp
  from leave_source [OF this] c(2) obtain q where q: "linked adjacency s q" "q \<noteq> d" "q \<noteq> s" by blast
  have "(\<lambda>x y. linked adjacency x y \<and> x \<noteq> s \<and> y \<noteq> s)\<^sup>*\<^sup>* q d"
    using survives_route [OF u r s undirected_closed [OF u q(1)] d(1)] q(3) d(2) by simp
  from stop_at_target [OF this] have "way_off adjacency s d a q"
    unfolding way_off_def using q(1) off by (auto elim!: rtranclp_mono [THEN predicate2D, rotated])
  with q(2) show ?thesis by blast
qed

text \<open>A way around an arc leads out of a set of entries and exits that only this arc leaves.\<close>

lemma way_off_stays:
  assumes g: "simple_graph adjacency" and s: "s < length adjacency" and d: "d < length adjacency"
    and arcs: "\<And>a. a \<in> set as \<longleftrightarrow> split_arc (length adjacency) s d a \<or> link_arc adjacency s d a"
    and leave: "\<And>b. b \<in> set as \<Longrightarrow> fst b \<in> R \<Longrightarrow> snd b \<notin> R \<Longrightarrow> b = a"
    and R: "out_index s \<in> R" and sd: "s \<noteq> d"
    and way: "way_off adjacency (map fst adjacency ! s) (map fst adjacency ! d) a q"
    and first: "\<And>j. j < length adjacency \<Longrightarrow> map fst adjacency ! j = q \<Longrightarrow> a \<noteq> (out_index s, in_index j)"
  shows "in_index d \<in> R"
proof -
  let ?ids = "map fst adjacency" and ?n = "length adjacency"
  have u: "undirected adjacency" and irr: "\<And>x. \<not> linked adjacency x x" using g by (simp_all add: simple_graph_def)
  have key: "\<exists>k < ?n. ?ids ! k = y" if "linked adjacency x y" for x y
  proof -
    have "y \<in> set ?ids" using undirected_closed [OF u that] by simp
    then show ?thesis unfolding in_set_conv_nth by simp
  qed
  have eq: "?ids ! i = ?ids ! j \<longleftrightarrow> i = j" if "i < ?n" "j < ?n" for i j
    using that nth_eq_iff_index_eq [OF simple_graph_index(1) [OF g]] by simp
  have link: "in_index j \<in> R" if "out_index k \<in> R" "k < ?n" "j < ?n" "k \<noteq> d" "j \<noteq> s" "linked adjacency (?ids ! k) (?ids ! j)"
    "a \<noteq> (out_index k, in_index j)" for k j
  proof -
    have "link_arc adjacency s d (out_index k, in_index j)" unfolding link_arc_def using that by blast
    then have "(out_index k, in_index j) \<in> set as" using arcs by blast
    from leave [OF this] that(1,7) show ?thesis by auto
  qed
  from way have q: "linked adjacency (?ids ! s) q" and route:
    "(\<lambda>x y. linked adjacency x y \<and> y \<noteq> ?ids ! s \<and> x \<noteq> ?ids ! d \<and> off_arc adjacency a x y)\<^sup>*\<^sup>* q (?ids ! d)" by (simp_all add: way_off_def)
  from route have "\<exists>k < ?n. k \<noteq> s \<and> ?ids ! k = ?ids ! d \<and> in_index k \<in> R"
  proof (induction rule: rtranclp_induct)
    case base
    from key [OF q] obtain j where j: "j < ?n" "?ids ! j = q" by blast
    have "j \<noteq> s" using q irr j(2) by metis
    with link [OF R s j(1) sd] q j first show ?case by blast
  next
    case (step y z)
    then obtain k where k: "k < ?n" "k \<noteq> s" "?ids ! k = y" "in_index k \<in> R" by blast
    from step.hyps(2) have yz: "linked adjacency y z" "z \<noteq> ?ids ! s" "y \<noteq> ?ids ! d" "off_arc adjacency a y z" by blast+
    from key [OF yz(1)] obtain j where j: "j < ?n" "?ids ! j = z" by blast
    have off: "a \<noteq> (in_index k, out_index k)" "a \<noteq> (out_index k, in_index j)" using yz(4) k j by (auto simp: off_arc_def)
    have kd: "k \<noteq> d" and js: "j \<noteq> s" using yz(2,3) k(3) j(2) by auto
    have "split_arc ?n s d (in_index k, out_index k)" unfolding split_arc_def using k kd by blast
    then have "(in_index k, out_index k) \<in> set as" using arcs by blast
    from leave [OF this] k(4) off(1) have "out_index k \<in> R" by auto
    from link [OF this k(1) j(1) kd js] yz(1) k(3) j(2) off(2) have "in_index j \<in> R" by simp
    with j js show ?case by blast
  qed
  then show ?thesis using eq d by blast
qed

lemma in_out [simp]: "k * 2 \<noteq> Suc (j * 2)" "Suc (j * 2) \<noteq> k * 2" "k * 2 \<noteq> Suc 0" "Suc 0 \<noteq> k * 2"
  by presburger+

lemma arc_avoidable:
  assumes g: "simple_graph adjacency" and r: "survives_any_failure adjacency" and size: "2 < length adjacency"
    and s: "s < length adjacency" and d: "d < length adjacency" "s \<noteq> d"
    and a: "split_arc (length adjacency) s d a \<or> link_arc adjacency s d a \<or> a = (1, 1)"
  shows "\<exists>q. way_off adjacency (map fst adjacency ! s) (map fst adjacency ! d) a q \<and>
    (\<forall>j < length adjacency. map fst adjacency ! j = q \<longrightarrow> a \<noteq> (out_index s, in_index j))"
proof -
  let ?ids = "map fst adjacency" and ?n = "length adjacency"
  have eq: "?ids ! i = ?ids ! j \<longleftrightarrow> i = j" if "i < ?n" "j < ?n" for i j
    using that nth_eq_iff_index_eq [OF simple_graph_index(1) [OF g]] by simp
  have key: "?ids ! k \<in> fst ` set adjacency" if "k < ?n" for k using that by simp
  note node = way_off_node [OF g r key [OF s] key [OF d(1)]]
  note edge = way_off_edge [OF g r size key [OF s] key [OF d(1)]]
  have sd: "?ids ! s \<noteq> ?ids ! d" using eq [OF s d(1)] d(2) by simp
  from a consider (inner) v where "v < ?n" "v \<noteq> s" "v \<noteq> d" "a = (in_index v, out_index v)"
    | (before) x y where "x < ?n" "x \<noteq> s" "x \<noteq> d" "a = (out_index x, in_index y)"
    | (after) y where "y < ?n" "y \<noteq> s" "y \<noteq> d" "a = (out_index s, in_index y)"
    | (direct) "a = (out_index s, in_index d)" | (none) "a = (1, 1)"
    unfolding split_arc_def link_arc_def by blast
  then show ?thesis
  proof cases
    case inner
    have "off_arc adjacency a x y" if "x \<noteq> ?ids ! v" for x y
      unfolding off_arc_def using that inner(4) by auto
    from node [OF sd key [OF inner(1)] _ _ this] inner eq s d(1) obtain q where "way_off adjacency (?ids ! s) (?ids ! d) a q" by auto
    moreover have "a \<noteq> (out_index s, in_index j)" for j using inner(4) by auto
    ultimately show ?thesis by blast
  next
    case before
    have "off_arc adjacency a x' y'" if "x' \<noteq> ?ids ! x" for x' y'
      unfolding off_arc_def using that before(4) by auto
    from node [OF sd key [OF before(1)] _ _ this] before eq s d(1) obtain q where "way_off adjacency (?ids ! s) (?ids ! d) a q" by auto
    moreover have "a \<noteq> (out_index s, in_index j)" for j using before by auto
    ultimately show ?thesis by blast
  next
    case after
    have "off_arc adjacency a x' y'" if "y' \<noteq> ?ids ! y" for x' y'
      unfolding off_arc_def using that after(4) by auto
    from node [OF sd key [OF after(1)] _ _ this] after eq s d(1) obtain q where "q \<noteq> ?ids ! y" "way_off adjacency (?ids ! s) (?ids ! d) a q" by auto
    then show ?thesis using after(4) by auto
  next
    case direct
    have "off_arc adjacency a x' y'" if "x' \<noteq> ?ids ! s" for x' y'
      unfolding off_arc_def using that direct by auto
    from edge [OF sd this] obtain q where "q \<noteq> ?ids ! d" "way_off adjacency (?ids ! s) (?ids ! d) a q" by auto
    then show ?thesis using direct by auto
  next
    case none
    have "off_arc adjacency a x' y'" for x' y' unfolding off_arc_def none by auto
    from edge [OF sd this] obtain q where "way_off adjacency (?ids ! s) (?ids ! d) a q" by auto
    moreover have "a \<noteq> (out_index s, in_index j)" for j unfolding none by auto
    ultimately show ?thesis by blast
  qed
qed

lemma cut_wide:
  assumes g: "simple_graph adjacency" and r: "survives_any_failure adjacency" and size: "2 < length adjacency"
    and s: "s < length adjacency" and d: "d < length adjacency" "s \<noteq> d"
    and arcs: "\<And>a. a \<in> set as \<longleftrightarrow> split_arc (length adjacency) s d a \<or> link_arc adjacency s d a"
    and R: "out_index s \<in> R" "in_index d \<notin> R"
  shows "2 \<le> card {a \<in> set as. fst a \<in> R \<and> snd a \<notin> R}"
proof (rule ccontr)
  let ?L = "{a \<in> set as. fst a \<in> R \<and> snd a \<notin> R}"
  assume "\<not> 2 \<le> card ?L"
  then have "card ?L = 0 \<or> card ?L = 1" by linarith
  then obtain a where a: "?L \<subseteq> {a}" "split_arc (length adjacency) s d a \<or> link_arc adjacency s d a \<or> a = (1, 1)"
  proof
    assume "card ?L = 0"
    moreover have "finite ?L" by simp
    ultimately have "?L \<subseteq> {(1, 1)}" using card_0_eq [of ?L] by blast
    then show ?thesis by (rule that) simp
  next
    assume "card ?L = 1"
    then obtain a where "?L = {a}" by (rule card_1_singletonE)
    then show ?thesis using arcs by (intro that [of a]) auto
  qed
  obtain q where q: "way_off adjacency (map fst adjacency ! s) (map fst adjacency ! d) a q"
    "\<forall>j < length adjacency. map fst adjacency ! j = q \<longrightarrow> a \<noteq> (out_index s, in_index j)"
    using arc_avoidable [OF g r size s d a(2)] by blast
  have "in_index d \<in> R"
    by (rule way_off_stays [OF g s d(1) arcs _ R(1) d(2) q(1)]) (use a(1) q(2) in auto)
  with R(2) show False by simp
qed

definition wide :: "(nat \<times> nat) list \<Rightarrow> nat \<Rightarrow> nat \<Rightarrow> bool" where
  "wide as source sink \<longleftrightarrow> (\<forall>R. source \<in> R \<longrightarrow> sink \<notin> R \<longrightarrow> 2 \<le> card {a \<in> set as. fst a \<in> R \<and> snd a \<notin> R})"

text \<open>A round that does not succeed leaves a cut that is too narrow for two units: the nodes within reach.\<close>

lemma augment_round:
  assumes G: "unit_flow G" "has_arcs G as" "distinct as" and ends: "s < length G" "d < length G" "s \<noteq> d"
    and k: "flow_value G s d k" "k < 2"
  shows "\<exists>b H. augment_unit_flow G s d = Some (b, H) \<and>
    (if b then unit_flow H \<and> has_arcs H as \<and> length H = length G \<and> flow_value H s d (k + 1) else \<not> wide as s d)"
proof -
  let ?R = "{z. (open_link no_capacity G)\<^sup>*\<^sup>* s z}"
  from augment_unit_flow_correct [OF G(1) ends] obtain b H where H: "augment_unit_flow G s d = Some (b, H)" "unit_flow H" "same_shape G H"
    "if b then \<forall>v < length G. excess H v = excess G v + (if v = s then 1 else 0) - (if v = d then 1 else 0)
     else \<not> (open_link no_capacity G)\<^sup>*\<^sup>* s d" by blast
  show ?thesis
  proof (cases b)
    case False
    with H(4) have sink: "d \<notin> ?R" by simp
    have pa: "paired G" using G(1) by (simp add: unit_flow_def)
    have "z < length G" if "(open_link no_capacity G)\<^sup>*\<^sup>* s z" for z
      using that ends(1) pairedD(1) [OF pa] by (induction rule: rtranclp_induct) (auto simp: open_link_def open_edge_def)
    then have "?R \<subseteq> {..<length G}" by auto
    from cut_capacity [OF G k(1) this _ sink] have "k = int (card {a \<in> set as. fst a \<in> ?R \<and> snd a \<notin> ?R})"
      by (auto intro: rtranclp.rtrancl_into_rtrancl)
    with k(2) have "\<not> 2 \<le> card {a \<in> set as. fst a \<in> ?R \<and> snd a \<notin> ?R}" by simp
    moreover have "s \<in> ?R" by simp
    ultimately have "\<not> wide as s d" using sink unfolding wide_def by blast
    with H(1) False show ?thesis by auto
  next
    case True
    have "flow_value H s d (k + 1)"
      using H(4) True k(1) same_shape_nth(1) [OF H(3)] by (auto simp: flow_value_def)
    with True H same_shape_arcs [OF H(3) G(2)] same_shape_nth(1) [OF H(3)] show ?thesis by auto
  qed
qed

subsection \<open>Taking a path out of the flow\<close>

definition flows :: "residual_graph \<Rightarrow> u8 list list \<Rightarrow> bool" where
  "flows G F \<longleftrightarrow> length F = length G \<and> (\<forall>u < length G. length (F ! u) = length (G ! u) \<and>
     (\<forall>i < length (G ! u). unat (F ! u ! i) \<le> unat (re_initial_capacity (G ! u ! i))))"

definition net :: "residual_graph \<Rightarrow> u8 list list \<Rightarrow> nat \<Rightarrow> nat \<Rightarrow> int" where
  "net G F u i = uint (F ! u ! i) - uint (F ! re_to (G ! u ! i) ! re_reverse_index (G ! u ! i))"

definition net_out :: "residual_graph \<Rightarrow> u8 list list \<Rightarrow> nat \<Rightarrow> int" where
  "net_out G F v = (\<Sum>i < length (G ! v). net G F v i)"

definition rest_value :: "residual_graph \<Rightarrow> u8 list list \<Rightarrow> nat \<Rightarrow> nat \<Rightarrow> int \<Rightarrow> bool" where
  "rest_value G F source sink k \<longleftrightarrow>
     (\<forall>v < length G. net_out G F v = (if v = source then k else 0) - (if v = sink then k else 0))"

lemma unit_initial:
  assumes "paired G" and "u < length G" and "i < length (G ! u)"
  shows "re_initial_capacity (G ! u ! i) = 0 \<or> re_initial_capacity (G ! u ! i) = 1"
proof -
  from pairedD(6) [OF assms] have "unat (re_initial_capacity (G ! u ! i)) = 0 \<or> unat (re_initial_capacity (G ! u ! i)) = 1" by linarith
  then show ?thesis by (auto simp: word_unat_eq_iff)
qed

lemma flows_unit:
  assumes "paired G" and "flows G F" and "u < length G" and "i < length (G ! u)" and "F ! u ! i \<noteq> 0"
  shows "F ! u ! i = 1" and "re_initial_capacity (G ! u ! i) = 1"
proof -
  have le: "unat (F ! u ! i) \<le> unat (re_initial_capacity (G ! u ! i))" using assms by (simp add: flows_def)
  have ne: "unat (F ! u ! i) \<noteq> 0" using assms(5) by (simp add: unat_eq_0)
  with le unit_initial [OF assms(1,3,4)] show init: "re_initial_capacity (G ! u ! i) = 1" by auto
  then have "unat (F ! u ! i) = 1" using le ne by simp
  then show "F ! u ! i = 1" by (simp add: word_unat_eq_iff)
qed

lemma flow_of_nth:
  assumes "u < length G" and "i < length (G ! u)"
  shows "flow_of G ! u ! i = saturating_sub (re_initial_capacity (G ! u ! i)) (re_capacity (G ! u ! i))"
  using assms by (simp add: flow_of_def)

lemma flow_of_flows:
  assumes "unit_flow G"
  shows "flows G (flow_of G)"
  unfolding flows_def
proof (intro conjI allI impI)
  fix u i
  assume ui: "u < length G" "i < length (G ! u)"
  show "unat (flow_of G ! u ! i) \<le> unat (re_initial_capacity (G ! u ! i))"
    unfolding flow_of_nth [OF ui] by (simp add: saturating_sub_def unat_sub)
qed (simp_all add: flow_of_def)

lemma flow_of_net:
  assumes flow: "unit_flow G" and ui: "u < length G" "i < length (G ! u)"
  shows "net G (flow_of G) u i = edge_flow (G ! u ! i)"
proof -
  have pa: "paired G" using flow by (simp add: unit_flow_def)
  note p = pairedD [OF pa ui]
  let ?e = "G ! u ! i" and ?r = "counterpart G u i"
  have cap: "unat (re_capacity ?e) + unat (re_capacity ?r) = 1" using flow ui by (simp add: unit_flow_def)
  then have "unat (re_capacity ?e) = 0 \<and> unat (re_capacity ?r) = 1 \<or> unat (re_capacity ?e) = 1 \<and> unat (re_capacity ?r) = 0" by linarith
  then have c: "re_capacity ?e = 0 \<and> re_capacity ?r = 1 \<or> re_capacity ?e = 1 \<and> re_capacity ?r = 0" by (auto simp: word_unat_eq_iff)
  from p(6) have "unat (re_initial_capacity ?e) = 0 \<and> unat (re_initial_capacity ?r) = 1 \<or>
    unat (re_initial_capacity ?e) = 1 \<and> unat (re_initial_capacity ?r) = 0" by linarith
  then have d: "re_initial_capacity ?e = 0 \<and> re_initial_capacity ?r = 1 \<or> re_initial_capacity ?e = 1 \<and> re_initial_capacity ?r = 0"
    by (auto simp: word_unat_eq_iff)
  show ?thesis
    unfolding net_def flow_of_nth [OF ui] flow_of_nth [OF p(1,3)] counterpart_def [symmetric]
    using c d by (auto simp: saturating_sub_def edge_flow_def)
qed

lemma flow_of_value:
  assumes "unit_flow G" and "flow_value G source sink k"
  shows "rest_value G (flow_of G) source sink k"
  using assms flow_of_net [OF assms(1)] by (simp add: rest_value_def net_out_def flow_value_def excess_sum)

definition taken :: "u8 list list \<Rightarrow> nat \<Rightarrow> nat \<Rightarrow> u8 list list" where
  "taken F u i = F[u := (F ! u)[i := 0]]"

lemma taken_nth:
  assumes "flows G F" and "u < length G" and "i < length (G ! u)" and "v < length G" and "j < length (G ! v)"
  shows "taken F u i ! v ! j = (if v = u \<and> j = i then 0 else F ! v ! j)"
  using assms by (auto simp: taken_def flows_def nth_list_update)

lemma taken_flows:
  assumes "flows G F" and "u < length G" and "i < length (G ! u)"
  shows "flows G (taken F u i)"
  unfolding flows_def
proof (intro conjI allI impI)
  show "length (taken F u i) = length G" using assms by (simp add: taken_def flows_def)
  fix v
  assume v: "v < length G"
  show "length (taken F u i ! v) = length (G ! v)" using assms v by (simp add: taken_def flows_def nth_list_update)
  fix j
  assume "j < length (G ! v)"
  with v assms show "unat (taken F u i ! v ! j) \<le> unat (re_initial_capacity (G ! v ! j))"
    by (simp add: taken_nth [OF assms v] flows_def)
qed

lemma taken_net:
  assumes pa: "paired G" and F: "flows G F" and ui: "u < length G" "i < length (G ! u)" "F ! u ! i \<noteq> 0" and v: "v < length G"
  shows "net_out G (taken F u i) v = net_out G F v - (if v = u then 1 else 0) + (if v = re_to (G ! u ! i) then 1 else 0)"
proof -
  note p = pairedD [OF pa ui(1,2)]
  have one: "F ! u ! i = 1" by (rule flows_unit [OF pa F ui])
  have step: "net G (taken F u i) v j = net G F v j - (if v = u \<and> j = i then 1 else 0) +
      (if v = re_to (G ! u ! i) \<and> j = re_reverse_index (G ! u ! i) then 1 else 0)" if j: "j < length (G ! v)" for j
  proof -
    note q = pairedD [OF pa v j]
    have "re_to (G ! v ! j) = u \<and> re_reverse_index (G ! v ! j) = i \<longleftrightarrow> v = re_to (G ! u ! i) \<and> j = re_reverse_index (G ! u ! i)"
      using p q by metis
    then show ?thesis using one p(2)
      by (auto simp: net_def taken_nth [OF F ui(1,2) v j] taken_nth [OF F ui(1,2) q(1,3)])
  qed
  have "net_out G (taken F u i) v = (\<Sum>j < length (G ! v). net G F v j - (if v = u \<and> j = i then 1 else 0) +
      (if v = re_to (G ! u ! i) \<and> j = re_reverse_index (G ! u ! i) then 1 else 0))"
    unfolding net_out_def by (rule sum.cong) (simp_all add: step)
  also have "\<dots> = net_out G F v - (\<Sum>j < length (G ! v). if v = u \<and> j = i then 1 else 0) +
      (\<Sum>j < length (G ! v). if v = re_to (G ! u ! i) \<and> j = re_reverse_index (G ! u ! i) then 1 else 0)"
    by (simp add: net_out_def sum.distrib sum_subtractf)
  also have "\<dots> = net_out G F v - (if v = u then 1 else 0) + (if v = re_to (G ! u ! i) then 1 else 0)"
    using ui(2) p(3) by (cases "v = u"; cases "v = re_to (G ! u ! i)") simp_all
  finally show ?thesis .
qed

abbreviation no_flow :: "u8 list list \<Rightarrow> nat \<Rightarrow> nat \<Rightarrow> residual_edge \<Rightarrow> bool option" where
  "no_flow F \<equiv> \<lambda>current edge_index _.
     if length F \<le> current \<or> length (F ! current) \<le> edge_index then None else Some (F ! current ! edge_index = 0)"

lemma open_flow:
  assumes "flows G F"
  shows "open_edge (no_flow F) G u i \<longleftrightarrow> u < length G \<and> i < length (G ! u) \<and> F ! u ! i \<noteq> 0"
  using assms by (auto simp: open_edge_def flows_def)

text \<open>As long as some flow is left, the sink is reached over edges with flow.\<close>

lemma flow_reaches:
  assumes pa: "paired G" and F: "flows G F" and k: "rest_value G F source sink k" "0 < k"
    and ends: "source < length G" "sink < length G"
  shows "(open_link (no_flow F) G)\<^sup>*\<^sup>* source sink"
proof (rule ccontr)
  let ?R = "{z. (open_link (no_flow F) G)\<^sup>*\<^sup>* source z}"
  let ?O = "{(u, i). u \<in> ?R \<and> i < length (G ! u) \<and> re_to (G ! u ! i) \<notin> ?R}"
  assume "\<not> (open_link (no_flow F) G)\<^sup>*\<^sup>* source sink"
  then have sink: "sink \<notin> ?R" by simp
  have "z < length G" if "(open_link (no_flow F) G)\<^sup>*\<^sup>* source z" for z
    using that ends(1) pairedD(1) [OF pa] by (induction rule: rtranclp_induct) (auto simp: open_link_def open_flow [OF F])
  then have R: "?R \<subseteq> {..<length G}" by auto
  then have fin: "finite ?R" using finite_subset by blast
  have anti: "net G F (re_to (G ! u ! i)) (re_reverse_index (G ! u ! i)) = - net G F u i" if "u < length G" "i < length (G ! u)" for u i
    using pairedD [OF pa that] by (simp add: net_def)
  have "k = (\<Sum>v \<in> ?R. (if v = source then k else 0) - (if v = sink then k else 0))" using sum_source [OF fin _ sink, of source k] by simp
  also have "\<dots> = (\<Sum>v \<in> ?R. \<Sum>i < length (G ! v). net G F v i)"
    using k(1) R by (intro sum.cong) (auto simp: rest_value_def net_out_def)
  also have "\<dots> = (\<Sum>(u, i) \<in> ?O. net G F u i)" by (rule cut_sum [OF pa R, where g = "net G F", OF anti])
  also have "\<dots> \<le> 0"
  proof (rule sum_nonpos)
    fix x
    assume "x \<in> ?O"
    then obtain u i where x: "x = (u, i)" and u: "u \<in> ?R" "i < length (G ! u)" "re_to (G ! u ! i) \<notin> ?R" by auto
    have "\<not> open_link (no_flow F) G u (re_to (G ! u ! i))"
      using u(1,3) by (auto dest: rtranclp.rtrancl_into_rtrancl)
    moreover have "u < length G" using u(1) R by auto
    ultimately have "F ! u ! i = 0" using u(2) by (auto simp: open_link_def open_flow [OF F])
    then show "(case x of (u, i) \<Rightarrow> net G F u i) \<le> 0" by (simp add: x net_def)
  qed
  finally show False using k(2) by simp
qed

definition used_up :: "residual_graph \<Rightarrow> u8 list list \<Rightarrow> u8 list list \<Rightarrow> nat \<Rightarrow> nat \<Rightarrow> bool" where
  "used_up G F F' u v \<longleftrightarrow> (\<exists>i < length (G ! u). u < length G \<and> re_to (G ! u ! i) = v \<and> F ! u ! i \<noteq> 0 \<and> F' ! u ! i = 0)"

definition less_flow :: "residual_graph \<Rightarrow> u8 list list \<Rightarrow> u8 list list \<Rightarrow> bool" where
  "less_flow G F F' \<longleftrightarrow> (\<forall>u < length G. \<forall>i < length (G ! u). F' ! u ! i \<noteq> 0 \<longrightarrow> F ! u ! i \<noteq> 0)"

lemma take_unit_takes:
  assumes pa: "paired G" and F: "flows G F" and "length p = length G" "z < length G" "p ! z = Some (u, i)"
    and ui: "u < length G" "i < length (G ! u)" "F ! u ! i \<noteq> 0"
  shows "take_unit p (z, r, F) = Inr (u, r @ [u], taken F u i)"
  using assms flows_unit(1) [OF pa F ui] by (simp add: take_unit_def taken_def flows_def)

lemma used_up_taken:
  assumes "flows G F'" and ui: "u < length G" "i < length (G ! u)" and "used_up G F F' a b"
  shows "used_up G F (taken F' u i) a b"
proof -
  from assms(4) obtain j where j: "j < length (G ! a)" "a < length G" "re_to (G ! a ! j) = b" "F ! a ! j \<noteq> 0" "F' ! a ! j = 0"
    by (auto simp: used_up_def)
  then show ?thesis using taken_nth [OF assms(1) ui j(2,1)] unfolding used_up_def by auto
qed

lemma extract_take:
  assumes pa: "paired G" and F: "flows G F" and tree: "pred_tree (no_flow F) G source p depth" and sink: "sink \<in> dom depth"
  shows "\<exists>path F'. while_loop (\<lambda>(cursor, _, _). cursor \<noteq> source) (take_unit p) (sink, [sink], F) = Some (Inr (source, rev path, F')) \<and>
    flows G F' \<and> less_flow G F F' \<and> walk (used_up G F F') source sink path \<and> distinct path \<and>
    (\<forall>v < length G. net_out G F' v = net_out G F v - (if v = source then 1 else 0) + (if v = sink then 1 else 0))"
proof -
  let ?b = "\<lambda>(cursor, _ :: nat list, _ :: u8 list list). cursor \<noteq> source"
  define P where "P = (\<lambda>(c, r, F'). c \<in> dom depth \<and> flows G F' \<and> less_flow G F F' \<and> walk (used_up G F F') c sink (rev r) \<and>
    map (the \<circ> depth) (rev r) = [the (depth c)..<Suc (the (depth sink))] \<and> the (depth c) \<le> the (depth sink) \<and>
    (\<forall>v < length G. net_out G F' v = net_out G F v - (if v = c then 1 else 0) + (if v = sink then 1 else 0)) \<and>
    (\<forall>v \<in> dom depth. the (depth v) < the (depth c) \<longrightarrow> F' ! v = F ! v))"
  have "(\<exists>r. while_loop ?b (take_unit p) (sink, [sink], F) = Some (Inl r) \<and> False) \<or>
      (\<exists>t. while_loop ?b (take_unit p) (sink, [sink], F) = Some (Inr t) \<and> P t \<and> \<not> ?b t)"
  proof (rule while_loop_total [where f = "\<lambda>(c, _, _). the (depth c)"])
    show "P (sink, [sink], F)" using F sink by (simp add: P_def less_flow_def walk_def)
    fix s
    assume "P s" "?b s"
    then obtain c r F' where s: "s = (c, r, F')" "c \<noteq> source" "c \<in> dom depth" "flows G F'" "less_flow G F F'"
      "walk (used_up G F F') c sink (rev r)" "map (the \<circ> depth) (rev r) = [the (depth c)..<Suc (the (depth sink))]"
      "the (depth c) \<le> the (depth sink)"
      "\<forall>v < length G. net_out G F' v = net_out G F v - (if v = c then 1 else 0) + (if v = sink then 1 else 0)"
      "\<forall>v \<in> dom depth. the (depth v) < the (depth c) \<longrightarrow> F' ! v = F ! v" by (cases s) (auto simp: P_def)
    obtain u i where u: "p ! c = Some (u, i)" "open_edge (no_flow F) G u i" "re_to (G ! u ! i) = c"
      "u \<in> dom depth" "the (depth c) = Suc (the (depth u))" by (rule pred_tree_step [OF tree s(3,2)])
    have len: "length p = length G" "c < length G" using tree s(3) by (auto simp: pred_tree_def)
    have row: "F' ! u = F ! u" using s(10) u(4,5) by simp
    have ui: "u < length G" "i < length (G ! u)" "F ! u ! i \<noteq> 0" using u(2) by (simp_all add: open_flow [OF F])
    have ui': "F' ! u ! i \<noteq> 0" using ui(3) row by simp
    let ?F = "taken F' u i"
    have step: "take_unit p s = Inr (u, r @ [u], ?F)"
      unfolding s(1) by (rule take_unit_takes [OF pa s(4) len u(1) ui(1,2) ui'])
    have less: "less_flow G F ?F"
      using s(5) unfolding less_flow_def by (auto simp: taken_nth [OF s(4) ui(1,2)] split: if_splits)
    have "used_up G F ?F u c" unfolding used_up_def using ui u(3) taken_nth [OF s(4) ui(1,2) ui(1,2)] by auto
    moreover have "walk (used_up G F ?F) c sink (rev r)"
      using s(6) used_up_taken [OF s(4) ui(1,2)] unfolding walk_def by (auto elim!: successively_mono)
    ultimately have walk: "walk (used_up G F ?F) u sink (rev (r @ [u]))" using walk_Cons by simp
    have map: "map (the \<circ> depth) (rev (r @ [u])) = [the (depth u)..<Suc (the (depth sink))]"
      using s(7,8) u(5) by (simp add: upt_conv_Cons)
    have netv: "net_out G ?F v = net_out G F v - (if v = u then 1 else 0) + (if v = sink then 1 else 0)" if "v < length G" for v
      using s(9) taken_net [OF pa s(4) ui(1,2) ui' that] u(3) that by auto
    have rows: "?F ! v = F ! v" if "v \<in> dom depth" "the (depth v) < the (depth u)" for v
    proof -
      have "v \<noteq> u" "the (depth v) < the (depth c)" using that(2) u(5) by auto
      then show ?thesis using s(10) that(1) by (simp add: taken_def)
    qed
    show "case take_unit p s of Inl r \<Rightarrow> False | Inr s' \<Rightarrow> P s' \<and> (\<lambda>(c, _, _). the (depth c)) s' < (\<lambda>(c, _, _). the (depth c)) s"
      using taken_flows [OF s(4) ui(1,2)] less walk map netv rows u(4,5) s(8)
      unfolding step by (simp add: P_def s(1) del: rev_append)
  qed
  then obtain r F' where loop: "while_loop ?b (take_unit p) (sink, [sink], F) = Some (Inr (source, r, F'))" and P: "P (source, r, F')" by auto
  have "distinct (map (the \<circ> depth) (rev r))" using P by (simp add: P_def del: map_eq_Cons_conv)
  then have "distinct (rev r)" using distinct_map by blast
  then show ?thesis using loop P by (intro exI [of _ "rev r"] exI [of _ F']) (simp add: P_def)
qed

lemma extract_flow_path_correct:
  assumes pa: "paired G" and F: "flows G F" and k: "rest_value G F source sink k" "0 < k"
    and ends: "source < length G" "sink < length G" "source \<noteq> sink"
  shows "\<exists>path F'. extract_flow_path G F source sink = Some (Some path, F') \<and> flows G F' \<and> less_flow G F F' \<and>
    walk (used_up G F F') source sink path \<and> distinct path \<and> rest_value G F' source sink (k - 1)"
proof -
  have ok: "searchable (no_flow F) G" using F pairedD(1) [OF pa] by (simp add: searchable_def flows_def)
  from flow_predecessors_total [OF ok ends] obtain p
    where p: "flow_predecessors (no_flow F) G source sink = Some p" "length p = length G"
      "if p ! sink = None then \<not> (open_link (no_flow F) G)\<^sup>*\<^sup>* source sink
       else \<exists>depth. pred_tree (no_flow F) G source p depth \<and> sink \<in> dom depth" by blast
  from p(3) flow_reaches [OF pa F k ends(1,2)] have found: "p ! sink \<noteq> None" by (auto split: if_splits)
  with p(3) obtain depth where "pred_tree (no_flow F) G source p depth" "sink \<in> dom depth" by auto
  from extract_take [OF pa F this] obtain path F' where
    loop: "while_loop (\<lambda>(cursor, _, _). cursor \<noteq> source) (take_unit p) (sink, [sink], F) = Some (Inr (source, rev path, F'))"
    and rest: "flows G F'" "less_flow G F F'" "walk (used_up G F F') source sink path" "distinct path"
      "\<forall>v < length G. net_out G F' v = net_out G F v - (if v = source then 1 else 0) + (if v = sink then 1 else 0)" by blast
  have "extract_flow_path G F source sink = Some (Some path, F')"
    using p(1,2) found ends(2) loop by (simp add: extract_flow_path_def)
  moreover have "rest_value G F' source sink (k - 1)" using rest(5) k(1) by (auto simp: rest_value_def)
  ultimately show ?thesis using rest by blast
qed

subsection \<open>From the network back to the graph\<close>

definition through :: "nat \<Rightarrow> nat \<Rightarrow> nat list \<Rightarrow> nat list" where
  "through x d ys = out_index x # concat (map (\<lambda>y. [in_index y, out_index y]) ys) @ [in_index d]"

lemma through_Nil: "through x d [] = [out_index x, in_index d]"
  by (simp add: through_def)

lemma through_Cons: "through x d (y # ys) = out_index x # in_index y # through y d ys"
  by (simp add: through_def)

lemma network_walk:
  assumes arcs: "\<And>a. a \<in> set as \<longleftrightarrow> split_arc (length adjacency) s d a \<or> link_arc adjacency s d a"
    and "walk (\<lambda>a b. (a, b) \<in> set as) (out_index x) (in_index d) p"
  shows "\<exists>ys. p = through x d ys \<and> (\<forall>y \<in> set ys. y < length adjacency \<and> y \<noteq> s \<and> y \<noteq> d) \<and>
    successively (\<lambda>a b. linked adjacency (map fst adjacency ! a) (map fst adjacency ! b)) (x # ys @ [d])"
  using assms(2)
proof (induction "length p" arbitrary: p x rule: less_induct)
  case less
  from less.prems obtain p' where p: "p = out_index x # p'" by (cases p) (auto simp: walk_def)
  with less.prems obtain b p'' where p': "p' = b # p''" by (cases p') (auto simp: walk_def)
  have xb: "(out_index x, b) \<in> set as" and w: "walk (\<lambda>a b. (a, b) \<in> set as) b (in_index d) (b # p'')"
    using less.prems p p' by (auto simp: walk_def)
  from xb have "link_arc adjacency s d (out_index x, b)" using arcs by (auto simp: split_arc_def)
  then obtain y where y: "b = in_index y" "y < length adjacency" "y \<noteq> s" "linked adjacency (map fst adjacency ! x) (map fst adjacency ! y)"
    by (auto simp: link_arc_def)
  show ?case
  proof (cases p'')
    case Nil
    with w y(1) have "y = d" by (simp add: walk_def)
    with p p' Nil y show ?thesis by (intro exI [of _ "[]"]) (simp add: through_Nil)
  next
    case (Cons c p3)
    have yc: "(in_index y, c) \<in> set as" and w': "walk (\<lambda>a b. (a, b) \<in> set as) c (in_index d) p''"
      using w y(1) Cons by (auto simp: walk_def)
    from yc have "split_arc (length adjacency) s d (in_index y, c)" using arcs by (auto simp: link_arc_def)
    then have c: "c = out_index y" "y \<noteq> d" by (auto simp: split_arc_def)
    have "length p'' < length p" using p p' by simp
    from less.hyps [OF this w' [unfolded c(1)]] obtain ys where ys: "p'' = through y d ys"
      "\<forall>y \<in> set ys. y < length adjacency \<and> y \<noteq> s \<and> y \<noteq> d"
      "successively (\<lambda>a b. linked adjacency (map fst adjacency ! a) (map fst adjacency ! b)) (y # ys @ [d])" by blast
    then show ?thesis using p p' y c(2) by (intro exI [of _ "y # ys"]) (simp add: through_Cons)
  qed
qed

lemma out_mod [simp]: "Suc (k * 2) mod 2 = Suc 0"
  by presburger

lemma node_path_of_through:
  assumes "\<forall>y \<in> set ys. y < length ids" and "d < length ids"
  shows "node_path_of ids source (through x d ys) = Some (source # map ((!) ids) (ys @ [d]))"
  using assms(1)
proof (induction ys arbitrary: x)
  case Nil
  then show ?case using assms(2) by (simp add: node_path_of_def through_Nil)
next
  case (Cons y ys)
  have IH: "node_path_of ids source (through y d ys) = Some (source # map ((!) ids) (ys @ [d]))" using Cons by simp
  obtain r where r: "through y d ys = out_index y # r" by (simp add: through_def)
  show ?case
    using IH Cons.prems unfolding through_Cons r by (auto simp: node_path_of_def)
qed

lemma through_adjacent:
  assumes "successively E (through x d ys)" and "y \<in> set ys"
  shows "E (in_index y) (out_index y)"
proof -
  from assms(2) obtain us vs where "ys = us @ y # vs" by (auto simp: in_set_conv_decomp)
  then have "through x d ys = (out_index x # concat (map (\<lambda>y. [in_index y, out_index y]) us)) @
      in_index y # out_index y # concat (map (\<lambda>y. [in_index y, out_index y]) vs) @ [in_index d]" by (simp add: through_def)
  then show ?thesis using assms(1) by (simp only: successively_append_iff successively.simps)
qed

lemma through_distinct:
  assumes "distinct (through x d ys)"
  shows "distinct ys"
proof -
  have "distinct (concat (map (\<lambda>y. [in_index y, out_index y]) ys))" using assms by (simp add: through_def)
  then show ?thesis by (induction ys) auto
qed

text \<open>Two walks that have only their ends in common.\<close>

definition disjoint_pair :: "adjacency \<Rightarrow> node_id \<Rightarrow> node_id \<Rightarrow> node_id list \<Rightarrow> node_id list \<Rightarrow> bool" where
  "disjoint_pair adjacency source destination p q \<longleftrightarrow>
     walk (linked adjacency) source destination p \<and> distinct p \<and>
     walk (linked adjacency) source destination q \<and> distinct q \<and>
     set p \<inter> set q = {source, destination} \<and> p \<noteq> q"

lemma disjoint_pair_sym: "disjoint_pair adjacency source destination p q \<Longrightarrow> disjoint_pair adjacency source destination q p"
  by (auto simp: disjoint_pair_def)

lemma network_paths_disjoint:
  assumes g: "simple_graph adjacency" and s: "s < length adjacency" and d: "d < length adjacency" "s \<noteq> d"
    and ys: "\<forall>y \<in> set ys. y < length adjacency \<and> y \<noteq> s \<and> y \<noteq> d" "distinct ys"
      "successively (\<lambda>a b. linked adjacency (map fst adjacency ! a) (map fst adjacency ! b)) (s # ys @ [d])"
    and zs: "\<forall>y \<in> set zs. y < length adjacency \<and> y \<noteq> s \<and> y \<noteq> d" "distinct zs"
      "successively (\<lambda>a b. linked adjacency (map fst adjacency ! a) (map fst adjacency ! b)) (s # zs @ [d])"
    and disj: "set ys \<inter> set zs = {}" "\<not> (ys = [] \<and> zs = [])"
  shows "disjoint_pair adjacency (map fst adjacency ! s) (map fst adjacency ! d)
    (map fst adjacency ! s # map ((!) (map fst adjacency)) (ys @ [d])) (map fst adjacency ! s # map ((!) (map fst adjacency)) (zs @ [d]))"
proof -
  let ?ids = "map fst adjacency" and ?ix = "{..<length adjacency}"
  have inj: "inj_on ((!) ?ids) ?ix" using simple_graph_index(1) [OF g] by (simp add: inj_on_nth)
  have walk: "walk (linked adjacency) (?ids ! s) (?ids ! d) (map ((!) ?ids) (s # xs @ [d]))"
    if "successively (\<lambda>a b. linked adjacency (?ids ! a) (?ids ! b)) (s # xs @ [d])" for xs
    using that unfolding walk_def successively_map by simp
  have dist: "distinct (map ((!) ?ids) (s # xs @ [d]))" if "\<forall>y \<in> set xs. y < length adjacency \<and> y \<noteq> s \<and> y \<noteq> d" "distinct xs" for xs
  proof -
    have "set (s # xs @ [d]) \<subseteq> ?ix" using that(1) s d by auto
    then have "inj_on ((!) ?ids) (set (s # xs @ [d]))" by (rule inj_on_subset [OF inj])
    moreover have "distinct (s # xs @ [d])" using that d(2) by auto
    ultimately show ?thesis unfolding distinct_map by blast
  qed
  have sub: "set (s # ys @ [d]) \<subseteq> ?ix" "set (s # zs @ [d]) \<subseteq> ?ix" using ys(1) zs(1) s d by auto
  have "set (map ((!) ?ids) (s # ys @ [d])) \<inter> set (map ((!) ?ids) (s # zs @ [d])) = (!) ?ids ` (set (s # ys @ [d]) \<inter> set (s # zs @ [d]))"
    unfolding set_map by (rule inj_on_image_Int [OF inj sub, symmetric])
  also have "set (s # ys @ [d]) \<inter> set (s # zs @ [d]) = {s, d}" using disj(1) ys(1) zs(1) by auto
  finally have int: "set (map ((!) ?ids) (s # ys @ [d])) \<inter> set (map ((!) ?ids) (s # zs @ [d])) = {?ids ! s, ?ids ! d}" by simp
  have "map ((!) ?ids) (s # ys @ [d]) \<noteq> map ((!) ?ids) (s # zs @ [d])"
  proof
    assume eq: "map ((!) ?ids) (s # ys @ [d]) = map ((!) ?ids) (s # zs @ [d])"
    have "s # ys @ [d] = s # zs @ [d]" by (rule map_inj_on [OF eq]) (rule inj_on_subset [OF inj], use sub in blast)
    with disj show False by auto
  qed
  with int walk [OF ys(3)] walk [OF zs(3)] dist [OF ys(1,2)] dist [OF zs(1,2)] show ?thesis
    unfolding disjoint_pair_def by simp
qed

subsection \<open>Two paths exactly when there are two\<close>

lemma used_arc:
  assumes "paired G" and "has_arcs G as" and "flows G F" and "used_up G F F' u v"
  shows "(u, v) \<in> set as"
proof -
  from assms(4) obtain i where i: "u < length G" "i < length (G ! u)" "re_to (G ! u ! i) = v" "F ! u ! i \<noteq> 0" by (auto simp: used_up_def)
  from flows_unit(2) [OF assms(1,3) i(1,2,4)] arc_edges(1) [OF assms(2) i(1,2)] i(3) show ?thesis by simp
qed

lemma used_once:
  assumes "paired G" and "has_arcs G as" "distinct as" and "flows G F" "flows G F1" and "used_up G F F1 u v"
  shows "\<not> used_up G F1 F2 u v"
proof
  assume "used_up G F1 F2 u v"
  then obtain j where j: "u < length G" "j < length (G ! u)" "re_to (G ! u ! j) = v" "F1 ! u ! j \<noteq> 0" by (auto simp: used_up_def)
  from assms(6) obtain i where i: "i < length (G ! u)" "re_to (G ! u ! i) = v" "F ! u ! i \<noteq> 0" "F1 ! u ! i = 0" by (auto simp: used_up_def)
  have "i = j"
    by (rule arc_edges(3) [OF assms(2) j(1) assms(3) i(1) j(2)])
      (simp_all add: i j flows_unit(2) [OF assms(1,4) j(1) i(1,3)] flows_unit(2) [OF assms(1,5) j(1,2,4)])
  with i(4) j(4) show False by simp
qed

definition network_ready :: "adjacency \<Rightarrow> nat \<Rightarrow> nat \<Rightarrow> (nat \<times> nat) list \<Rightarrow> residual_graph \<Rightarrow> bool" where
  "network_ready adjacency s d as G \<longleftrightarrow> unit_flow G \<and> has_arcs G as \<and> distinct as \<and> length G = length adjacency * 2 \<and>
     (\<forall>a. a \<in> set as \<longleftrightarrow> split_arc (length adjacency) s d a \<or> link_arc adjacency s d a)"

lemma next_path:
  assumes ready: "network_ready adjacency s d as G" and s: "s < length adjacency" and d: "d < length adjacency" "s \<noteq> d"
    and F: "flows G F" "rest_value G F (out_index s) (in_index d) k" "0 < k"
  shows "\<exists>ys F'. next_flow_path G (map fst adjacency) (map fst adjacency ! s) (map fst adjacency ! d) (out_index s) (in_index d) (F, paths) =
      Inr (F', paths @ [map fst adjacency ! s # map ((!) (map fst adjacency)) (ys @ [d])]) \<and>
    flows G F' \<and> rest_value G F' (out_index s) (in_index d) (k - 1) \<and> successively (used_up G F F') (through s d ys) \<and>
    (\<forall>y \<in> set ys. y < length adjacency \<and> y \<noteq> s \<and> y \<noteq> d) \<and> distinct ys \<and>
    successively (\<lambda>a b. linked adjacency (map fst adjacency ! a) (map fst adjacency ! b)) (s # ys @ [d])"
proof -
  let ?ids = "map fst adjacency"
  have pa: "paired G" and arcs: "has_arcs G as" and as: "\<And>a. a \<in> set as \<longleftrightarrow> split_arc (length adjacency) s d a \<or> link_arc adjacency s d a"
    using ready by (auto simp: network_ready_def unit_flow_def)
  have "out_index s < length G" "in_index d < length G" "out_index s \<noteq> in_index d"
    using ready s d by (auto simp: network_ready_def)
  from extract_flow_path_correct [OF pa F this] obtain path F' where e: "extract_flow_path G F (out_index s) (in_index d) = Some (Some path, F')"
    "flows G F'" "walk (used_up G F F') (out_index s) (in_index d) path" "distinct path"
    "rest_value G F' (out_index s) (in_index d) (k - 1)" by blast
  have "walk (\<lambda>a b. (a, b) \<in> set as) (out_index s) (in_index d) path"
    using e(3) used_arc [OF pa arcs F(1)] unfolding walk_def by (auto elim!: successively_mono)
  from network_walk [OF as this] obtain ys where ys: "path = through s d ys" "\<forall>y \<in> set ys. y < length adjacency \<and> y \<noteq> s \<and> y \<noteq> d"
    "successively (\<lambda>a b. linked adjacency (?ids ! a) (?ids ! b)) (s # ys @ [d])" by blast
  have "node_path_of ?ids (?ids ! s) path = Some (?ids ! s # map ((!) ?ids) (ys @ [d]))"
    unfolding ys(1) by (rule node_path_of_through) (use ys(2) d(1) in simp_all)
  then have "next_flow_path G ?ids (?ids ! s) (?ids ! d) (out_index s) (in_index d) (F, paths) =
      Inr (F', paths @ [?ids ! s # map ((!) ?ids) (ys @ [d])])"
    using e(1) by (simp add: next_flow_path_def)
  moreover have "distinct ys" using e(4) ys(1) through_distinct by simp
  ultimately show ?thesis using e(2,3,5) ys by (auto simp: walk_def)
qed

lemma flow_paths_disjoint:
  assumes g: "simple_graph adjacency" and ready: "network_ready adjacency s d as G"
    and s: "s < length adjacency" and d: "d < length adjacency" "s \<noteq> d" and k: "flow_value G (out_index s) (in_index d) 2"
  shows "\<exists>p q. flow_paths G (map fst adjacency) (map fst adjacency ! s) (map fst adjacency ! d) (out_index s) (in_index d) = Some (Some (p, q)) \<and>
    disjoint_pair adjacency (map fst adjacency ! s) (map fst adjacency ! d) p q \<and> length p \<le> length q"
proof -
  let ?ids = "map fst adjacency"
  let ?path = "\<lambda>ys. ?ids ! s # map ((!) ?ids) (ys @ [d])" and ?step = "next_flow_path G ?ids (?ids ! s) (?ids ! d) (out_index s) (in_index d)"
  have pa: "paired G" and flow: "unit_flow G" and arcs: "has_arcs G as" "distinct as"
    using ready by (auto simp: network_ready_def unit_flow_def)
  note F0 = flow_of_flows [OF flow] flow_of_value [OF flow k]
  from next_path [OF ready s d F0, of "[]"] obtain ys F1 where 1: "?step (flow_of G, []) = Inr (F1, [?path ys])" "flows G F1"
    "rest_value G F1 (out_index s) (in_index d) 1" "successively (used_up G (flow_of G) F1) (through s d ys)"
    "\<forall>y \<in> set ys. y < length adjacency \<and> y \<noteq> s \<and> y \<noteq> d" "distinct ys"
    "successively (\<lambda>a b. linked adjacency (?ids ! a) (?ids ! b)) (s # ys @ [d])" by auto
  from next_path [OF ready s d 1(2,3), of "[?path ys]"] obtain zs F2 where 2: "?step (F1, [?path ys]) = Inr (F2, [?path ys, ?path zs])"
    "successively (used_up G F1 F2) (through s d zs)"
    "\<forall>y \<in> set zs. y < length adjacency \<and> y \<noteq> s \<and> y \<noteq> d" "distinct zs"
    "successively (\<lambda>a b. linked adjacency (?ids ! a) (?ids ! b)) (s # zs @ [d])" by auto
  note once = used_once [OF pa arcs F0(1) 1(2)]
  have "set ys \<inter> set zs = {}" using once through_adjacent [OF 1(4)] through_adjacent [OF 2(2)] by blast
  moreover have "\<not> (ys = [] \<and> zs = [])" using 1(4) 2(2) once by (auto simp: through_Nil)
  ultimately have pair: "disjoint_pair adjacency (?ids ! s) (?ids ! d) (?path ys) (?path zs)"
    by (rule network_paths_disjoint [OF g s d 1(5,6,7) 2(3,4,5)])
  let ?key = "\<lambda>path :: node_id list. (length path, path)"
  have "for_each (\<lambda>_. ?step) [0..<2] (flow_of G, []) = Inr (F2, [?path ys, ?path zs])"
    using 1(1) 2(1) by (simp add: upt_conv_Cons numeral_2_eq_2)
  then have fp: "flow_paths G ?ids (?ids ! s) (?ids ! d) (out_index s) (in_index d) =
      Some (if ?key (?path ys) \<le> ?key (?path zs) then Some (?path ys, ?path zs) else Some (?path zs, ?path ys))"
    by (simp add: flow_paths_def del: list.map)
  show ?thesis
  proof (cases "?key (?path ys) \<le> ?key (?path zs)")
    case True
    then have "length (?path ys) \<le> length (?path zs)" by (auto simp: less_eq_prod_def)
    with fp True pair show ?thesis by auto
  next
    case False
    then have "length (?path zs) \<le> length (?path ys)" by (auto simp: less_eq_prod_def)
    with fp False disjoint_pair_sym [OF pair] show ?thesis by auto
  qed
qed

definition pairs :: "'a list \<Rightarrow> ('a \<times> 'a) set" where
  "pairs xs = set (zip xs (tl xs))"

lemma pairs_simps [simp]: "pairs [] = {}" "pairs [x] = {}" "pairs (x # y # xs) = insert (x, y) (pairs (y # xs))"
  by (simp_all add: pairs_def)

lemma pairs_leave:
  assumes "xs \<noteq> []" and "hd xs \<in> R" and "last xs \<notin> R"
  shows "\<exists>a b. (a, b) \<in> pairs xs \<and> a \<in> R \<and> b \<notin> R"
  using assms
proof (induction xs rule: induct_list012)
  case (3 x y zs)
  then show ?case by (cases "y \<in> R") auto
qed auto

lemma successively_pairs: "successively E xs \<longleftrightarrow> (\<forall>(a, b) \<in> pairs xs. E a b)"
  by (induction xs rule: induct_list012) auto

lemma pairs_through_Cons:
  "pairs (through x d (y # ys)) = {(out_index x, in_index y), (in_index y, out_index y)} \<union> pairs (through y d ys)"
  by (auto simp: through_def)

lemma pairs_through:
  assumes "a \<in> pairs (through x d ys)"
  shows "(\<exists>y \<in> set ys. a = (in_index y, out_index y)) \<or>
    (\<exists>u \<in> set (x # ys). \<exists>v \<in> set (ys @ [d]). a = (out_index u, in_index v))"
  using assms
proof (induction ys arbitrary: x)
  case Nil
  then show ?case by (simp add: through_Nil)
next
  case (Cons y ys)
  from Cons.prems consider "a = (out_index x, in_index y)" | "a = (in_index y, out_index y)" | "a \<in> pairs (through y d ys)"
    unfolding pairs_through_Cons by blast
  then show ?case
  proof cases
    case 3
    from Cons.IH [OF this] show ?thesis by auto
  qed auto
qed

lemma pairs_through_direct:
  assumes "(out_index x, in_index d) \<in> pairs (through x d ys)" and "x \<notin> set ys" and "d \<notin> set ys"
  shows "ys = []"
proof (cases ys)
  case (Cons y zs)
  then have "(out_index x, in_index d) \<in> pairs (through y d zs)"
    using assms by (auto simp: pairs_through_Cons)
  from pairs_through [OF this] Cons assms(2) show ?thesis by auto
qed simp

lemma through_arcs:
  assumes arcs: "\<And>a. a \<in> set as \<longleftrightarrow> split_arc (length adjacency) s d a \<or> link_arc adjacency s d a"
    and d: "d < length adjacency" "s \<noteq> d" and "x < length adjacency" "x \<noteq> d" and "\<forall>y \<in> set ys. y < length adjacency \<and> y \<noteq> s \<and> y \<noteq> d"
    and "successively (\<lambda>a b. linked adjacency (map fst adjacency ! a) (map fst adjacency ! b)) (x # ys @ [d])"
  shows "pairs (through x d ys) \<subseteq> set as"
  using assms(4-)
proof (induction ys arbitrary: x)
  case Nil
  then have "link_arc adjacency s d (out_index x, in_index d)" unfolding link_arc_def using d by auto
  then show ?case using arcs by (simp add: through_Nil)
next
  case (Cons y ys)
  have "link_arc adjacency s d (out_index x, in_index y)" unfolding link_arc_def using Cons.prems by auto
  moreover have "split_arc (length adjacency) s d (in_index y, out_index y)" unfolding split_arc_def using Cons.prems by auto
  moreover have "pairs (through y d ys) \<subseteq> set as" by (rule Cons.IH) (use Cons.prems in auto)
  ultimately show ?case unfolding pairs_through_Cons using arcs by blast
qed

lemma walk_indexes:
  assumes g: "simple_graph adjacency" and s: "s < length adjacency" and d: "d < length adjacency" "s \<noteq> d"
    and p: "walk (linked adjacency) (map fst adjacency ! s) (map fst adjacency ! d) p" "distinct p"
  shows "\<exists>ys. p = map ((!) (map fst adjacency)) (s # ys @ [d]) \<and> (\<forall>y \<in> set ys. y < length adjacency \<and> y \<noteq> s \<and> y \<noteq> d) \<and>
    successively (\<lambda>a b. linked adjacency (map fst adjacency ! a) (map fst adjacency ! b)) (s # ys @ [d])"
proof -
  let ?ids = "map fst adjacency" and ?n = "length adjacency"
  have u: "undirected adjacency" using g by (simp add: simple_graph_def)
  have eq: "?ids ! i = ?ids ! j \<longleftrightarrow> i = j" if "i < ?n" "j < ?n" for i j
    using that nth_eq_iff_index_eq [OF simple_graph_index(1) [OF g]] by simp
  have "set q \<subseteq> set ?ids" if "successively (linked adjacency) q" "q \<noteq> []" "hd q \<in> set ?ids" for q
    using that
  proof (induction q rule: induct_list012)
    case (3 x y zs)
    then have "y \<in> set ?ids" using undirected_closed [OF u, of x y] by simp
    then show ?case using 3 by simp
  qed auto
  from this [of p] p(1) s have "set p \<subseteq> set ?ids" by (simp add: walk_def)
  then have "\<forall>x \<in> set p. \<exists>k < ?n. ?ids ! k = x" by (metis in_set_conv_nth length_map subsetD)
  then obtain f where f: "\<And>x. x \<in> set p \<Longrightarrow> f x < ?n \<and> ?ids ! f x = x" by metis
  define ks where "ks = map f p"
  have "map (\<lambda>x. ?ids ! f x) p = p" by (rule map_idI) (use f in blast)
  then have ks: "map ((!) ?ids) ks = p" "\<forall>k \<in> set ks. k < ?n" unfolding ks_def using f by (simp_all add: comp_def)
  have ne: "ks \<noteq> []" using p(1) by (simp add: ks_def walk_def)
  have "?ids ! hd ks = ?ids ! s" "?ids ! last ks = ?ids ! d" using p(1) ne unfolding ks(1) [symmetric] walk_def by (simp_all add: hd_map last_map)
  then have ends: "hd ks = s" "last ks = d" using eq s d(1) ks(2) ne by simp_all
  have dist: "distinct ks" using p(2) unfolding ks(1) [symmetric] distinct_map by blast
  obtain ls where "ks = s # ls" using ne ends(1) by (cases ks) auto
  moreover from this ends(2) d(2) obtain ys where "ls = ys @ [d]" by (cases ls rule: rev_cases) auto
  ultimately have split: "ks = s # ys @ [d]" by simp
  have "successively (linked adjacency) (map ((!) ?ids) ks)" using p(1) by (simp add: ks(1) walk_def)
  then have "successively (\<lambda>a b. linked adjacency (?ids ! a) (?ids ! b)) ks" by (simp only: successively_map)
  then show ?thesis using ks dist unfolding split by (intro exI [of _ ys]) auto
qed

lemma pair_wide:
  assumes g: "simple_graph adjacency" and s: "s < length adjacency" and d: "d < length adjacency" "s \<noteq> d"
    and arcs: "\<And>a. a \<in> set as \<longleftrightarrow> split_arc (length adjacency) s d a \<or> link_arc adjacency s d a"
    and pq: "disjoint_pair adjacency (map fst adjacency ! s) (map fst adjacency ! d) p q"
  shows "wide as (out_index s) (in_index d)"
  unfolding wide_def
proof (intro allI impI)
  fix R
  assume R: "out_index s \<in> R" "in_index d \<notin> R"
  let ?ids = "map fst adjacency"
  have eq: "?ids ! i = ?ids ! j \<longleftrightarrow> i = j" if "i < length adjacency" "j < length adjacency" for i j
    using that nth_eq_iff_index_eq [OF simple_graph_index(1) [OF g]] by simp
  from walk_indexes [OF g s d, of p] pq obtain ys where ys: "p = map ((!) ?ids) (s # ys @ [d])"
    "\<forall>y \<in> set ys. y < length adjacency \<and> y \<noteq> s \<and> y \<noteq> d"
    "successively (\<lambda>a b. linked adjacency (?ids ! a) (?ids ! b)) (s # ys @ [d])" unfolding disjoint_pair_def by blast
  from walk_indexes [OF g s d, of q] pq obtain zs where zs: "q = map ((!) ?ids) (s # zs @ [d])"
    "\<forall>y \<in> set zs. y < length adjacency \<and> y \<noteq> s \<and> y \<noteq> d"
    "successively (\<lambda>a b. linked adjacency (?ids ! a) (?ids ! b)) (s # zs @ [d])" unfolding disjoint_pair_def by blast
  have disj: "set ys \<inter> set zs = {}"
  proof (rule ccontr)
    assume "set ys \<inter> set zs \<noteq> {}"
    then obtain y where y: "y \<in> set ys" "y \<in> set zs" by blast
    then have "?ids ! y \<in> set p \<inter> set q" unfolding ys(1) zs(1) by simp
    with pq have "?ids ! y = ?ids ! s \<or> ?ids ! y = ?ids ! d" unfolding disjoint_pair_def by blast
    with y(1) ys(2) eq s d(1) show False by blast
  qed
  have leave: "\<exists>a. a \<in> pairs (through s d xs) \<and> fst a \<in> R \<and> snd a \<notin> R" for xs
    using pairs_leave [of "through s d xs" R] R by (auto simp: through_def)
  obtain a where a: "a \<in> pairs (through s d ys)" "fst a \<in> R" "snd a \<notin> R" using leave by blast
  obtain b where b: "b \<in> pairs (through s d zs)" "fst b \<in> R" "snd b \<notin> R" using leave by blast
  have "a \<noteq> b"
  proof
    assume ab: "a = b"
    have "a = (out_index s, in_index d)"
      using pairs_through [OF a(1)] pairs_through [OF b(1)] disj ys(2) zs(2) unfolding ab by auto
    with a(1) b(1) ab have "ys = []" "zs = []" using pairs_through_direct ys(2) zs(2) by blast+
    with ys(1) zs(1) pq show False unfolding disjoint_pair_def by simp
  qed
  moreover have "pairs (through s d ys) \<subseteq> set as" "pairs (through s d zs) \<subseteq> set as"
    by (rule through_arcs [OF arcs d s d(2)], use ys zs in blast, use ys zs in blast)+
  then have "{a, b} \<subseteq> {a \<in> set as. fst a \<in> R \<and> snd a \<notin> R}" using a b by auto
  from card_mono [OF _ this] have "card {a, b} \<le> card {a \<in> set as. fst a \<in> R \<and> snd a \<notin> R}" by simp
  ultimately show "2 \<le> card {a \<in> set as. fst a \<in> R \<and> snd a \<notin> R}" by simp
qed

lemma network_start:
  assumes g: "simple_graph adjacency"
  shows "\<exists>G as. flow_network adjacency (node_indexes (map fst adjacency)) s d = Inr G \<and> network_ready adjacency s d as G \<and>
    flow_value G source sink 0"
proof -
  from flow_network_correct [OF g, of s d] obtain G as where G: "flow_network adjacency (node_indexes (map fst adjacency)) s d = Inr G"
    "length G = length adjacency * 2" "network G as" "distinct as"
    "\<forall>a. a \<in> set as \<longleftrightarrow> split_arc (length adjacency) s d a \<or> link_arc adjacency s d a" by blast
  have pa: "paired G" and full: "\<And>u i. u < length G \<Longrightarrow> i < length (G ! u) \<Longrightarrow> re_capacity (G ! u ! i) = re_initial_capacity (G ! u ! i)"
    and arcs: "has_arcs G as" using G(3) by (auto simp: network_def has_arcs_def)
  have "unit_flow G"
    unfolding unit_flow_def
  proof (intro conjI allI impI pa)
    fix u i
    assume ui: "u < length G" "i < length (G ! u)"
    note p = pairedD [OF pa ui]
    from p(6) show "unat (re_capacity (G ! u ! i)) + unat (re_capacity (counterpart G u i)) = 1"
      unfolding counterpart_def full [OF ui] full [OF p(1,3)] .
  qed
  moreover have "flow_value G source sink 0"
    unfolding flow_value_def excess_sum by (simp add: edge_flow_def full)
  ultimately show ?thesis using G arcs by (auto simp: network_ready_def)
qed

lemma two_paths_total:
  assumes g: "simple_graph adjacency" and size: "2 < length adjacency" and s: "s < length adjacency" and d: "d < length adjacency" "s \<noteq> d"
  shows "\<exists>r as. two_internally_vertex_disjoint_paths adjacency (map fst adjacency ! s) (map fst adjacency ! d) = Some r \<and>
    (\<forall>a. a \<in> set as \<longleftrightarrow> split_arc (length adjacency) s d a \<or> link_arc adjacency s d a) \<and>
    (case r of
       None \<Rightarrow> \<not> wide as (out_index s) (in_index d)
     | Some (p, q) \<Rightarrow> disjoint_pair adjacency (map fst adjacency ! s) (map fst adjacency ! d) p q \<and> length p \<le> length q)"
proof -
  let ?ids = "map fst adjacency" and ?s = "out_index s" and ?d = "in_index d"
  have ix: "am_get (node_indexes ?ids) (?ids ! s) = Some s" "am_get (node_indexes ?ids) (?ids ! d) = Some d"
    unfolding simple_graph_index(2) [OF g] using s d by simp_all
  have ne: "?ids ! s \<noteq> ?ids ! d" using nth_eq_iff_index_eq [OF simple_graph_index(1) [OF g], of s d] s d by simp
  from network_start [OF g, of s d ?s ?d] obtain G as where G: "flow_network adjacency (node_indexes ?ids) s d = Inr G"
    "network_ready adjacency s d as G" "flow_value G ?s ?d 0" by blast
  have as: "\<forall>a. a \<in> set as \<longleftrightarrow> split_arc (length adjacency) s d a \<or> link_arc adjacency s d a" "distinct as"
    using G(2) by (auto simp: network_ready_def)
  have start: "two_internally_vertex_disjoint_paths adjacency (?ids ! s) (?ids ! d) =
      Option.bind (augment_unit_flow G ?s ?d) (\<lambda>(augmented, graph).
        if \<not> augmented then Some None
        else Option.bind (augment_unit_flow graph ?s ?d) (\<lambda>(augmented, graph).
          if \<not> augmented then Some None else flow_paths graph ?ids (?ids ! s) (?ids ! d) ?s ?d))"
    using ne size ix G(1) by (simp add: two_internally_vertex_disjoint_paths_def Let_def del: One_nat_def)
  have round: "\<exists>b H. augment_unit_flow G ?s ?d = Some (b, H) \<and>
      (if b then network_ready adjacency s d as H \<and> flow_value H ?s ?d (k + 1) else \<not> wide as ?s ?d)"
    if "network_ready adjacency s d as G" "flow_value G ?s ?d k" "k < 2" for G k
  proof -
    have r: "unit_flow G" "has_arcs G as" "distinct as" "length G = length adjacency * 2" using that(1) by (auto simp: network_ready_def)
    have "?s < length G" "?d < length G" "?s \<noteq> ?d" using r(4) s d by auto
    from augment_round [OF r(1-3) this that(2,3)] obtain b H where H: "augment_unit_flow G ?s ?d = Some (b, H)"
      "if b then unit_flow H \<and> has_arcs H as \<and> length H = length G \<and> flow_value H ?s ?d (k + 1) else \<not> wide as ?s ?d" by blast
    have "if b then network_ready adjacency s d as H \<and> flow_value H ?s ?d (k + 1) else \<not> wide as ?s ?d"
      using H(2) that(1) by (cases b) (simp_all add: network_ready_def)
    with H(1) show ?thesis by blast
  qed
  from round [OF G(2,3)] obtain b H where H: "augment_unit_flow G ?s ?d = Some (b, H)"
    "if b then network_ready adjacency s d as H \<and> flow_value H ?s ?d (0 + 1) else \<not> wide as ?s ?d" by fastforce
  show ?thesis
  proof (cases b)
    case True
    with H(2) have H': "network_ready adjacency s d as H" "flow_value H ?s ?d 1" by simp_all
    from round [OF this] obtain c K where K: "augment_unit_flow H ?s ?d = Some (c, K)"
      "if c then network_ready adjacency s d as K \<and> flow_value K ?s ?d (1 + 1) else \<not> wide as ?s ?d" by fastforce
    have start2: "two_internally_vertex_disjoint_paths adjacency (?ids ! s) (?ids ! d) =
        (if \<not> c then Some None else flow_paths K ?ids (?ids ! s) (?ids ! d) ?s ?d)"
      unfolding start H(1) using True K(1) by (simp del: One_nat_def)
    show ?thesis
    proof (cases c)
      case c: True
      with K(2) have "network_ready adjacency s d as K" "flow_value K ?s ?d 2" by simp_all
      from flow_paths_disjoint [OF g this(1) s d this(2)] obtain p q where
        "flow_paths K ?ids (?ids ! s) (?ids ! d) ?s ?d = Some (Some (p, q))"
        "disjoint_pair adjacency (?ids ! s) (?ids ! d) p q \<and> length p \<le> length q" by blast
      with start2 c as(1) show ?thesis by (intro exI [of _ "Some (p, q)"] exI [of _ as]) simp
    next
      case False
      with start2 K(2) as(1) show ?thesis by (intro exI [of _ None] exI [of _ as]) simp
    qed
  next
    case False
    with start H as(1) show ?thesis by (intro exI [of _ None] exI [of _ as]) simp
  qed
qed

lemma small_walk_unique:
  assumes g: "simple_graph adjacency" and small: "\<not> 2 < length adjacency" and ends: "source \<in> fst ` set adjacency" "destination \<in> fst ` set adjacency" "source \<noteq> destination"
    and p: "walk (linked adjacency) source destination p" "distinct p" and q: "walk (linked adjacency) source destination q" "distinct q"
  shows "p = q"
proof -
  let ?ids = "map fst adjacency"
  from ends have "source \<in> set ?ids" "destination \<in> set ?ids" by simp_all
  then obtain i j where i: "i < length adjacency" "?ids ! i = source" and j: "j < length adjacency" "?ids ! j = destination"
    unfolding in_set_conv_nth by auto
  have ij: "i \<noteq> j" using ends(3) i(2) j(2) by blast
  have two: "y = i \<or> y = j" if "y < length adjacency" for y using that i(1) j(1) ij small by linarith
  have "r = map ((!) ?ids) [i, j]" if "walk (linked adjacency) source destination r" "distinct r" for r
  proof -
    from walk_indexes [OF g i(1) j(1) ij, of r] that i(2) j(2) obtain ys where
      ys: "r = map ((!) ?ids) (i # ys @ [j])" "\<forall>y \<in> set ys. y < length adjacency \<and> y \<noteq> i \<and> y \<noteq> j" by blast
    have "ys = []" using ys(2) two by (cases ys) auto
    then show ?thesis using ys(1) by simp
  qed
  with p q show ?thesis by metis
qed

lemma no_pair_ends:
  assumes g: "simple_graph adjacency" and pq: "disjoint_pair adjacency source destination p q"
  shows "source \<noteq> destination" and "source \<in> fst ` set adjacency" and "destination \<in> fst ` set adjacency" and "2 < length adjacency"
proof -
  have u: "undirected adjacency" using g by (simp add: simple_graph_def)
  have single: "p = [x]" if "walk E x x p" "distinct p" for E and x :: node_id and p
    using that by (cases p) (auto simp: walk_def split: if_splits)
  show ne: "source \<noteq> destination"
  proof
    assume eq: "source = destination"
    have "p = [source]" "q = [source]" using pq single [of "linked adjacency" source] by (auto simp: disjoint_pair_def eq)
    with pq show False by (simp add: disjoint_pair_def)
  qed
  have w: "walk (linked adjacency) source destination p" using pq by (simp add: disjoint_pair_def)
  then obtain y r where "p = source # y # r" using ne by (cases p; cases "tl p") (auto simp: walk_def)
  with w have "linked adjacency source y" by (simp add: walk_def)
  then show s: "source \<in> fst ` set adjacency" by (rule linked_source)
  have "(linked adjacency)\<^sup>*\<^sup>* source destination" using w by (rule walk_rtranclp)
  then show d: "destination \<in> fst ` set adjacency" using s
    by (induction rule: rtranclp_induct) (auto intro: undirected_closed [OF u])
  show "2 < length adjacency"
  proof (rule ccontr)
    assume "\<not> 2 < length adjacency"
    from small_walk_unique [OF g this s d ne] pq show False unfolding disjoint_pair_def by blast
  qed
qed

lemma resilient_pair:
  assumes g: "simple_graph adjacency" and r: "survives_any_failure adjacency" and size: "2 < length adjacency"
    and ends: "source \<in> fst ` set adjacency" "destination \<in> fst ` set adjacency" "source \<noteq> destination"
  shows "\<exists>p q. two_internally_vertex_disjoint_paths adjacency source destination = Some (Some (p, q)) \<and>
    disjoint_pair adjacency source destination p q \<and> length p \<le> length q"
proof -
  let ?ids = "map fst adjacency"
  from ends have "source \<in> set ?ids" "destination \<in> set ?ids" by simp_all
  then obtain s d where s: "s < length adjacency" "?ids ! s = source" and d: "d < length adjacency" "?ids ! d = destination"
    unfolding in_set_conv_nth by auto
  have ne: "s \<noteq> d" using ends(3) s d by blast
  from two_paths_total [OF g size s(1) d(1) ne] s(2) d(2) obtain r as where
    r: "two_internally_vertex_disjoint_paths adjacency source destination = Some r"
    and as: "\<And>a. a \<in> set as \<longleftrightarrow> split_arc (length adjacency) s d a \<or> link_arc adjacency s d a"
    and res: "case r of None \<Rightarrow> \<not> wide as (out_index s) (in_index d)
     | Some (p, q) \<Rightarrow> disjoint_pair adjacency source destination p q \<and> length p \<le> length q" by auto
  have "wide as (out_index s) (in_index d)"
    unfolding wide_def using cut_wide [OF g assms(2) size s(1) d(1) ne as] by blast
  with r res show ?thesis by (cases r) auto
qed

text \<open>
  C15. The search for two disjoint paths always returns, on any undirected graph without loops or repeated edges. It
  returns two paths exactly when there are two walks from the source to the destination that share no node but the
  ends, and then it returns such a pair, the shorter one first.
\<close>

theorem two_paths_exact:
  assumes g: "simple_graph adjacency"
  shows "\<exists>r. two_internally_vertex_disjoint_paths adjacency source destination = Some r \<and>
    (case r of
       None \<Rightarrow> \<nexists>p q. disjoint_pair adjacency source destination p q
     | Some (p, q) \<Rightarrow> disjoint_pair adjacency source destination p q \<and> length p \<le> length q)"
proof (cases "source \<noteq> destination \<and> source \<in> fst ` set adjacency \<and> destination \<in> fst ` set adjacency \<and> 2 < length adjacency")
  case False
  let ?ix = "am_get (node_indexes (map fst adjacency))"
  have none: "?ix x = None" if "x \<notin> fst ` set adjacency" for x
  proof (cases "?ix x")
    case (Some k)
    then show ?thesis using that simple_graph_index(2) [OF g] by (metis in_set_conv_nth length_map list.set_map)
  qed
  have "two_internally_vertex_disjoint_paths adjacency source destination = Some None"
    using False none by (auto simp: two_internally_vertex_disjoint_paths_def Let_def split: option.split)
  moreover have "\<nexists>p q. disjoint_pair adjacency source destination p q" using False no_pair_ends [OF g] by blast
  ultimately show ?thesis by simp
next
  case True
  let ?ids = "map fst adjacency"
  from True have "source \<in> set ?ids" "destination \<in> set ?ids" by simp_all
  then obtain s d where s: "s < length adjacency" "?ids ! s = source" and d: "d < length adjacency" "?ids ! d = destination"
    unfolding in_set_conv_nth by auto
  have ne: "s \<noteq> d" using True s d by blast
  from two_paths_total [OF g _ s(1) d(1) ne] True s(2) d(2) obtain r as where
    r: "two_internally_vertex_disjoint_paths adjacency source destination = Some r"
    and as: "\<And>a. a \<in> set as \<longleftrightarrow> split_arc (length adjacency) s d a \<or> link_arc adjacency s d a"
    and res: "case r of None \<Rightarrow> \<not> wide as (out_index s) (in_index d)
     | Some (p, q) \<Rightarrow> disjoint_pair adjacency source destination p q \<and> length p \<le> length q" by auto
  show ?thesis
  proof (cases r)
    case None
    then have "\<not> disjoint_pair adjacency source destination p q" for p q
      using res pair_wide [OF g s(1) d(1) ne as] s(2) d(2) by auto
    with r None show ?thesis by auto
  qed (use r res in auto)
qed

lemma square_simple: "simple_graph (bt_adjacency square_topology)"
  by (auto simp: simple_graph_def undirected_def bm_wf_def linked_def neighbors_of_def square_topology_def
      split: if_splits option.splits)

lemma square_flow:
  "two_internally_vertex_disjoint_paths (bt_adjacency square_topology) [1] [3] = Some (Some ([[1], [2], [3]], [[1], [4], [3]]))"
  by code_simp

theorem two_paths_exact_witness:
  "two_internally_vertex_disjoint_paths (bt_adjacency square_topology) [1] [3] = Some (Some ([[1], [2], [3]], [[1], [4], [3]])) \<and>
   disjoint_pair (bt_adjacency square_topology) [1] [3] [[1], [2], [3]] [[1], [4], [3]]"
  using two_paths_exact [OF square_simple, of "[1]" "[3]"] square_flow by simp

end
