(* ===== verification/TopologyCache.thy ===== *)
theory TopologyCache
  imports TopologyNetwork
begin

text \<open>
  The pairs of paths that the control plane hands out and the cache they are kept in (\<open>paths\<close> and what it
  calls, \<open>crates/ipars-control-plane/src/bounded_topology.rs\<close>). The cache has a slot for every source, with
  the predecessors of a search over indexes and a slot for every destination. \<open>None\<close> stands for a call that
  does not return, as in the theories before. The lemmas show that the cache never changes an answer, that the
  first path is a shortest one unless no second one goes with it, and that on a synthesized topology of
  three members or more every two members get two paths with no inner node in common.
\<close>

subsection \<open>Paths over indexes\<close>

record indexed_secondary_path =
  is_kind :: secondary_path_kind
  is_nodes :: "nat list"

record indexed_topology_paths =
  it_primary :: "nat list"
  it_secondary :: "indexed_secondary_path option"

definition index_path :: "node_id list \<Rightarrow> (node_id, nat) amap \<Rightarrow> nat list option" where
  "index_path path indexes = those (map (am_get indexes) path)"

definition materialize_indexed_path :: "nat list \<Rightarrow> node_id list \<Rightarrow> node_id list option" where
  "materialize_indexed_path path node_ids =
     those (map (\<lambda>index. if index < length node_ids then Some (node_ids ! index) else None) path)"

definition from_paths :: "topology_paths \<Rightarrow> (node_id, nat) amap \<Rightarrow> indexed_topology_paths option" where
  "from_paths paths indexes =
     Option.bind (index_path (tp_primary paths) indexes) (\<lambda>primary.
       case tp_secondary paths of
         None \<Rightarrow> Some \<lparr>it_primary = primary, it_secondary = None\<rparr>
       | Some secondary \<Rightarrow>
           map_option (\<lambda>nodes. \<lparr>it_primary = primary, it_secondary = Some \<lparr>is_kind = sp_kind secondary, is_nodes = nodes\<rparr>\<rparr>)
             (index_path (sp_nodes secondary) indexes))"

definition materialize :: "indexed_topology_paths \<Rightarrow> node_id list \<Rightarrow> topology_paths option" where
  "materialize paths node_ids =
     Option.bind (materialize_indexed_path (it_primary paths) node_ids) (\<lambda>primary.
       case it_secondary paths of
         None \<Rightarrow> Some \<lparr>tp_primary = primary, tp_secondary = None\<rparr>
       | Some secondary \<Rightarrow>
           map_option (\<lambda>nodes. \<lparr>tp_primary = primary, tp_secondary = Some \<lparr>sp_kind = is_kind secondary, sp_nodes = nodes\<rparr>\<rparr>)
             (materialize_indexed_path (is_nodes secondary) node_ids))"

text \<open>\<open>predecessors.get(index).copied().flatten()\<close>.\<close>

definition predecessor_at :: "nat option list \<Rightarrow> nat \<Rightarrow> nat option" where
  "predecessor_at predecessors index = (if index < length predecessors then predecessors ! index else None)"

definition reconstruct_indexed_path :: "nat \<Rightarrow> nat \<Rightarrow> nat option list \<Rightarrow> nat list option option" where
  "reconstruct_indexed_path source_index destination_index predecessors =
     trace_back (predecessor_at predecessors) source_index destination_index"

definition predecessor_step :: "nat list list \<Rightarrow> nat mark_search \<Rightarrow> unit + nat mark_search" where
  "predecessor_step adjacency s =
     (case ms_queue s of
        [] \<Rightarrow> Inr s
      | current # queue \<Rightarrow>
          if length adjacency \<le> current then Inl ()
          else for_each (mark_neighbor (\<lambda>_. False) (Some current)) (adjacency ! current) (s\<lparr>ms_queue := queue\<rparr>))"

definition indexed_shortest_path_predecessors :: "bounded_topology \<Rightarrow> nat \<Rightarrow> nat option list option option" where
  "indexed_shortest_path_predecessors t source_index =
     (if length (bt_indexed_adjacency t) \<le> source_index then Some None
      else case while_loop (\<lambda>s. ms_queue s \<noteq> []) (predecessor_step (bt_indexed_adjacency t))
          \<lparr>ms_marks = (replicate (length (bt_indexed_adjacency t)) None)[source_index := Some source_index],
           ms_queue = [source_index]\<rparr> of
        Some (Inr s) \<Rightarrow> Some (Some (ms_marks s))
      | _ \<Rightarrow> None)"

subsection \<open>A pair of paths and its cache\<close>

definition paths_from_primary :: "bounded_topology \<Rightarrow> node_id \<Rightarrow> node_id \<Rightarrow> node_id list \<Rightarrow> topology_paths option" where
  "paths_from_primary t source destination primary =
     (if source = destination then Some \<lparr>tp_primary = primary, tp_secondary = None\<rparr>
      else Option.bind (secondary_path_of t source destination primary) (\<lambda>secondary.
        if (case secondary of None \<Rightarrow> False | Some path \<Rightarrow> sp_kind path = VertexDisjoint)
        then Some \<lparr>tp_primary = primary, tp_secondary = secondary\<rparr>
        else map_option (\<lambda>pair.
            case pair of
              Some (primary, nodes) \<Rightarrow>
                \<lparr>tp_primary = primary, tp_secondary = Some \<lparr>sp_kind = VertexDisjoint, sp_nodes = nodes\<rparr>\<rparr>
            | None \<Rightarrow> \<lparr>tp_primary = primary, tp_secondary = secondary\<rparr>)
          (two_internally_vertex_disjoint_paths (bt_adjacency t) source destination)))"

record cached_source_paths =
  cs_predecessors :: "nat option list"
  cs_by_destination :: "indexed_topology_paths option option list"

type_synonym source_path_cache = "cached_source_paths option list"

definition source_path_cache_new :: "nat \<Rightarrow> source_path_cache" where
  "source_path_cache_new node_count = replicate node_count None"

definition compute_paths_from :: "bounded_topology \<Rightarrow> nat \<Rightarrow> cached_source_paths option" where
  "compute_paths_from t source_index =
     map_option (\<lambda>predecessors.
         \<lparr>cs_predecessors = (case predecessors of None \<Rightarrow> [] | Some predecessors \<Rightarrow> predecessors),
          cs_by_destination = replicate (length (bt_routing_node_ids t)) None\<rparr>)
       (indexed_shortest_path_predecessors t source_index)"

definition cached_paths_from ::
  "bounded_topology \<Rightarrow> nat \<Rightarrow> source_path_cache \<Rightarrow> (cached_source_paths option \<times> source_path_cache) option" where
  "cached_paths_from t source_index cache =
     (if length cache \<le> source_index then Some (None, cache)
      else case cache ! source_index of
        Some source_paths \<Rightarrow> Some (Some source_paths, cache)
      | None \<Rightarrow>
          map_option (\<lambda>source_paths. (Some source_paths, cache[source_index := Some source_paths]))
            (compute_paths_from t source_index))"

definition compute_pair_paths ::
  "bounded_topology \<Rightarrow> nat \<Rightarrow> nat \<Rightarrow> nat option list \<Rightarrow> indexed_topology_paths option option" where
  "compute_pair_paths t source_index destination_index predecessors =
     (if length (bt_routing_node_ids t) \<le> source_index \<or> length (bt_routing_node_ids t) \<le> destination_index then Some None
      else
        let source = bt_routing_node_ids t ! source_index; destination = bt_routing_node_ids t ! destination_index in
        Option.bind (reconstruct_indexed_path source_index destination_index predecessors) (\<lambda>path.
          case Option.bind path (\<lambda>primary. materialize_indexed_path primary (bt_routing_node_ids t)) of
            None \<Rightarrow> Some None
          | Some primary \<Rightarrow>
              map_option (\<lambda>paths. from_paths paths (bt_routing_node_indexes t))
                (paths_from_primary t source destination primary)))"

definition paths ::
  "bounded_topology \<Rightarrow> node_id \<Rightarrow> node_id \<Rightarrow> source_path_cache \<Rightarrow> (topology_paths option \<times> source_path_cache) option" where
  "paths t source destination cache =
     (case (am_get (bt_routing_node_indexes t) source, am_get (bt_routing_node_indexes t) destination) of
        (Some source_index, Some destination_index) \<Rightarrow>
          Option.bind (cached_paths_from t source_index cache) (\<lambda>(found, cache).
            case found of
              None \<Rightarrow> Some (None, cache)
            | Some source_paths \<Rightarrow>
                if length (cs_by_destination source_paths) \<le> destination_index then Some (None, cache)
                else
                  map_option (\<lambda>pair.
                      (Option.bind pair (\<lambda>pair. materialize pair (bt_routing_node_ids t)),
                       cache[source_index := Some (source_paths\<lparr>cs_by_destination :=
                         (cs_by_destination source_paths)[destination_index := Some pair]\<rparr>)]))
                    (case cs_by_destination source_paths ! destination_index of
                       Some pair \<Rightarrow> Some pair
                     | None \<Rightarrow> compute_pair_paths t source_index destination_index (cs_predecessors source_paths)))
      | _ \<Rightarrow> Some (None, cache))"

subsection \<open>Shortest paths over indexes\<close>

definition row :: "nat list list \<Rightarrow> nat \<Rightarrow> nat list" where
  "row adjacency u = (if u < length adjacency then adjacency ! u else [])"

definition row_space :: "nat list list \<Rightarrow> nat \<Rightarrow> nat set" where
  "row_space adjacency source = insert source (\<Union>(set ` set adjacency))"

interpretation ipath: bfs "row adjacency" "\<lambda>_ _. True" source "row_space adjacency source"
  for adjacency source
proof
  fix z u
  assume "z \<in> set (row adjacency u)"
  then show "z \<in> row_space adjacency source"
    unfolding row_def row_space_def by (cases "u < length adjacency") (auto intro: nth_mem)
qed (simp_all add: row_space_def)

lemma ipath_edge: "ipath.edge (bt_indexed_adjacency t) = ilink t"
  by (intro ext) (simp add: ipath.edge_def row_def ilink_def)

definition predecessors_ok :: "nat list list \<Rightarrow> nat option list \<Rightarrow> (nat \<rightharpoonup> nat) \<Rightarrow> bool" where
  "predecessors_ok adjacency marks depth \<longleftrightarrow> length marks = length adjacency \<and> dom (predecessor_at marks) = dom depth \<and>
     ipath.pred_chain adjacency depth (predecessor_at marks)"

lemma predecessor_at_update:
  "z < length marks \<Longrightarrow> predecessor_at (marks[z := Some u]) = (predecessor_at marks)(z \<mapsto> u)"
  by (auto simp: predecessor_at_def)

lemma predecessor_mark_inv:
  assumes inv: "predecessors_ok adjacency (ms_marks s) depth" and z: "z < length adjacency"
    and scan: "ipath.scanning adjacency source depth (ms_queue s) u (z # R)"
  shows "\<exists>s' depth'. mark_neighbor (\<lambda>_. False) (Some u) z s = Inr s' \<and> predecessors_ok adjacency (ms_marks s') depth' \<and>
    ipath.work adjacency source depth' (ms_queue s') = ipath.work adjacency source depth (ms_queue s) \<and>
    ipath.scanning adjacency source depth' (ms_queue s') u R"
proof -
  have len: "length (ms_marks s) = length adjacency" using inv by (simp add: predecessors_ok_def)
  have "z \<in> dom (predecessor_at (ms_marks s)) \<longleftrightarrow> z \<in> dom depth" using inv by (simp add: predecessors_ok_def)
  then have known: "ms_marks s ! z \<noteq> None \<longleftrightarrow> z \<in> dom depth" using z len by (simp add: domIff predecessor_at_def)
  show ?thesis
  proof (cases "z \<in> dom depth")
    case True
    then have "mark_neighbor (\<lambda>_. False) (Some u) z s = Inr s" using known z len by (simp add: mark_neighbor_def)
    with inv ipath.skip [OF scan] True show ?thesis by auto
  next
    case False
    let ?depth = "depth(z \<mapsto> Suc (the (depth u)))"
    let ?s = "s\<lparr>ms_marks := (ms_marks s)[z := Some u], ms_queue := ms_queue s @ [z]\<rparr>"
    have step: "mark_neighbor (\<lambda>_. False) (Some u) z s = Inr ?s" using False known z len by (simp add: mark_neighbor_def)
    note marked = ipath.mark [OF scan TrueI False]
    have zl: "z < length (ms_marks s)" using z len by simp
    have chain: "ipath.pred_chain adjacency depth (predecessor_at (ms_marks s))" and
      dom: "dom (predecessor_at (ms_marks s)) = dom depth" using inv by (simp_all add: predecessors_ok_def)
    have "predecessors_ok adjacency ((ms_marks s)[z := Some u]) ?depth"
      unfolding predecessors_ok_def predecessor_at_update [OF zl]
      using ipath.chain_mark [OF chain scan TrueI False] dom len by simp
    with step marked show ?thesis by (intro exI [of _ ?s] exI [of _ ?depth]) simp
  qed
qed

lemma predecessor_step_inv:
  assumes ok: "\<forall>x < length adjacency. set (adjacency ! x) \<subseteq> {..<length adjacency}" and s: "source < length adjacency"
    and inv: "predecessors_ok adjacency (ms_marks st) depth"
    and q: "ipath.queued adjacency source depth (ms_queue st)" "ms_queue st \<noteq> []"
  shows "\<exists>s' depth'. predecessor_step adjacency st = Inr s' \<and> predecessors_ok adjacency (ms_marks s') depth' \<and>
    ipath.work adjacency source depth' (ms_queue s') < ipath.work adjacency source depth (ms_queue st) \<and>
    ipath.queued adjacency source depth' (ms_queue s')"
proof -
  from q(2) obtain u rest where st: "ms_queue st = u # rest" by (cases "ms_queue st") auto
  let ?st = "st\<lparr>ms_queue := rest\<rparr>"
  have space: "row_space adjacency source \<subseteq> {..<length adjacency}"
  proof -
    have "set ns \<subseteq> {..<length adjacency}" if "ns \<in> set adjacency" for ns
      using that ok unfolding in_set_conv_nth by blast
    then show ?thesis using s by (auto simp: row_space_def)
  qed
  have "u \<in> row_space adjacency source" using q(1) st by (auto simp: ipath.queued_def ipath.base_def)
  then have u: "u < length adjacency" using space by auto
  have loop: "\<exists>s' depth'. for_each (mark_neighbor (\<lambda>_. False) (Some u)) R t = Inr s' \<and> predecessors_ok adjacency (ms_marks s') depth' \<and>
      ipath.work adjacency source depth' (ms_queue s') = ipath.work adjacency source d (ms_queue t) \<and>
      ipath.scanning adjacency source depth' (ms_queue s') u []"
    if "predecessors_ok adjacency (ms_marks t) d" "ipath.scanning adjacency source d (ms_queue t) u R" "set R \<subseteq> {..<length adjacency}" for R t d
    using that
  proof (induction R arbitrary: t d)
    case (Cons z R)
    have z: "z < length adjacency" using Cons.prems(3) by simp
    from predecessor_mark_inv [OF Cons.prems(1) z Cons.prems(2)] obtain s' d' where s': "mark_neighbor (\<lambda>_. False) (Some u) z t = Inr s'"
      "predecessors_ok adjacency (ms_marks s') d'" "ipath.work adjacency source d' (ms_queue s') = ipath.work adjacency source d (ms_queue t)"
      "ipath.scanning adjacency source d' (ms_queue s') u R" by blast
    from Cons.IH [OF s'(2,4)] Cons.prems(3) s'(1,3) show ?case by simp
  qed auto
  have "ipath.scanning adjacency source depth (ms_queue ?st) u (adjacency ! u)"
    using ipath.take [of adjacency source depth u rest] q(1) st u by (simp add: row_def)
  from loop [OF _ this] inv ok u obtain s' depth' where s': "for_each (mark_neighbor (\<lambda>_. False) (Some u)) (adjacency ! u) ?st = Inr s'"
    "predecessors_ok adjacency (ms_marks s') depth'" "ipath.work adjacency source depth' (ms_queue s') = ipath.work adjacency source depth rest"
    "ipath.scanning adjacency source depth' (ms_queue s') u []" by auto
  have "predecessor_step adjacency st = Inr s'" using s'(1) st u by (simp add: predecessor_step_def)
  with s' ipath.close [OF s'(4)] ipath.work_take [of adjacency source depth rest u] st show ?thesis by auto
qed

lemma predecessors_total:
  assumes ok: "indexed_ok t" and s: "s < length (bt_routing_node_ids t)"
  shows "\<exists>marks depth. indexed_shortest_path_predecessors t s = Some (Some marks) \<and>
    predecessors_ok (bt_indexed_adjacency t) marks depth \<and> ipath.queued (bt_indexed_adjacency t) s depth []"
proof -
  let ?A = "bt_indexed_adjacency t"
  let ?i = "\<lparr>ms_marks = (replicate (length ?A) None)[s := Some s], ms_queue = [s]\<rparr>"
  have len: "length ?A = length (bt_routing_node_ids t)" using ok by (simp add: indexed_ok_def)
  have in_range: "\<forall>x < length ?A. set (?A ! x) \<subseteq> {..<length ?A}"
    using ok len by (auto simp: indexed_ok_def ilink_def)
  define P where "P st \<longleftrightarrow> (\<exists>depth. predecessors_ok ?A (ms_marks st) depth \<and> ipath.queued ?A s depth (ms_queue st))" for st :: "nat mark_search"
  define w where "w st = card (row_space ?A s - dom (predecessor_at (ms_marks st))) + length (ms_queue st)" for st :: "nat mark_search"
  have w: "w st = ipath.work ?A s depth (ms_queue st)" if "predecessors_ok ?A (ms_marks st) depth" for st depth
    using that by (simp add: w_def ipath.work_def predecessors_ok_def)
  have "(\<exists>r. while_loop (\<lambda>s. ms_queue s \<noteq> []) (predecessor_step ?A) ?i = Some (Inl r) \<and> False) \<or>
    (\<exists>t. while_loop (\<lambda>s. ms_queue s \<noteq> []) (predecessor_step ?A) ?i = Some (Inr t) \<and> P t \<and> \<not> ms_queue t \<noteq> [])"
  proof (rule while_loop_total [where f = w])
    have "predecessor_at (ms_marks ?i) = [s \<mapsto> s]" using s len by (auto simp: predecessor_at_def fun_eq_iff nth_list_update)
    then have "predecessors_ok ?A (ms_marks ?i) [s \<mapsto> 0]"
      unfolding predecessors_ok_def by (simp add: ipath.chain_start)
    then show "P ?i" unfolding P_def using ipath.start by (intro exI [of _ "[s \<mapsto> 0]"]) simp
    fix st
    assume "P st" and q: "ms_queue st \<noteq> []"
    then obtain depth where d: "predecessors_ok ?A (ms_marks st) depth" "ipath.queued ?A s depth (ms_queue st)" unfolding P_def by blast
    have sl: "s < length ?A" using s len by simp
    from predecessor_step_inv [OF in_range sl d q] obtain s' depth' where s': "predecessor_step ?A st = Inr s'"
      "predecessors_ok ?A (ms_marks s') depth'" "ipath.work ?A s depth' (ms_queue s') < ipath.work ?A s depth (ms_queue st)"
      "ipath.queued ?A s depth' (ms_queue s')" by blast
    have "P s'" unfolding P_def using s'(2,4) by blast
    then show "case predecessor_step ?A st of Inl r \<Rightarrow> False | Inr s' \<Rightarrow> P s' \<and> w s' < w st"
      using s'(1,3) w [OF s'(2)] w [OF d(1)] by simp
  qed
  then obtain r where loop: "while_loop (\<lambda>s. ms_queue s \<noteq> []) (predecessor_step ?A) ?i = Some (Inr r)" and P: "P r" and e: "ms_queue r = []"
    by blast
  from P e obtain depth where "predecessors_ok ?A (ms_marks r) depth" "ipath.queued ?A s depth []" unfolding P_def by auto
  moreover have "indexed_shortest_path_predecessors t s = Some (Some (ms_marks r))"
    using loop s len by (simp add: indexed_shortest_path_predecessors_def)
  ultimately show ?thesis by blast
qed

lemma reconstruct_shortest:
  assumes ok: "indexed_ok t" and s: "s < length (bt_routing_node_ids t)" and reach: "(ilink t)\<^sup>*\<^sup>* s d"
  shows "\<exists>marks p. indexed_shortest_path_predecessors t s = Some (Some marks) \<and>
    reconstruct_indexed_path s d marks = Some (Some p) \<and> walk (ilink t) s d p \<and> distinct p \<and>
    (\<forall>k. steps (ilink t) k s d \<longrightarrow> length p \<le> Suc k)"
proof -
  let ?A = "bt_indexed_adjacency t"
  from predecessors_total [OF ok s] obtain marks depth where m: "indexed_shortest_path_predecessors t s = Some (Some marks)"
    "predecessors_ok ?A marks depth" "ipath.queued ?A s depth []" by blast
  have base: "ipath.base ?A s depth" using m(3) by (simp add: ipath.queued_def)
  have chain: "ipath.pred_chain ?A depth (predecessor_at marks)" using m(2) by (simp add: predecessors_ok_def)
  have "d \<in> dom depth" using ipath.reachable [OF m(3)] reach by (simp add: ipath_edge)
  then obtain n where n: "depth d = Some n" by blast
  from ipath.trace_back_walk [OF base chain n] obtain p where p: "reconstruct_indexed_path s d marks = Some (Some p)"
    "walk (ilink t) s d p" "length p = Suc n" "distinct p" by (auto simp: reconstruct_indexed_path_def ipath_edge)
  have "length p \<le> Suc k" if "steps (ilink t) k s d" for k
    using ipath.complete [OF m(3), of k d] that n p(3) by (auto simp: ipath_edge)
  with m(1) p show ?thesis by blast
qed

lemma materialize_indexes:
  assumes "set p \<subseteq> {..<length ids}"
  shows "materialize_indexed_path p ids = Some (map ((!) ids) p)"
  unfolding materialize_indexed_path_def using assms by (intro those_map_Some) auto

lemma index_materialize:
  assumes "distinct ids" and "set p \<subseteq> set ids"
  shows "\<exists>ks. index_path p (node_indexes ids) = Some ks \<and> materialize_indexed_path ks ids = Some p"
proof -
  have "\<exists>k. k < length ids \<and> ids ! k = x \<and> am_get (node_indexes ids) x = Some k" if "x \<in> set p" for x
  proof -
    from that assms(2) have "x \<in> set ids" by blast
    then obtain k where "k < length ids" "ids ! k = x" unfolding in_set_conv_nth by blast
    then show ?thesis using node_indexes_get [OF assms(1), of x k] by blast
  qed
  then obtain f where f: "\<And>x. x \<in> set p \<Longrightarrow> f x < length ids \<and> ids ! f x = x \<and> am_get (node_indexes ids) x = Some (f x)" by metis
  have "index_path p (node_indexes ids) = Some (map f p)"
    unfolding index_path_def by (rule those_map_Some) (use f in blast)
  moreover have "materialize_indexed_path (map f p) ids = Some (map ((!) ids) (map f p))"
    by (rule materialize_indexes) (use f in auto)
  moreover have "map ((!) ids) (map f p) = p" using f by (simp add: map_idI)
  ultimately show ?thesis by metis
qed

lemma from_paths_materialize:
  assumes "distinct ids" and "set (tp_primary ps) \<subseteq> set ids" and "\<And>sec. tp_secondary ps = Some sec \<Longrightarrow> set (sp_nodes sec) \<subseteq> set ids"
  shows "\<exists>ix. from_paths ps (node_indexes ids) = Some ix \<and> materialize ix ids = Some ps"
proof -
  from index_materialize [OF assms(1,2)] obtain ks where ks: "index_path (tp_primary ps) (node_indexes ids) = Some ks"
    "materialize_indexed_path ks ids = Some (tp_primary ps)" by blast
  show ?thesis
  proof (cases "tp_secondary ps")
    case None
    then show ?thesis using ks by (simp add: from_paths_def materialize_def)
  next
    case (Some sec)
    from index_materialize [OF assms(1) assms(3) [OF Some]] obtain ls where "index_path (sp_nodes sec) (node_indexes ids) = Some ls"
      "materialize_indexed_path ls ids = Some (sp_nodes sec)" by blast
    then show ?thesis using Some ks by (simp add: from_paths_def materialize_def)
  qed
qed

subsection \<open>Pairs of paths\<close>

definition good_paths :: "bounded_topology \<Rightarrow> node_id \<Rightarrow> node_id \<Rightarrow> topology_paths \<Rightarrow> bool" where
  "good_paths t source destination ps \<longleftrightarrow>
     walk (linked (bt_adjacency t)) source destination (tp_primary ps) \<and> distinct (tp_primary ps) \<and>
     (case tp_secondary ps of
        None \<Rightarrow> source = destination \<or> length (bt_adjacency t) = 2
      | Some secondary \<Rightarrow> sp_kind secondary = VertexDisjoint \<and>
          disjoint_pair (bt_adjacency t) source destination (tp_primary ps) (sp_nodes secondary) \<and>
          length (tp_primary ps) \<le> length (sp_nodes secondary))"

lemma usable_linked: "usable t [] [] = linked (bt_adjacency t)"
  by (intro ext) (simp add: usable_def passable_def edge_is_unavailable_def split: option.split)

lemma path_edges_nonempty:
  assumes "walk E x z p" and "distinct p" and "x \<noteq> z"
  shows "set (path_edges p) \<noteq> {}"
proof -
  from assms obtain a b r where "p = a # b # r" "a \<noteq> b" by (cases p; cases "tl p") (auto simp: walk_def)
  moreover obtain e where "topology_edge_new a b = Some e" using \<open>a \<noteq> b\<close> by (cases "a < b") (auto simp: topology_edge_new_def)
  ultimately have "e \<in> set (path_edges p)" by (simp add: set_insort_insert)
  then show ?thesis by (metis empty_iff)
qed

lemma beside_pair:
  assumes "walk (linked (bt_adjacency t)) x z p" and "distinct p" and "x \<noteq> z"
    and "disjoint_beside t [] x z p sec" and "sp_kind sec = VertexDisjoint"
  shows "disjoint_pair (bt_adjacency t) x z p (sp_nodes sec)"
proof -
  have "p \<noteq> sp_nodes sec"
    using assms(4) path_edges_nonempty [OF assms(1-3)] by (auto simp: disjoint_beside_def)
  then show ?thesis using assms by (simp add: disjoint_pair_def disjoint_beside_def usable_linked)
qed

lemma secondary_path_cases:
  assumes w: "walk (linked (bt_adjacency t)) x z p" "distinct p" "x \<noteq> z"
  shows "\<exists>sec. secondary_path_of t x z p = Some sec \<and> (case sec of None \<Rightarrow> True | Some s \<Rightarrow> disjoint_beside t [] x z p s)"
proof -
  let ?inner = "fold insort_insert (internal_nodes p) []" and ?edges = "path_edges p"
  have wu: "walk (usable t [] []) x z p" using w(1) by (simp add: usable_linked)
  have inner: "set ?inner = set (internal_nodes p) \<union> set []" by (simp add: set_fold_insort)
  consider q where "shortest_path_avoiding t x z ?inner ?edges = Some (Some q)" "walk (usable t ?inner ?edges) x z q" "distinct q"
    | "shortest_path_avoiding t x z ?inner ?edges = Some None"
    using shortest_path_avoiding_cases [of t x z ?inner ?edges] by blast
  then show ?thesis
  proof cases
    case (1 q)
    with vertex_disjoint_beside [OF wu w(2,3) 1(2,3) inner] show ?thesis by (simp add: secondary_path_of_def Let_def)
  next
    case 2
    consider q where "shortest_path_avoiding t x z [] ?edges = Some (Some q)" "walk (usable t [] ?edges) x z q" "distinct q"
      | "shortest_path_avoiding t x z [] ?edges = Some None"
      using shortest_path_avoiding_cases [of t x z "[]" ?edges] by blast
    then show ?thesis
    proof cases
      case (1 q)
      with edge_disjoint_beside [OF 1(2,3)] 2 show ?thesis by (simp add: secondary_path_of_def Let_def)
    qed (use 2 in \<open>simp add: secondary_path_of_def Let_def\<close>)
  qed
qed

lemma paths_from_primary_good:
  assumes g: "simple_graph (bt_adjacency t)" and r: "survives_any_failure (bt_adjacency t)"
    and ends: "x \<in> fst ` set (bt_adjacency t)" "z \<in> fst ` set (bt_adjacency t)" "x \<noteq> z"
    and p: "walk (linked (bt_adjacency t)) x z p" "distinct p" "\<And>k. steps (linked (bt_adjacency t)) k x z \<Longrightarrow> length p \<le> Suc k"
  shows "\<exists>ps. paths_from_primary t x z p = Some ps \<and> good_paths t x z ps"
proof -
  let ?A = "bt_adjacency t"
  from secondary_path_cases [OF p(1,2) ends(3)] obtain sec where sec: "secondary_path_of t x z p = Some sec"
    "case sec of None \<Rightarrow> True | Some s \<Rightarrow> disjoint_beside t [] x z p s" by blast
  have shortest: "length p \<le> length q" if "walk (linked ?A) x z q" for q
    using p(3) [OF walk_steps [OF that]] that by (cases q) (auto simp: walk_def)
  show ?thesis
  proof (cases "case sec of None \<Rightarrow> False | Some path \<Rightarrow> sp_kind path = VertexDisjoint")
    case True
    then obtain s where s: "sec = Some s" "sp_kind s = VertexDisjoint" by (cases sec) auto
    have pair: "disjoint_pair ?A x z p (sp_nodes s)" by (rule beside_pair [OF p(1,2) ends(3)]) (use sec(2) s in simp_all)
    then have "length p \<le> length (sp_nodes s)" by (intro shortest) (simp add: disjoint_pair_def)
    then show ?thesis using sec(1) s pair p ends(3) by (simp add: paths_from_primary_def good_paths_def)
  next
    case False
    show ?thesis
    proof (cases "2 < length ?A")
      case big: True
      from resilient_pair [OF g r this ends] obtain p' q where flow: "two_internally_vertex_disjoint_paths ?A x z = Some (Some (p', q))"
        "disjoint_pair ?A x z p' q" "length p' \<le> length q" by blast
      then show ?thesis using sec(1) False ends(3)
        by (auto simp: paths_from_primary_def good_paths_def disjoint_pair_def)
    next
      case small: False
      have none: "sec = None"
      proof (cases sec)
        case (Some s)
        with sec(2) have s: "disjoint_beside t [] x z p s" by simp
        then have "p = sp_nodes s"
          by (intro small_walk_unique [OF g small ends p(1,2)]) (simp_all add: disjoint_beside_def usable_linked)
        with s path_edges_nonempty [OF p(1,2) ends(3)] show ?thesis by (simp add: disjoint_beside_def)
      qed
      have "card {x, z} \<le> card (fst ` set ?A)" using ends by (intro card_mono) auto
      then have "2 \<le> length ?A" using length_keys [of ?A] g ends(3) by (simp add: simple_graph_def undirected_def)
      then have "length ?A = 2" using small by simp
      then show ?thesis using sec(1) none ends(3) p
        by (simp add: paths_from_primary_def good_paths_def two_internally_vertex_disjoint_paths_def)
    qed
  qed
qed

lemma walk_keys:
  assumes "undirected adjacency" and "walk (linked adjacency) x z p" and "x \<in> fst ` set adjacency"
  shows "set p \<subseteq> fst ` set adjacency"
proof -
  have "set q \<subseteq> fst ` set adjacency" if "successively (linked adjacency) q" "q \<noteq> []" "hd q \<in> fst ` set adjacency" for q
    using that
  proof (induction q rule: induct_list012)
    case (3 x y zs)
    then have "y \<in> fst ` set adjacency" using undirected_closed [OF assms(1), of x y] by simp
    then show ?case using 3 by simp
  qed auto
  from this [of p] assms(2,3) show ?thesis by (simp add: walk_def)
qed

definition routable :: "bounded_topology \<Rightarrow> bool" where
  "routable t \<longleftrightarrow> over_members t \<and> all_connected (bt_adjacency t) \<and> survives_any_failure (bt_adjacency t) \<and>
     simple_graph (bt_adjacency t) \<and> indexed_ok t"

lemma steps_members:
  assumes "over_members t" and "s < length (bt_routing_node_ids t)" and "steps (linked (bt_adjacency t)) k (bt_routing_node_ids t ! s) y"
  shows "\<exists>j < length (bt_routing_node_ids t). bt_routing_node_ids t ! j = y \<and> steps (ilink t) k s j"
  using assms(2,3)
proof (induction k arbitrary: s)
  case (Suc k)
  from Suc.prems(2) obtain z where z: "linked (bt_adjacency t) (bt_routing_node_ids t ! s) z" "steps (linked (bt_adjacency t)) k z y"
    by (auto simp: steps_Suc)
  have "z \<in> set (bt_routing_node_ids t)"
    using undirected_closed [OF _ z(1)] assms(1) by (simp add: over_members_def)
  then obtain j where j: "j < length (bt_routing_node_ids t)" "bt_routing_node_ids t ! j = z" unfolding in_set_conv_nth by blast
  have "ilink t s j" using ilink_linked [OF assms(1) Suc.prems(1)] z(1) j by simp
  with Suc.IH [OF j(1)] z(2) j(2) show ?case by (auto simp: steps_Suc)
qed auto

lemma pair_paths_good:
  assumes t: "routable t" and s: "s < length (bt_routing_node_ids t)" and d: "d < length (bt_routing_node_ids t)"
  shows "\<exists>marks ix ps. indexed_shortest_path_predecessors t s = Some (Some marks) \<and> compute_pair_paths t s d marks = Some (Some ix) \<and>
    materialize ix (bt_routing_node_ids t) = Some ps \<and> good_paths t (bt_routing_node_ids t ! s) (bt_routing_node_ids t ! d) ps"
proof -
  let ?ids = "bt_routing_node_ids t" and ?A = "bt_adjacency t"
  let ?x = "?ids ! s" and ?z = "?ids ! d"
  have ov: "over_members t" and conn: "all_connected ?A" and res: "survives_any_failure ?A" and g: "simple_graph ?A" and ok: "indexed_ok t"
    using t by (simp_all add: routable_def)
  have keys: "fst ` set ?A = set ?ids" and u: "undirected ?A" and dist: "distinct ?ids" and ix: "bt_routing_node_indexes t = node_indexes ?ids"
    using ov by (simp_all add: over_members_def)
  have ends: "?x \<in> fst ` set ?A" "?z \<in> fst ` set ?A" using s d keys by simp_all
  have "(linked ?A)\<^sup>*\<^sup>* ?x ?z" using conn ends unfolding all_connected_def by blast
  then have "(\<lambda>a b. linked ?A a b \<and> True)\<^sup>*\<^sup>* ?x ?z" by simp
  then have "(\<lambda>a b. ilink t a b \<and> True)\<^sup>*\<^sup>* s d" using index_walks [OF ov s, of "\<lambda>_ _. True" d] d by blast
  then have "(ilink t)\<^sup>*\<^sup>* s d" by simp
  from reconstruct_shortest [OF ok s this] obtain marks p where m: "indexed_shortest_path_predecessors t s = Some (Some marks)"
    and p: "reconstruct_indexed_path s d marks = Some (Some p)" "walk (ilink t) s d p" "distinct p"
      "\<forall>k. steps (ilink t) k s d \<longrightarrow> length p \<le> Suc k" by blast
  have "set q \<subseteq> {..<length ?ids}" if "successively (ilink t) q" "q \<noteq> []" "hd q < length ?ids" for q
    using that by (induction q rule: induct_list012) (auto dest: over_members_ilink [OF ov])
  from this [of p] p(2) s have sub: "set p \<subseteq> {..<length ?ids}" by (simp add: walk_def)
  let ?p = "map ((!) ?ids) p"
  have "successively (\<lambda>a b. linked ?A (?ids ! a) (?ids ! b)) p"
    using p(2) ilink_linked [OF ov over_members_ilink(1) [OF ov]] unfolding walk_def by (auto elim!: successively_mono)
  then have w: "walk (linked ?A) ?x ?z ?p" using p(2) unfolding walk_def successively_map by (simp add: hd_map last_map)
  have "inj_on ((!) ?ids) (set p)" by (rule inj_on_nth [OF dist]) (use sub in auto)
  then have dp: "distinct ?p" using p(3) by (simp add: distinct_map)
  have short: "length ?p \<le> Suc k" if k: "steps (linked ?A) k ?x ?z" for k
  proof -
    from steps_members [OF ov s k] obtain j where "j < length ?ids" "?ids ! j = ?z" "steps (ilink t) k s j" by blast
    moreover from this have "j = d" using over_members_nth [OF ov _ d] by simp
    ultimately show ?thesis using p(4) by simp
  qed
  have "\<exists>ps. paths_from_primary t ?x ?z ?p = Some ps \<and> good_paths t ?x ?z ps"
  proof (cases "?x = ?z")
    case True
    then show ?thesis using w dp by (simp add: paths_from_primary_def good_paths_def)
  next
    case False
    show ?thesis by (rule paths_from_primary_good [OF g res ends False w dp short])
  qed
  then obtain ps where ps: "paths_from_primary t ?x ?z ?p = Some ps" "good_paths t ?x ?z ps" by blast
  have "set (tp_primary ps) \<subseteq> set ?ids" using ps(2) walk_keys [OF u _ ends(1)] keys by (auto simp: good_paths_def)
  moreover have "set (sp_nodes sec) \<subseteq> set ?ids" if "tp_secondary ps = Some sec" for sec
    using ps(2) that walk_keys [OF u _ ends(1)] keys by (auto simp: good_paths_def disjoint_pair_def)
  ultimately obtain ix' where ix': "from_paths ps (node_indexes ?ids) = Some ix'" "materialize ix' ?ids = Some ps"
    using from_paths_materialize [OF dist] by blast
  have "compute_pair_paths t s d marks = Some (Some ix')"
    using s d p(1) materialize_indexes [OF sub] ps(1) ix'(1) ix by (simp add: compute_pair_paths_def Let_def)
  with m ix'(2) ps(2) show ?thesis by blast
qed

subsection \<open>The cache\<close>

definition slot_ok :: "bounded_topology \<Rightarrow> nat \<Rightarrow> cached_source_paths \<Rightarrow> bool" where
  "slot_ok t i cs \<longleftrightarrow> indexed_shortest_path_predecessors t i = Some (Some (cs_predecessors cs)) \<and>
     length (cs_by_destination cs) = length (bt_routing_node_ids t) \<and>
     (\<forall>j < length (bt_routing_node_ids t). \<forall>pair. cs_by_destination cs ! j = Some pair \<longrightarrow>
        compute_pair_paths t i j (cs_predecessors cs) = Some pair)"

definition path_cache_ok :: "bounded_topology \<Rightarrow> source_path_cache \<Rightarrow> bool" where
  "path_cache_ok t cache \<longleftrightarrow> length cache = length (bt_routing_node_ids t) \<and>
     (\<forall>i < length cache. \<forall>cs. cache ! i = Some cs \<longrightarrow> slot_ok t i cs)"

lemma path_cache_new: "path_cache_ok t (source_path_cache_new (length (bt_routing_node_ids t)))"
  by (simp add: path_cache_ok_def source_path_cache_new_def)

lemma path_cache_update:
  assumes "path_cache_ok t cache" and "slot_ok t i cs"
  shows "path_cache_ok t (cache[i := Some cs])"
  unfolding path_cache_ok_def
proof (intro conjI allI impI)
  show "length (cache[i := Some cs]) = length (bt_routing_node_ids t)" using assms(1) by (simp add: path_cache_ok_def)
  fix k cs'
  assume "k < length (cache[i := Some cs])" "cache[i := Some cs] ! k = Some cs'"
  then show "slot_ok t k cs'" using assms by (cases "k = i") (simp_all add: path_cache_ok_def)
qed

lemma cached_paths:
  assumes cache: "path_cache_ok t cache" and i: "i < length (bt_routing_node_ids t)"
    and marks: "indexed_shortest_path_predecessors t i = Some (Some marks)"
  shows "\<exists>cs cache'. cached_paths_from t i cache = Some (Some cs, cache') \<and> path_cache_ok t cache' \<and> slot_ok t i cs \<and> cs_predecessors cs = marks"
proof (cases "cache ! i")
  case None
  let ?cs = "\<lparr>cs_predecessors = marks, cs_by_destination = replicate (length (bt_routing_node_ids t)) None\<rparr>"
  have "slot_ok t i ?cs" using marks by (simp add: slot_ok_def)
  with path_cache_update [OF cache this] None i cache marks show ?thesis
    by (auto simp: cached_paths_from_def compute_paths_from_def path_cache_ok_def)
next
  case (Some cs)
  then have ok: "slot_ok t i cs" using cache i by (simp add: path_cache_ok_def)
  then have "cs_predecessors cs = marks" using marks by (simp add: slot_ok_def)
  with Some ok cache i show ?thesis by (auto simp: cached_paths_from_def path_cache_ok_def)
qed

lemma paths_cached:
  assumes cache: "path_cache_ok t cache"
    and i: "am_get (bt_routing_node_indexes t) source = Some i" "i < length (bt_routing_node_ids t)"
    and j: "am_get (bt_routing_node_indexes t) destination = Some j" "j < length (bt_routing_node_ids t)"
    and marks: "indexed_shortest_path_predecessors t i = Some (Some marks)" and pair: "compute_pair_paths t i j marks = Some pair"
  shows "\<exists>cache'. paths t source destination cache =
      Some (Option.bind pair (\<lambda>pair. materialize pair (bt_routing_node_ids t)), cache') \<and> path_cache_ok t cache'"
proof -
  from cached_paths [OF cache i(2) marks] obtain cs cache' where cs: "cached_paths_from t i cache = Some (Some cs, cache')"
    "path_cache_ok t cache'" "slot_ok t i cs" "cs_predecessors cs = marks" by blast
  let ?cs = "cs\<lparr>cs_by_destination := (cs_by_destination cs)[j := Some pair]\<rparr>"
  have len: "length (cs_by_destination cs) = length (bt_routing_node_ids t)" using cs(3) by (simp add: slot_ok_def)
  have found: "(case cs_by_destination cs ! j of Some pair \<Rightarrow> Some pair | None \<Rightarrow> compute_pair_paths t i j (cs_predecessors cs)) = Some pair"
  proof (cases "cs_by_destination cs ! j")
    case (Some pair')
    then have "compute_pair_paths t i j marks = Some pair'" using cs(3,4) j(2) by (simp add: slot_ok_def)
    with Some pair show ?thesis by simp
  qed (simp add: cs(4) pair)
  have "compute_pair_paths t i k marks = Some pair'"
    if "k < length (bt_routing_node_ids t)" "(cs_by_destination cs)[j := Some pair] ! k = Some pair'" for k pair'
    using that cs(3,4) pair len by (cases "k = j") (simp_all add: slot_ok_def)
  then have "slot_ok t i ?cs" using cs(3,4) by (simp add: slot_ok_def)
  from path_cache_update [OF cs(2) this] show ?thesis
    using i(1) j cs(1) len found by (simp add: paths_def)
qed

lemma synthesized_routable:
  assumes "synthesize sha256 nodes config = Some (Inr t)" and "length nodes < 2 ^ 32"
  shows "routable t"
proof -
  note m = synthesized_members [OF assms(1)]
  have "simple_graph (bt_adjacency t)" using m(1,6) by (simp add: simple_graph_def over_members_def)
  moreover have "indexed_ok t" by (rule over_members_ok [OF m(1)]) (use assms(2) m(3) in simp)
  ultimately show ?thesis using m by (simp add: routable_def)
qed

text \<open>
  C14. On a synthesized topology every two members get paths, whatever the cache holds, as long as it holds computed
  paths; the answer is the one of an empty cache, and the cache again holds computed paths. The first path is a walk
  between the two without repetition. With three members or more there is a second one, not shorter, that shares no
  node with the first but the ends. A node that is no member gets no paths.
\<close>

theorem paths_resilient:
  assumes "synthesize sha256 nodes config = Some (Inr t)" and "length nodes < 2 ^ 32" and "path_cache_ok t cache"
  shows "\<exists>r cache'. paths t source destination cache = Some (r, cache') \<and> path_cache_ok t cache' \<and>
    map_option fst (paths t source destination (source_path_cache_new (length (bt_routing_node_ids t)))) = Some r \<and>
    (case r of
       None \<Rightarrow> source \<notin> nr_node_id ` set nodes \<or> destination \<notin> nr_node_id ` set nodes
     | Some ps \<Rightarrow> source \<in> nr_node_id ` set nodes \<and> destination \<in> nr_node_id ` set nodes \<and> good_paths t source destination ps)"
proof -
  let ?ids = "bt_routing_node_ids t" and ?ix = "am_get (bt_routing_node_indexes t)"
  note m = synthesized_members [OF assms(1)]
  have ix: "?ix x = Some k \<longleftrightarrow> k < length ?ids \<and> ?ids ! k = x" for x k
    using m(1) node_indexes_get [of ?ids x k] by (simp add: over_members_def)
  have member: "x \<in> nr_node_id ` set nodes \<longleftrightarrow> ?ix x \<noteq> None" for x
    unfolding m(2) [symmetric] in_set_conv_nth using ix by blast
  show ?thesis
  proof (cases "?ix source \<noteq> None \<and> ?ix destination \<noteq> None")
    case False
    then have "paths t source destination c = Some (None, c)" for c by (auto simp: paths_def split: option.split)
    with False assms(3) member show ?thesis by auto
  next
    case True
    then obtain i j where ij: "?ix source = Some i" "?ix destination = Some j" by blast
    note i = ij(1) [unfolded ix] and j = ij(2) [unfolded ix]
    from pair_paths_good [OF synthesized_routable [OF assms(1,2)] conjunct1 [OF i] conjunct1 [OF j]] obtain marks pair ps
      where p: "indexed_shortest_path_predecessors t i = Some (Some marks)" "compute_pair_paths t i j marks = Some (Some pair)"
        "materialize pair ?ids = Some ps" "good_paths t source destination ps" using i j by auto
    note found = paths_cached [OF _ ij(1) conjunct1 [OF i] ij(2) conjunct1 [OF j] p(1,2)]
    from found [OF assms(3)] p(3) obtain cache' where c: "paths t source destination cache = Some (Some ps, cache')" "path_cache_ok t cache'"
      by auto
    from found [OF path_cache_new] p(3) have "map_option fst (paths t source destination (source_path_cache_new (length ?ids))) = Some (Some ps)"
      by auto
    with c p(4) True member show ?thesis by auto
  qed
qed

theorem paths_resilient_witness:
  "\<exists>t ps cache. synthesize (\<lambda>_. []) topology_members bounded_topology_config_default = Some (Inr t) \<and>
     paths t [1] [3] (source_path_cache_new (length (bt_routing_node_ids t))) = Some (Some ps, cache) \<and>
     good_paths t [1] [3] ps \<and> path_cache_ok t cache"
proof -
  obtain t where t: "synthesize (\<lambda>_. []) topology_members bounded_topology_config_default = Some (Inr t)"
    by (rule topology_members_topology)
  have m: "[1] \<in> nr_node_id ` set topology_members" "[3] \<in> nr_node_id ` set topology_members"
    by (simp_all add: topology_members_def sample_node_def)
  have size: "length topology_members < 2 ^ 32" by (simp add: topology_members_def)
  from paths_resilient [OF t size path_cache_new, of "[1]" "[3]"] obtain r cache where
    r: "paths t [1] [3] (source_path_cache_new (length (bt_routing_node_ids t))) = Some (r, cache)" "path_cache_ok t cache"
    "case r of None \<Rightarrow> [1] \<notin> nr_node_id ` set topology_members \<or> [3] \<notin> nr_node_id ` set topology_members
     | Some ps \<Rightarrow> [1] \<in> nr_node_id ` set topology_members \<and> [3] \<in> nr_node_id ` set topology_members \<and> good_paths t [1] [3] ps" by blast
  from r(3) m obtain ps where "r = Some ps" "good_paths t [1] [3] ps" by (cases r) simp_all
  with t r(1,2) show ?thesis by blast
qed

end
