(* ===== verification/Spec2Isabelle.thy ===== *)
theory Spec2Isabelle
  imports Multihop Forwarder Fragments NatClass Tokens Sudo RelayService TopologyCache
begin

text \<open>
  A verification development for IPA-RS-HeteroNetwork, a self-hosted overlay network in Rust.

  \<^bold>\<open>The program.\<close> A control plane (\<open>crates/ipars-control-plane\<close>) admits nodes with join tokens, keeps
  their records and hands every node a neighbour map and paths of a relay backbone of bounded degree.
  Agents (\<open>crates/ipars-agent\<close>) classify the address translation in front of them, forward WireGuard
  datagrams along these paths hop by hop and split frames that do not fit into a datagram. Relays
  (\<open>crates/ipars-relay\<close>) carry datagrams between two nodes that cannot reach each other. A group of
  signers (\<open>crates/ipars-quorum\<close>) approves mutations of the control plane, changes of the group and
  sudo grants by a majority. The documents that these parts exchange and their validation are in
  \<open>crates/ipars-types\<close>.

  \<^bold>\<open>How the code is modelled.\<close> A struct is a record, an enum a datatype, a function of the source a
  definition with its name, or with a prefix where two functions share one. Fixed-width integers are
  words, \<open>usize\<close> is \<open>nat\<close>, a \<open>String\<close> is its list of UTF-8 bytes, times and durations are whole
  nanoseconds. \<open>Result\<close> is a sum with the error on the left; a method on \<open>&mut self\<close> takes the state
  and returns a result with the new state, also when it fails. Hash maps and ordered maps are association
  lists with one contract. Cryptography (SHA-256, Ed25519, FROST), base64, URL parsing and CIDR
  arithmetic are not part of the repository: they are parameters, and the laws a property needs of them
  are its premises. Randomness and the clock are arguments. Messages of errors are reduced to their kind.

  \<^bold>\<open>Shared theories.\<close>
  \<^item> \<open>Prelude\<close>: results, saturating and checked arithmetic, list facts. \<open>Wire\<close>: integers in network
    order, UTF-8, length-prefixed fields, with the contracts \<open>prefix_codec\<close> and \<open>fixed_codec\<close> of encoders
    that can be undone. \<open>Containers\<close>: the maps and their contract \<open>map_contract\<close>.
  \<^item> \<open>Systems\<close>: runs of operations on a state and the contracts \<open>invariant_system\<close>, \<open>single_use\<close>, which
    no run accepts something twice, and \<open>fixed_window\<close>, the rate limiter with a window.
  \<^item> \<open>Loops\<close> and \<open>Search\<close>: loops with early exits, where a loop that never ends has the value \<open>None\<close>, and
    breadth-first search as the contract \<open>bfs\<close>: depths, distances, predecessors and the end of the search.
    It is interpreted on the four searches of the topology that need distances or predecessors.

  \<^bold>\<open>Components.\<close>
  \<^item> \<open>Multihop\<close> (\<open>ipars-relay/src/multihop.rs\<close>): the envelope that carries a datagram along its path, its
    checks, encoder and decoder, and the consumption of the path. Decoding and encoding are inverse, an
    accepted envelope has no loop, the path is consumed in order and the payload leaves at its end only.
  \<^item> \<open>SeqWindow\<close> and \<open>Replay\<close> (\<open>ReplaySequenceWindow\<close> and \<open>ReplayWindow\<close> of
    \<open>ipars-agent/src/overlay_forwarder.rs\<close>): the sliding bitmap and the bounded table over it. The bitmap
    implements the set of accepted numbers, and no run accepts a number of a path twice.
  \<^item> \<open>Net\<close> and \<open>Overlay\<close> (\<open>ipars-types/src/lib.rs\<close>): addresses, URLs, node records, neighbour maps and
    paths with their validation, and what an accepted document guarantees.
  \<^item> \<open>Forwarder\<close> (\<open>BoundedOverlayForwarder\<close> of the same file as the replay table): encapsulation, hop by
    hop forwarding and delivery. A chain of forwarders delivers what the source sent, to the destination
    it chose and under its name, and does deliver it when every forwarder has the neighbours of the path.
  \<^item> \<open>Fragments\<close> (\<open>ipars-agent/src/overlay_transit.rs\<close>): the directory of neighbour endpoints and the
    fragmentation and reassembly of frames. Frames are reassembled exactly for any order, repetition and
    interleaving of fragments, and memory stays bounded for any datagrams.
  \<^item> \<open>NatClass\<close> (\<open>ipars-types/src/lib.rs\<close>): mapping and filtering behaviour and traversal strategy.
  \<^item> \<open>Tokens\<close> (\<open>ipars-types/src/lib.rs\<close>): join token claims and the token ledger.
  \<^item> \<open>Quorum\<close> and \<open>Sudo\<close> (\<open>ipars-quorum/src/lib.rs\<close>, \<open>rotation.rs\<close>, \<open>sudo.rs\<close>): manifests, capabilities,
    rotations, sudo grants and the signer engine they share. Two completed groups share a signer, a nonce
    is used once, a session signs its own document only, and what is verified was approved.
  \<^item> \<open>RelayFrame\<close>, \<open>RelayTable\<close> and \<open>RelayService\<close> (\<open>ipars-relay/src/lib.rs\<close>): the four frame versions,
    the sessions with their return routes and rate limits, and admission. The relay sends only within a
    live session, its index of routes is exact, rates and session numbers keep their limits.
  \<^item> \<open>TopologyGraph\<close>, \<open>TopologySynthesis\<close> and \<open>TopologyPaths\<close> (\<open>ipars-control-plane/src/bounded_topology.rs\<close>):
    the graph of the backbone and its inspection, its synthesis from the members, and shortest and
    disjoint paths. Synthesis always returns; what it returns spans the members within the degree bound
    and stays connected when any one member fails. Path searches return a shortest path when there is one.
  \<^item> \<open>TopologyRouting\<close> (same file): the primary and the alternate first hop for every destination. On a
    synthesized topology both lead to the destination, the alternate one without the primary, and from
    three members on every destination has both.
  \<^item> \<open>TopologyFlow\<close>, \<open>TopologyNetwork\<close> and \<open>TopologyCache\<close> (same file): unit flow in a residual graph, the
    network it is used on, and the pairs of paths with their cache. The flow is conserved, and two paths
    with no inner node in common are found exactly when there are two; on a synthesized topology of three
    members or more every two members get such a pair, whatever the cache holds.

  \<^bold>\<open>Bounds and termination.\<close> Limits of the code are kept as they are. Recursion is structural or ends by
  a measure, except for the loops of the topology, whose end depends on the data: there \<open>None\<close> stands for
  not returning, and the theorems show that it does not occur. No fuel is used.

  \<^bold>\<open>Not modelled.\<close> Sockets, timers, tasks and locks, and with them the transit loops of the agent and
  \<open>UdpRelay\<close> beyond the handling of one packet; the asynchronous stores and the services over them, whose
  state lives in PostgreSQL or etcd; the HTTP interfaces, the command line, the daemon, the Kubernetes
  controller and the clients in other languages. Of the topology only accessors and counters of the tests
  are left out; its locks appear as the points where other threads may change a cache.
\<close>

end
